(* ===== verification/Prelude.thy ===== *)
theory Prelude
  imports Main "HOL-Library.Word" "HOL-Library.Char_ord" "HOL-Library.List_Lexorder"
begin

text \<open>
  What every component shares: the part of the C++ standard library the sources call on
  \<open>std::string\<close> and \<open>std::vector\<close>, and the lemmas about it.
  A \<open>std::string\<close> or \<open>std::string_view\<close> is a \<^typ>\<open>string\<close> (a list of 8-bit characters, ordered
  as \<open>unsigned char\<close>, which is how \<open>std::string\<close> compares). A position that may be \<open>npos\<close> is a
  \<^typ>\<open>nat option\<close>; \<open>std::sort\<close> on a total order is \<^term>\<open>sort\<close>, \<open>std::unique\<close> is
  \<^term>\<open>remdups_adj\<close> or, with a predicate, \<open>unique_adj\<close>.
\<close>

unbundle bit_operations_syntax

section \<open>Hint collections\<close>

named_theorems find_simps \<open>searches in a text with a known shape\<close>
named_theorems byte_simps \<open>byte values of characters\<close>

section \<open>Searching\<close>

text \<open>\<open>find_pos p s\<close> is the first position whose character satisfies \<open>p\<close>: it stands for
  \<open>find(char)\<close>, \<open>find_first_of\<close> and \<open>find_first_not_of\<close>; \<open>rfind_pos\<close> for \<open>rfind(char)\<close>,
  \<open>find_last_of\<close> and \<open>find_last_not_of\<close>.\<close>

fun find_pos :: "('a \<Rightarrow> bool) \<Rightarrow> 'a list \<Rightarrow> nat option" where
  "find_pos p [] = None"
| "find_pos p (x # xs) = (if p x then Some 0 else map_option Suc (find_pos p xs))"

definition rfind_pos :: "('a \<Rightarrow> bool) \<Rightarrow> 'a list \<Rightarrow> nat option" where
  "rfind_pos p xs = map_option (\<lambda>i. length xs - 1 - i) (find_pos p (rev xs))"

abbreviation find_char :: "char \<Rightarrow> string \<Rightarrow> nat option" where
  "find_char c \<equiv> find_pos (\<lambda>x. x = c)"

abbreviation rfind_char :: "char \<Rightarrow> string \<Rightarrow> nat option" where
  "rfind_char c \<equiv> rfind_pos (\<lambda>x. x = c)"

text \<open>\<open>find_char_from c s p\<close> is \<open>s.find(c, p)\<close>: an absolute position at or after \<open>p\<close>.\<close>

definition find_char_from :: "char \<Rightarrow> string \<Rightarrow> nat \<Rightarrow> nat option" where
  "find_char_from c s p = map_option (\<lambda>i. p + i) (find_char c (drop p s))"

definition starts_with :: "'a list \<Rightarrow> 'a list \<Rightarrow> bool" where
  "starts_with s p \<longleftrightarrow> take (length p) s = p"

definition ends_with :: "'a list \<Rightarrow> 'a list \<Rightarrow> bool" where
  "ends_with s p \<longleftrightarrow> length p \<le> length s \<and> drop (length s - length p) s = p"

fun find_sub :: "'a list \<Rightarrow> 'a list \<Rightarrow> nat option" where
  "find_sub pat [] = (if pat = [] then Some 0 else None)"
| "find_sub pat (x # xs) =
     (if starts_with (x # xs) pat then Some 0 else map_option Suc (find_sub pat xs))"

definition find_sub_from :: "'a list \<Rightarrow> 'a list \<Rightarrow> nat \<Rightarrow> nat option" where
  "find_sub_from pat s p = map_option (\<lambda>i. p + i) (find_sub pat (drop p s))"

definition substr :: "'a list \<Rightarrow> nat \<Rightarrow> nat \<Rightarrow> 'a list" where
  "substr s p n = take n (drop p s)"

lemma find_pos_None: "find_pos p xs = None \<longleftrightarrow> (\<forall>x \<in> set xs. \<not> p x)"
  by (induction xs) auto

lemma find_pos_SomeD:
  "find_pos p xs = Some i \<Longrightarrow> i < length xs \<and> p (xs ! i) \<and> (\<forall>x \<in> set (take i xs). \<not> p x)"
  by (induction xs arbitrary: i) (auto split: if_splits)

lemma find_pos_SomeI:
  "i < length xs \<Longrightarrow> p (xs ! i) \<Longrightarrow> \<forall>x \<in> set (take i xs). \<not> p x \<Longrightarrow> find_pos p xs = Some i"
proof (induction xs arbitrary: i)
  case Nil
  then show ?case by simp
next
  case (Cons x xs)
  then show ?case by (cases i) auto
qed

lemma find_pos_less: "find_pos p xs = Some i \<Longrightarrow> i < length xs"
  by (auto dest: find_pos_SomeD)

lemma find_pos_append [find_simps]:
  "\<forall>y \<in> set ys. \<not> p y \<Longrightarrow> find_pos p (ys @ zs) = map_option (\<lambda>i. length ys + i) (find_pos p zs)"
  by (cases "find_pos p zs") (induction ys; simp)+

lemma find_pos_append_found:
  "find_pos p ys = Some i \<Longrightarrow> find_pos p (ys @ zs) = Some i"
  by (induction ys arbitrary: i) (auto split: if_splits)

lemma find_pos_split:
  assumes "find_pos p xs = Some i"
  shows "xs = take i xs @ (xs ! i) # drop (Suc i) xs"
  using find_pos_SomeD [OF assms] by (simp add: id_take_nth_drop)

lemma rfind_pos_None: "rfind_pos p xs = None \<longleftrightarrow> (\<forall>x \<in> set xs. \<not> p x)"
  by (simp add: rfind_pos_def find_pos_None)

lemma rfind_pos_append [find_simps]:
  assumes "\<forall>z \<in> set zs. \<not> p z" and "p y"
  shows "rfind_pos p (ys @ y # zs) = Some (length ys)"
proof -
  have "find_pos p (rev zs @ y # rev ys) = Some (length zs)"
    using assms by (simp add: find_pos_append)
  then show ?thesis by (simp add: rfind_pos_def)
qed

lemma rfind_pos_SomeD:
  assumes "rfind_pos p xs = Some i"
  shows "i < length xs \<and> p (xs ! i) \<and> (\<forall>x \<in> set (drop (Suc i) xs). \<not> p x)"
proof -
  from assms obtain j where j: "find_pos p (rev xs) = Some j" and i: "i = length xs - 1 - j"
    by (auto simp: rfind_pos_def)
  from find_pos_SomeD [OF j] have jl: "j < length xs" and pj: "p (rev xs ! j)"
    and rest: "\<forall>x \<in> set (take j (rev xs)). \<not> p x" by auto
  have "rev xs ! j = xs ! i" using jl i by (simp add: rev_nth)
  moreover have "take j (rev xs) = rev (drop (Suc i) xs)"
    using jl i by (simp add: take_rev Suc_diff_Suc)
  ultimately show ?thesis using pj rest i jl by auto
qed

lemma starts_with_Nil [simp]: "starts_with s []"
  by (simp add: starts_with_def)

lemma starts_with_append [simp]: "starts_with (p @ s) p"
  by (simp add: starts_with_def)

lemma starts_with_Cons [simp]:
  "starts_with (x # xs) (y # ys) \<longleftrightarrow> x = y \<and> starts_with xs ys"
  by (auto simp: starts_with_def)

lemma starts_with_Nil_left [simp]: "starts_with [] p \<longleftrightarrow> p = []"
  by (auto simp: starts_with_def)

lemma starts_withD: "starts_with s p \<Longrightarrow> s = p @ drop (length p) s"
  by (metis append_take_drop_id starts_with_def)

lemma starts_with_length: "starts_with s p \<Longrightarrow> length p \<le> length s"
  by (metis starts_with_def length_take min.cobounded1 min_def)

lemma find_sub_SomeD:
  "find_sub pat s = Some i \<Longrightarrow> i + length pat \<le> length s \<and> substr s i (length pat) = pat"
proof (induction s arbitrary: i)
  case Nil
  then show ?case by (auto simp: substr_def split: if_splits)
next
  case (Cons x xs)
  show ?case
  proof (cases "starts_with (x # xs) pat")
    case True
    with Cons.prems show ?thesis
      using starts_with_length [OF True] by (auto simp: substr_def starts_with_def)
  next
    case False
    with Cons.prems obtain j where "find_sub pat xs = Some j" and "i = Suc j" by auto
    with Cons.IH show ?thesis by (auto simp: substr_def)
  qed
qed

lemma find_sub_append_found: "find_sub pat (pat @ s) = Some 0"
  using starts_with_append [of pat s] by (cases "pat @ s") auto

lemma substr_0 [simp]: "substr s 0 n = take n s"
  by (simp add: substr_def)

lemma length_substr [simp]: "length (substr s p n) = min n (length s - p)"
  by (simp add: substr_def)

section \<open>Splitting and joining\<close>

text \<open>Reference functions: the fields of a text between separators, and their inverse.\<close>

fun split_on :: "char \<Rightarrow> string \<Rightarrow> string list" where
  "split_on c [] = [[]]"
| "split_on c (x # xs) =
     (if x = c then [] # split_on c xs
      else (case split_on c xs of [] \<Rightarrow> [[x]] | f # fs \<Rightarrow> (x # f) # fs))"

fun join_with :: "char \<Rightarrow> string list \<Rightarrow> string" where
  "join_with c [] = []"
| "join_with c [f] = f"
| "join_with c (f # g # fs) = f @ c # join_with c (g # fs)"

lemma split_on_not_Nil [simp]: "split_on c s \<noteq> []"
  by (induction s) (auto split: list.splits)

lemma join_with_Cons: "fs \<noteq> [] \<Longrightarrow> join_with c (f # fs) = f @ c # join_with c fs"
  by (cases fs) auto

lemma join_split [simp]: "join_with c (split_on c s) = s"
proof (induction s)
  case Nil
  then show ?case by simp
next
  case (Cons x xs)
  obtain f fs where f: "split_on c xs = f # fs" by (cases "split_on c xs") auto
  with Cons.IH show ?case by (cases fs) (auto simp: join_with_Cons)
qed

lemma split_on_no_sep: "f \<in> set (split_on c s) \<Longrightarrow> c \<notin> set f"
proof (induction s arbitrary: f)
  case Nil
  then show ?case by simp
next
  case (Cons x xs)
  obtain g gs where g: "split_on c xs = g # gs" by (cases "split_on c xs") auto
  with Cons show ?case by (auto split: if_splits)
qed

lemma split_on_append_sep:
  "c \<notin> set f \<Longrightarrow> split_on c (f @ c # s) = f # split_on c s"
  by (induction f) auto

lemma split_on_simple: "c \<notin> set f \<Longrightarrow> split_on c f = [f]"
  by (induction f) auto

lemma split_on_find:
  "split_on c s = (case find_char c s of None \<Rightarrow> [s]
     | Some i \<Rightarrow> take i s # split_on c (drop (Suc i) s))"
proof (cases "find_char c s")
  case None
  then have "c \<notin> set s" by (auto simp: find_pos_None)
  with None show ?thesis by (simp add: split_on_simple)
next
  case (Some i)
  from find_pos_split [OF Some] find_pos_SomeD [OF Some]
  have s: "s = take i s @ c # drop (Suc i) s" and "c \<notin> set (take i s)" by auto
  then have "split_on c s = take i s # split_on c (drop (Suc i) s)"
    by (metis split_on_append_sep)
  with Some show ?thesis by simp
qed

lemma split_on_snoc_sep: "c \<notin> set f \<Longrightarrow> split_on c (s @ c # f) = split_on c s @ [f]"
proof (induction s)
  case Nil
  then show ?case by (simp add: split_on_simple)
next
  case (Cons x s)
  then show ?case by (simp split: list.split)
qed

lemma split_on_join: "fs \<noteq> [] \<Longrightarrow> list_all (\<lambda>f. c \<notin> set f) fs \<Longrightarrow> split_on c (join_with c fs) = fs"
proof (induction fs)
  case Nil
  then show ?case by simp
next
  case (Cons f fs)
  then show ?case by (cases "fs = []") (simp_all add: split_on_simple join_with_Cons split_on_append_sep)
qed

section \<open>Unique runs\<close>

fun unique_adj :: "('a \<Rightarrow> 'a \<Rightarrow> bool) \<Rightarrow> 'a list \<Rightarrow> 'a list" where
  "unique_adj e [] = []"
| "unique_adj e [x] = [x]"
| "unique_adj e (x # y # ys) =
     (if e x y then unique_adj e (x # ys) else x # unique_adj e (y # ys))"

lemma set_unique_adj_subset: "set (unique_adj e xs) \<subseteq> set xs"
  by (induction e xs rule: unique_adj.induct) auto

lemma distinct_remdups_adj_sorted:
  "sorted (xs :: 'a :: linorder list) \<Longrightarrow> distinct (remdups_adj xs)"
proof (induction xs rule: remdups_adj.induct)
  case (3 x y xs)
  then show ?case by (auto simp: less_le_not_le)
qed simp_all

lemma sort_remdups_adj_eq:
  "remdups_adj (sort xs) = sorted_list_of_set (set (xs :: 'a :: linorder list))"
proof (rule sorted_distinct_set_unique)
  show "sorted (remdups_adj (sort xs))" by (simp add: sorted_remdups_adj)
  show "distinct (remdups_adj (sort xs))" by (simp add: distinct_remdups_adj_sorted)
qed simp_all

section \<open>Bytes and digits\<close>

type_synonym u8 = "8 word"
type_synonym u32 = "32 word"
type_synonym u64 = "64 word"

definition u8_of_char :: "char \<Rightarrow> 8 word" where
  "u8_of_char c = word_of_nat (of_char c)"

definition char_of_u8 :: "8 word \<Rightarrow> char" where
  "char_of_u8 w = char_of (unat w)"

lemma unat_u8_of_char [simp, byte_simps]: "unat (u8_of_char c) = of_char c"
proof -
  have "of_char c < (2::nat) ^ LENGTH(8)" using nat_of_char_less_256 [of c] by simp
  then show ?thesis by (simp add: u8_of_char_def unat_of_nat)
qed

lemma char_of_u8_of_char [simp]: "char_of_u8 (u8_of_char c) = c"
  by (simp add: char_of_u8_def)

lemma u8_of_char_of_u8 [simp]: "u8_of_char (char_of_u8 w) = w"
proof -
  have "unat w < 256" using unsigned_less [of w, where ?'a = nat] by simp
  then have "unat (u8_of_char (char_of_u8 w)) = unat w"
    by (simp add: char_of_u8_def)
  then show ?thesis by (rule unsigned_word_eqI)
qed

lemma or_push_int:
  assumes "0 \<le> y" and "y < 2 ^ k"
  shows "push_bit k x OR y = x * 2 ^ k + (y::int)"
proof -
  from assms have y: "take_bit k y = y" by (simp add: take_bit_int_eq_self)
  have "push_bit k x AND take_bit k y = 0"
    by (rule bit_eqI) (auto simp: bit_simps)
  then have "push_bit k x AND y = 0" by (simp add: y)
  then show ?thesis
    by (simp flip: disjunctive_add_eq_or add: push_bit_eq_mult)
qed

lemma or_push_nat:
  assumes "y < 2 ^ k"
  shows "push_bit k x OR y = x * 2 ^ k + (y::nat)"
proof -
  from assms have y: "take_bit k y = y" by (simp add: take_bit_nat_eq_self)
  have "push_bit k x AND take_bit k y = 0"
    by (rule bit_eqI) (auto simp: bit_simps)
  then have "push_bit k x AND y = 0" by (simp add: y)
  then show ?thesis
    by (simp flip: disjunctive_add_eq_or add: push_bit_eq_mult)
qed

lemma and_0x0F [byte_simps]: "(n::nat) AND 15 = n mod 16"
  using take_bit_eq_mask [of 4 n] by (simp add: mask_eq_exp_minus_1 take_bit_eq_mod)

lemma and_0x3F [byte_simps]: "(n::nat) AND 63 = n mod 64"
  using take_bit_eq_mask [of 6 n] by (simp add: mask_eq_exp_minus_1 take_bit_eq_mod)

text \<open>\<open>std::to_string\<close> of an unsigned value.\<close>

definition digit_char :: "nat \<Rightarrow> char" where
  "digit_char n = char_of (48 + n)"

fun string_of_nat :: "nat \<Rightarrow> string" where
  "string_of_nat n =
     (if n < 10 then [digit_char n] else string_of_nat (n div 10) @ [digit_char (n mod 10)])"

declare string_of_nat.simps [simp del]

end
