(* ===== verification/Text.thy ===== *)
theory Text
  imports Prelude
begin

text \<open>
  \<open>src/core/text.cpp\<close>: the ASCII text helpers every other component calls. Characters outside
  the ASCII letter ranges pass through the case maps unchanged, so the maps never depend on
  a locale; the lemmas give idempotence, the character classes and the trimming contract.
\<close>

section \<open>Case mapping\<close>

definition to_lower_ascii_char :: "char \<Rightarrow> char" where
  "to_lower_ascii_char character =
     (if CHR ''A'' \<le> character \<and> character \<le> CHR ''Z''
      then char_of (of_char character - of_char CHR ''A'' + of_char CHR ''a'' :: nat)
      else character)"

definition to_lower_ascii :: "string \<Rightarrow> string" where
  "to_lower_ascii text = map to_lower_ascii_char text"

definition to_upper_ascii_char :: "char \<Rightarrow> char" where
  "to_upper_ascii_char character =
     (if CHR ''a'' \<le> character \<and> character \<le> CHR ''z''
      then char_of (of_char character - of_char CHR ''a'' + of_char CHR ''A'' :: nat)
      else character)"

definition to_upper_ascii :: "string \<Rightarrow> string" where
  "to_upper_ascii text = map to_upper_ascii_char text"

fun equal_chars_ignore_case :: "string \<Rightarrow> string \<Rightarrow> bool" where
  "equal_chars_ignore_case (l # ls) (r # rs) =
     (if to_lower_ascii_char l \<noteq> to_lower_ascii_char r then False
      else equal_chars_ignore_case ls rs)"
| "equal_chars_ignore_case _ _ = True"

definition equals_ascii_ignore_case :: "string \<Rightarrow> string \<Rightarrow> bool" where
  "equals_ascii_ignore_case left right =
     (if length left \<noteq> length right then False else equal_chars_ignore_case left right)"

section \<open>Trimming\<close>

definition kAsciiWhitespace :: string where
  "kAsciiWhitespace = [CHR '' '', CHR 0x09, CHR 0x0D, CHR 0x0A]"

abbreviation is_space :: "char \<Rightarrow> bool" where
  "is_space c \<equiv> c \<in> set kAsciiWhitespace"

definition trimmed_view :: "string \<Rightarrow> string" where
  "trimmed_view text =
     (case find_pos (\<lambda>c. \<not> is_space c) text of
        None \<Rightarrow> []
      | Some first \<Rightarrow>
          (case rfind_pos (\<lambda>c. \<not> is_space c) text of
             None \<Rightarrow> []
           | Some final \<Rightarrow> substr text first (final - first + 1)))"

definition trimmed :: "string \<Rightarrow> string" where
  "trimmed text = trimmed_view text"

section \<open>Diagnostics\<close>

definition hex_digit_lower :: "nat \<Rightarrow> char" where
  "hex_digit_lower n = ''0123456789abcdef'' ! n"

definition escape_char :: "char \<Rightarrow> string" where
  "escape_char character =
     (if character = CHR 0x5C then [CHR 0x5C, CHR 0x5C]
      else if character = CHR 0x22 then [CHR 0x5C, CHR 0x22]
      else if character = CHR 0x0A then [CHR 0x5C, CHR ''n'']
      else if character = CHR 0x0D then [CHR 0x5C, CHR ''r'']
      else if character = CHR 0x09 then [CHR 0x5C, CHR ''t'']
      else if of_char character < (0x20::nat) \<or> of_char character = (0x7F::nat)
      then [CHR 0x5C, CHR ''u'', CHR ''0'', CHR ''0'',
            hex_digit_lower (of_char character div 16), hex_digit_lower (of_char character mod 16)]
      else [character])"

definition escaped_for_diagnostic :: "string \<Rightarrow> string" where
  "escaped_for_diagnostic text = concat (map escape_char text)"

section \<open>Counting and classifying\<close>

fun leading_space_count :: "string \<Rightarrow> nat" where
  "leading_space_count [] = 0"
| "leading_space_count (c # line) = (if c = CHR '' '' then Suc (leading_space_count line) else 0)"

definition is_hex_digit :: "char \<Rightarrow> bool" where
  "is_hex_digit c \<longleftrightarrow> CHR ''0'' \<le> c \<and> c \<le> CHR ''9'' \<or> CHR ''a'' \<le> c \<and> c \<le> CHR ''f''
     \<or> CHR ''A'' \<le> c \<and> c \<le> CHR ''F''"

definition is_hex_digits :: "string \<Rightarrow> bool" where
  "is_hex_digits text = (if text = [] then False else list_all is_hex_digit text)"

definition is_hex_object_id :: "string \<Rightarrow> bool" where
  "is_hex_object_id text =
     (if length text \<noteq> 40 \<and> length text \<noteq> 64 then False else is_hex_digits text)"

definition normalized_object_id :: "string \<Rightarrow> string" where
  "normalized_object_id text = (if \<not> is_hex_object_id text then text else to_lower_ascii text)"

section \<open>Lemmas\<close>

subsection \<open>Case mapping\<close>

lemma to_lower_ascii_char_eq:
  "to_lower_ascii_char c =
     (if 65 \<le> (of_char c :: nat) \<and> (of_char c :: nat) \<le> 90 then char_of (of_char c + 32 :: nat) else c)"
  by (auto simp: to_lower_ascii_char_def less_eq_char_def)

lemma to_upper_ascii_char_eq:
  "to_upper_ascii_char c =
     (if 97 \<le> (of_char c :: nat) \<and> (of_char c :: nat) \<le> 122 then char_of (of_char c - 32 :: nat) else c)"
  by (auto simp: to_upper_ascii_char_def less_eq_char_def)

lemma to_lower_ascii_char_idem [simp]:
  "to_lower_ascii_char (to_lower_ascii_char c) = to_lower_ascii_char c"
  by (simp add: to_lower_ascii_char_eq)

lemma to_lower_to_upper_char [simp]:
  "to_lower_ascii_char (to_upper_ascii_char c) = to_lower_ascii_char c"
  by (auto simp: to_lower_ascii_char_eq to_upper_ascii_char_eq)

lemma to_lower_ascii_Nil [simp]: "to_lower_ascii [] = []"
  by (simp add: to_lower_ascii_def)

lemma to_lower_ascii_eq_Nil [simp]: "to_lower_ascii s = [] \<longleftrightarrow> s = []"
  by (simp add: to_lower_ascii_def)

lemma to_lower_ascii_append [simp]: "to_lower_ascii (s @ t) = to_lower_ascii s @ to_lower_ascii t"
  by (simp add: to_lower_ascii_def)

lemma to_lower_ascii_Cons [simp]:
  "to_lower_ascii (c # t) = to_lower_ascii_char c # to_lower_ascii t"
  by (simp add: to_lower_ascii_def)

lemma length_to_lower_ascii [simp]: "length (to_lower_ascii s) = length s"
  by (simp add: to_lower_ascii_def)

lemma to_lower_ascii_idem [simp]: "to_lower_ascii (to_lower_ascii s) = to_lower_ascii s"
  by (simp add: to_lower_ascii_def)

lemma to_lower_to_upper_ascii [simp]: "to_lower_ascii (to_upper_ascii s) = to_lower_ascii s"
  by (simp add: to_lower_ascii_def to_upper_ascii_def)

text \<open>A character outside the letters is neither produced nor changed by lower-casing.\<close>

lemma to_lower_char_eq_nonletter:
  "\<not> (97 \<le> (of_char d :: nat) \<and> (of_char d :: nat) \<le> 122) \<Longrightarrow>
   \<not> (65 \<le> (of_char d :: nat) \<and> (of_char d :: nat) \<le> 90) \<Longrightarrow>
   to_lower_ascii_char c = d \<longleftrightarrow> c = d"
  by (auto simp: to_lower_ascii_char_eq split: if_splits)

lemma in_to_lower_nonletter:
  assumes "\<not> (97 \<le> (of_char d :: nat) \<and> (of_char d :: nat) \<le> 122)"
    and "\<not> (65 \<le> (of_char d :: nat) \<and> (of_char d :: nat) \<le> 90)"
  shows "d \<in> set (to_lower_ascii s) \<longleftrightarrow> d \<in> set s"
  using to_lower_char_eq_nonletter [OF assms]
  by (induction s) (auto simp: eq_commute [of d])

lemma equal_chars_ignore_case_iff:
  "length l = length r \<Longrightarrow>
   equal_chars_ignore_case l r \<longleftrightarrow> to_lower_ascii l = to_lower_ascii r"
  by (induction l r rule: equal_chars_ignore_case.induct) (auto simp: to_lower_ascii_def)

lemma equals_ascii_ignore_case_iff:
  "equals_ascii_ignore_case l r \<longleftrightarrow> to_lower_ascii l = to_lower_ascii r"
  by (metis equal_chars_ignore_case_iff equals_ascii_ignore_case_def length_to_lower_ascii)

subsection \<open>Trimming\<close>

lemma trimmed_view_blank:
  "\<forall>c \<in> set text. is_space c \<Longrightarrow> trimmed_view text = []"
  by (simp add: trimmed_view_def find_pos_None [THEN iffD2])

lemma trimmed_view_core:
  assumes a: "\<forall>c \<in> set a. is_space c" and b: "\<forall>c \<in> set b. is_space c"
    and m: "m \<noteq> []" "\<not> is_space (hd m)" "\<not> is_space (last m)"
  shows "trimmed_view (a @ m @ b) = m"
proof -
  from m obtain x m1 where x: "m = x # m1" by (cases m) auto
  from m obtain m2 y where y: "m = m2 @ [y]" by (cases m rule: rev_cases) auto
  have "find_pos (\<lambda>c. \<not> is_space c) (a @ m @ b) = Some (length a)"
    using a m x by (simp add: find_pos_append)
  moreover have "rfind_pos (\<lambda>c. \<not> is_space c) (a @ m @ b) = Some (length a + length m2)"
    using rfind_pos_append [of b "\<lambda>c. \<not> is_space c" y "a @ m2"] b m y by simp
  ultimately show ?thesis by (simp add: trimmed_view_def substr_def y)
qed

lemma trim_cases [case_names blank core]:
  assumes blank: "\<forall>c \<in> set text. is_space c \<Longrightarrow> P"
    and core: "\<And>a m b. text = a @ m @ b \<Longrightarrow> \<forall>c \<in> set a. is_space c \<Longrightarrow> \<forall>c \<in> set b. is_space c \<Longrightarrow>
      m \<noteq> [] \<Longrightarrow> \<not> is_space (hd m) \<Longrightarrow> \<not> is_space (last m) \<Longrightarrow> P"
  shows P
proof (cases "\<forall>c \<in> set text. is_space c")
  case True
  then show ?thesis by (rule blank)
next
  case False
  define r where "r = dropWhile is_space text"
  define m where "m = rev (dropWhile is_space (rev r))"
  define b where "b = rev (takeWhile is_space (rev r))"
  from False have r: "r \<noteq> []" by (simp add: r_def)
  then have hr: "\<not> is_space (hd r)" unfolding r_def by (rule hd_dropWhile)
  have rm: "r = m @ b"
    unfolding m_def b_def by (metis rev_append rev_rev_ident takeWhile_dropWhile_id)
  have m: "m \<noteq> []"
    using r hr by (auto simp: m_def)
  have "\<not> is_space (last m)"
    using m hd_dropWhile [of is_space "rev r"] by (simp add: m_def last_rev)
  moreover have "\<not> is_space (hd m)"
    using hr m rm by simp
  moreover have "text = takeWhile is_space text @ m @ b"
    using rm unfolding r_def by (metis takeWhile_dropWhile_id)
  moreover have "\<forall>c \<in> set b. is_space c"
    by (auto simp: b_def dest: set_takeWhileD)
  ultimately show ?thesis
    using core [of "takeWhile is_space text" m b] m by (auto dest: set_takeWhileD)
qed

lemma trimmed_view_Nil [simp]: "trimmed_view [] = []"
  by (simp add: trimmed_view_def)

lemma trimmed_view_no_outer_space:
  "trimmed_view text \<noteq> [] \<Longrightarrow> \<not> is_space (hd (trimmed_view text)) \<and> \<not> is_space (last (trimmed_view text))"
  by (cases "text" rule: trim_cases) (auto simp: trimmed_view_blank trimmed_view_core)

lemma trimmed_view_id:
  "m \<noteq> [] \<Longrightarrow> \<not> is_space (hd m) \<Longrightarrow> \<not> is_space (last m) \<Longrightarrow> trimmed_view m = m"
  using trimmed_view_core [of "[]" "[]" m] by simp

lemma trimmed_view_idem [simp]: "trimmed_view (trimmed_view text) = trimmed_view text"
  using trimmed_view_no_outer_space [of "text"] by (cases "trimmed_view text = []") (auto simp: trimmed_view_id)

lemma trimmed_view_eq_Nil: "trimmed_view text = [] \<longleftrightarrow> (\<forall>c \<in> set text. is_space c)"
  by (cases "text" rule: trim_cases) (auto simp: trimmed_view_blank trimmed_view_core hd_in_set)

lemma trimmed_view_substring: "\<exists>a b. text = a @ trimmed_view text @ b"
proof (cases "text" rule: trim_cases)
  case blank
  then show ?thesis by (auto simp: trimmed_view_blank)
next
  case (core a m b)
  then show ?thesis using trimmed_view_core [of a b m] by metis
qed

lemma set_trimmed_view: "set (trimmed_view text) \<subseteq> set text"
  using trimmed_view_substring [of "text"] by (metis Un_commute Un_subset_iff set_append sup_ge1)

lemma length_trimmed_view: "length (trimmed_view text) \<le> length text"
  using trimmed_view_substring [of "text"] by (metis le_add1 le_add2 le_trans length_append)

subsection \<open>Diagnostics\<close>

lemma escape_char_printable:
  "d \<in> set (escape_char c) \<Longrightarrow> (0x20::nat) \<le> of_char d \<and> of_char d \<noteq> (0x7F::nat)"
proof -
  have "\<forall>c. \<forall>d \<in> set (escape_char c). (0x20::nat) \<le> of_char d \<and> of_char d \<noteq> (0x7F::nat)"
    by code_simp
  then show "d \<in> set (escape_char c) \<Longrightarrow> (0x20::nat) \<le> of_char d \<and> of_char d \<noteq> (0x7F::nat)"
    by blast
qed

lemma escape_char_not_Nil: "escape_char c \<noteq> []"
  by (simp add: escape_char_def)

text \<open>Reading an escape sequence back: the first character of the text and what follows it.\<close>

definition hex_value_lower :: "char \<Rightarrow> nat" where
  "hex_value_lower c = (case find_char c ''0123456789abcdef'' of None \<Rightarrow> 16 | Some v \<Rightarrow> v)"

definition unescape_first :: "string \<Rightarrow> (char \<times> string) option" where
  "unescape_first s =
     (case s of
        [] \<Rightarrow> None
      | c # s1 \<Rightarrow>
          if c \<noteq> CHR 0x5C then Some (c, s1)
          else (case s1 of
                  d # s2 \<Rightarrow>
                    if d = CHR ''n'' then Some (CHR 0x0A, s2)
                    else if d = CHR ''r'' then Some (CHR 0x0D, s2)
                    else if d = CHR ''t'' then Some (CHR 0x09, s2)
                    else if d \<noteq> CHR ''u'' then Some (d, s2)
                    else (case s2 of
                            z # y # h # l # s3 \<Rightarrow>
                              Some (char_of (hex_value_lower h * 16 + hex_value_lower l), s3)
                          | _ \<Rightarrow> None)
                | [] \<Rightarrow> None))"

lemma hex_value_lower_digit [simp]: "n < 16 \<Longrightarrow> hex_value_lower (hex_digit_lower n) = n"
proof -
  have "\<forall>n \<in> set [0..<16]. hex_value_lower (hex_digit_lower n) = n" by code_simp
  then show "n < 16 \<Longrightarrow> hex_value_lower (hex_digit_lower n) = n" by simp
qed

lemma hex_value_lower_control:
  "char_of (hex_value_lower (hex_digit_lower (of_char c div 16)) * 16
     + hex_value_lower (hex_digit_lower (of_char c mod 16))) = c"
proof -
  have "of_char c div 16 < (16::nat)" using nat_of_char_less_256 [of c] by linarith
  then show ?thesis by simp
qed

lemma unescape_escape_char: "unescape_first (escape_char c @ s) = Some (c, s)"
proof (cases "c \<in> {CHR 0x5C, CHR 0x22, CHR 0x0A, CHR 0x0D, CHR 0x09}")
  case True
  then show ?thesis by (auto simp: escape_char_def unescape_first_def)
next
  case special: False
  show ?thesis
  proof (cases "of_char c < (0x20::nat) \<or> of_char c = (0x7F::nat)")
    case True
    with special have "escape_char c = [CHR 0x5C, CHR ''u'', CHR ''0'', CHR ''0'',
        hex_digit_lower (of_char c div 16), hex_digit_lower (of_char c mod 16)]"
      by (simp add: escape_char_def)
    then show ?thesis
      by (simp only: unescape_first_def hex_value_lower_control append_Cons append_Nil
          list.case option.case if_False simp_thms char.inject bool.simps)
  next
    case False
    with special have "escape_char c = [c]" and "c \<noteq> CHR 0x5C"
      by (simp_all add: escape_char_def)
    then show ?thesis by (simp add: unescape_first_def)
  qed
qed

lemma escape_char_prefix_free:
  "escape_char c @ s = escape_char d @ t \<Longrightarrow> c = d \<and> s = t"
  by (metis Pair_inject option.inject unescape_escape_char)

lemma escaped_for_diagnostic_inj:
  "escaped_for_diagnostic s = escaped_for_diagnostic t \<Longrightarrow> s = t"
proof (induction s arbitrary: t)
  case Nil
  then show ?case
    by (cases t) (auto simp: escaped_for_diagnostic_def escape_char_not_Nil)
next
  case (Cons c s)
  from Cons.prems obtain d t' where t: "t = d # t'"
    by (cases t) (auto simp: escaped_for_diagnostic_def escape_char_not_Nil)
  with Cons.prems have "c = d \<and> escaped_for_diagnostic s = escaped_for_diagnostic t'"
    by (auto simp: escaped_for_diagnostic_def dest: escape_char_prefix_free)
  with Cons.IH t show ?case by blast
qed

subsection \<open>Hexadecimal text\<close>

lemma is_hex_digit_lower [simp]: "is_hex_digit (to_lower_ascii_char c) = is_hex_digit c"
proof -
  have "\<forall>c. is_hex_digit (to_lower_ascii_char c) = is_hex_digit c" by code_simp
  then show ?thesis by blast
qed

lemma is_hex_digits_lower [simp]: "is_hex_digits (to_lower_ascii t) = is_hex_digits t"
  by (simp add: is_hex_digits_def to_lower_ascii_def list.pred_map comp_def)

lemma is_hex_object_id_lower [simp]: "is_hex_object_id (to_lower_ascii t) = is_hex_object_id t"
  by (simp add: is_hex_object_id_def)

lemma normalized_object_id_idem [simp]:
  "normalized_object_id (normalized_object_id t) = normalized_object_id t"
  by (simp add: normalized_object_id_def)

lemma normalized_object_id_eq_Nil [simp]: "normalized_object_id t = [] \<longleftrightarrow> t = []"
  by (simp add: normalized_object_id_def)

lemma leading_space_count_takeWhile:
  "leading_space_count line = length (takeWhile (\<lambda>c. c = CHR '' '') line)"
  by (induction line) auto

lemma leading_space_count_le: "leading_space_count line \<le> length line"
  by (simp add: leading_space_count_takeWhile length_takeWhile_le)

section \<open>Properties\<close>

text \<open>A diagnostic field cannot be forged: the escaped form of an untrusted text holds no
  control character and no DEL, so it can neither end a log line nor move a terminal, and it is
  injective, so two different identifiers are never shown as the same one.\<close>

theorem escaped_for_diagnostic_safe:
  "list_all (\<lambda>d. (0x20::nat) \<le> of_char d \<and> of_char d \<noteq> (0x7F::nat)) (escaped_for_diagnostic s) \<and>
   (escaped_for_diagnostic s = escaped_for_diagnostic t \<longleftrightarrow> s = t)"
  using escaped_for_diagnostic_inj [of s t]
  by (auto simp: escaped_for_diagnostic_def list_all_iff dest: escape_char_printable)

end
