(* ===== verification/Codec.thy ===== *)
theory Codec
  imports Prelude
begin

text \<open>
  The interface of an encoder and its decoder. A client of \<open>text_codec\<close> relies on decoding what
  was encoded; a client of \<open>canonical_codec\<close> also on the decoder accepting one spelling per value,
  which is what an index keyed on the spelling needs. The providers are the percent, Base64 and
  digest-hex routines, each interpreted in its own theory.
\<close>

locale text_codec =
  fixes valid :: "'a \<Rightarrow> bool" and enc :: "'a \<Rightarrow> string" and dec :: "string \<Rightarrow> 'a option"
  assumes dec_enc: "valid x \<Longrightarrow> dec (enc x) = Some x"
begin

lemma enc_inj: "valid x \<Longrightarrow> valid y \<Longrightarrow> enc x = enc y \<longleftrightarrow> x = y"
  by (metis dec_enc option.inject)

end

locale canonical_codec = text_codec +
  assumes enc_dec: "dec s = Some x \<Longrightarrow> valid x \<and> enc x = s"
begin

lemma dec_iff: "dec s = Some x \<longleftrightarrow> valid x \<and> s = enc x"
  using dec_enc enc_dec by metis

lemma dec_unique: "dec s = Some x \<Longrightarrow> dec t = Some x \<Longrightarrow> s = t"
  by (simp add: dec_iff)

end

end
