(* ===== verification/Percent.thy ===== *)
theory Percent
  imports Text Codec
begin

text \<open>
  \<open>src/core/percent.cpp\<close>: percent-encoding for purl components, its decoder, and the namespace
  form that keeps the \<open>/\<close> separators. A cursor that only moves forward is modelled by the part of
  the text it has not reached yet.
\<close>

section \<open>Code\<close>

definition hex_digit_value :: "char \<Rightarrow> int" where
  "hex_digit_value character =
     (if CHR ''0'' \<le> character \<and> character \<le> CHR ''9'' then of_char character - of_char CHR ''0''
      else if CHR ''a'' \<le> character \<and> character \<le> CHR ''f''
      then of_char character - of_char CHR ''a'' + 10
      else if CHR ''A'' \<le> character \<and> character \<le> CHR ''F''
      then of_char character - of_char CHR ''A'' + 10
      else - 1)"

definition is_unreserved :: "char \<Rightarrow> bool" where
  "is_unreserved c \<longleftrightarrow> CHR ''A'' \<le> c \<and> c \<le> CHR ''Z'' \<or> CHR ''a'' \<le> c \<and> c \<le> CHR ''z''
     \<or> CHR ''0'' \<le> c \<and> c \<le> CHR ''9'' \<or> c = CHR ''-'' \<or> c = CHR ''.'' \<or> c = CHR ''_'' \<or> c = CHR ''~''"

definition hex_digit_upper :: "nat \<Rightarrow> char" where
  "hex_digit_upper n = ''0123456789ABCDEF'' ! n"

fun percent_encode :: "string \<Rightarrow> string" where
  "percent_encode [] = []"
| "percent_encode (character # text) =
     (if is_unreserved character then character # percent_encode text
      else CHR ''%'' # hex_digit_upper (drop_bit 4 (of_char character))
             # hex_digit_upper (of_char character AND 0x0F) # percent_encode text)"

function percent_encode_purl_namespace :: "string \<Rightarrow> string" where
  "percent_encode_purl_namespace namespace_path =
     (case find_char CHR ''/'' namespace_path of
        None \<Rightarrow> percent_encode namespace_path
      | Some slash \<Rightarrow>
          percent_encode (take slash namespace_path) @ CHR ''/''
            # percent_encode_purl_namespace (drop (Suc slash) namespace_path))"
  by pat_completeness auto
termination
  by (relation "measure length") (auto dest: find_pos_less)

declare percent_encode_purl_namespace.simps [simp del]

fun percent_decode :: "string \<Rightarrow> string" where
  "percent_decode [] = []"
| "percent_decode (c # rest) =
     (if c \<noteq> CHR ''%'' \<or> length (c # rest) < 3 then c # percent_decode rest
      else if hex_digit_value (rest ! 0) < 0 \<or> hex_digit_value (rest ! 1) < 0
      then c # percent_decode rest
      else char_of (nat (push_bit 4 (hex_digit_value (rest ! 0)) OR hex_digit_value (rest ! 1)))
             # percent_decode (drop 2 rest))"

section \<open>Lemmas\<close>

lemma hex_digit_value_upper:
  "n < 16 \<Longrightarrow> hex_digit_value (hex_digit_upper n) = int n"
proof -
  have "\<forall>n \<in> set [0..<16]. hex_digit_value (hex_digit_upper n) = int n" by code_simp
  then show "n < 16 \<Longrightarrow> hex_digit_value (hex_digit_upper n) = int n" by simp
qed

lemma hex_digit_upper_chars:
  "n < 16 \<Longrightarrow> is_unreserved (hex_digit_upper n) \<and> hex_digit_upper n \<noteq> CHR ''%''"
proof -
  have "\<forall>n \<in> set [0..<16]. is_unreserved (hex_digit_upper n) \<and> hex_digit_upper n \<noteq> CHR ''%''" by code_simp
  then show "n < 16 \<Longrightarrow> is_unreserved (hex_digit_upper n) \<and> hex_digit_upper n \<noteq> CHR ''%''" by simp
qed

lemma hex_pair_value:
  assumes "h < 16" and "l < 16"
  shows "char_of (nat (push_bit 4 (hex_digit_value (hex_digit_upper h)) OR hex_digit_value (hex_digit_upper l)))
           = (char_of (h * 16 + l) :: char)"
proof -
  have "push_bit 4 (int h) OR int l = int h * 2 ^ 4 + int l"
    using assms by (intro or_push_int) auto
  then have "nat (push_bit 4 (int h) OR int l) = h * 16 + l" by simp
  then show ?thesis using assms by (simp add: hex_digit_value_upper)
qed

lemma nibbles_of_char:
  "drop_bit 4 (of_char c :: nat) = of_char c div 16"
  "of_char c AND 0x0F = (of_char c mod 16 :: nat)"
  by (simp_all add: drop_bit_eq_div and_0x0F)

lemma high_nibble_less [simp]: "of_char c div 16 < (16::nat)"
  using nat_of_char_less_256 [of c] by linarith

lemma is_unreserved_percent [simp]: "\<not> is_unreserved CHR ''%''"
  by (simp add: is_unreserved_def)

lemma percent_decode_encode [simp]: "percent_decode (percent_encode s) = s"
proof (induction s rule: percent_encode.induct)
  case 1
  show ?case by simp
next
  case (2 c s)
  show ?case
  proof (cases "is_unreserved c")
    case True
    then have "c \<noteq> CHR ''%''" by auto
    with True 2 show ?thesis by simp
  next
    case False
    let ?h = "of_char c div 16 :: nat" and ?l = "of_char c mod 16 :: nat"
    have hl: "?h < 16" "?l < 16" by auto
    have "char_of (nat (push_bit 4 (hex_digit_value (hex_digit_upper ?h)) OR hex_digit_value (hex_digit_upper ?l))) = c"
      using hex_pair_value [OF hl] by simp
    moreover have "0 \<le> hex_digit_value (hex_digit_upper ?h)" "0 \<le> hex_digit_value (hex_digit_upper ?l)"
      using hl by (simp_all add: hex_digit_value_upper)
    ultimately show ?thesis
      using False 2 by (simp add: nibbles_of_char Let_def not_less)
  qed
qed

lemma percent_decode_plain: "CHR ''%'' \<notin> set s \<Longrightarrow> percent_decode s = s"
  by (induction s) auto

lemma percent_encode_alphabet:
  "c \<in> set (percent_encode s) \<Longrightarrow> is_unreserved c \<or> c = CHR ''%''"
proof (induction s)
  case Nil
  then show ?case by simp
next
  case (Cons d s)
  from Cons show ?case
    using hex_digit_upper_chars by (auto simp: nibbles_of_char split: if_splits)
qed

lemma percent_encode_unreserved: "list_all is_unreserved s \<Longrightarrow> percent_encode s = s"
  by (induction s) auto

lemma percent_encode_append [simp]: "percent_encode (s @ t) = percent_encode s @ percent_encode t"
  by (induction s) auto

lemma percent_encode_eq_Nil [simp]: "percent_encode s = [] \<longleftrightarrow> s = []"
  by (cases s) auto

text \<open>The namespace form encodes each segment and keeps the separators.\<close>

lemma percent_encode_purl_namespace_split:
  "percent_encode_purl_namespace s = join_with CHR ''/'' (map percent_encode (split_on CHR ''/'' s))"
proof (induction s rule: percent_encode_purl_namespace.induct)
  case (1 s)
  show ?case
  proof (cases "find_char CHR ''/'' s")
    case None
    then show ?thesis
      by (simp add: percent_encode_purl_namespace.simps [of s] split_on_find [of _ s])
  next
    case (Some i)
    with 1 [OF Some] show ?thesis
      by (simp add: percent_encode_purl_namespace.simps [of s] split_on_find [of _ s] join_with_Cons)
  qed
qed

lemma set_join_with: "set (join_with c fs) \<subseteq> insert c (\<Union> (set ` set fs))"
  by (induction c fs rule: join_with.induct) auto

lemma percent_encode_purl_namespace_alphabet:
  "c \<in> set (percent_encode_purl_namespace s) \<Longrightarrow> is_unreserved c \<or> c = CHR ''%'' \<or> c = CHR ''/''"
  using set_join_with [of "CHR ''/''" "map percent_encode (split_on CHR ''/'' s)"] percent_encode_alphabet
  by (fastforce simp: percent_encode_purl_namespace_split)

lemma percent_encode_purl_namespace_no_slash:
  "CHR ''/'' \<notin> set s \<Longrightarrow> percent_encode_purl_namespace s = percent_encode s"
  by (simp add: percent_encode_purl_namespace_split split_on_simple)

lemma percent_encode_purl_namespace_eq_Nil [simp]:
  "percent_encode_purl_namespace s = [] \<longleftrightarrow> s = []"
proof (cases "find_char CHR ''/'' s")
  case None
  then show ?thesis by (simp add: percent_encode_purl_namespace.simps [of s])
next
  case (Some i)
  then show ?thesis by (auto simp: percent_encode_purl_namespace.simps [of s])
qed

text \<open>Decoding never loses text: every byte of the output stands for at most three bytes read.\<close>

lemma percent_decode_length:
  "length (percent_decode s) \<le> length s \<and> length s \<le> 3 * length (percent_decode s)"
  by (induction s rule: percent_decode.induct) (auto simp: Let_def)

interpretation percent: text_codec "\<lambda>_. True" percent_encode "\<lambda>s. Some (percent_decode s)"
  by unfold_locales simp

section \<open>Properties\<close>

text \<open>Percent-encoding round-trips: decoding an encoded text gives the text back, so two texts
  have the same encoding only if they are equal, and the encoding uses only the unreserved
  characters and \<open>%\<close>, never a structural byte of a purl.\<close>

theorem percent_roundtrip:
  "percent_decode (percent_encode s) = s \<and>
   (percent_encode s = percent_encode t \<longleftrightarrow> s = t) \<and>
   set (percent_encode s) \<subseteq> {c. is_unreserved c} \<union> {CHR ''%''}"
  using percent_encode_alphabet by (auto simp: percent.enc_inj)

text \<open>A purl namespace is encoded segment by segment: the number and place of the \<open>/\<close>
  separators are those of the input and every segment decodes back to its own text.\<close>

theorem percent_namespace_segments:
  "map percent_decode (split_on CHR ''/'' (percent_encode_purl_namespace s)) = split_on CHR ''/'' s"
proof -
  have "CHR ''/'' \<notin> set (percent_encode f)" for f
    using percent_encode_alphabet [of "CHR ''/''" f] by (auto simp: is_unreserved_def)
  then have "split_on CHR ''/'' (join_with CHR ''/'' (map percent_encode fs)) = map percent_encode fs"
    if "fs \<noteq> []" for fs
    using that by (induction "CHR ''/''" fs rule: join_with.induct)
      (auto simp: split_on_append_sep split_on_simple)
  then show ?thesis
    by (simp add: percent_encode_purl_namespace_split comp_def)
qed

end
