(* ===== verification/Base64.thy ===== *)
theory Base64
  imports Percent
begin

text \<open>
  \<open>src/core/base64.cpp\<close>: standard Base64 encoding (used for the logo of the HTML report) and the
  strict unpadded Base64url decoder. The group is the code's \<open>uint32_t\<close>; the decoded symbol values
  are its \<open>int\<close>s and \<open>char_of_int\<close> its \<open>static_cast<char>\<close>.
\<close>

section \<open>Code\<close>

definition kAlphabet :: string where
  "kAlphabet = ''ABCDEFGHIJKLMNOPQRSTUVWXYZabcdefghijklmnopqrstuvwxyz0123456789+/''"

definition kUrlAlphabet :: string where
  "kUrlAlphabet = ''ABCDEFGHIJKLMNOPQRSTUVWXYZabcdefghijklmnopqrstuvwxyz0123456789-_''"

definition base64url_symbol_value :: "char \<Rightarrow> int" where
  "base64url_symbol_value symbol =
     (case find_char symbol kUrlAlphabet of None \<Rightarrow> - 1 | Some position \<Rightarrow> int position)"

definition u32_of_char :: "char \<Rightarrow> 32 word" where
  "u32_of_char c = word_of_nat (of_char c)"

definition group_symbol :: "32 word \<Rightarrow> nat \<Rightarrow> char" where
  "group_symbol grp shift = kAlphabet ! unat (drop_bit shift grp AND 0x3F)"

fun base64_encode :: "string \<Rightarrow> string" where
  "base64_encode (a # b # c # bytes) =
     (let grp = push_bit 16 (u32_of_char a) OR push_bit 8 (u32_of_char b) OR u32_of_char c
      in [group_symbol grp 18, group_symbol grp 12, group_symbol grp 6, group_symbol grp 0]
           @ base64_encode bytes)"
| "base64_encode [a] =
     (let grp = push_bit 16 (u32_of_char a)
      in [group_symbol grp 18, group_symbol grp 12, CHR ''='', CHR ''=''])"
| "base64_encode [a, b] =
     (let grp = push_bit 16 (u32_of_char a) OR push_bit 8 (u32_of_char b)
      in [group_symbol grp 18, group_symbol grp 12, group_symbol grp 6, CHR ''=''])"
| "base64_encode [] = []"

text \<open>\<open>static_cast<char>\<close> of an \<open>int\<close> keeps the low byte.\<close>

definition char_of_int :: "int \<Rightarrow> char" where
  "char_of_int i = char_of (nat (i mod 256))"

fun base64url_decode_groups :: "string \<Rightarrow> string option" where
  "base64url_decode_groups (s1 # s2 # s3 # s4 # rest) =
     (let first = base64url_symbol_value s1; second = base64url_symbol_value s2;
          third = base64url_symbol_value s3; fourth = base64url_symbol_value s4
      in if first < 0 \<or> second < 0 \<or> third < 0 \<or> fourth < 0 then None
         else map_option (\<lambda>decoded.
                char_of_int (push_bit 2 first OR drop_bit 4 second)
                # char_of_int (push_bit 4 second OR drop_bit 2 third)
                # char_of_int (push_bit 6 third OR fourth) # decoded)
              (base64url_decode_groups rest))"
| "base64url_decode_groups [s1, s2] =
     (let first = base64url_symbol_value s1; second = base64url_symbol_value s2
      in if first < 0 \<or> second < 0 \<or> second AND 0x0F \<noteq> 0 then None
         else Some [char_of_int (push_bit 2 first OR drop_bit 4 second)])"
| "base64url_decode_groups [s1, s2, s3] =
     (let first = base64url_symbol_value s1; second = base64url_symbol_value s2;
          third = base64url_symbol_value s3
      in if first < 0 \<or> second < 0 \<or> third < 0 \<or> third AND 0x03 \<noteq> 0 then None
         else Some [char_of_int (push_bit 2 first OR drop_bit 4 second),
                    char_of_int (push_bit 4 second OR drop_bit 2 third)])"
| "base64url_decode_groups _ = Some []"

definition base64url_decode :: "string \<Rightarrow> string option" where
  "base64url_decode text =
     (if length text mod 4 = 1 then None else base64url_decode_groups text)"

section \<open>The group arithmetic\<close>

lemma unat_u32_of_char [simp]: "unat (u32_of_char c) = of_char c"
proof -
  have "of_char c < (2::nat) ^ LENGTH(32)" by (rule less_trans [OF nat_of_char_less_256]) simp
  then show ?thesis by (simp add: u32_of_char_def unat_of_nat)
qed

lemma unat_push_u32:
  assumes "k \<le> 16"
  shows "unat (push_bit k (u32_of_char c)) = push_bit k (of_char c)"
proof -
  have "of_char c * 2 ^ k < 256 * (2::nat) ^ k" using nat_of_char_less_256 [of c] by simp
  also have "\<dots> \<le> 256 * 2 ^ 16" using assms by (intro mult_le_mono power_increasing) auto
  finally have "push_bit k (of_char c) < (2::nat) ^ 32" by (simp add: push_bit_eq_mult)
  then show ?thesis
    by (simp add: unsigned_push_bit_eq take_bit_nat_eq_self)
qed

lemma unat_group:
  "unat (push_bit 16 (u32_of_char a) OR push_bit 8 (u32_of_char b) OR u32_of_char c)
     = of_char a * 65536 + of_char b * 256 + of_char c" (is ?three)
  "unat (push_bit 16 (u32_of_char a) OR push_bit 8 (u32_of_char b))
     = of_char a * 65536 + of_char b * 256" (is ?two)
  "unat (push_bit 16 (u32_of_char a)) = of_char a * 65536" (is ?one)
proof -
  have c: "(of_char c :: nat) < 256" and b: "(of_char b :: nat) < 256" by simp_all
  have bc: "push_bit 8 (of_char b) OR of_char c = (of_char b * 256 + of_char c :: nat)"
    using or_push_nat [of "of_char c" 8 "of_char b"] c by simp
  have "push_bit 16 (of_char a) OR (of_char b * 256 + of_char c) = (of_char a * 65536 + (of_char b * 256 + of_char c) :: nat)"
    using or_push_nat [of "of_char b * 256 + of_char c" 16 "of_char a"] b c by simp
  then show ?three
    by (simp add: unsigned_or_eq unat_push_u32 or.assoc bc)
  have "push_bit 16 (of_char a) OR (of_char b * 256) = (of_char a * 65536 + of_char b * 256 :: nat)"
    using or_push_nat [of "of_char b * 256" 16 "of_char a"] b by simp
  then show ?two
    by (simp add: unsigned_or_eq unat_push_u32) (simp add: push_bit_eq_mult)
  show ?one by (simp only: unat_push_u32 le_refl) (simp add: push_bit_eq_mult)
qed

lemma group_symbol_eq:
  "group_symbol g k = kAlphabet ! (unat g div 2 ^ k mod 64)"
proof -
  have take_bit_unsigned: "take_bit 32 (unat g) = unat g"
    using unsigned_less [of g, where ?'a = nat] by (intro take_bit_nat_eq_self) simp
  have "unat (drop_bit k g AND 63) = drop_bit k (unat g) AND 63"
    by (simp add: unsigned_and_eq unsigned_drop_bit_eq take_bit_unsigned)
  then show ?thesis by (simp add: group_symbol_def and_0x3F drop_bit_eq_div)
qed


lemma sextets:
  fixes p q r s :: nat
  assumes "p < 64" "q < 64" "r < 64" "s < 64"
  shows "(p * 262144 + q * 4096 + r * 64 + s) div 262144 mod 64 = p"
    "(p * 262144 + q * 4096 + r * 64 + s) div 4096 mod 64 = q"
    "(p * 262144 + q * 4096 + r * 64 + s) div 64 mod 64 = r"
    "(p * 262144 + q * 4096 + r * 64 + s) mod 64 = s"
proof -
  let ?v = "p * 262144 + q * 4096 + r * 64 + s"
  have "?v div 262144 = p" using assms by (intro div_nat_eqI) auto
  then show "?v div 262144 mod 64 = p" using assms by simp
  have "?v div 4096 = p * 64 + q" using assms by (intro div_nat_eqI) auto
  then show "?v div 4096 mod 64 = q" using assms by simp
  have "?v div 64 = (p * 64 + q) * 64 + r" using assms by (intro div_nat_eqI) auto
  then have "?v div 64 mod 64 = r" using assms by (metis mod_less mod_mult_self3)
  then show "?v div 64 mod 64 = r" by simp
  have "?v = (p * 4096 + q * 64 + r) * 64 + s" by simp
  then have "?v mod 64 = s" using assms by (metis mod_less mod_mult_self3)
  then show "?v mod 64 = s" by simp
qed

lemma group3_symbols:
  fixes x y z :: nat
  assumes "x < 256" "y < 256" "z < 256"
  shows "(x * 65536 + y * 256 + z) div 262144 mod 64 = x div 4"
    "(x * 65536 + y * 256 + z) div 4096 mod 64 = x mod 4 * 16 + y div 16"
    "(x * 65536 + y * 256 + z) div 64 mod 64 = y mod 16 * 4 + z div 64"
    "(x * 65536 + y * 256 + z) mod 64 = z mod 64"
proof -
  let ?p = "x div 4" and ?q = "x mod 4 * 16 + y div 16"
    and ?r = "y mod 16 * 4 + z div 64" and ?s = "z mod 64"
  have "(xh * 4 + xl) * 65536 + (yh * 16 + yl) * 256 + (zh * 64 + zl)
      = xh * 262144 + (xl * 16 + yh) * 4096 + (yl * 4 + zh) * 64 + zl" for xh xl yh yl zh zl :: nat
    by simp
  from this [of "x div 4" "x mod 4" "y div 16" "y mod 16" "z div 64" "z mod 64"]
  have v: "x * 65536 + y * 256 + z = ?p * 262144 + ?q * 4096 + ?r * 64 + ?s"
    by (simp only: div_mult_mod_eq)
  have y16: "y div 16 < 16" and z64: "z div 64 < 4" using assms by linarith+
  have xm: "x mod 4 \<le> 3" and ym: "y mod 16 \<le> 15"
    using mod_less_divisor [of 4 x] mod_less_divisor [of 16 y] by linarith+
  have "?p < 64" "?q < 64" "?r < 64" "?s < 64"
    using assms y16 z64 xm ym by (linarith, linarith, linarith, simp)
  from sextets [OF this]
  show "(x * 65536 + y * 256 + z) div 262144 mod 64 = ?p"
    and "(x * 65536 + y * 256 + z) div 4096 mod 64 = ?q"
    and "(x * 65536 + y * 256 + z) div 64 mod 64 = ?r"
    and "(x * 65536 + y * 256 + z) mod 64 = ?s"
    unfolding v by blast+
qed


section \<open>The alphabets\<close>

lemma length_alphabets [simp]: "length kAlphabet = 64" "length kUrlAlphabet = 64"
  by (simp_all add: kAlphabet_def kUrlAlphabet_def)

lemma url_symbol_value [simp]: "n < 64 \<Longrightarrow> base64url_symbol_value (kUrlAlphabet ! n) = int n"
proof -
  have "\<forall>n \<in> set [0..<64]. base64url_symbol_value (kUrlAlphabet ! n) = int n" by code_simp
  then show "n < 64 \<Longrightarrow> base64url_symbol_value (kUrlAlphabet ! n) = int n" by simp
qed

lemma url_symbol_value_nonneg:
  assumes "0 \<le> base64url_symbol_value c"
  obtains n where "n < 64" and "c = kUrlAlphabet ! n" and "base64url_symbol_value c = int n"
proof -
  from assms obtain n where n: "find_char c kUrlAlphabet = Some n"
    by (auto simp: base64url_symbol_value_def split: option.splits)
  from find_pos_SomeD [OF n] have "n < 64" and "c = kUrlAlphabet ! n" by auto
  then show thesis by (rule that) (simp add: base64url_symbol_value_def n)
qed

text \<open>The URL-safe unpadded spelling of a standard Base64 text.\<close>

definition to_url_char :: "char \<Rightarrow> char" where
  "to_url_char c = (if c = CHR ''+'' then CHR ''-'' else if c = CHR ''/'' then CHR ''_'' else c)"

definition to_url :: "string \<Rightarrow> string" where
  "to_url s = map to_url_char (filter (\<lambda>c. c \<noteq> CHR ''='') s)"

lemma alphabet_symbols:
  "n < 64 \<Longrightarrow> kAlphabet ! n \<noteq> CHR ''='' \<and> to_url_char (kAlphabet ! n) = kUrlAlphabet ! n"
proof -
  have "\<forall>n \<in> set [0..<64]. kAlphabet ! n \<noteq> CHR ''='' \<and> to_url_char (kAlphabet ! n) = kUrlAlphabet ! n" by code_simp
  then show "n < 64 \<Longrightarrow> kAlphabet ! n \<noteq> CHR ''='' \<and> to_url_char (kAlphabet ! n) = kUrlAlphabet ! n" by simp
qed

abbreviation url_digit :: "nat \<Rightarrow> char" where
  "url_digit n \<equiv> kUrlAlphabet ! n"

lemma mod_256I: "n = k * 256 + m \<Longrightarrow> m < 256 \<Longrightarrow> n mod 256 = (m::nat)"
  by simp

text \<open>The encoder, with each symbol's index spelled out.\<close>

lemma to_url_base64_encode:
  "to_url (base64_encode (a # b # c # bytes)) =
     [url_digit (of_char a div 4), url_digit (of_char a mod 4 * 16 + of_char b div 16),
      url_digit (of_char b mod 16 * 4 + of_char c div 64), url_digit (of_char c mod 64)]
       @ to_url (base64_encode bytes)" (is ?three)
  "to_url (base64_encode [a, b]) =
     [url_digit (of_char a div 4), url_digit (of_char a mod 4 * 16 + of_char b div 16),
      url_digit (of_char b mod 16 * 4)]" (is ?two)
  "to_url (base64_encode [a]) = [url_digit (of_char a div 4), url_digit (of_char a mod 4 * 16)]" (is ?one)
  "to_url (base64_encode []) = []" (is ?zero)
proof -
  have b: "of_char d div 4 < (64::nat)" "of_char d mod 4 * 16 + of_char e div 16 < (64::nat)"
    "of_char d mod 16 * 4 + of_char e div 64 < (64::nat)" "of_char d mod 4 * 16 < (64::nat)"
    "of_char d mod 16 * 4 < (64::nat)" for d e :: char
    using nat_of_char_less_256 [of d] nat_of_char_less_256 [of e]
      mod_less_divisor [of 4 "of_char d :: nat"] mod_less_divisor [of 16 "of_char d :: nat"]
    by linarith+
  note syms = group_symbol_eq unat_group group3_symbols [OF nat_of_char_less_256 nat_of_char_less_256 nat_of_char_less_256]
  have two: "(of_char a * 65536 + of_char b * 256 :: nat) = of_char a * 65536 + of_char b * 256 + 0"
    and one: "(of_char a * 65536 :: nat) = of_char a * 65536 + 0 * 256 + 0" by simp_all
  note g = group3_symbols [of "of_char a" "of_char b" 0] group3_symbols [of "of_char a" 0 0]
  show ?three using b by (simp add: Let_def to_url_def syms alphabet_symbols)
  show ?two using b g(1-3) by (simp add: Let_def to_url_def group_symbol_eq unat_group alphabet_symbols)
  show ?one using b g(5-6) by (simp add: Let_def to_url_def group_symbol_eq unat_group alphabet_symbols)
  show ?zero by (simp add: to_url_def)
qed


section \<open>Decoding\<close>

lemma char_of_int_int [simp]: "char_of_int (int n) = char_of n"
proof -
  have "nat (int n mod 256) = n mod 256" by (simp add: nat_mod_distrib)
  then show ?thesis by (simp add: char_of_int_def)
qed

lemma decoded_chars:
  assumes "q < 64"
  shows "char_of_int (push_bit 2 (int p) OR drop_bit 4 (int q)) = char_of (p * 4 + q div 16)"
    "char_of_int (push_bit 4 (int p) OR drop_bit 2 (int q)) = char_of (p * 16 + q div 4)"
    "char_of_int (push_bit 6 (int p) OR int q) = char_of (p * 64 + q)"
proof -
  have d: "drop_bit 4 (int q) = int (q div 16)" "drop_bit 2 (int q) = int (q div 4)"
    by (simp_all add: drop_bit_eq_div zdiv_int)
  from assms have "q div 16 < 4" and "q div 4 < 16" by linarith+
  with assms have "push_bit 2 (int p) OR int (q div 16) = int (p * 4 + q div 16)"
    "push_bit 4 (int p) OR int (q div 4) = int (p * 16 + q div 4)"
    "push_bit 6 (int p) OR int q = int (p * 64 + q)"
    using or_push_int [of "int (q div 16)" 2 "int p"] or_push_int [of "int (q div 4)" 4 "int p"]
      or_push_int [of "int q" 6 "int p"] by simp_all
  then show "char_of_int (push_bit 2 (int p) OR drop_bit 4 (int q)) = char_of (p * 4 + q div 16)"
    "char_of_int (push_bit 4 (int p) OR drop_bit 2 (int q)) = char_of (p * 16 + q div 4)"
    "char_of_int (push_bit 6 (int p) OR int q) = char_of (p * 64 + q)"
    unfolding d by (simp_all only: char_of_int_int)
qed

lemma trailing_bits:
  "int n AND 0x0F = int (n mod 16)" "int n AND 0x03 = int (n mod 4)"
  using take_bit_eq_mask [of 4 "int n"] take_bit_eq_mask [of 2 "int n"]
  by (simp_all add: mask_eq_exp_minus_1 take_bit_eq_mod zmod_int)

lemma decode_groups_digits:
  assumes "p < 64" "q < 64"
  shows "r < 64 \<Longrightarrow> s < 64 \<Longrightarrow>
      base64url_decode_groups (url_digit p # url_digit q # url_digit r # url_digit s # rest)
        = map_option (\<lambda>d. char_of (p * 4 + q div 16) # char_of (q * 16 + r div 4) # char_of (r * 64 + s) # d)
            (base64url_decode_groups rest)"
    and "r < 64 \<Longrightarrow> base64url_decode_groups [url_digit p, url_digit q, url_digit r]
        = (if r mod 4 \<noteq> 0 then None else Some [char_of (p * 4 + q div 16), char_of (q * 16 + r div 4)])"
    and "base64url_decode_groups [url_digit p, url_digit q]
        = (if q mod 16 \<noteq> 0 then None else Some [char_of (p * 4 + q div 16)])"
  using assms by (simp_all add: Let_def decoded_chars trailing_bits)

declare base64url_decode_groups.simps(1-3) [simp del]

lemma recombine:
  fixes x y z :: nat
  assumes "x < 256" "y < 256" "z < 256"
  shows "x div 4 * 4 + (x mod 4 * 16 + y div 16) div 16 = x"
    "((x mod 4 * 16 + y div 16) * 16 + (y mod 16 * 4 + z div 64) div 4) mod 256 = y"
    "((y mod 16 * 4 + z div 64) * 64 + z mod 64) mod 256 = z"
proof -
  have y: "y div 16 < 16" and z: "z div 64 < 4" using assms by linarith+
  have q: "(x mod 4 * 16 + y div 16) div 16 = x mod 4" using y by simp
  have r: "(y mod 16 * 4 + z div 64) div 4 = y mod 16" using z by simp
  show "x div 4 * 4 + (x mod 4 * 16 + y div 16) div 16 = x" unfolding q by simp
  have "(x mod 4 * 16 + y div 16) * 16 + y mod 16 = x mod 4 * 256 + (y div 16 * 16 + y mod 16)"
    by simp
  then have "(x mod 4 * 16 + y div 16) * 16 + y mod 16 = x mod 4 * 256 + y" by (simp only: div_mult_mod_eq)
  then show "((x mod 4 * 16 + y div 16) * 16 + (y mod 16 * 4 + z div 64) div 4) mod 256 = y"
    unfolding r using assms by simp
  have "(y mod 16 * 4 + z div 64) * 64 + z mod 64 = y mod 16 * 256 + (z div 64 * 64 + z mod 64)" by simp
  then have "(y mod 16 * 4 + z div 64) * 64 + z mod 64 = y mod 16 * 256 + z" by (simp only: div_mult_mod_eq)
  then show "((y mod 16 * 4 + z div 64) * 64 + z mod 64) mod 256 = z" using assms by simp
qed

declare base64_encode.simps [simp del]

lemma digit_bounds:
  "of_char d div 4 < (64::nat)" "of_char d mod 4 * 16 + of_char e div 16 < (64::nat)"
  "of_char d mod 16 * 4 + of_char e div 64 < (64::nat)" "of_char d mod 4 * 16 < (64::nat)"
  "of_char d mod 16 * 4 < (64::nat)"
  using nat_of_char_less_256 [of d] nat_of_char_less_256 [of e]
    mod_less_divisor [of 4 "of_char d :: nat"] mod_less_divisor [of 16 "of_char d :: nat"]
  by linarith+

lemma char_of_mod: "n mod 256 = of_char c \<Longrightarrow> char_of n = c"
  by (metis char_of_char char_of_mod_256)

lemma mod_64_less: "of_char c mod 64 < (64::nat)"
  by simp

lemma decode_encode_groups: "base64url_decode_groups (to_url (base64_encode b)) = Some b"
proof (induction b rule: base64_encode.induct)
  case (1 a b c bytes)
  note rc = recombine [OF nat_of_char_less_256 [of a] nat_of_char_less_256 [of b] nat_of_char_less_256 [of c]]
  show ?case
    by (simp only: to_url_base64_encode(1) append.simps option.map 1 rc(1) rc(2,3) [THEN char_of_mod]
      decode_groups_digits(1) [OF digit_bounds(1,2,3) mod_64_less] char_of_char)
next
  case (2 a)
  from recombine(1) [of "of_char a" 0 0] show ?case
    by (simp add: to_url_base64_encode decode_groups_digits digit_bounds)
next
  case (3 a b)
  note rc = recombine(1,2) [OF nat_of_char_less_256 [of a] nat_of_char_less_256 [of b], of 0, simplified div_0 add_0_right]
  show ?case
    using rc(1) rc(2) [THEN char_of_mod]
    by (simp only: to_url_base64_encode(2) decode_groups_digits(2) [OF digit_bounds(1,2,5)] char_of_char
        mod_mult_self2_is_0 simp_thms if_False)
next
  case 4
  show ?case by (simp add: to_url_base64_encode)
qed

lemma length_to_url_base64_encode [simp]: "length (to_url (base64_encode b)) mod 4 \<noteq> Suc 0"
  by (induction b rule: base64_encode.induct) (simp_all add: to_url_base64_encode)

lemma split_digits:
  fixes p q r s :: nat
  assumes "p < 64" "q < 64" "r < 64" "s < 64"
  shows "(p * 4 + q div 16) mod 256 = p * 4 + q div 16"
    "(p * 4 + q div 16) div 4 = p"
    "(p * 4 + q div 16) mod 4 = q div 16"
    "(q * 16 + r div 4) mod 256 = q mod 16 * 16 + r div 4"
    "(q mod 16 * 16 + r div 4) div 16 = q mod 16"
    "(q mod 16 * 16 + r div 4) mod 16 = r div 4"
    "(r * 64 + s) mod 256 = r mod 4 * 64 + s"
    "(r mod 4 * 64 + s) div 64 = r mod 4"
    "(r mod 4 * 64 + s) mod 64 = s"
proof -
  have q: "q div 16 < 4" and r: "r div 4 < 16" and qm: "q mod 16 < 16" and rm: "r mod 4 < 4"
    using assms by (linarith, linarith, simp, simp)
  show "(p * 4 + q div 16) mod 256 = p * 4 + q div 16" using assms q by simp
  show "(p * 4 + q div 16) div 4 = p" using q by simp
  show "(p * 4 + q div 16) mod 4 = q div 16" using q by simp
  show "(q * 16 + r div 4) mod 256 = q mod 16 * 16 + r div 4"
    by (rule mod_256I [of _ "q div 16"]) (use div_mult_mod_eq [of q 16] qm r in linarith)+
  show "(q mod 16 * 16 + r div 4) div 16 = q mod 16" using r by simp
  show "(q mod 16 * 16 + r div 4) mod 16 = r div 4" using r by simp
  show "(r * 64 + s) mod 256 = r mod 4 * 64 + s"
    by (rule mod_256I [of _ "r div 4"]) (use div_mult_mod_eq [of r 4] rm assms in linarith)+
  show "(r mod 4 * 64 + s) div 64 = r mod 4" using assms by simp
  show "(r mod 4 * 64 + s) mod 64 = s" using assms by simp
qed

lemma encode_decode_groups:
  "base64url_decode_groups t = Some b \<Longrightarrow> length t mod 4 \<noteq> 1 \<Longrightarrow> to_url (base64_encode b) = t"
proof (induction t arbitrary: b rule: base64url_decode_groups.induct)
  case (1 s1 s2 s3 s4 rest)
  from "1.prems" obtain b' where "0 \<le> base64url_symbol_value s1" "0 \<le> base64url_symbol_value s2"
    "0 \<le> base64url_symbol_value s3" "0 \<le> base64url_symbol_value s4"
    and b': "base64url_decode_groups rest = Some b'"
    by (auto simp: Let_def base64url_decode_groups.simps(1) split: if_splits)
  then obtain p q r s where d: "p < 64" "q < 64" "r < 64" "s < 64"
    and s: "s1 = url_digit p" "s2 = url_digit q" "s3 = url_digit r" "s4 = url_digit s"
    by (metis url_symbol_value_nonneg)
  from "1.prems"(2) have "length rest mod 4 \<noteq> 1" by simp
  with "1.IH" d s b' have IH: "to_url (base64_encode b') = rest" by simp
  have b: "b = char_of (p * 4 + q div 16) # char_of (q * 16 + r div 4) # char_of (r * 64 + s) # b'"
    using "1.prems"(1) d b' unfolding s by (simp add: decode_groups_digits(1))
  have "q div 16 < 4" and "r div 4 < 16" using d by linarith+
  with d show ?case
    by (simp add: b to_url_base64_encode split_digits [OF d] IH s)
next
  case (2 s1 s2)
  then have "0 \<le> base64url_symbol_value s1" "0 \<le> base64url_symbol_value s2"
    by (auto simp: Let_def base64url_decode_groups.simps(2) split: if_splits)
  then obtain p q where d: "p < 64" "q < 64" and s: "s1 = url_digit p" "s2 = url_digit q"
    by (metis url_symbol_value_nonneg)
  with 2 have "q mod 16 = 0" and b: "b = [char_of (p * 4 + q div 16)]"
    by (auto simp: decode_groups_digits(3) split: if_splits)
  then have "q div 16 * 16 = q" by (metis add.right_neutral div_mult_mod_eq)
  moreover have "q div 16 < 4" using d by linarith
  ultimately show ?case
    using split_digits [OF d, of 0 0] by (simp add: b s to_url_base64_encode)
next
  case (3 s1 s2 s3)
  then have "0 \<le> base64url_symbol_value s1" "0 \<le> base64url_symbol_value s2"
    "0 \<le> base64url_symbol_value s3"
    by (auto simp: Let_def base64url_decode_groups.simps(3) split: if_splits)
  then obtain p q r where d: "p < 64" "q < 64" "r < 64"
    and s: "s1 = url_digit p" "s2 = url_digit q" "s3 = url_digit r"
    by (metis url_symbol_value_nonneg)
  with 3 have "r mod 4 = 0" and b: "b = [char_of (p * 4 + q div 16), char_of (q * 16 + r div 4)]"
    by (auto simp: decode_groups_digits(2) split: if_splits)
  then have "r div 4 * 4 = r" by (metis add.right_neutral div_mult_mod_eq)
  moreover have "q div 16 < 4" and "r div 4 < 16" using d by linarith+
  ultimately show ?case
    using split_digits [OF d, of 0] by (simp add: b s to_url_base64_encode)
qed (auto simp: to_url_base64_encode)

interpretation base64url:
  canonical_codec "\<lambda>_. True" "\<lambda>b. to_url (base64_encode b)" base64url_decode
  by unfold_locales
    (auto simp: base64url_decode_def decode_encode_groups length_to_url_base64_encode
       split: if_splits intro: encode_decode_groups)

section \<open>Properties\<close>

text \<open>Base64url decoding is the exact inverse of encoding: \<open>base64url_decode\<close> accepts a text, with
  result \<open>b\<close>, if and only if the text is the URL-safe unpadded spelling of \<open>base64_encode b\<close>. Padding,
  foreign symbols, impossible lengths and non-zero trailing bits are all refused, so no byte string has
  two accepted spellings.\<close>

theorem base64url_decode_exact:
  "base64url_decode t = Some b \<longleftrightarrow> t = to_url (base64_encode b)"
  by (simp add: base64url.dec_iff)

end
