(* ===== verification/Stream_Hash.thy ===== *)
theory Stream_Hash
  imports Main
begin

text \<open>
  The interface of a streaming hash: an initial state, \<open>update\<close>, \<open>digest\<close>, and the hash of a whole
  message. The provider keeps a relation \<open>absorbed\<close> between its state and the message so far; a client
  that feeds a file in pieces relies only on the laws below.
\<close>

locale stream_hash =
  fixes init :: "'s" and update :: "'s \<Rightarrow> 'b list \<Rightarrow> 's" and digest :: "'s \<Rightarrow> 'd"
    and absorbed :: "'s \<Rightarrow> 'b list \<Rightarrow> bool" and hash :: "'b list \<Rightarrow> 'd"
  assumes absorbed_init: "absorbed init []"
    and absorbed_update: "absorbed s m \<Longrightarrow> absorbed (update s b) (m @ b)"
    and absorbed_digest: "absorbed s m \<Longrightarrow> digest s = hash m"
begin

lemma absorbed_feed: "absorbed s m \<Longrightarrow> absorbed (foldl update s chunks) (m @ concat chunks)"
proof (induction chunks arbitrary: s m)
  case Nil
  then show ?case by simp
next
  case (Cons c chunks)
  from Cons.IH [OF absorbed_update [OF Cons.prems, of c]] show ?case by simp
qed

lemma digest_feed: "digest (foldl update init chunks) = hash (concat chunks)"
  using absorbed_digest [OF absorbed_feed [OF absorbed_init, of chunks]] by simp

lemma digest_chunking: "concat xs = concat ys \<Longrightarrow>
    digest (foldl update init xs) = digest (foldl update init ys)"
  by (simp add: digest_feed)

end

end
