(* ===== verification/Fips_180_4.thy ===== *)
theory Fips_180_4
  imports Prelude
begin

text \<open>
  The standard \<open>core/sha256.cpp\<close> names, written down from its text and from nothing of the code, so
  that the model of the code can be compared with it. Numbers, not shifts, carry the byte order; the
  rotation is the library's; the message schedule is a recursion on its index; and the constants are
  computed from what the standard says they are, the leading fractional bits of the square and cube
  roots of the first primes. The definitions of the code are in \<open>Sha256\<close>, which proves the two equal.
\<close>

unbundle bit_operations_syntax


section \<open>Constants\<close>

text \<open>The largest number whose \<open>k\<close>-th power is at most \<open>n\<close>, one bit at a time from the top; \<open>r\<close> holds
  the bits found so far. Forty bits are enough for roots below \<open>2^40\<close>.\<close>

fun root_bits :: "nat \<Rightarrow> nat \<Rightarrow> nat \<Rightarrow> nat \<Rightarrow> nat" where
  "root_bits k n 0 r = r"
| "root_bits k n (Suc i) r = root_bits k n i (if (r + 2 ^ i) ^ k \<le> n then r + 2 ^ i else r)"

definition floor_root :: "nat \<Rightarrow> nat \<Rightarrow> nat" where
  "floor_root k n = root_bits k n 40 0"

text \<open>The first 32 bits of the fractional part of the \<open>k\<close>-th root of \<open>p\<close>: the root of \<open>p\<close> scaled by
  \<open>2^32\<close>, without its whole part.\<close>

definition fractional_bits :: "nat \<Rightarrow> nat \<Rightarrow> u32" where
  "fractional_bits k p = word_of_nat (floor_root k (p * 2 ^ (32 * k)) mod 2 ^ 32)"

definition is_prime :: "nat \<Rightarrow> bool" where
  "is_prime p \<longleftrightarrow> 2 \<le> p \<and> list_all (\<lambda>d. p mod d \<noteq> 0) [2..<p]"

text \<open>The first 64 primes are those up to 311.\<close>

definition first_primes :: "nat list" where
  "first_primes = filter is_prime [2..<312]"

definition fips_K :: "nat \<Rightarrow> u32" where
  "fips_K t = fractional_bits 3 (first_primes ! t)"

definition fips_H0 :: "u32 list" where
  "fips_H0 = map (fractional_bits 2) (take 8 first_primes)"

section \<open>Functions and message schedule\<close>

definition Ch :: "u32 \<Rightarrow> u32 \<Rightarrow> u32 \<Rightarrow> u32" where
  "Ch x y z = (x AND y) OR (NOT x AND z)"

definition Maj :: "u32 \<Rightarrow> u32 \<Rightarrow> u32 \<Rightarrow> u32" where
  "Maj x y z = (x AND y) OR (x AND z) OR (y AND z)"

definition Sigma0 :: "u32 \<Rightarrow> u32" where
  "Sigma0 x = word_rotr 2 x XOR word_rotr 13 x XOR word_rotr 22 x"

definition Sigma1 :: "u32 \<Rightarrow> u32" where
  "Sigma1 x = word_rotr 6 x XOR word_rotr 11 x XOR word_rotr 25 x"

definition sigma0 :: "u32 \<Rightarrow> u32" where
  "sigma0 x = word_rotr 7 x XOR word_rotr 18 x XOR drop_bit 3 x"

definition sigma1 :: "u32 \<Rightarrow> u32" where
  "sigma1 x = word_rotr 17 x XOR word_rotr 19 x XOR drop_bit 10 x"

text \<open>A run of bytes as one number, the first byte the most significant, and back.\<close>

definition big_endian :: "u8 list \<Rightarrow> nat" where
  "big_endian bytes = foldl (\<lambda>n b. 256 * n + unat b) 0 bytes"

definition big_endian_bytes :: "nat \<Rightarrow> nat \<Rightarrow> u8 list" where
  "big_endian_bytes count n = map (\<lambda>i. word_of_nat (n div 256 ^ (count - 1 - i) mod 256)) [0..<count]"

function fips_W :: "u8 list \<Rightarrow> nat \<Rightarrow> u32" where
  "fips_W M t =
     (if t < 16 then word_of_nat (big_endian (take 4 (drop (4 * t) M)))
      else sigma1 (fips_W M (t - 2)) + fips_W M (t - 7) + sigma0 (fips_W M (t - 15)) + fips_W M (t - 16))"
  by pat_completeness auto
termination by (relation "measure snd") auto

declare fips_W.simps [simp del]

section \<open>Hash computation\<close>

text \<open>The eight working variables after \<open>t\<close> rounds on one block.\<close>

fun fips_vars :: "u8 list \<Rightarrow> u32 list \<Rightarrow> nat \<Rightarrow> u32 list" where
  "fips_vars M H 0 = H"
| "fips_vars M H (Suc t) =
     (case fips_vars M H t of
        [a, b, c, d, e, f, g, h] \<Rightarrow>
          (let T1 = h + Sigma1 e + Ch e f g + fips_K t + fips_W M t;
               T2 = Sigma0 a + Maj a b c
           in [T1 + T2, a, b, c, d + T1, e, f, g])
      | _ \<Rightarrow> [])"

definition fips_block :: "u32 list \<Rightarrow> u8 list \<Rightarrow> u32 list" where
  "fips_block H M = map2 (+) (fips_vars M H 64) H"

text \<open>Padding: the bit 1, the least number of bits 0 that leaves 64 bits of the last block, and the
  length of the message in bits as a 64-bit number.\<close>

definition fips_zero_bits :: "nat \<Rightarrow> nat" where
  "fips_zero_bits l = nat ((448 - (int l + 1)) mod 512)"

definition fips_pad :: "u8 list \<Rightarrow> u8 list" where
  "fips_pad m =
     (let l = 8 * length m in
      m @ 128 # replicate ((fips_zero_bits l - 7) div 8) 0 @ big_endian_bytes 8 l)"

definition fips_blocks :: "u8 list \<Rightarrow> u8 list list" where
  "fips_blocks padded = map (\<lambda>i. take 64 (drop (64 * i) padded)) [0..<length padded div 64]"

definition fips_sha256 :: "u8 list \<Rightarrow> u8 list" where
  "fips_sha256 m =
     concat (map (\<lambda>w. big_endian_bytes 4 (unat w)) (foldl fips_block fips_H0 (fips_blocks (fips_pad m))))"

section \<open>The constants, evaluated\<close>

lemma root_bits_spec:
  assumes "0 < k" "r ^ k \<le> n" "n < (r + 2 ^ i) ^ k"
  shows "root_bits k n i r ^ k \<le> n \<and> n < Suc (root_bits k n i r) ^ k"
  using assms(2,3)
proof (induction i arbitrary: r)
  case 0
  then show ?case by simp
next
  case (Suc i)
  show ?case
  proof (cases "(r + 2 ^ i) ^ k \<le> n")
    case True
    have "r + 2 ^ i + 2 ^ i = r + 2 ^ Suc i" by simp
    with Suc.prems(2) have "n < (r + 2 ^ i + 2 ^ i) ^ k" by (simp only:)
    from Suc.IH [OF True this] True show ?thesis by simp
  next
    case False
    then show ?thesis using Suc.IH [of r] Suc.prems by simp
  qed
qed

text \<open>\<open>floor_root\<close> is the whole part of the root.\<close>

lemma floor_root_spec:
  assumes "0 < k" "n < (2 ^ 40) ^ k"
  shows "floor_root k n ^ k \<le> n \<and> n < Suc (floor_root k n) ^ k"
proof -
  have "0 ^ k \<le> n" "n < (0 + 2 ^ 40) ^ k" using assms by (simp_all add: power_0_left)
  from root_bits_spec [OF assms(1) this] show ?thesis by (simp only: floor_root_def)
qed

lemma floor_root_eqI:
  assumes "0 < k" "r ^ k \<le> n" "n < Suc r ^ k" "n < (2 ^ 40) ^ k"
  shows "floor_root k n = r"
proof -
  note s = floor_root_spec [OF assms(1,4)]
  have "\<not> Suc r \<le> floor_root k n"
    using power_mono [of "Suc r" "floor_root k n" k] s assms(3) by linarith
  moreover have "\<not> Suc (floor_root k n) \<le> r"
    using power_mono [of "Suc (floor_root k n)" r k] s assms(2) by linarith
  ultimately show ?thesis by linarith
qed

lemma is_prime_small:
  assumes "p < 324"
  shows "is_prime p \<longleftrightarrow> 2 \<le> p \<and> list_all (\<lambda>d. p mod d \<noteq> 0 \<or> p \<le> d) [2..<18]"
proof -
  have "\<exists>e. 2 \<le> e \<and> e < 18 \<and> e < p \<and> p mod e = 0" if d: "2 \<le> d" "d < p" "p mod d = 0" for d
  proof (cases "d < 18")
    case True
    with d show ?thesis by (intro exI [of _ d]) simp
  next
    case False
    from d(3) obtain k where k: "p = d * k" by (meson dvdE mod_0_imp_dvd)
    have "k \<noteq> 0" "k \<noteq> 1" using d(1,2) k by auto
    then have "2 \<le> k" by simp
    moreover have "k < 18"
    proof (rule ccontr)
      assume "\<not> k < 18"
      with False have "18 * 18 \<le> d * k" by (intro mult_le_mono) simp_all
      with assms k show False by simp
    qed
    moreover have "k < p" using d(1) k \<open>2 \<le> k\<close> by simp
    moreover have "p mod k = 0" using k by simp
    ultimately show ?thesis by (intro exI [of _ k]) simp
  qed
  then have "list_all (\<lambda>d. p mod d \<noteq> 0) [2..<p] \<longleftrightarrow> list_all (\<lambda>d. p mod d \<noteq> 0 \<or> p \<le> d) [2..<18]"
    unfolding list_all_iff set_upt by (metis atLeastLessThan_iff not_le)
  then show ?thesis by (simp only: is_prime_def)
qed

lemma first_primes_list:
  "first_primes = [2, 3, 5, 7, 11, 13, 17, 19, 23, 29, 31, 37, 41, 43, 47, 53, 59, 61, 67, 71, 73, 79, 83, 89,
     97, 101, 103, 107, 109, 113, 127, 131, 137, 139, 149, 151, 157, 163, 167, 173, 179, 181, 191, 193, 197,
     199, 211, 223, 227, 229, 233, 239, 241, 251, 257, 263, 269, 271, 277, 281, 283, 293, 307, 311]"
  by (simp add: first_primes_def upt_rec_numeral is_prime_small)

text \<open>The way to evaluate a constant: its value is the root without the whole part \<open>w\<close>, when the power of
  the two together brackets the scaled number.\<close>

lemma fractional_bits_eqI:
  assumes "0 < k" "c < 2 ^ 32" "(w * 2 ^ 32 + c) ^ k \<le> p * 2 ^ (32 * k)"
    and "p * 2 ^ (32 * k) < Suc (w * 2 ^ 32 + c) ^ k" "p * 2 ^ (32 * k) < (2 ^ 40) ^ k"
  shows "fractional_bits k p = word_of_nat c"
proof -
  have "floor_root k (p * 2 ^ (32 * k)) = w * 2 ^ 32 + c" by (rule floor_root_eqI) (use assms in simp_all)
  moreover have "(w * 2 ^ 32 + c) mod 2 ^ 32 = c" using assms(2) by simp
  ultimately show ?thesis by (simp only: fractional_bits_def)
qed

end
