(* ===== verification/Sha256.thy ===== *)
theory Sha256
  imports Base64 Stream_Hash Fips_180_4
begin

text \<open>
  \<open>src/core/sha256.cpp\<close>: the streaming SHA-256 class and its hex form. Bytes are 8-bit words, the
  hash words 32-bit words that wrap, the length counter a 64-bit word. The invariant \<open>absorbed\<close> says
  what the object holds after a message; it makes the class an instance of \<open>stream_hash\<close>, so any way
  of cutting a message into \<open>update\<close> calls gives the digest of the whole that \<open>Fips_180_4\<close> defines without
  a definition of this file.
\<close>


section \<open>Code: the compression function\<close>

definition kBlockBytes :: nat where "kBlockBytes = 64"
definition kLengthSuffixBytes :: nat where "kLengthSuffixBytes = 8"
definition kPaddingStartByte :: u8 where "kPaddingStartByte = 0x80"

definition kRoundConstants :: "u32 list" where
  "kRoundConstants = concat [
    [0x428a2f98, 0x71374491, 0xb5c0fbcf, 0xe9b5dba5, 0x3956c25b, 0x59f111f1, 0x923f82a4],
    [0xab1c5ed5, 0xd807aa98, 0x12835b01, 0x243185be, 0x550c7dc3, 0x72be5d74, 0x80deb1fe],
    [0x9bdc06a7, 0xc19bf174, 0xe49b69c1, 0xefbe4786, 0x0fc19dc6, 0x240ca1cc, 0x2de92c6f],
    [0x4a7484aa, 0x5cb0a9dc, 0x76f988da, 0x983e5152, 0xa831c66d, 0xb00327c8, 0xbf597fc7],
    [0xc6e00bf3, 0xd5a79147, 0x06ca6351, 0x14292967, 0x27b70a85, 0x2e1b2138, 0x4d2c6dfc],
    [0x53380d13, 0x650a7354, 0x766a0abb, 0x81c2c92e, 0x92722c85, 0xa2bfe8a1, 0xa81a664b],
    [0xc24b8b70, 0xc76c51a3, 0xd192e819, 0xd6990624, 0xf40e3585, 0x106aa070, 0x19a4c116],
    [0x1e376c08, 0x2748774c, 0x34b0bcb5, 0x391c0cb3, 0x4ed8aa4a, 0x5b9cca4f, 0x682e6ff3],
    [0x748f82ee, 0x78a5636f, 0x84c87814, 0x8cc70208, 0x90befffa, 0xa4506ceb, 0xbef9a3f7],
    [0xc67178f2]]"

definition rotate_right :: "u32 \<Rightarrow> nat \<Rightarrow> u32" where
  "rotate_right v bits = drop_bit bits v OR push_bit (32 - bits) v"

text \<open>The big-endian 32-bit word of four bytes.\<close>

definition be32 :: "u8 list \<Rightarrow> nat \<Rightarrow> u32" where
  "be32 bytes byte_offset =
     push_bit 24 (ucast (bytes ! byte_offset)) OR push_bit 16 (ucast (bytes ! (byte_offset + 1)))
       OR push_bit 8 (ucast (bytes ! (byte_offset + 2))) OR ucast (bytes ! (byte_offset + 3))"

definition extend_schedule :: "u32 list \<Rightarrow> nat \<Rightarrow> u32 list" where
  "extend_schedule schedule word_index =
     (let previous_15 = schedule ! (word_index - 15);
          previous_2 = schedule ! (word_index - 2);
          sigma0 = rotate_right previous_15 7 XOR rotate_right previous_15 18 XOR drop_bit 3 previous_15;
          sigma1 = rotate_right previous_2 17 XOR rotate_right previous_2 19 XOR drop_bit 10 previous_2
      in schedule @ [schedule ! (word_index - 16) + sigma0 + schedule ! (word_index - 7) + sigma1])"

definition message_schedule :: "u8 list \<Rightarrow> u32 list" where
  "message_schedule block =
     foldl extend_schedule (map (\<lambda>word_index. be32 block (word_index * 4)) [0..<16]) [16..<64]"

fun sha256_round ::
  "u32 list \<Rightarrow> u32 \<times> u32 \<times> u32 \<times> u32 \<times> u32 \<times> u32 \<times> u32 \<times> u32 \<Rightarrow> nat
     \<Rightarrow> u32 \<times> u32 \<times> u32 \<times> u32 \<times> u32 \<times> u32 \<times> u32 \<times> u32" where
  "sha256_round schedule (a, b, c, d, e, f, g, h) round =
     (let big_sigma1 = rotate_right e 6 XOR rotate_right e 11 XOR rotate_right e 25;
          chosen = (e AND f) XOR ((NOT e) AND g);
          temporary1 = h + big_sigma1 + chosen + kRoundConstants ! round + schedule ! round;
          big_sigma0 = rotate_right a 2 XOR rotate_right a 13 XOR rotate_right a 22;
          majority = (a AND b) XOR (a AND c) XOR (b AND c);
          temporary2 = big_sigma0 + majority
      in (temporary1 + temporary2, a, b, c, d + temporary1, e, f, g))"

definition compress_block :: "u32 list \<Rightarrow> u8 list \<Rightarrow> u32 list" where
  "compress_block state block =
     (let schedule = message_schedule block;
          (a, b, c, d, e, f, g, h) =
            foldl (sha256_round schedule)
              (state ! 0, state ! 1, state ! 2, state ! 3, state ! 4, state ! 5, state ! 6, state ! 7)
              [0..<64]
      in [state ! 0 + a, state ! 1 + b, state ! 2 + c, state ! 3 + d,
          state ! 4 + e, state ! 5 + f, state ! 6 + g, state ! 7 + h])"

text \<open>The loop over the whole blocks of a buffer: the hash state after them, and the bytes left.\<close>

function compress_blocks :: "(u32 list \<Rightarrow> u8 list \<Rightarrow> u32 list) \<Rightarrow> u32 list \<Rightarrow> u8 list \<Rightarrow> u32 list \<times> u8 list" where
  "compress_blocks compress state bytes =
     (if kBlockBytes \<le> length bytes
      then compress_blocks compress (compress state (take kBlockBytes bytes)) (drop kBlockBytes bytes)
      else (state, bytes))"
  by pat_completeness auto
termination
  by (relation "measure (\<lambda>(_, _, bytes). length bytes)") (auto simp: kBlockBytes_def)

declare compress_blocks.simps [simp del]

section \<open>Code: the streaming class\<close>

record sha256_state =
  sha_state :: "u32 list"
  block :: "u8 list"
  buffered_bytes :: nat
  total_bytes :: u64

definition sha256_init :: sha256_state where
  "sha256_init =
     \<lparr>sha_state = [0x6a09e667, 0xbb67ae85, 0x3c6ef372, 0xa54ff53a, 0x510e527f, 0x9b05688c, 0x1f83d9ab, 0x5be0cd19],
      block = replicate 64 0, buffered_bytes = 0, total_bytes = 0\<rparr>"

text \<open>\<open>copy_n(src, ..., dest + at)\<close>: overwrite a run of the fixed-size block.\<close>

definition copy_into :: "'a list \<Rightarrow> nat \<Rightarrow> 'a list \<Rightarrow> 'a list" where
  "copy_into dest at src = take at dest @ src @ drop (at + length src) dest"

text \<open>\<open>update\<close> first tops up a partially filled block (\<open>sha256_top_up\<close> returns the new state and how
  many bytes it took), then compresses whole blocks straight from the input, then buffers the rest.\<close>

definition sha256_top_up :: "sha256_state \<Rightarrow> u8 list \<Rightarrow> sha256_state \<times> nat" where
  "sha256_top_up s bytes =
     (if buffered_bytes s > 0
      then
        (let taken = min (kBlockBytes - buffered_bytes s) (length bytes);
             s' = s\<lparr>block := copy_into (block s) (buffered_bytes s) (take taken bytes),
                    buffered_bytes := buffered_bytes s + taken\<rparr>
         in (if buffered_bytes s' = kBlockBytes
             then s'\<lparr>sha_state := compress_block (sha_state s') (block s'), buffered_bytes := 0\<rparr>
             else s', taken))
      else (s, 0))"

definition sha256_update :: "sha256_state \<Rightarrow> u8 list \<Rightarrow> sha256_state" where
  "sha256_update s bytes =
     (let s1 = s\<lparr>total_bytes := total_bytes s + of_nat (length bytes)\<rparr>;
          (s2, offset) = sha256_top_up s1 bytes;
          (state, rest) = compress_blocks compress_block (sha_state s2) (drop offset bytes);
          s3 = s2\<lparr>sha_state := state\<rparr>
      in if length rest > 0
         then s3\<lparr>block := copy_into (block s3) 0 rest, buffered_bytes := length rest\<rparr>
         else s3)"

text \<open>Zero bytes up to the place of the length suffix.\<close>

function pad_zeros :: "u8 list \<Rightarrow> u8 list" where
  "pad_zeros tail =
     (if length tail mod kBlockBytes \<noteq> kBlockBytes - kLengthSuffixBytes
      then pad_zeros (tail @ [0]) else tail)"
  by pat_completeness auto
termination
proof (relation "measure (\<lambda>tail. (120 - length tail mod 64) mod 64)", goal_cases)
  case 1
  then show ?case by simp
next
  case (2 t)
  define m where "m = length t mod 64"
  from 2 have m: "m \<noteq> 56" "m < 64" by (simp_all add: kBlockBytes_def kLengthSuffixBytes_def m_def)
  have "(length t + 1) mod 64 = (if m = 63 then 0 else m + 1)"
    by (simp add: m_def mod_Suc)
  moreover have "(120 - (if m = 63 then 0 else m + 1)) mod 64 < (120 - m) mod 64"
  proof (cases "m < 56")
    case True
    then have "(120 - m) mod 64 = 56 - m" and "(120 - (m + 1)) mod 64 = 56 - (m + 1)"
      by (simp_all add: mod_if)
    with True show ?thesis by simp
  next
    case False
    with m have "(120 - m) mod 64 = 120 - m" by simp
    with False m show ?thesis by auto
  qed
  ultimately show ?case by (simp add: m_def)
qed

declare pad_zeros.simps [simp del]

definition be64_bytes :: "u64 \<Rightarrow> u8 list" where
  "be64_bytes v = map (\<lambda>shift. ucast (drop_bit shift v)) [56, 48, 40, 32, 24, 16, 8, 0]"

definition be32_bytes :: "u32 \<Rightarrow> u8 list" where
  "be32_bytes v = [ucast (drop_bit 24 v), ucast (drop_bit 16 v), ucast (drop_bit 8 v), ucast v]"

definition sha256_digest :: "sha256_state \<Rightarrow> u8 list" where
  "sha256_digest s =
     (let tail = take (buffered_bytes s) (block s) @ [kPaddingStartByte];
          message_bit_length = total_bytes s * 8;
          padded = pad_zeros tail @ be64_bytes message_bit_length;
          state = fst (compress_blocks compress_block (sha_state s) padded)
      in concat (map be32_bytes state))"

definition sha256 :: "u8 list \<Rightarrow> u8 list" where
  "sha256 bytes = sha256_digest (sha256_update sha256_init bytes)"

section \<open>Specification\<close>

text \<open>The state after a message: the blocks compressed, the bytes of the last, partial block held in
  the buffer (whatever older bytes lie behind them) and the length counted modulo \<open>2^64\<close>.\<close>

definition absorbed :: "sha256_state \<Rightarrow> u8 list \<Rightarrow> bool" where
  "absorbed s m \<longleftrightarrow>
     length (block s) = 64 \<and> buffered_bytes s = length m mod 64 \<and>
     take (buffered_bytes s) (block s) = snd (compress_blocks compress_block (sha_state sha256_init) m) \<and>
     sha_state s = fst (compress_blocks compress_block (sha_state sha256_init) m) \<and>
     total_bytes s = of_nat (length m)"

section \<open>Lemmas\<close>

lemma compress_blocks_short: "length xs < 64 \<Longrightarrow> compress_blocks c h xs = (h, xs)"
  by (simp add: compress_blocks.simps [of c h xs] kBlockBytes_def)

lemma compress_blocks_step:
  "64 \<le> length xs \<Longrightarrow> compress_blocks c h xs = compress_blocks c (c h (take 64 xs)) (drop 64 xs)"
  by (simp add: compress_blocks.simps [of c h xs] kBlockBytes_def)

lemma compress_blocks_append:
  "compress_blocks c h (xs @ ys) =
     (let (h', rest) = compress_blocks c h xs in compress_blocks c h' (rest @ ys))"
proof (induction c h xs rule: compress_blocks.induct)
  case (1 c h xs)
  show ?case
  proof (cases "64 \<le> length xs")
    case True
    with 1 show ?thesis by (simp add: compress_blocks_step kBlockBytes_def)
  next
    case False
    then show ?thesis by (simp add: compress_blocks_short)
  qed
qed

lemma length_snd_compress_blocks: "length (snd (compress_blocks c h xs)) = length xs mod 64"
proof (induction c h xs rule: compress_blocks.induct)
  case (1 c h xs)
  show ?case
  proof (cases "64 \<le> length xs")
    case True
    with 1 show ?thesis by (simp add: compress_blocks_step kBlockBytes_def le_mod_geq)
  next
    case False
    then show ?thesis by (simp add: compress_blocks_short)
  qed
qed

lemma pad_zeros_eq:
  "pad_zeros t = t @ replicate ((120 - length t mod 64) mod 64) 0"
proof (induction t rule: pad_zeros.induct)
  case (1 t)
  define m where "m = length t mod 64"
  have m: "m < 64" by (simp add: m_def)
  show ?case
  proof (cases "m = 56")
    case True
    then show ?thesis
      by (simp add: pad_zeros.simps [of t] kBlockBytes_def kLengthSuffixBytes_def m_def)
  next
    case False
    have suc: "length (t @ [0]) mod 64 = (if m = 63 then 0 else m + 1)"
      by (simp add: m_def mod_Suc)
    have "(120 - m) mod 64 = Suc ((120 - (if m = 63 then 0 else m + 1)) mod 64)"
      using m False by (auto simp: mod_if)
    moreover have "pad_zeros t = pad_zeros (t @ [0])"
      using False by (simp add: pad_zeros.simps [of t] kBlockBytes_def kLengthSuffixBytes_def m_def)
    moreover have "pad_zeros (t @ [0]) = (t @ [0]) @ replicate ((120 - length (t @ [0]) mod 64) mod 64) 0"
      using 1 False by (simp add: kBlockBytes_def kLengthSuffixBytes_def m_def)
    ultimately show ?thesis
      unfolding suc by (simp add: m_def)
  qed
qed

section \<open>The code's pieces are those of the standard\<close>

lemma rotate_right_rotr:
  assumes "0 < n" "n < 32"
  shows "rotate_right v n = word_rotr n v"
proof (rule bit_word_eqI)
  fix i
  assume "i < LENGTH(32)"
  then have i: "i < 32" by simp
  show "bit (rotate_right v n) i \<longleftrightarrow> bit (word_rotr n v) i"
  proof (cases "i + n < 32")
    case True
    moreover have "\<not> 32 - n \<le> i" using True assms by simp
    ultimately show ?thesis using assms i
      by (simp add: rotate_right_def bit_or_iff bit_drop_bit_eq bit_push_bit_iff bit_word_rotr_iff add.commute)
  next
    case False
    then have "(i + n) mod 32 = i - (32 - n)" using i assms by (simp add: mod_if)
    moreover have "\<not> bit v (n + i)" using False bit_imp_le_length [of v "n + i"] by auto
    moreover have "32 - n \<le> i" using False by simp
    ultimately show ?thesis using False assms i
      by (simp add: rotate_right_def bit_or_iff bit_drop_bit_eq bit_push_bit_iff bit_word_rotr_iff)
  qed
qed

lemma u32_of_byte: "(ucast (b :: u8) :: u32) = word_of_nat (unat b)"
  by (rule unsigned_word_eqI [where 'a = nat]) (simp add: unsigned_ucast_eq)

lemma or_bytes:
  assumes "b < 256" "c < 256" "d < 256"
  shows "push_bit 24 a OR push_bit 16 b OR push_bit 8 c OR d = ((a * 256 + b) * 256 + c) * 256 + (d::nat)"
proof -
  have "push_bit 8 c OR d = c * 256 + d" using or_push_nat [of d 8 c] assms by simp
  moreover have "push_bit 16 b OR (c * 256 + d) = b * 65536 + (c * 256 + d)"
    using or_push_nat [of "c * 256 + d" 16 b] assms by simp
  moreover have "push_bit 24 a OR (b * 65536 + (c * 256 + d)) = a * 16777216 + (b * 65536 + (c * 256 + d))"
    using or_push_nat [of "b * 65536 + (c * 256 + d)" 24 a] assms by simp
  moreover have "\<dots> = ((a * 256 + b) * 256 + c) * 256 + d" by simp
  ultimately show ?thesis by (simp only: or.assoc)
qed

lemma be32_big_endian:
  assumes "n + 4 \<le> length bytes"
  shows "be32 bytes n = word_of_nat (big_endian (take 4 (drop n bytes)))"
proof -
  have lt: "unat x < 256" for x :: u8 using unsigned_less [of x, where ?'a = nat] by simp
  have i: "bytes ! (n + i) = drop n bytes ! i" for i using assms by simp
  from assms have "4 \<le> length (drop n bytes)" by simp
  then obtain a b c d rest where t: "drop n bytes = a # b # c # d # rest"
    by (metis Suc_le_length_iff numeral_eq_Suc pred_numeral_simps(2) eval_nat_numeral(2,3) BitM.simps)
  have "be32 bytes n = word_of_nat (push_bit 24 (unat a) OR push_bit 16 (unat b) OR push_bit 8 (unat c) OR unat d)"
    using i [of 0] i [of 1] i [of 2] i [of 3]
    by (simp add: be32_def t of_nat_or_eq of_nat_push_bit flip: u32_of_byte)
  also have "push_bit 24 (unat a) OR push_bit 16 (unat b) OR push_bit 8 (unat c) OR unat d
      = big_endian (take 4 (drop n bytes))"
    by (simp only: or_bytes lt t) (simp add: big_endian_def algebra_simps)
  finally show ?thesis .
qed

lemma chosen_Ch: "(x AND y) XOR (NOT x AND z) = Ch x y z"
  by (rule bit_word_eqI) (auto simp: Ch_def bit_simps)

lemma majority_Maj: "(x AND y) XOR (x AND z) XOR (y AND z) = Maj x y z"
  by (rule bit_word_eqI) (auto simp: Maj_def bit_simps)

lemma byte_of_shifted: "(ucast (drop_bit k v) :: u8) = word_of_nat (unat v div 2 ^ k mod 256)"
proof -
  have "unat (ucast (drop_bit k v) :: u8) = unat v div 2 ^ k mod 256"
    by (simp add: unsigned_ucast_eq unsigned_drop_bit_eq drop_bit_eq_div [where 'a = nat]
      take_bit_eq_mod [where 'a = nat] take_bit_nat_eq_self)
  then have "word_of_nat (unat (ucast (drop_bit k v) :: u8)) = (word_of_nat (unat v div 2 ^ k mod 256) :: u8)"
    by simp
  then show ?thesis by simp
qed

lemma be32_bytes_big_endian: "be32_bytes v = big_endian_bytes 4 (unat v)"
proof -
  have "[0..<4] = [0, 1, 2, 3::nat]" by code_simp
  then show ?thesis
    using byte_of_shifted [of 0 v] by (simp add: be32_bytes_def big_endian_bytes_def byte_of_shifted)
qed

definition whole_cube_root :: "nat \<Rightarrow> nat" where
  "whole_cube_root p = (if p < 8 then 1 else if p < 27 then 2 else if p < 64 then 3 else if p < 125 then 4
     else if p < 216 then 5 else 6)"

lemma kRoundConstants_bracket:
  "list_all2 (\<lambda>c p. (whole_cube_root p * 2 ^ 32 + unat c) ^ 3 \<le> p * 2 ^ 96 \<and>
     p * 2 ^ 96 < Suc (whole_cube_root p * 2 ^ 32 + unat c) ^ 3 \<and> p < 2 ^ 24) kRoundConstants first_primes"
  by (simp add: kRoundConstants_def first_primes_list whole_cube_root_def)

lemma kRoundConstants_fips:
  assumes "t < 64"
  shows "kRoundConstants ! t = fips_K t"
proof -
  have len: "length kRoundConstants = 64" by (simp add: kRoundConstants_def)
  let ?c = "kRoundConstants ! t" and ?p = "first_primes ! t"
  have b: "(whole_cube_root ?p * 2 ^ 32 + unat ?c) ^ 3 \<le> ?p * 2 ^ 96" "?p < 2 ^ 24"
    "?p * 2 ^ 96 < Suc (whole_cube_root ?p * 2 ^ 32 + unat ?c) ^ 3"
    using list_all2_nthD [OF kRoundConstants_bracket, of t] assms len by auto
  have "unat ?c < 2 ^ 32" using unsigned_less [of ?c, where ?'a = nat] by simp
  moreover have "?p * 2 ^ (32 * 3) < (2 ^ 40) ^ 3" using b(2) by simp
  ultimately have "fips_K t = word_of_nat (unat ?c)"
    unfolding fips_K_def using b(1,3) by (intro fractional_bits_eqI) simp_all
  then show ?thesis by simp
qed

lemma sha256_init_fips: "sha_state sha256_init = fips_H0"
proof -
  have root: "fractional_bits 2 p = word_of_nat c"
    if "c < 2 ^ 32" "(w * 2 ^ 32 + c) ^ 2 \<le> p * 2 ^ 64" "p * 2 ^ 64 < Suc (w * 2 ^ 32 + c) ^ 2" "p < 2 ^ 16"
    for w c p
    using that by (intro fractional_bits_eqI) simp_all
  have "fractional_bits 2 2 = word_of_nat 0x6a09e667" "fractional_bits 2 3 = word_of_nat 0xbb67ae85"
    by (rule root [where w = 1]; simp)+
  moreover have "fractional_bits 2 5 = word_of_nat 0x3c6ef372" "fractional_bits 2 7 = word_of_nat 0xa54ff53a"
    by (rule root [where w = 2]; simp)+
  moreover have "fractional_bits 2 11 = word_of_nat 0x510e527f" "fractional_bits 2 13 = word_of_nat 0x9b05688c"
    by (rule root [where w = 3]; simp)+
  moreover have "fractional_bits 2 17 = word_of_nat 0x1f83d9ab" "fractional_bits 2 19 = word_of_nat 0x5be0cd19"
    by (rule root [where w = 4]; simp)+
  ultimately show ?thesis by (simp add: sha256_init_def fips_H0_def first_primes_list)
qed

lemma message_schedule_fips:
  assumes "length M = 64"
  shows "message_schedule M = map (fips_W M) [0..<64]"
proof -
  have step: "extend_schedule (map (fips_W M) [0..<t]) t = map (fips_W M) [0..<Suc t]" if "16 \<le> t" for t
    using that
    by (simp add: extend_schedule_def Let_def rotate_right_rotr fips_W.simps [of M t] sigma0_def sigma1_def add_ac)
  have "foldl extend_schedule (map (fips_W M) [0..<16]) [16..<n] = map (fips_W M) [0..<n]" if "16 \<le> n" for n
    using that
  proof (induction n rule: nat_induct_at_least)
    case (Suc n)
    then show ?case using step [of n] by simp
  qed simp
  then have all: "foldl extend_schedule (map (fips_W M) [0..<16]) [16..<64] = map (fips_W M) [0..<64]"
    by (simp del: upt_rec_numeral)
  have "map (\<lambda>i. be32 M (i * 4)) [0..<16] = map (fips_W M) [0..<16]"
    using assms by (intro map_cong refl) (simp add: be32_big_endian fips_W.simps mult.commute)
  then show ?thesis
    unfolding message_schedule_def by (simp only: all)
qed

lemma length_fips_vars: "length H = 8 \<Longrightarrow> length (fips_vars M H t) = 8"
  by (induction t) (auto simp: Let_def split: list.splits)

lemma eight: "length xs = 8 \<Longrightarrow> \<exists>a b c d e f g h. xs = [a, b, c, d, e, f, g, h]"
  by (auto simp: numeral_eq_Suc length_Suc_conv)

lemma compress_block_fips:
  assumes "length M = 64" "length H = 8"
  shows "compress_block H M = fips_block H M"
proof -
  obtain a b c d e f g h where H: "H = [a, b, c, d, e, f, g, h]" using eight [OF assms(2)] by auto
  let ?list = "\<lambda>(a, b, c, d, e, f, g, h). [a, b, c, d, e, f, g, h]"
  have sched: "message_schedule M ! t = fips_W M t" if "t < 64" for t
    using that by (simp add: message_schedule_fips assms(1))
  have step: "fips_vars M H (Suc t) = ?list (sha256_round (message_schedule M) v t)"
    if "fips_vars M H t = ?list v" "t < 64" for v t
    using that
    by (cases v rule: prod_cases7)
      (auto simp add: Let_def sched kRoundConstants_fips rotate_right_rotr Sigma0_def Sigma1_def chosen_Ch majority_Maj)
  have "fips_vars M H n = ?list (foldl (sha256_round (message_schedule M)) (a, b, c, d, e, f, g, h) [0..<n])"
    if "n \<le> 64" for n
    using that
  proof (induction n)
    case 0
    then show ?case by (simp add: H)
  next
    case (Suc n)
    then show ?case using step [of n] by simp
  qed
  from this [OF order_refl] have all:
    "fips_vars M H 64 = ?list (foldl (sha256_round (message_schedule M)) (a, b, c, d, e, f, g, h) [0..<64])" .
  obtain v where v: "foldl (sha256_round (message_schedule M)) (a, b, c, d, e, f, g, h) [0..<64] = v" by simp
  have start: "(H ! 0, H ! 1, H ! 2, H ! 3, H ! 4, H ! 5, H ! 6, H ! 7) = (a, b, c, d, e, f, g, h)"
    by (simp add: H)
  show ?thesis
    unfolding compress_block_def fips_block_def Let_def start all v
    by (cases v rule: prod_cases7) (auto simp: H add.commute)
qed

lemma length_fips_block: "length H = 8 \<Longrightarrow> length (fips_block H M) = 8"
  by (simp add: fips_block_def length_fips_vars)

lemma fips_blocks_step: "64 \<le> length xs \<Longrightarrow> fips_blocks xs = take 64 xs # fips_blocks (drop 64 xs)"
proof -
  assume le: "64 \<le> length xs"
  then have d: "length xs div 64 = Suc ((length xs - 64) div 64)" by (simp add: le_div_geq)
  show ?thesis
    unfolding fips_blocks_def length_drop d upt_conv_Cons [OF zero_less_Suc] map_Suc_upt [symmetric]
    by (simp add: add.commute)
qed

lemma compress_blocks_fips:
  "64 dvd length xs \<Longrightarrow> length H = 8 \<Longrightarrow>
     fst (compress_blocks compress_block H xs) = foldl fips_block H (fips_blocks xs)"
proof (induction "length xs" arbitrary: xs H rule: less_induct)
  case less
  show ?case
  proof (cases "64 \<le> length xs")
    case True
    then have "64 dvd length (drop 64 xs)" using less.prems(1) by (simp add: dvd_diff_nat)
    with True less show ?thesis
      by (simp add: compress_blocks_step fips_blocks_step compress_block_fips length_fips_block)
  next
    case False
    with less.prems(1) have "xs = []" by (auto dest: dvd_imp_le)
    then show ?thesis by (simp add: compress_blocks_short fips_blocks_def)
  qed
qed

lemma byte_of_shifted_u64:
  "k \<le> 56 \<Longrightarrow> (ucast (drop_bit k (word_of_nat n :: u64)) :: u8) = word_of_nat (n div 2 ^ k mod 256)"
proof -
  assume "k \<le> 56"
  then have "(ucast (drop_bit k (word_of_nat n :: u64)) :: u8) = word_of_nat (take_bit 8 (drop_bit k n))"
    by (intro bit_word_eqI) (simp add: bit_simps add.commute)
  then show ?thesis by (simp add: take_bit_eq_mod drop_bit_eq_div)
qed

lemma be64_bytes_big_endian: "be64_bytes (word_of_nat n) = big_endian_bytes 8 n"
proof -
  have "[0..<8] = [0, 1, 2, 3, 4, 5, 6, 7::nat]" by code_simp
  then show ?thesis
    using byte_of_shifted_u64 [of 0 n]
    by (simp add: be64_bytes_def big_endian_bytes_def byte_of_shifted_u64)
qed

text \<open>The padding of the standard, counted in bytes.\<close>

lemma fips_pad_bytes:
  "fips_pad m = m @ 0x80 # replicate ((119 - length m mod 64) mod 64) 0 @ be64_bytes (of_nat (8 * length m))"
proof -
  define k q where "k = length m mod 64" and "q = length m div 64"
  then have len: "length m = 64 * q + k" and k: "k < 64" by simp_all
  have "448 - (int (8 * length m) + 1) = (447 - 8 * int k) + 512 * (- int q)" by (simp add: len)
  then have mod: "(448 - (int (8 * length m) + 1)) mod 512 = (447 - 8 * int k) mod 512"
    by (simp only: mod_mult_self2)
  have "(fips_zero_bits (8 * length m) - 7) div 8 = (119 - k) mod 64"
  proof (cases "k < 56")
    case True
    then have "(447 - 8 * int k) mod 512 = int (447 - 8 * k)" by (simp add: of_nat_diff)
    then have "fips_zero_bits (8 * length m) = 447 - 8 * k" by (simp only: fips_zero_bits_def mod nat_int)
    moreover have "(447 - 8 * k - 7) div 8 = 55 - k" using True by simp
    moreover have "(119 - k) mod 64 = 55 - k" using True by (simp add: le_mod_geq)
    ultimately show ?thesis by simp
  next
    case False
    have "(447 - 8 * int k) mod 512 = (447 - 8 * int k + 512) mod 512" by (simp only: mod_add_self2)
    also have "\<dots> = int (959 - 8 * k)" using False k by (simp add: of_nat_diff)
    finally have "fips_zero_bits (8 * length m) = 959 - 8 * k" by (simp only: fips_zero_bits_def mod nat_int)
    moreover have "(959 - 8 * k - 7) div 8 = 119 - k" using False k by simp
    ultimately show ?thesis using False by simp
  qed
  then show ?thesis
    unfolding fips_pad_def Let_def be64_bytes_big_endian k_def by simp
qed

lemma fips_pad_dvd: "64 dvd length (fips_pad m)"
proof -
  define k q where "k = length m mod 64" and "q = length m div 64"
  then have len: "length m = 64 * q + k" and k: "k < 64" by simp_all
  have "length (fips_pad m) = 64 * q + k + 1 + (119 - k) mod 64 + 8"
    unfolding fips_pad_bytes k_def [symmetric] by (simp add: be64_bytes_def len)
  moreover have "64 dvd 64 * q + k + 1 + (119 - k) mod 64 + 8"
  proof (cases "k < 56")
    case True
    then have "64 * q + k + 1 + (119 - k) mod 64 + 8 = 64 * (q + 1)" by (simp add: le_mod_geq)
    then show ?thesis by simp
  next
    case False
    then have "64 * q + k + 1 + (119 - k) mod 64 + 8 = 64 * (q + 2)" using k by simp
    then show ?thesis by simp
  qed
  ultimately show ?thesis by simp
qed

text \<open>The digest of the standard, computed with the pieces of the code.\<close>

lemma fips_sha256_code:
  "fips_sha256 m =
     concat (map be32_bytes (fst (compress_blocks compress_block (sha_state sha256_init) (fips_pad m))))"
proof -
  have len: "length fips_H0 = 8" by (simp add: fips_H0_def first_primes_list)
  have "be32_bytes = (\<lambda>w. big_endian_bytes 4 (unat w))" by (rule ext) (rule be32_bytes_big_endian)
  then show ?thesis
    unfolding fips_sha256_def sha256_init_fips compress_blocks_fips [OF fips_pad_dvd len] by simp
qed

section \<open>The streaming class computes it\<close>

lemma absorbed_init: "absorbed sha256_init []"
  by (simp add: absorbed_def sha256_init_def compress_blocks_short)

abbreviation held :: "sha256_state \<Rightarrow> u8 list" where
  "held s \<equiv> take (buffered_bytes s) (block s)"

lemma top_up:
  assumes "length (block s) = 64" and "buffered_bytes s < 64"
    and top: "sha256_top_up s b = (s', off)"
  shows "length (block s') = 64" and "total_bytes s' = total_bytes s"
    and "buffered_bytes s' < 64" and "buffered_bytes s' = 0 \<or> drop off b = []"
    and "compress_blocks compress_block (sha_state s) (held s @ b)
           = compress_blocks compress_block (sha_state s') (held s' @ drop off b)"
proof -
  let ?k = "buffered_bytes s"
  have "length (block s') = 64 \<and> total_bytes s' = total_bytes s \<and> buffered_bytes s' < 64 \<and>
    (buffered_bytes s' = 0 \<or> drop off b = []) \<and>
    compress_blocks compress_block (sha_state s) (held s @ b)
      = compress_blocks compress_block (sha_state s') (held s' @ drop off b)"
  proof -
    consider (empty) "?k = 0" | (fill) "?k > 0" "64 \<le> ?k + length b" | (keep) "?k > 0" "?k + length b < 64"
      by linarith
    then show ?thesis
    proof cases
      case empty
      with top assms show ?thesis by (auto simp: sha256_top_up_def)
    next
      case fill
      define blk where "blk = held s @ take (64 - ?k) b"
      have lb: "length blk = 64" using assms fill by (simp add: blk_def)
      have s': "s' = s\<lparr>block := blk, buffered_bytes := 0, sha_state := compress_block (sha_state s) blk\<rparr>"
        and off: "off = 64 - ?k"
        using top assms fill by (auto simp: sha256_top_up_def kBlockBytes_def copy_into_def blk_def Let_def)
      have "held s @ b = blk @ drop off b"
        by (simp add: blk_def off)
      then have "compress_blocks compress_block (sha_state s) (held s @ b)
          = compress_blocks compress_block (compress_block (sha_state s) blk) (drop off b)"
        using lb by (simp add: compress_blocks_step)
      then show ?thesis using s' lb by simp
    next
      case keep
      then have s': "s' = s\<lparr>block := held s @ b @ drop (?k + length b) (block s), buffered_bytes := ?k + length b\<rparr>"
        and off: "off = length b"
        using top assms by (auto simp: sha256_top_up_def kBlockBytes_def copy_into_def Let_def)
      have "length (held s) = ?k" using assms by simp
      then show ?thesis using s' off keep assms by simp
    qed
  qed
  then show "length (block s') = 64" and "total_bytes s' = total_bytes s"
    and "buffered_bytes s' < 64" and "buffered_bytes s' = 0 \<or> drop off b = []"
    and "compress_blocks compress_block (sha_state s) (held s @ b)
           = compress_blocks compress_block (sha_state s') (held s' @ drop off b)"
    by blast+
qed

lemma update_held:
  assumes "length (block s) = 64" and "buffered_bytes s < 64"
  shows "length (block (sha256_update s b)) = 64 \<and>
    total_bytes (sha256_update s b) = total_bytes s + of_nat (length b) \<and>
    (sha_state (sha256_update s b), held (sha256_update s b))
      = compress_blocks compress_block (sha_state s) (held s @ b) \<and>
    buffered_bytes (sha256_update s b) < 64"
proof -
  define s1 where "s1 = s\<lparr>total_bytes := total_bytes s + of_nat (length b)\<rparr>"
  obtain s2 off where top: "sha256_top_up s1 b = (s2, off)" by fastforce
  obtain h' r' where cb: "compress_blocks compress_block (sha_state s2) (drop off b) = (h', r')" by fastforce
  have "length (block s1) = 64" and "buffered_bytes s1 < 64" using assms by (simp_all add: s1_def)
  note t = top_up [OF this top]
  have eq: "compress_blocks compress_block (sha_state s) (held s @ b)
      = compress_blocks compress_block (sha_state s2) (held s2 @ drop off b)"
    using t(5) by (simp add: s1_def)
  have upd: "sha256_update s b = (if length r' > 0
      then s2\<lparr>sha_state := h', block := copy_into (block s2) 0 r', buffered_bytes := length r'\<rparr>
      else s2\<lparr>sha_state := h'\<rparr>)"
    by (simp add: sha256_update_def s1_def [symmetric] top cb)
  have r': "length r' < 64"
    using length_snd_compress_blocks [of compress_block "sha_state s2" "drop off b"] cb
    by (metis mod_less_divisor snd_conv zero_less_numeral)
  from t(4) show ?thesis
  proof
    assume "buffered_bytes s2 = 0"
    then show ?thesis
      using eq cb upd r' t(1,2) by (auto simp: copy_into_def s1_def)
  next
    assume d: "drop off b = []"
    then have "r' = []" and "h' = sha_state s2" using cb by (simp_all add: compress_blocks_short)
    then show ?thesis
      using eq upd d t by (simp add: compress_blocks_short s1_def)
  qed
qed

lemma absorbed_update:
  assumes "absorbed s m"
  shows "absorbed (sha256_update s b) (m @ b)"
proof -
  let ?H = "sha_state sha256_init"
  from assms have "length (block s) = 64" and buf: "buffered_bytes s = length m mod 64"
    and cb: "compress_blocks compress_block ?H m = (sha_state s, held s)"
    and tot: "total_bytes s = of_nat (length m)"
    by (auto simp: absorbed_def)
  moreover from buf have "buffered_bytes s < 64" by simp
  ultimately have u: "length (block (sha256_update s b)) = 64"
    "total_bytes (sha256_update s b) = of_nat (length m) + of_nat (length b)"
    "(sha_state (sha256_update s b), held (sha256_update s b))
      = compress_blocks compress_block ?H (m @ b)"
    "buffered_bytes (sha256_update s b) < 64"
    using update_held [of s b] by (simp_all add: compress_blocks_append [of _ _ m])
  have "length (held (sha256_update s b)) = length (m @ b) mod 64"
    using length_snd_compress_blocks [of compress_block ?H "m @ b"] u(3) by (metis snd_conv)
  then have "buffered_bytes (sha256_update s b) = length (m @ b) mod 64"
    using u(1,4) by simp
  then show ?thesis
    using u(1,2) u(3) [symmetric] by (simp add: absorbed_def)
qed

lemma absorbed_digest:
  assumes "absorbed s m"
  shows "sha256_digest s = fips_sha256 m"
proof -
  let ?H = "sha_state sha256_init"
    and ?pad = "0x80 # replicate ((119 - length m mod 64) mod 64) 0 @ be64_bytes (of_nat (8 * length m))"
  from assms have l: "length (block s) = 64" and buf: "buffered_bytes s = length m mod 64"
    and cb: "compress_blocks compress_block ?H m = (sha_state s, held s)"
    and tot: "total_bytes s = of_nat (length m)"
    by (auto simp: absorbed_def)
  have "length (held s) = length m mod 64" using l buf by simp
  then have "length (held s @ [kPaddingStartByte]) mod 64 = Suc (length m mod 64) mod 64"
    by simp
  moreover have "(120 - Suc (length m mod 64) mod 64) mod 64 = (119 - length m mod 64) mod (64::nat)"
  proof (cases "length m mod 64 = 63")
    case True
    then show ?thesis by simp
  next
    case False
    moreover have "length m mod 64 < 64" by simp
    ultimately have "Suc (length m mod 64) < 64" by linarith
    then show ?thesis by simp
  qed
  ultimately have pad: "pad_zeros (held s @ [kPaddingStartByte]) @ be64_bytes (total_bytes s * 8)
      = held s @ ?pad"
    by (simp add: pad_zeros_eq kPaddingStartByte_def tot mult.commute)
  have "sha256_digest s = concat (map be32_bytes
      (fst (compress_blocks compress_block (sha_state s) (held s @ ?pad))))"
    unfolding sha256_digest_def Let_def pad ..
  then show ?thesis
    by (simp add: fips_sha256_code fips_pad_bytes compress_blocks_append [of _ _ m] cb)
qed

interpretation sha256: stream_hash sha256_init sha256_update sha256_digest absorbed fips_sha256
  by unfold_locales (auto intro: absorbed_init absorbed_update absorbed_digest)

lemma sha256_eq_spec: "sha256 m = fips_sha256 m"
  using sha256.digest_feed [of "[m]"] by (simp add: sha256_def)

lemma length_compress_block [simp]: "length (compress_block h b) = 8"
proof -
  have "length (case p of (a, b, c, d, e, f, g, k) \<Rightarrow>
      [h ! 0 + a, h ! 1 + b, h ! 2 + c, h ! 3 + d, h ! 4 + e, h ! 5 + f, h ! 6 + g, h ! 7 + k]) = 8"
    for p :: "u32 \<times> u32 \<times> u32 \<times> u32 \<times> u32 \<times> u32 \<times> u32 \<times> u32"
    by (simp split: prod.split)
  then show ?thesis unfolding compress_block_def Let_def .
qed

lemma length_compress_blocks:
  "(\<And>h b. length (c h b) = n) \<Longrightarrow> length h = n \<Longrightarrow> length (fst (compress_blocks c h xs)) = n"
proof (induction c h xs rule: compress_blocks.induct)
  case (1 c h xs)
  show ?case
  proof (cases "64 \<le> length xs")
    case True
    with 1 show ?thesis by (simp add: compress_blocks_step kBlockBytes_def)
  next
    case False
    with 1 show ?thesis by (simp add: compress_blocks_short)
  qed
qed

lemma length_be32_concat: "length (concat (map be32_bytes ws)) = 4 * length ws"
  by (induction ws) (simp_all add: be32_bytes_def)

lemma length_fips_sha256 [simp]: "length (fips_sha256 m) = 32"
proof -
  have "length (sha_state sha256_init) = 8" by (simp add: sha256_init_def)
  then show ?thesis by (simp add: fips_sha256_code length_be32_concat length_compress_blocks)
qed

section \<open>The hexadecimal form\<close>

definition kSha256HexLength :: nat where "kSha256HexLength = 64"

fun to_hex :: "u8 list \<Rightarrow> string" where
  "to_hex [] = []"
| "to_hex (byte # digest) =
     ''0123456789abcdef'' ! unat (drop_bit 4 byte) # ''0123456789abcdef'' ! unat (byte AND 0x0f)
       # to_hex digest"

definition lowercase_hex_value :: "char \<Rightarrow> nat" where
  "lowercase_hex_value character =
     (if CHR ''0'' \<le> character \<and> character \<le> CHR ''9'' then of_char character - of_char CHR ''0''
      else if CHR ''a'' \<le> character \<and> character \<le> CHR ''f''
      then of_char character - of_char CHR ''a'' + 10
      else 16)"

fun hex_pairs :: "string \<Rightarrow> u8 list option" where
  "hex_pairs (h # l # hex) =
     (let high = lowercase_hex_value h; low = lowercase_hex_value l
      in if high > 15 \<or> low > 15 then None
         else map_option (\<lambda>digest. word_of_nat (push_bit 4 high OR low) # digest) (hex_pairs hex))"
| "hex_pairs _ = Some []"

definition sha256_from_hex :: "string \<Rightarrow> u8 list option" where
  "sha256_from_hex lowercase_hex =
     (if length lowercase_hex \<noteq> kSha256HexLength then None else hex_pairs lowercase_hex)"

lemma to_hex_Cons:
  "to_hex (b # d) = hex_digit_lower (unat b div 16) # hex_digit_lower (unat b mod 16) # to_hex d"
proof -
  have "take_bit 8 (unat b) = unat b"
    using unsigned_less [of b, where ?'a = nat] by (intro take_bit_nat_eq_self) simp
  then have "unat (drop_bit 4 b) = unat b div 16" "unat (b AND 15) = unat b mod 16"
    by (simp_all add: unsigned_and_eq unsigned_drop_bit_eq) (simp_all add: and_0x0F drop_bit_eq_div)
  then show ?thesis by (simp add: hex_digit_lower_def)
qed

declare to_hex.simps(2) [simp del]

lemma lowercase_hex_value_digit [simp]: "n < 16 \<Longrightarrow> lowercase_hex_value (hex_digit_lower n) = n"
proof -
  have "\<forall>n \<in> set [0..<16]. lowercase_hex_value (hex_digit_lower n) = n" by code_simp
  then show "n < 16 \<Longrightarrow> lowercase_hex_value (hex_digit_lower n) = n" by simp
qed

lemma lowercase_hex_value_le:
  assumes "lowercase_hex_value c \<le> 15"
  shows "hex_digit_lower (lowercase_hex_value c) = c"
proof -
  have "\<forall>c. lowercase_hex_value c \<le> 15 \<longrightarrow> hex_digit_lower (lowercase_hex_value c) = c"
    by code_simp
  with assms show ?thesis by blast
qed

lemma byte_of_nibbles:
  assumes "h < 16" and "l < 16"
  shows "unat (word_of_nat (push_bit 4 h OR l) :: u8) = h * 16 + l"
proof -
  have "push_bit 4 h OR l = h * 16 + l" using assms or_push_nat [of l 4 h] by simp
  moreover have "unat (word_of_nat n :: u8) = n" if "n < 256" for n
    using that by (simp add: unat_of_nat)
  ultimately show ?thesis using assms by (simp del: of_nat_add of_nat_mult)
qed

lemma unat_u8_div_16 [simp]: "unat (b :: u8) div 16 < 16"
  using unsigned_less [of b, where ?'a = nat] by (simp add: less_mult_imp_div_less)

lemma hex_pairs_to_hex: "hex_pairs (to_hex d) = Some d"
proof (induction d)
  case Nil
  then show ?case by simp
next
  case (Cons b d)
  have "word_of_nat (push_bit 4 (unat b div 16) OR unat b mod 16) = b"
    by (rule unsigned_word_eqI [where 'a = nat]) (simp only: byte_of_nibbles unat_u8_div_16, simp add: byte_of_nibbles)
  moreover have "unat b div 16 \<le> 15" using unat_u8_div_16 [of b] by linarith
  moreover have "unat b mod 16 \<le> 15" by (simp add: less_Suc_eq_le [symmetric])
  ultimately show ?case by (simp add: to_hex_Cons Cons Let_def not_less)
qed

lemma to_hex_hex_pairs:
  "hex_pairs t = Some d \<Longrightarrow> even (length t) \<Longrightarrow> to_hex d = t \<and> length t = 2 * length d"
proof (induction t arbitrary: d rule: hex_pairs.induct)
  case (1 h l hex)
  then obtain d' where v: "lowercase_hex_value h \<le> 15" "lowercase_hex_value l \<le> 15"
    and d': "hex_pairs hex = Some d'"
    and d: "d = word_of_nat (push_bit 4 (lowercase_hex_value h) OR lowercase_hex_value l) # d'"
    by (auto simp: Let_def not_less split: if_splits)
  have "to_hex d' = hex \<and> length hex = 2 * length d'"
    using 1 v d' by simp
  moreover have "hex_digit_lower ((x * 16 + y) div 16) = hex_digit_lower x \<and>
      hex_digit_lower ((x * 16 + y) mod 16) = hex_digit_lower y" if "y \<le> 15" for x y
    using that by simp
  ultimately show ?case
    using v by (simp add: d to_hex_Cons byte_of_nibbles lowercase_hex_value_le)
qed auto

interpretation sha256_hex: canonical_codec "\<lambda>d. length d = 32" to_hex sha256_from_hex
proof
  fix d :: "u8 list"
  assume "length d = 32"
  moreover have "length (to_hex d) = 2 * length d" for d by (induction d) (simp_all add: to_hex_Cons)
  ultimately show "sha256_from_hex (to_hex d) = Some d"
    by (simp add: sha256_from_hex_def kSha256HexLength_def hex_pairs_to_hex)
next
  fix t d
  assume "sha256_from_hex t = Some d"
  then show "length d = 32 \<and> to_hex d = t"
    using to_hex_hex_pairs [of t d]
    by (auto simp: sha256_from_hex_def kSha256HexLength_def split: if_splits)
qed

section \<open>A published answer\<close>

text \<open>Not only do the code and the standard as written down agree: on the message \<open>abc\<close> both give the digest the
  standard publishes (and \<open>tests/unit/test_sha256.cpp\<close> checks). The schedule and each sixteen rounds are evaluated on
  their own.\<close>

definition abc_block :: "u8 list" where
  "abc_block = [0x61, 0x62, 0x63, 0x80] @ replicate 59 0 @ [0x18]"

definition abc_schedule :: "u32 list" where
  "abc_schedule =
    [0x61626380, 0x00000000, 0x00000000, 0x00000000, 0x00000000, 0x00000000, 0x00000000, 0x00000000,
     0x00000000, 0x00000000, 0x00000000, 0x00000000, 0x00000000, 0x00000000, 0x00000000, 0x00000018,
     0x61626380, 0x000f0000, 0x7da86405, 0x600003c6, 0x3e9d7b78, 0x0183fc00, 0x12dcbfdb, 0xe2e2c38e,
     0xc8215c1a, 0xb73679a2, 0xe5bc3909, 0x32663c5b, 0x9d209d67, 0xec8726cb, 0x702138a4, 0xd3b7973b,
     0x93f5997f, 0x3b68ba73, 0xaff4ffc1, 0xf10a5c62, 0x0a8b3996, 0x72af830a, 0x9409e33e, 0x24641522,
     0x9f47bf94, 0xf0a64f5a, 0x3e246a79, 0x27333ba3, 0x0c4763f2, 0x840abf27, 0x7a290d5d, 0x065c43da,
     0xfb3e89cb, 0xcc7617db, 0xb9e66c34, 0xa9993667, 0x84badedd, 0xc21462bc, 0x1487472c, 0xb20f7a99,
     0xef57b9cd, 0xebe6b238, 0x9fe3095e, 0x78bc8d4b, 0xa43fcf15, 0x668b2ff8, 0xeeaba2cc, 0x12b1edeb]"

lemma abc_message_schedule: "message_schedule abc_block = abc_schedule"
  by code_simp

lemma abc_rounds_0:
  "foldl (sha256_round abc_schedule)
     (0x6a09e667, 0xbb67ae85, 0x3c6ef372, 0xa54ff53a,
      0x510e527f, 0x9b05688c, 0x1f83d9ab, 0x5be0cd19) [0..<16] =
     (0xb0fa238e, 0xc0645fde, 0xd932eb16, 0x87912990,
      0x07590dcd, 0x0b92f20c, 0x745a48de, 0x1e578218)"
  by code_simp

lemma abc_rounds_1:
  "foldl (sha256_round abc_schedule)
     (0xb0fa238e, 0xc0645fde, 0xd932eb16, 0x87912990,
      0x07590dcd, 0x0b92f20c, 0x745a48de, 0x1e578218) [16..<32] =
     (0x73b33bf5, 0xea992a22, 0xa0060b30, 0x363482c9,
      0xba591112, 0x0109ab3a, 0xade79437, 0x6112a3b7)"
  by code_simp

lemma abc_rounds_2:
  "foldl (sha256_round abc_schedule)
     (0x73b33bf5, 0xea992a22, 0xa0060b30, 0x363482c9,
      0xba591112, 0x0109ab3a, 0xade79437, 0x6112a3b7) [32..<48] =
     (0x4172328d, 0xa14c14b0, 0x72ab4b91, 0x26628815,
      0xfecf0bc6, 0xd57b94a9, 0xb7755da1, 0xa80f11f0)"
  by code_simp

lemma abc_rounds_3:
  "foldl (sha256_round abc_schedule)
     (0x4172328d, 0xa14c14b0, 0x72ab4b91, 0x26628815,
      0xfecf0bc6, 0xd57b94a9, 0xb7755da1, 0xa80f11f0) [48..<64] =
     (0x506e3058, 0xd39a2165, 0x04d24d6c, 0xb85e2ce9,
      0x5ef50f24, 0xfb121210, 0x948d25b6, 0x961f4894)"
  by code_simp

lemma sha256_abc:
  "to_hex (fips_sha256 (map u8_of_char ''abc'')) = ''ba7816bf8f01cfea414140de5dae2223b00361a396177a9cb410ff61f20015ad''"
proof -
  let ?v0 = "(0x6a09e667, 0xbb67ae85, 0x3c6ef372, 0xa54ff53a, 0x510e527f, 0x9b05688c, 0x1f83d9ab, 0x5be0cd19)"
  have bytes: "map u8_of_char ''abc'' = [0x61, 0x62, 0x63]" by code_simp
  have pad: "fips_pad [0x61, 0x62, 0x63] = abc_block"
    unfolding fips_pad_bytes abc_block_def by code_simp
  have "[0..<64] = [0..<16] @ [16..<32] @ [32..<48] @ [48..<64]" by code_simp
  then have "foldl (sha256_round abc_schedule) ?v0 [0..<64] =
      (0x506e3058, 0xd39a2165, 0x04d24d6c, 0xb85e2ce9, 0x5ef50f24, 0xfb121210, 0x948d25b6, 0x961f4894)"
    by (simp only: foldl_append abc_rounds_0 abc_rounds_1 abc_rounds_2 abc_rounds_3)
  then have "compress_block (sha_state sha256_init) abc_block =
      [0xba7816bf, 0x8f01cfea, 0x414140de, 0x5dae2223, 0xb00361a3, 0x96177a9c, 0xb410ff61, 0xf20015ad]"
    by (simp add: compress_block_def abc_message_schedule sha256_init_def)
  moreover have "length abc_block = 64" by (simp add: abc_block_def)
  ultimately have digest: "fips_sha256 [0x61, 0x62, 0x63] = concat (map be32_bytes
      [0xba7816bf, 0x8f01cfea, 0x414140de, 0x5dae2223, 0xb00361a3, 0x96177a9c, 0xb410ff61, 0xf20015ad])"
    by (simp only: fips_sha256_code pad) (simp add: compress_blocks_step compress_blocks_short)
  have "to_hex (concat (map be32_bytes
      [0xba7816bf, 0x8f01cfea, 0x414140de, 0x5dae2223, 0xb00361a3, 0x96177a9c, 0xb410ff61, 0xf20015ad])) =
    ''ba7816bf8f01cfea414140de5dae2223b00361a396177a9cb410ff61f20015ad''" by code_simp
  then show ?thesis by (simp only: bytes digest)
qed

section \<open>Properties\<close>

text \<open>C1: Streaming does not change the digest: however a message is cut into \<open>update\<close> calls (empty
  ones included), \<open>digest\<close> is the SHA-256 of the concatenation as \<open>Fips_180_4\<close> writes the standard
  down, and so is the one-shot function. The standard shares no definition with the code: its round constants and
  initial words are the fractional bits of roots of primes, its schedule is a recursion, its padding is
  counted in bits. On \<open>abc\<close> the digest is the published one.\<close>

theorem sha256_streaming:
  "sha256_digest (foldl sha256_update sha256_init chunks) = fips_sha256 (concat chunks) \<and>
   sha256 m = fips_sha256 m \<and>
   to_hex (sha256 (map u8_of_char ''abc'')) = ''ba7816bf8f01cfea414140de5dae2223b00361a396177a9cb410ff61f20015ad''"
  using sha256_abc by (simp only: sha256.digest_feed sha256_eq_spec simp_thms)

text \<open>A digest has one accepted spelling: \<open>sha256_from_hex\<close> accepts a text if and only if it is the
  64-character lower-case \<open>to_hex\<close> of a 32-byte digest, and returns that digest.\<close>

theorem sha256_hex_exact:
  "sha256_from_hex t = Some d \<longleftrightarrow> length d = 32 \<and> t = to_hex d"
  by (rule sha256_hex.dec_iff)

end
