(* ===== verification/File_Io.thy ===== *)
theory File_Io
  imports Sha256
begin

text \<open>
  \<open>src/core/file_io.cpp\<close>: bounded reads and the bounded whole-file digests. What the file system
  answers for a path is a \<open>disk_file\<close>: the size it reports (or an error), whether the file opens, the
  bytes a read delivers and whether reading ends in an error. The xxHash library is not part of
  the sources, so its reset, update and digest are parameters.
\<close>

section \<open>Code\<close>

record disk_file =
  declared_size :: "nat option"
  opens :: bool
  content :: string
  fails :: bool

definition kHashChunkBytes :: nat where "kHashChunkBytes = 64 * 1024"

record stream_outcome =
  bytes_streamed :: nat
  so_readable :: bool
  so_over_limit :: bool

text \<open>The read loop: a chunk is consumed once the running total is known to fit. The state is what
  the \<open>consume\<close> callback mutates.\<close>

function stream_chunks :: "('s \<Rightarrow> string \<Rightarrow> 's) \<Rightarrow> nat \<Rightarrow> nat \<Rightarrow> 's \<Rightarrow> string \<Rightarrow> (nat \<times> bool) \<times> 's" where
  "stream_chunks consume max_bytes streamed s bytes =
     (if bytes = [] then ((streamed, False), s)
      else (let chunk = take kHashChunkBytes bytes; streamed' = streamed + length chunk
            in if streamed' > max_bytes then ((0, True), s)
               else stream_chunks consume max_bytes streamed' (consume s chunk)
                      (drop kHashChunkBytes bytes)))"
  by pat_completeness auto
termination
  by (relation "measure (\<lambda>(_, _, _, _, bytes). length bytes)") (auto simp: kHashChunkBytes_def)

declare stream_chunks.simps [simp del]

definition stream_file_bounded ::
  "disk_file \<Rightarrow> nat \<Rightarrow> ('s \<Rightarrow> string \<Rightarrow> 's) \<Rightarrow> 's \<Rightarrow> stream_outcome \<times> 's" where
  "stream_file_bounded file max_bytes consume s =
     (if (case declared_size file of Some sz \<Rightarrow> sz > max_bytes | None \<Rightarrow> False)
      then (\<lparr>bytes_streamed = 0, so_readable = True, so_over_limit = True\<rparr>, s)
      else if \<not> opens file then (\<lparr>bytes_streamed = 0, so_readable = False, so_over_limit = False\<rparr>, s)
      else (case stream_chunks consume max_bytes 0 s (content file) of
              ((streamed, over), s') \<Rightarrow>
                if over then (\<lparr>bytes_streamed = 0, so_readable = True, so_over_limit = True\<rparr>, s')
                else if fails file
                then (\<lparr>bytes_streamed = 0, so_readable = False, so_over_limit = False\<rparr>, s')
                else (\<lparr>bytes_streamed = streamed, so_readable = True, so_over_limit = False\<rparr>, s')))"

record bounded_file_read =
  bytes :: string
  readable :: bool
  truncated :: bool

definition read_file_bounded :: "disk_file \<Rightarrow> nat \<Rightarrow> bounded_file_read" where
  "read_file_bounded file max_bytes =
     (if \<not> opens file then \<lparr>bytes = [], readable = False, truncated = False\<rparr>
      else (let bytes_to_read =
                  (case declared_size file of
                     Some sz \<Rightarrow> if sz < max_bytes then sz else max_bytes
                   | None \<Rightarrow> max_bytes)
            in \<lparr>bytes = take bytes_to_read (content file), readable = True,
                truncated = (bytes_to_read < length (content file))\<rparr>))"

definition read_first_line_bounded :: "disk_file \<Rightarrow> nat \<Rightarrow> string" where
  "read_first_line_bounded file max_bytes =
     (let file_read = read_file_bounded file max_bytes
      in if \<not> readable file_read then []
         else (case find_char CHR 0x0A (bytes file_read) of
                 Some newline \<Rightarrow> trimmed (take newline (bytes file_read))
               | None \<Rightarrow> trimmed (bytes file_read)))"

record bounded_file_digest =
  digest :: "u8 list"
  bytes_hashed :: nat
  digest_readable :: bool
  over_limit :: bool

definition sha256_file_bounded :: "disk_file \<Rightarrow> nat \<Rightarrow> bounded_file_digest" where
  "sha256_file_bounded file max_bytes =
     (let (outcome, hash) =
            stream_file_bounded file max_bytes
              (\<lambda>h chunk. sha256_update h (map u8_of_char chunk)) sha256_init
      in \<lparr>digest = (if so_readable outcome \<and> \<not> so_over_limit outcome
                    then sha256_digest hash else replicate 32 0),
          bytes_hashed = bytes_streamed outcome,
          digest_readable = so_readable outcome,
          over_limit = so_over_limit outcome\<rparr>)"

record bounded_file_fast_hash =
  fast_hash :: u64
  fast_bytes_hashed :: nat
  fast_readable :: bool
  fast_over_limit :: bool

text \<open>\<open>state = None\<close>: creating or resetting the xxHash state failed.\<close>

definition xxh3_file_bounded ::
  "'x option \<Rightarrow> ('x \<Rightarrow> string \<Rightarrow> 'x) \<Rightarrow> ('x \<Rightarrow> u64) \<Rightarrow> disk_file \<Rightarrow> nat \<Rightarrow> bounded_file_fast_hash" where
  "xxh3_file_bounded state xxh_update xxh_digest file max_bytes =
     (case state of
        None \<Rightarrow> \<lparr>fast_hash = 0, fast_bytes_hashed = 0, fast_readable = False, fast_over_limit = False\<rparr>
      | Some x \<Rightarrow>
          (let (outcome, x') = stream_file_bounded file max_bytes xxh_update x
           in \<lparr>fast_hash = (if so_readable outcome \<and> \<not> so_over_limit outcome then xxh_digest x' else 0),
               fast_bytes_hashed = bytes_streamed outcome,
               fast_readable = so_readable outcome,
               fast_over_limit = so_over_limit outcome\<rparr>))"

section \<open>Lemmas\<close>

text \<open>The loop accepts the file exactly when its whole length fits, and then has consumed all of it
  in pieces whose concatenation is the file.\<close>

lemma stream_chunks_fits:
  "streamed + length bs \<le> max_bytes \<Longrightarrow>
   \<exists>chunks. concat chunks = bs \<and>
     stream_chunks consume max_bytes streamed s bs = ((streamed + length bs, False), foldl consume s chunks)"
proof (induction consume max_bytes streamed s bs rule: stream_chunks.induct)
  case (1 consume max_bytes streamed s bs)
  show ?case
  proof (cases "bs = []")
    case True
    then show ?thesis
      by (intro exI [of _ "[]"]) (simp add: stream_chunks.simps [of consume max_bytes streamed s "[]"])
  next
    case False
    let ?c = "take kHashChunkBytes bs" and ?r = "drop kHashChunkBytes bs"
    have len: "length ?c + length ?r = length bs" by simp
    have "\<not> max_bytes < streamed + length ?c" using "1.prems" len by linarith
    moreover have "streamed + length ?c + length ?r \<le> max_bytes" using "1.prems" len by linarith
    ultimately obtain chunks where ch: "concat chunks = ?r"
      and eq: "stream_chunks consume max_bytes (streamed + length ?c) (consume s ?c) ?r
        = ((streamed + length ?c + length ?r, False), foldl consume (consume s ?c) chunks)"
      using "1.IH" [OF False refl refl] by blast
    have "stream_chunks consume max_bytes streamed s bs
        = stream_chunks consume max_bytes (streamed + length ?c) (consume s ?c) ?r"
      using False \<open>\<not> max_bytes < streamed + length ?c\<close>
      by (simp add: stream_chunks.simps [of consume max_bytes streamed s bs] Let_def)
    then show ?thesis
      using ch eq len by (intro exI [of _ "?c # chunks"]) (simp add: add.assoc)
  qed
qed

lemma stream_chunks_over:
  "max_bytes < streamed + length bs \<Longrightarrow> bs \<noteq> [] \<Longrightarrow>
   fst (stream_chunks consume max_bytes streamed s bs) = (0, True)"
proof (induction consume max_bytes streamed s bs rule: stream_chunks.induct)
  case (1 consume max_bytes streamed s bs)
  let ?c = "take kHashChunkBytes bs" and ?r = "drop kHashChunkBytes bs"
  show ?case
  proof (cases "max_bytes < streamed + length ?c")
    case True
    with "1.prems" show ?thesis
      by (simp add: stream_chunks.simps [of consume max_bytes streamed s bs] Let_def)
  next
    case False
    have "length ?c + length ?r = length bs" by simp
    with False "1.prems" have over: "max_bytes < streamed + length ?c + length ?r" by linarith
    then have "?r \<noteq> []" using False by (metis add.right_neutral list.size(3))
    with "1.IH" [OF "1.prems"(2) refl refl False over]
    have "fst (stream_chunks consume max_bytes (streamed + length ?c) (consume s ?c) ?r) = (0, True)" .
    with False "1.prems"(2) show ?thesis
      by (simp add: stream_chunks.simps [of consume max_bytes streamed s bs] Let_def)
  qed
qed

definition fits :: "disk_file \<Rightarrow> nat \<Rightarrow> bool" where
  "fits file max_bytes \<longleftrightarrow>
     opens file \<and> \<not> fails file \<and> length (content file) \<le> max_bytes \<and>
     (case declared_size file of Some sz \<Rightarrow> sz \<le> max_bytes | None \<Rightarrow> True)"

lemma stream_file_bounded_accepts:
  "so_readable (fst (stream_file_bounded file max_bytes consume s)) \<and>
   \<not> so_over_limit (fst (stream_file_bounded file max_bytes consume s)) \<longleftrightarrow> fits file max_bytes"
proof (cases "length (content file) \<le> max_bytes")
  case True
  then show ?thesis
    using stream_chunks_fits [of 0 "content file" max_bytes consume s]
    by (auto simp: stream_file_bounded_def fits_def split: option.splits)
next
  case False
  then have "content file \<noteq> []" by auto
  with False have "fst (stream_chunks consume max_bytes 0 s (content file)) = (0, True)"
    using stream_chunks_over [of max_bytes 0 "content file" consume s] by simp
  with False show ?thesis
    by (auto simp: stream_file_bounded_def fits_def split: option.splits prod.splits)
qed

lemma stream_file_bounded_result:
  assumes "fits file max_bytes"
  obtains chunks where "concat chunks = content file"
    and "stream_file_bounded file max_bytes consume s =
      (\<lparr>bytes_streamed = length (content file), so_readable = True, so_over_limit = False\<rparr>,
       foldl consume s chunks)"
proof -
  from assms have "0 + length (content file) \<le> max_bytes" by (simp add: fits_def)
  from stream_chunks_fits [OF this, of consume s] obtain chunks
    where c: "concat chunks = content file"
      and "stream_chunks consume max_bytes 0 s (content file) = ((length (content file), False), foldl consume s chunks)"
    by auto
  with assms have "stream_file_bounded file max_bytes consume s =
      (\<lparr>bytes_streamed = length (content file), so_readable = True, so_over_limit = False\<rparr>,
       foldl consume s chunks)"
    by (auto simp: stream_file_bounded_def fits_def split: option.splits)
  with c show thesis by (rule that)
qed

lemma foldl_map_consume:
  "foldl u s (map f chunks) = foldl (\<lambda>h chunk. u h (f chunk)) s chunks"
  by (induction chunks arbitrary: s) auto

lemma stream_outcome_independent:
  "fst (stream_file_bounded file max_bytes c1 s1) = fst (stream_file_bounded file max_bytes c2 s2)"
proof -
  have "fst (stream_chunks c1 max_bytes n s1 bs) = fst (stream_chunks c2 max_bytes n s2 bs)" for n bs
  proof (induction c1 max_bytes n s1 bs arbitrary: s2 rule: stream_chunks.induct)
    case (1 c1 max_bytes n s1 bs)
    then show ?case
      by (simp add: stream_chunks.simps [of c1 max_bytes n s1 bs] stream_chunks.simps [of c2 max_bytes n s2 bs] Let_def)
  qed
  from this [of 0 "content file"] show ?thesis
    by (auto simp: stream_file_bounded_def split: prod.splits)
qed

section \<open>Properties\<close>

text \<open>Whole file or nothing: \<open>sha256_file_bounded\<close> reports a digest exactly when the file opens, is
  read without error and fits the cap, and the digest is then the SHA-256 of all its bytes, however
  the reads cut it; in every other case the digest is the empty one, never that of a prefix.\<close>

theorem sha256_file_whole_or_nothing:
  "let r = sha256_file_bounded file max_bytes
   in (digest_readable r \<and> \<not> over_limit r \<longleftrightarrow> fits file max_bytes) \<and>
      digest r = (if fits file max_bytes then fips_sha256 (map u8_of_char (content file)) else replicate 32 0) \<and>
      (if fits file max_bytes then bytes_hashed r = length (content file) else bytes_hashed r = 0)"
proof (cases "fits file max_bytes")
  case True
  let ?u = "\<lambda>h chunk. sha256_update h (map u8_of_char chunk)"
  obtain chunks where c: "concat chunks = content file"
    and s: "stream_file_bounded file max_bytes ?u sha256_init =
      (\<lparr>bytes_streamed = length (content file), so_readable = True, so_over_limit = False\<rparr>,
       foldl ?u sha256_init chunks)"
    by (rule stream_file_bounded_result [OF True])
  have "sha256_digest (foldl ?u sha256_init chunks) = fips_sha256 (map u8_of_char (content file))"
    using sha256.digest_feed [of "map (map u8_of_char) chunks"]
    by (simp only: foldl_map_consume map_concat [symmetric] c)
  with True show ?thesis by (simp add: sha256_file_bounded_def s)
next
  case False
  let ?o = "fst (stream_file_bounded file max_bytes (\<lambda>h chunk. sha256_update h (map u8_of_char chunk)) sha256_init)"
  from False have no: "\<not> (so_readable ?o \<and> \<not> so_over_limit ?o)"
    by (simp add: stream_file_bounded_accepts)
  then have "bytes_streamed ?o = 0"
    by (auto simp: stream_file_bounded_def split: option.splits prod.splits if_splits)
  with False no show ?thesis by (auto simp: sha256_file_bounded_def Let_def split: prod.splits)
qed

text \<open>The two passes agree: whatever the xxHash library computes, once its state exists the fast
  hash and the SHA-256 digest of a file report the same readability, the same refusal and the same
  number of bytes.\<close>

theorem fast_hash_agrees_with_digest:
  "let fast = xxh3_file_bounded (Some x) upd dig file max_bytes; full = sha256_file_bounded file max_bytes
   in fast_readable fast = digest_readable full \<and> fast_over_limit fast = over_limit full \<and>
      fast_bytes_hashed fast = bytes_hashed full"
  using stream_outcome_independent [of "file" max_bytes upd x "\<lambda>h chunk. sha256_update h (map u8_of_char chunk)" sha256_init]
  by (auto simp: xxh3_file_bounded_def sha256_file_bounded_def Let_def split: prod.splits)

end
