(* ===== verification/Uuid.thy ===== *)
theory Uuid
  imports Sha256
begin

text \<open>
  \<open>src/core/uuid.cpp\<close>: SHA-1, name-based version-5 UUIDs and their canonical text. A UUID is the list
  of its sixteen bytes; the block loop and the zero padding are those of \<open>Sha256\<close>, which the code
  repeats.
\<close>

section \<open>Code\<close>

definition rotate_left :: "u32 \<Rightarrow> nat \<Rightarrow> u32" where
  "rotate_left v bits = push_bit bits v OR drop_bit (32 - bits) v"

definition sha1_extend :: "u32 list \<Rightarrow> nat \<Rightarrow> u32 list" where
  "sha1_extend schedule word_index =
     schedule @ [rotate_left (schedule ! (word_index - 3) XOR schedule ! (word_index - 8)
                   XOR schedule ! (word_index - 14) XOR schedule ! (word_index - 16)) 1]"

definition sha1_schedule :: "u8 list \<Rightarrow> u32 list" where
  "sha1_schedule blk =
     foldl sha1_extend (map (\<lambda>word_index. be32 blk (word_index * 4)) [0..<16]) [16..<80]"

fun sha1_round :: "u32 list \<Rightarrow> u32 \<times> u32 \<times> u32 \<times> u32 \<times> u32 \<Rightarrow> nat \<Rightarrow> u32 \<times> u32 \<times> u32 \<times> u32 \<times> u32" where
  "sha1_round schedule (a, b, c, d, e) rnd =
     (let (round_function, round_constant) =
            (if rnd < 20 then ((b AND c) OR ((NOT b) AND d), 0x5A827999)
             else if rnd < 40 then (b XOR c XOR d, 0x6ED9EBA1)
             else if rnd < 60 then ((b AND c) OR (b AND d) OR (c AND d), 0x8F1BBCDC)
             else (b XOR c XOR d, 0xCA62C1D6));
          temp = rotate_left a 5 + round_function + e + round_constant + schedule ! rnd
      in (temp, a, rotate_left b 30, c, d))"

definition sha1_compress :: "u32 list \<Rightarrow> u8 list \<Rightarrow> u32 list" where
  "sha1_compress state blk =
     (let schedule = sha1_schedule blk;
          (a, b, c, d, e) =
            foldl (sha1_round schedule) (state ! 0, state ! 1, state ! 2, state ! 3, state ! 4) [0..<80]
      in [state ! 0 + a, state ! 1 + b, state ! 2 + c, state ! 3 + d, state ! 4 + e])"

definition sha1_init :: "u32 list" where
  "sha1_init = [0x67452301, 0xEFCDAB89, 0x98BADCFE, 0x10325476, 0xC3D2E1F0]"

definition sha1 :: "u8 list \<Rightarrow> u8 list" where
  "sha1 message =
     (let original_bit_length = of_nat (length message) * 8;
          padded = pad_zeros (message @ [0x80]) @ be64_bytes original_bit_length
      in concat (map be32_bytes (fst (compress_blocks sha1_compress sha1_init padded))))"

definition uuid_to_string :: "u8 list \<Rightarrow> string" where
  "uuid_to_string bytes =
     concat (map (\<lambda>byte_index.
         (if byte_index = 4 \<or> byte_index = 6 \<or> byte_index = 8 \<or> byte_index = 10 then ''-'' else [])
           @ [''0123456789abcdef'' ! unat (drop_bit 4 (bytes ! byte_index)),
              ''0123456789abcdef'' ! unat (bytes ! byte_index AND 0x0F)])
       [0..<length bytes])"

definition uuidv5 :: "u8 list \<Rightarrow> string \<Rightarrow> u8 list" where
  "uuidv5 namespace_id name =
     (let uuid_bytes = take 16 (sha1 (namespace_id @ map u8_of_char name));
          versioned = uuid_bytes[6 := (uuid_bytes ! 6 AND 0x0F) OR 0x50]
      in versioned[8 := (versioned ! 8 AND 0x3F) OR 0x80])"

definition purl_namespace :: "u8 list" where
  "purl_namespace = [0xa9, 0xed, 0x27, 0xb8, 0xae, 0xaa, 0x51, 0x58,
                     0x8f, 0x3a, 0x40, 0x09, 0x32, 0x50, 0x59, 0x98]"

section \<open>Lemmas\<close>

lemma length_sha1_compress [simp]: "length (sha1_compress h b) = 5"
proof -
  have "length (case p of (a, b, c, d, e) \<Rightarrow> [h ! 0 + a, h ! 1 + b, h ! 2 + c, h ! 3 + d, h ! 4 + e]) = 5"
    for p :: "u32 \<times> u32 \<times> u32 \<times> u32 \<times> u32"
    by (simp split: prod.split)
  then show ?thesis unfolding sha1_compress_def Let_def .
qed

lemma length_sha1 [simp]: "length (sha1 m) = 20"
  by (simp add: sha1_def length_be32_concat length_compress_blocks sha1_init_def)

lemma length_uuidv5 [simp]: "length (uuidv5 ns name) = 16"
  by (simp add: uuidv5_def Let_def)

lemma version_bits: "drop_bit 4 ((x AND 0x0F) OR 0x50) = (5 :: u8)"
  by (simp add: drop_bit_or drop_bit_and)

lemma variant_bits: "drop_bit 6 ((x AND 0x3F) OR 0x80) = (2 :: u8)"
  by (simp add: drop_bit_or drop_bit_and)

lemma uuidv5_bits: "drop_bit 4 (uuidv5 ns name ! 6) = 5" "drop_bit 6 (uuidv5 ns name ! 8) = 2"
proof -
  have bits: "drop_bit 4 (bs[6 := x AND 0x0F OR 0x50, 8 := y] ! 6) = (5 :: u8)"
    "drop_bit 6 (bs[6 := x, 8 := y AND 0x3F OR 0x80] ! 8) = (2 :: u8)"
    if "length bs = 16" for bs and x y :: u8
    using that by (simp_all add: version_bits variant_bits)
  have "length (take 16 (sha1 (ns @ map u8_of_char name))) = 16" by simp
  from bits [OF this] show "drop_bit 4 (uuidv5 ns name ! 6) = 5" "drop_bit 6 (uuidv5 ns name ! 8) = 2"
    unfolding uuidv5_def Let_def by blast+
qed

text \<open>The text of a UUID is its hexadecimal form with four dashes in fixed places.\<close>

lemma to_hex_map: "to_hex d = concat (map (\<lambda>i. [''0123456789abcdef'' ! unat (drop_bit 4 (d ! i)),
    ''0123456789abcdef'' ! unat (d ! i AND 0x0F)]) [0..<length d])"
proof (induction d)
  case Nil
  then show ?case by simp
next
  case (Cons b d)
  have "[0..<length (b # d)] = 0 # map Suc [0..<length d]"
    by (simp add: map_Suc_upt upt_conv_Cons del: upt_Suc)
  then show ?case by (simp add: Cons to_hex.simps(2) comp_def del: upt_Suc)
qed

lemma uuid_dashes_removed: "filter (\<lambda>c. c \<noteq> CHR ''-'') (uuid_to_string d) = to_hex d"
proof -
  have hex: "''0123456789abcdef'' ! n \<noteq> CHR ''-''" if "n < 16" for n
  proof -
    have "\<forall>n \<in> set [0..<16]. ''0123456789abcdef'' ! n \<noteq> CHR ''-''" by code_simp
    with that show ?thesis by simp
  qed
  have lt: "unat (drop_bit 4 b) < 16" "unat (b AND 0x0F) < 16" for b :: u8
  proof -
    have "take_bit 8 (unat b) = unat b"
      using unsigned_less [of b, where ?'a = nat] by (intro take_bit_nat_eq_self) simp
    then have "unat (drop_bit 4 b) = unat b div 16" "unat (b AND 15) = unat b mod 16"
      by (simp_all add: unsigned_and_eq unsigned_drop_bit_eq) (simp_all add: and_0x0F drop_bit_eq_div)
    then show "unat (drop_bit 4 b) < 16" "unat (b AND 0x0F) < 16" by simp_all
  qed
  have nd: "''0123456789abcdef'' ! unat (drop_bit 4 b) \<noteq> CHR ''-''" "''0123456789abcdef'' ! unat (b AND 0x0F) \<noteq> CHR ''-''"
    for b :: u8 by (rule hex, rule lt)+
  have "filter (\<lambda>c. c \<noteq> CHR ''-'') ((if p then ''-'' else []) @ [''0123456789abcdef'' ! unat (drop_bit 4 b),
      ''0123456789abcdef'' ! unat (b AND 0x0F)])
    = [''0123456789abcdef'' ! unat (drop_bit 4 b), ''0123456789abcdef'' ! unat (b AND 0x0F)]" for p :: bool and b :: u8
    using nd(1) [of b] nd(2) [of b] by simp
  then show ?thesis
    unfolding uuid_to_string_def to_hex_map filter_concat map_map comp_def by simp
qed

lemma length_uuid_to_string: "length d = 16 \<Longrightarrow> length (uuid_to_string d) = 36"
  by (simp add: uuid_to_string_def upt_rec)

lemma uuid_dash_places:
  "length d = 16 \<Longrightarrow> uuid_to_string d ! 8 = CHR ''-'' \<and> uuid_to_string d ! 13 = CHR ''-'' \<and>
     uuid_to_string d ! 18 = CHR ''-'' \<and> uuid_to_string d ! 23 = CHR ''-''"
  by (simp add: uuid_to_string_def upt_rec)

interpretation uuid_text:
  text_codec "\<lambda>_. True" uuid_to_string "\<lambda>t. hex_pairs (filter (\<lambda>c. c \<noteq> CHR ''-'') t)"
  by unfold_locales (simp add: uuid_dashes_removed hex_pairs_to_hex)

section \<open>Properties\<close>

text \<open>A name-based identifier is a well-formed version-5 UUID: for every namespace and name it has
  sixteen bytes, version nibble 5 and variant bits 10, its text has 36 characters with the dashes of
  the \<open>8-4-4-4-12\<close> layout, and two UUIDs have the same text only if they are the same.\<close>

theorem uuidv5_well_formed:
  "length (uuidv5 ns name) = 16 \<and> drop_bit 4 (uuidv5 ns name ! 6) = 5 \<and> drop_bit 6 (uuidv5 ns name ! 8) = 2 \<and>
   length (uuid_to_string (uuidv5 ns name)) = 36 \<and>
   uuid_to_string (uuidv5 ns name) ! 8 = CHR ''-'' \<and> uuid_to_string (uuidv5 ns name) ! 13 = CHR ''-'' \<and>
   uuid_to_string (uuidv5 ns name) ! 18 = CHR ''-'' \<and> uuid_to_string (uuidv5 ns name) ! 23 = CHR ''-'' \<and>
   (uuid_to_string u = uuid_to_string v \<longleftrightarrow> u = v)"
  using uuidv5_bits [of ns name] length_uuid_to_string [OF length_uuidv5] uuid_dash_places [OF length_uuidv5]
    uuid_text.enc_inj [of u v] by simp

end
