(* ===== verification/Warnings.thy ===== *)
theory Warnings
  imports Prelude
begin

text \<open>
  Diagnostics and results: \<open>core/warning_code.hpp\<close>, \<open>core/warning_code.cpp\<close>, \<open>core/warning.hpp\<close>,
  \<open>core/result.hpp\<close> and \<open>core/exit_codes.hpp\<close>. A code is a constructor of \<open>warning_code\<close>, its permanent
  identity the record \<open>code_info\<close>; a producer returns a \<open>result\<close>, a value with the warnings it
  raised. A \<open>std::filesystem::path\<close> is its generic text.
\<close>

section \<open>Codes\<close>

datatype warning_code =
    kJsonNestingDepthExceeded
  | kInvalidJson
  | kInvalidToml
  | kEntryLimitReached
  | kFileLimitReached
  | kFileSizeLimitExceeded
  | kUnreadableFile
  | kPurlValidationFailed
  | kEntriesSkippedUnresolved
  | kMalformedEntrySkipped
  | kLockfileFormatUnsupported
  | kSelfIdentityUnresolvable
  | kUnresolvedVariableOrInterpolation
  | kDependencyMissingSource
  | kUnpinnedOrUnresolvedRef
  | kManifestNoLockfileAlongside
  | kManifestUnsupportedLockfile
  | kDirectoryWalkError
  | kBuildOutputDirectoryHoldsManifest
  | kPurlMalformed
  | kNameListUnreadable
  | kNameListEmpty
  | kConfigNotValidToml
  | kConfigFileUnreadable
  | kConfigFileTooLarge
  | kConfigKeyWrongType
  | kConfigArrayEntryInvalid
  | kConfigUnknownKey
  | kConfigUnknownTable
  | kConfigTopLevelKeyNotTable
  | kConfigValueInvalidFormat
  | kConfigDeprecatedKeyRemoved
  | kConfigSecretRejected
  | kConfigSectionIncomplete
  | kConfigFileNotWritten
  | kGitConfigStructureInvalid
  | kSubmoduleMissingPath
  | kSubmoduleUnsafePath
  | kSubmoduleNotInitialized
  | kSubmoduleNoUrl
  | kObserveTraceNotWritten
  | kObserveTraceMalformedLines
  | kObserveTraceExceedsLimit
  | kObserveTraceRewriteFailed
  | kObserveShimBinaryMissing
  | kObserveShimDirectoryUnwritable
  | kObserveShimCreationFailed
  | kObserveNoToolchainFound
  | kObserveNoCompilerInvocations
  | kObserveEvidenceOutsideRoot
  | kObserveResponseFilesUnexpanded
  | kObserveUnresolvedLinkArgument
  | kObserveAutoDetectedTraceUnusable
  | kObserveNoRootedComponents
  | kBinaryUnreadable
  | kBinaryTooLarge
  | kBinaryMalformedHeader
  | kBinaryEvidenceLimited
  | kFingerprintIndexUnreadable
  | kFingerprintIndexSchemaUnsupported
  | kFingerprintIndexEntrySkipped
  | kFingerprintVersionDisagreement
  | kFingerprintMatchWithoutComponent
  | kFingerprintFileBudgetReached
  | kSbomDocumentInvalid
  | kSbomWrongFormat
  | kSbomComponentEntrySkipped
  | kReportConfigFieldInvalid
  | kVulnCacheOpenFailed
  | kVulnHttpEndpointNotAllowlisted
  | kVulnHttpRequestFailed
  | kVulnHttpUnexpectedStatus
  | kVulnResponseMalformed
  | kVulnCoverageIncomplete
  | kLicenseFallbackIncomplete
  | kExternallyDefined

record code_info =
  info_id :: string
  info_title :: string

definition warning_code_info_of :: "string \<Rightarrow> string \<Rightarrow> code_info" where
  "warning_code_info_of i t = \<lparr>info_id = i, info_title = t\<rparr>"

primrec warning_code_info :: "warning_code \<Rightarrow> code_info" where
  "warning_code_info kJsonNestingDepthExceeded = warning_code_info_of ''BW-CORE-001'' ''nesting exceeds the JSON depth limit''"
| "warning_code_info kInvalidJson = warning_code_info_of ''BW-CORE-002'' ''file is not valid JSON''"
| "warning_code_info kInvalidToml = warning_code_info_of ''BW-CORE-003'' ''file is not valid TOML''"
| "warning_code_info kManifestNoLockfileAlongside = warning_code_info_of ''BW-CORE-004'' ''manifest declares ranges only, no lockfile alongside it''"
| "warning_code_info kManifestUnsupportedLockfile = warning_code_info_of ''BW-CORE-005'' ''a real lockfile was found with no parser for it yet''"
| "warning_code_info kEntryLimitReached = warning_code_info_of ''BW-CORE-006'' ''package/dependency count budget reached''"
| "warning_code_info kFileLimitReached = warning_code_info_of ''BW-CORE-007'' ''manifest/lockfile file count budget reached''"
| "warning_code_info kFileSizeLimitExceeded = warning_code_info_of ''BW-CORE-008'' ''file exceeds its byte budget''"
| "warning_code_info kUnreadableFile = warning_code_info_of ''BW-CORE-009'' ''file could not be read''"
| "warning_code_info kPurlValidationFailed = warning_code_info_of ''BW-CORE-010'' ''an assembled component purl failed validation''"
| "warning_code_info kEntriesSkippedUnresolved = warning_code_info_of ''BW-CORE-011'' ''entries without a resolvable name/version were skipped''"
| "warning_code_info kMalformedEntrySkipped = warning_code_info_of ''BW-CORE-012'' ''an entry had an unreadable shape and was skipped''"
| "warning_code_info kLockfileFormatUnsupported = warning_code_info_of ''BW-CORE-013'' (''a recognized lockfile'' @ CHR 0x27 # ''s format/version is not supported'')"
| "warning_code_info kSelfIdentityUnresolvable = warning_code_info_of ''BW-CORE-014'' (''the manifest'' @ CHR 0x27 # ''s own component lacks enough identity to emit'')"
| "warning_code_info kUnresolvedVariableOrInterpolation = warning_code_info_of ''BW-CORE-015'' ''a name or version depends on an unresolved variable''"
| "warning_code_info kDependencyMissingSource = warning_code_info_of ''BW-CORE-016'' ''a dependency declaration has no name, repository or URL''"
| "warning_code_info kUnpinnedOrUnresolvedRef = warning_code_info_of ''BW-CORE-017'' ''a dependency is not pinned to a resolved reference''"
| "warning_code_info kDirectoryWalkError = warning_code_info_of ''BW-CORE-018'' ''the directory walk stopped early''"
| "warning_code_info kBuildOutputDirectoryHoldsManifest = warning_code_info_of ''BW-CORE-019'' ''a skipped build-output directory holds a recognized manifest''"
| "warning_code_info kPurlMalformed = warning_code_info_of ''BW-CORE-020'' ''a supplied purl is malformed''"
| "warning_code_info kNameListUnreadable = warning_code_info_of ''BW-CORE-021'' ''a --manifest-list/--exclude-list file is unreadable''"
| "warning_code_info kNameListEmpty = warning_code_info_of ''BW-CORE-022'' ''a --manifest-list/--exclude-list file is empty''"
| "warning_code_info kConfigNotValidToml = warning_code_info_of ''BW-CONFIG-001'' ''config file is not valid TOML''"
| "warning_code_info kConfigFileUnreadable = warning_code_info_of ''BW-CONFIG-002'' ''config file could not be read''"
| "warning_code_info kConfigFileTooLarge = warning_code_info_of ''BW-CONFIG-003'' ''config file exceeds its size cap''"
| "warning_code_info kConfigKeyWrongType = warning_code_info_of ''BW-CONFIG-004'' ''a config key has the wrong value type''"
| "warning_code_info kConfigArrayEntryInvalid = warning_code_info_of ''BW-CONFIG-005'' ''a config array entry is invalid or unsafe''"
| "warning_code_info kConfigUnknownKey = warning_code_info_of ''BW-CONFIG-006'' ''config names an unknown key''"
| "warning_code_info kConfigUnknownTable = warning_code_info_of ''BW-CONFIG-007'' ''config names an unknown table''"
| "warning_code_info kConfigTopLevelKeyNotTable = warning_code_info_of ''BW-CONFIG-008'' ''a top-level config key is not a table''"
| "warning_code_info kConfigValueInvalidFormat = warning_code_info_of ''BW-CONFIG-009'' ''a config value does not match its expected format''"
| "warning_code_info kConfigDeprecatedKeyRemoved = warning_code_info_of ''BW-CONFIG-010'' ''config uses a key that has been removed''"
| "warning_code_info kConfigSecretRejected = warning_code_info_of ''BW-CONFIG-011'' ''config carries a secret directly instead of by reference''"
| "warning_code_info kConfigSectionIncomplete = warning_code_info_of ''BW-CONFIG-012'' ''a config section is missing required keys and stays unconfigured''"
| "warning_code_info kConfigFileNotWritten = warning_code_info_of ''BW-CONFIG-013'' ''a config/metadata file could not be written''"
| "warning_code_info kGitConfigStructureInvalid = warning_code_info_of ''BW-GIT-001'' ''a .git config file has an invalid structure''"
| "warning_code_info kSubmoduleMissingPath = warning_code_info_of ''BW-GIT-002'' ''a submodule entry has no path''"
| "warning_code_info kSubmoduleUnsafePath = warning_code_info_of ''BW-GIT-003'' ''a submodule entry has an unsafe path''"
| "warning_code_info kSubmoduleNotInitialized = warning_code_info_of ''BW-GIT-004'' ''a submodule is not initialized''"
| "warning_code_info kSubmoduleNoUrl = warning_code_info_of ''BW-GIT-005'' (''a submodule'' @ CHR 0x27 # ''s url is missing or cannot be resolved'')"
| "warning_code_info kObserveTraceNotWritten = warning_code_info_of ''BW-OBSERVE-001'' ''no build trace file was written''"
| "warning_code_info kObserveTraceMalformedLines = warning_code_info_of ''BW-OBSERVE-002'' ''trace lines were unreadable and were dropped''"
| "warning_code_info kObserveTraceExceedsLimit = warning_code_info_of ''BW-OBSERVE-003'' ''the trace exceeds its line limit''"
| "warning_code_info kObserveTraceRewriteFailed = warning_code_info_of ''BW-OBSERVE-004'' ''the trace could not be rewritten in canonical order''"
| "warning_code_info kObserveShimBinaryMissing = warning_code_info_of ''BW-OBSERVE-005'' ''the shim binary was not found or not executable''"
| "warning_code_info kObserveShimDirectoryUnwritable = warning_code_info_of ''BW-OBSERVE-006'' ''the shim directory could not be created''"
| "warning_code_info kObserveShimCreationFailed = warning_code_info_of ''BW-OBSERVE-007'' ''a tool shim could not be created or recorded''"
| "warning_code_info kObserveNoToolchainFound = warning_code_info_of ''BW-OBSERVE-008'' ''no compiler, linker or archiver was found on PATH''"
| "warning_code_info kObserveNoCompilerInvocations = warning_code_info_of ''BW-OBSERVE-009'' ''the trace holds no compiler invocations naming a source file''"
| "warning_code_info kObserveEvidenceOutsideRoot = warning_code_info_of ''BW-OBSERVE-010'' ''observed compile/link evidence lies outside the scan root''"
| "warning_code_info kObserveResponseFilesUnexpanded = warning_code_info_of ''BW-OBSERVE-011'' ''a compile/link argument was a response file bomwerk does not open''"
| "warning_code_info kObserveUnresolvedLinkArgument = warning_code_info_of ''BW-OBSERVE-012'' ''a link argument did not resolve to a file bomwerk observed''"
| "warning_code_info kObserveAutoDetectedTraceUnusable = warning_code_info_of ''BW-OBSERVE-013'' ''an auto-detected build trace could not be applied''"
| "warning_code_info kObserveNoRootedComponents = warning_code_info_of ''BW-OBSERVE-014'' ''a build trace judged zero components as used''"
| "warning_code_info kBinaryUnreadable = warning_code_info_of ''BW-BINSCAN-001'' ''a binary artifact could not be read''"
| "warning_code_info kBinaryTooLarge = warning_code_info_of ''BW-BINSCAN-002'' ''a binary artifact exceeds its size cap''"
| "warning_code_info kBinaryMalformedHeader = warning_code_info_of ''BW-BINSCAN-003'' ''a binary artifact has a malformed ELF/ar header''"
| "warning_code_info kBinaryEvidenceLimited = warning_code_info_of ''BW-BINSCAN-004'' ''binary-level dependency evidence is partial for this run''"
| "warning_code_info kFingerprintIndexUnreadable = warning_code_info_of ''BW-FINGERPRINT-001'' ''the fingerprint corpus index could not be read''"
| "warning_code_info kFingerprintIndexSchemaUnsupported = warning_code_info_of ''BW-FINGERPRINT-002'' ''the fingerprint corpus index uses an unsupported schema version''"
| "warning_code_info kFingerprintIndexEntrySkipped = warning_code_info_of ''BW-FINGERPRINT-003'' ''fingerprint corpus index entries were skipped''"
| "warning_code_info kFingerprintVersionDisagreement = warning_code_info_of ''BW-FINGERPRINT-004'' ''the fingerprint corpus and a declared version disagree''"
| "warning_code_info kFingerprintMatchWithoutComponent = warning_code_info_of ''BW-FINGERPRINT-005'' ''a fingerprint match had no component to enrich''"
| "warning_code_info kFingerprintFileBudgetReached = warning_code_info_of ''BW-FINGERPRINT-006'' ''the fingerprint matcher stopped at its file budget''"
| "warning_code_info kSbomDocumentInvalid = warning_code_info_of ''BW-SBOM-001'' ''an SBOM document could not be read''"
| "warning_code_info kSbomWrongFormat = warning_code_info_of ''BW-SBOM-002'' ''an SBOM document is not in the expected/recognized format''"
| "warning_code_info kSbomComponentEntrySkipped = warning_code_info_of ''BW-SBOM-003'' ''an SBOM component entry was skipped''"
| "warning_code_info kReportConfigFieldInvalid = warning_code_info_of ''BW-OUTPUT-001'' ''a --report-config field is invalid''"
| "warning_code_info kVulnCacheOpenFailed = warning_code_info_of ''BW-VULN-001'' ''the vulnerability cache could not be opened''"
| "warning_code_info kVulnHttpEndpointNotAllowlisted = warning_code_info_of ''BW-VULN-002'' ''a request targeted a non-allowlisted endpoint and was refused''"
| "warning_code_info kVulnHttpRequestFailed = warning_code_info_of ''BW-VULN-003'' ''an HTTP request failed''"
| "warning_code_info kVulnHttpUnexpectedStatus = warning_code_info_of ''BW-VULN-004'' ''an HTTP request returned an unexpected status''"
| "warning_code_info kVulnResponseMalformed = warning_code_info_of ''BW-VULN-005'' ''a feed response was malformed''"
| "warning_code_info kVulnCoverageIncomplete = warning_code_info_of ''BW-VULN-006'' ''vulnerability match coverage is incomplete for this run''"
| "warning_code_info kExternallyDefined = warning_code_info_of ''BW-EXT-000'' ''code defined outside this library''"
| "warning_code_info kLicenseFallbackIncomplete = warning_code_info_of ''BW-VULN-008'' ''license-fallback enrichment is incomplete for this run''"

section \<open>Warnings and results\<close>

record warning =
  warning_code :: warning_code
  message :: string
  ecosystem :: string
  affected_path :: string
  external_code :: code_info

definition no_external_code :: code_info where
  "no_external_code = \<lparr>info_id = [], info_title = []\<rparr>"

definition code_info_of :: "warning \<Rightarrow> code_info" where
  "code_info_of w = (if warning_code w = kExternallyDefined then external_code w
     else warning_code_info (warning_code w))"

definition format_code_for_console :: "warning_code \<Rightarrow> string \<Rightarrow> string" where
  "format_code_for_console c m = ''['' @ info_id (warning_code_info c) @ '']: '' @ m"

definition format_for_console :: "warning \<Rightarrow> string" where
  "format_for_console w = ''['' @ info_id (code_info_of w) @ '']: '' @ message w"

definition is_code_suppressed :: "string \<Rightarrow> string \<Rightarrow> string set \<Rightarrow> bool" where
  "is_code_suppressed code_id eco suppressed \<longleftrightarrow>
     (if code_id \<in> suppressed then True else code_id @ '':'' @ eco \<in> suppressed)"

definition is_warning_suppressed :: "warning \<Rightarrow> string set \<Rightarrow> bool" where
  "is_warning_suppressed w suppressed = is_code_suppressed (info_id (code_info_of w)) (ecosystem w) suppressed"

record 'a result =
  result_value :: 'a
  result_warnings :: "warning list"
  complete :: bool

definition new_result :: "'a \<Rightarrow> 'a result" where
  "new_result v = \<lparr>result_value = v, result_warnings = [], complete = True\<rparr>"

text \<open>The three overloads of \<open>Result::warn\<close>.\<close>

definition warn :: "warning_code \<Rightarrow> string \<Rightarrow> string \<Rightarrow> string \<Rightarrow> 'a result \<Rightarrow> 'a result" where
  "warn c m eco path r = r\<lparr>result_warnings := result_warnings r @
     [\<lparr>warning_code = c, message = m, ecosystem = eco, affected_path = path, external_code = no_external_code\<rparr>]\<rparr>"

definition warn_external :: "code_info \<Rightarrow> string \<Rightarrow> string \<Rightarrow> string \<Rightarrow> 'a result \<Rightarrow> 'a result" where
  "warn_external info m eco path r = r\<lparr>result_warnings := result_warnings r @
     [\<lparr>warning_code = kExternallyDefined, message = m, ecosystem = eco, affected_path = path, external_code = info\<rparr>]\<rparr>"

definition warn_again :: "warning \<Rightarrow> 'a result \<Rightarrow> 'a result" where
  "warn_again w r = r\<lparr>result_warnings := result_warnings r @ [w]\<rparr>"

section \<open>Exit codes\<close>

definition kExitClean :: int where "kExitClean = 0"
definition kExitCompletedWithWarnings :: int where "kExitCompletedWithWarnings = 1"
definition kExitIncomplete :: int where "kExitIncomplete = 2"

lemmas exit_code_defs = kExitClean_def kExitCompletedWithWarnings_def kExitIncomplete_def

datatype fail_on_threshold = FailOnWarnings | FailOnIncomplete | FailOnNone

definition apply_fail_on_threshold :: "int \<Rightarrow> fail_on_threshold \<Rightarrow> int" where
  "apply_fail_on_threshold natural_exit_code t =
     (if t = FailOnNone then kExitClean
      else if t = FailOnIncomplete \<and> natural_exit_code = kExitCompletedWithWarnings then kExitClean
      else natural_exit_code)"

section \<open>Lemmas\<close>

text \<open>An enumeration of the codes, on which the facts about all of them are evaluated.\<close>

definition all_warning_codes :: "warning_code list" where
  "all_warning_codes = [
    kJsonNestingDepthExceeded,
    kInvalidJson,
    kInvalidToml,
    kEntryLimitReached,
    kFileLimitReached,
    kFileSizeLimitExceeded,
    kUnreadableFile,
    kPurlValidationFailed,
    kEntriesSkippedUnresolved,
    kMalformedEntrySkipped,
    kLockfileFormatUnsupported,
    kSelfIdentityUnresolvable,
    kUnresolvedVariableOrInterpolation,
    kDependencyMissingSource,
    kUnpinnedOrUnresolvedRef,
    kManifestNoLockfileAlongside,
    kManifestUnsupportedLockfile,
    kDirectoryWalkError,
    kBuildOutputDirectoryHoldsManifest,
    kPurlMalformed,
    kNameListUnreadable,
    kNameListEmpty,
    kConfigNotValidToml,
    kConfigFileUnreadable,
    kConfigFileTooLarge,
    kConfigKeyWrongType,
    kConfigArrayEntryInvalid,
    kConfigUnknownKey,
    kConfigUnknownTable,
    kConfigTopLevelKeyNotTable,
    kConfigValueInvalidFormat,
    kConfigDeprecatedKeyRemoved,
    kConfigSecretRejected,
    kConfigSectionIncomplete,
    kConfigFileNotWritten,
    kGitConfigStructureInvalid,
    kSubmoduleMissingPath,
    kSubmoduleUnsafePath,
    kSubmoduleNotInitialized,
    kSubmoduleNoUrl,
    kObserveTraceNotWritten,
    kObserveTraceMalformedLines,
    kObserveTraceExceedsLimit,
    kObserveTraceRewriteFailed,
    kObserveShimBinaryMissing,
    kObserveShimDirectoryUnwritable,
    kObserveShimCreationFailed,
    kObserveNoToolchainFound,
    kObserveNoCompilerInvocations,
    kObserveEvidenceOutsideRoot,
    kObserveResponseFilesUnexpanded,
    kObserveUnresolvedLinkArgument,
    kObserveAutoDetectedTraceUnusable,
    kObserveNoRootedComponents,
    kBinaryUnreadable,
    kBinaryTooLarge,
    kBinaryMalformedHeader,
    kBinaryEvidenceLimited,
    kFingerprintIndexUnreadable,
    kFingerprintIndexSchemaUnsupported,
    kFingerprintIndexEntrySkipped,
    kFingerprintVersionDisagreement,
    kFingerprintMatchWithoutComponent,
    kFingerprintFileBudgetReached,
    kSbomDocumentInvalid,
    kSbomWrongFormat,
    kSbomComponentEntrySkipped,
    kReportConfigFieldInvalid,
    kVulnCacheOpenFailed,
    kVulnHttpEndpointNotAllowlisted,
    kVulnHttpRequestFailed,
    kVulnHttpUnexpectedStatus,
    kVulnResponseMalformed,
    kVulnCoverageIncomplete,
    kLicenseFallbackIncomplete,
    kExternallyDefined]"

lemma set_all_warning_codes: "set all_warning_codes = UNIV"
proof -
  have "x \<in> set all_warning_codes" for x
    by (cases x) (simp_all add: all_warning_codes_def)
  then show ?thesis by blast
qed

lemma distinct_warning_ids: "distinct (map (\<lambda>c. info_id (warning_code_info c)) all_warning_codes)"
  by code_simp

lemma warning_id_inj: "info_id (warning_code_info a) = info_id (warning_code_info b) \<longleftrightarrow> a = b"
  using distinct_warning_ids by (auto simp: distinct_map set_all_warning_codes dest: injD)

lemma warning_id_shape:
  "starts_with (info_id (warning_code_info c)) ''BW-'' \<and> CHR '':'' \<notin> set (info_id (warning_code_info c)) \<and>
   CHR '']'' \<notin> set (info_id (warning_code_info c))"
proof -
  have "\<forall>c \<in> set all_warning_codes. starts_with (info_id (warning_code_info c)) ''BW-'' \<and>
      CHR '':'' \<notin> set (info_id (warning_code_info c)) \<and> CHR '']'' \<notin> set (info_id (warning_code_info c))"
    by code_simp
  then show ?thesis by (simp add: set_all_warning_codes)
qed

lemma format_code_inj:
  "format_code_for_console c m = format_code_for_console c' m' \<longleftrightarrow> c = c' \<and> m = m'"
proof -
  have fc: "find_char CHR '']'' (i @ '']: '' @ t) = Some (length i)" if "CHR '']'' \<notin> set i" for i t :: string
  proof -
    have "\<forall>y \<in> set i. \<not> y = CHR '']''" using that by blast
    then show ?thesis by (simp add: find_pos_append)
  qed
  have "info_id (warning_code_info c) = info_id (warning_code_info c') \<and> m = m'"
    if eq: "info_id (warning_code_info c) @ '']: '' @ m = info_id (warning_code_info c') @ '']: '' @ m'"
  proof -
    have "length (info_id (warning_code_info c)) = length (info_id (warning_code_info c'))"
    proof -
      have "Some (length (info_id (warning_code_info c))) = find_char CHR '']'' (info_id (warning_code_info c) @ '']: '' @ m)"
        using warning_id_shape [of c] by (intro fc [symmetric]) blast
      also have "\<dots> = Some (length (info_id (warning_code_info c')))"
        using warning_id_shape [of c'] unfolding eq by (intro fc) blast
      finally show ?thesis by simp
    qed
    with eq show ?thesis by simp
  qed
  then show ?thesis by (auto simp: format_code_for_console_def warning_id_inj)
qed

lemma apply_fail_on_threshold_max:
  "kExitClean \<le> n \<Longrightarrow> kExitClean \<le> m \<Longrightarrow>
   apply_fail_on_threshold (max n m) t = max (apply_fail_on_threshold n t) (apply_fail_on_threshold m t)"
  by (cases t) (auto simp: apply_fail_on_threshold_def exit_code_defs max_def)

lemma apply_fail_on_threshold_incomplete:
  "apply_fail_on_threshold kExitIncomplete t = (if t = FailOnNone then kExitClean else kExitIncomplete)"
  by (cases t) (auto simp: apply_fail_on_threshold_def exit_code_defs)

section \<open>Properties\<close>

text \<open>A code is a stable identity: two different causes never share an identifier, no code of the
  library falls through to the unregistered one, a console line determines the code and the message it
  shows, and suppressing one bare code silences exactly the warnings of that cause, in every
  ecosystem (for a warning whose code the library owns).\<close>

theorem warning_code_identity:
  assumes "warning_code w \<noteq> kExternallyDefined"
  shows "((info_id (warning_code_info a) = info_id (warning_code_info b)) = (a = b)) \<and>
    info_id (warning_code_info a) \<noteq> ''BW-UNKNOWN'' \<and>
    ((format_code_for_console a m = format_code_for_console b m') = (a = b \<and> m = m')) \<and>
    is_warning_suppressed w {info_id (warning_code_info a)} = (warning_code w = a)"
proof (intro conjI)
  show "(info_id (warning_code_info a) = info_id (warning_code_info b)) = (a = b)"
    by (rule warning_id_inj)
  show "info_id (warning_code_info a) \<noteq> ''BW-UNKNOWN''"
    by (cases a) (simp_all add: warning_code_info_of_def)
  show "(format_code_for_console a m = format_code_for_console b m') = (a = b \<and> m = m')"
    by (rule format_code_inj)
  have "info_id (code_info_of w) @ '':'' @ e \<noteq> info_id (warning_code_info a)" for e
    using warning_id_shape [of a] by (metis in_set_conv_decomp append_Cons)
  with assms show "is_warning_suppressed w {info_id (warning_code_info a)} = (warning_code w = a)"
    by (simp add: is_warning_suppressed_def is_code_suppressed_def code_info_of_def warning_id_inj)
qed

theorem warning_code_identity_witness:
  "is_warning_suppressed \<lparr>warning_code = kInvalidJson, message = ''m'', ecosystem = ''npm'', affected_path = [],
      external_code = no_external_code\<rparr> {info_id (warning_code_info kInvalidJson)}"
  using warning_code_identity [of "\<lparr>warning_code = kInvalidJson, message = ''m'', ecosystem = ''npm'',
      affected_path = [], external_code = no_external_code\<rparr>" kInvalidJson kInvalidJson "[]" "[]"] by simp

end
