(* ===== verification/Purl.thy ===== *)
theory Purl
  imports Text Warnings
begin

text \<open>
  Package URLs: \<open>core/purl.hpp\<close> and \<open>core/purl.cpp\<close>. \<open>purl_parse\<close> is \<open>Purl::parse\<close> with its six early
  returns in order; a parsed \<open>Purl\<close> is its canonical text. The accessors are the cheap structural
  reads the matchers use. \<open>canonicalize_purl\<close> returns the new text and the warning list it was given,
  extended.
\<close>

section \<open>Scanning for the separators\<close>

definition is_ascii_whitespace :: "char \<Rightarrow> bool" where
  "is_ascii_whitespace c \<longleftrightarrow> c = CHR '' '' \<or> c = CHR 0x09 \<or> c = CHR 0x0A \<or> c = CHR 0x0D \<or> c = CHR 0x0C \<or> c = CHR 0x0B"

definition append_lowercase_ascii :: "string \<Rightarrow> string \<Rightarrow> string" where
  "append_lowercase_ascii destination txt = destination @ map to_lower_ascii_char txt"

definition quoted :: "string \<Rightarrow> string" where
  "quoted txt = CHR 0x27 # txt @ [CHR 0x27]"

record purl_separators =
  scheme_separator :: "nat option"
  type_separator :: "nat option"
  has_whitespace :: bool

fun find_separators_from :: "string \<Rightarrow> nat \<Rightarrow> purl_separators \<Rightarrow> purl_separators" where
  "find_separators_from [] character_index separators = separators"
| "find_separators_from (character # rest) character_index separators =
     (if is_ascii_whitespace character then separators\<lparr>has_whitespace := True\<rparr>
      else if character = CHR '':'' \<and> scheme_separator separators = None
      then find_separators_from rest (Suc character_index) (separators\<lparr>scheme_separator := Some character_index\<rparr>)
      else if character = CHR ''/'' \<and> scheme_separator separators \<noteq> None \<and> type_separator separators = None
      then find_separators_from rest (Suc character_index) (separators\<lparr>type_separator := Some character_index\<rparr>)
      else find_separators_from rest (Suc character_index) separators)"

definition find_separators :: "string \<Rightarrow> purl_separators" where
  "find_separators raw_purl = find_separators_from raw_purl 0
     \<lparr>scheme_separator = None, type_separator = None, has_whitespace = False\<rparr>"

section \<open>Parsing\<close>

definition purl_malformed :: "string \<Rightarrow> string result" where
  "purl_malformed m = warn kPurlMalformed m [] [] ((new_result [])\<lparr>complete := False\<rparr>)"

definition purl_parse :: "string \<Rightarrow> string result" where
  "purl_parse raw_purl =
     (if raw_purl = [] then purl_malformed ''purl is empty''
      else
        let separators = find_separators raw_purl in
        if has_whitespace separators then purl_malformed (''purl contains whitespace: '' @ quoted raw_purl)
        else case scheme_separator separators of
          None \<Rightarrow> purl_malformed (''purl is missing scheme separator: '' @ quoted raw_purl)
        | Some scheme_end \<Rightarrow>
            let scheme = take scheme_end raw_purl; type_start = scheme_end + 1 in
            if \<not> equals_ascii_ignore_case scheme ''pkg''
            then purl_malformed (''purl scheme is not pkg: '' @ quoted raw_purl)
            else case type_separator separators of
              None \<Rightarrow> purl_malformed (''purl is missing package type: '' @ quoted raw_purl)
            | Some type_end \<Rightarrow>
                if type_end = type_start
                then purl_malformed (''purl is missing package type: '' @ quoted raw_purl)
                else if type_end + 1 = length raw_purl
                then purl_malformed (''purl is missing package name: '' @ quoted raw_purl)
                else new_result
                  (append_lowercase_ascii ''pkg:'' (substr raw_purl type_start (type_end - type_start))
                   @ drop type_end raw_purl))"

definition canonicalize_purl :: "string \<Rightarrow> string \<Rightarrow> warning list \<Rightarrow> string \<times> warning list" where
  "canonicalize_purl purl producer_name ws =
     (let parsed_purl = purl_parse purl in
      if \<not> complete parsed_purl
      then (purl, ws @ [\<lparr>warning_code = kPurlValidationFailed,
              message = producer_name @ '': produced purl failed validation: '' @ purl,
              ecosystem = producer_name, affected_path = [], external_code = no_external_code\<rparr>])
      else (result_value parsed_purl, ws))"

section \<open>Accessors\<close>

definition purl_identity_part :: "string \<Rightarrow> string" where
  "purl_identity_part purl =
     (case find_pos (\<lambda>c. c \<in> set ''?#'') purl of None \<Rightarrow> purl | Some extras_begin \<Rightarrow> take extras_begin purl)"

definition purl_type_of :: "string \<Rightarrow> string" where
  "purl_type_of purl =
     (if \<not> starts_with purl ''pkg:'' then []
      else let after_scheme = drop 4 purl in
        case find_char CHR ''/'' after_scheme of None \<Rightarrow> after_scheme | Some type_end \<Rightarrow> take type_end after_scheme)"

definition purl_version_of :: "string \<Rightarrow> string" where
  "purl_version_of purl_without_extras =
     (case rfind_char CHR ''@'' purl_without_extras of None \<Rightarrow> []
      | Some version_marker \<Rightarrow> drop (version_marker + 1) purl_without_extras)"

definition purl_name_of :: "string \<Rightarrow> string" where
  "purl_name_of purl_without_extras =
     (if \<not> starts_with purl_without_extras ''pkg:'' then []
      else let after_scheme = drop 4 purl_without_extras in
        case find_char CHR ''/'' after_scheme of
          None \<Rightarrow> []
        | Some type_end \<Rightarrow>
            let rest = drop (type_end + 1) after_scheme;
                name_and_namespace = (case rfind_char CHR ''@'' rest of None \<Rightarrow> rest
                  | Some version_marker \<Rightarrow> take version_marker rest)
            in case rfind_char CHR ''/'' name_and_namespace of
                 None \<Rightarrow> name_and_namespace
               | Some last_separator \<Rightarrow> drop (last_separator + 1) name_and_namespace)"

section \<open>Lemmas\<close>

subsection \<open>The scan\<close>

abbreviation no_whitespace :: "string \<Rightarrow> bool" where
  "no_whitespace s \<equiv> list_all (\<lambda>c. \<not> is_ascii_whitespace c) s"

lemma find_separators_from_whitespace:
  "has_whitespace (find_separators_from s i sep) \<longleftrightarrow> has_whitespace sep \<or> \<not> no_whitespace s"
  by (induction s i sep rule: find_separators_from.induct) auto

lemma find_separators_from_done:
  "no_whitespace s \<Longrightarrow> scheme_separator sep \<noteq> None \<Longrightarrow> type_separator sep \<noteq> None \<Longrightarrow>
   find_separators_from s i sep = sep"
  by (induction s i sep rule: find_separators_from.induct) auto

lemma find_separators_from_type:
  "no_whitespace s \<Longrightarrow> scheme_separator sep = Some k \<Longrightarrow> type_separator sep = None \<Longrightarrow>
   find_separators_from s i sep = sep\<lparr>type_separator := map_option (\<lambda>j. i + j) (find_char CHR ''/'' s)\<rparr>"
proof (induction s arbitrary: i)
  case Nil
  then show ?case by simp
next
  case (Cons c s)
  then show ?case
    by (cases "c = CHR ''/''"; cases "find_char CHR ''/'' s") (simp_all add: find_separators_from_done)
qed

lemma find_separators_from_scheme:
  "no_whitespace s \<Longrightarrow> scheme_separator sep = None \<Longrightarrow> type_separator sep = None \<Longrightarrow>
   find_separators_from s i sep =
     (case find_char CHR '':'' s of None \<Rightarrow> sep
      | Some j \<Rightarrow> sep\<lparr>scheme_separator := Some (i + j),
          type_separator := map_option (\<lambda>k. Suc (i + j) + k) (find_char CHR ''/'' (drop (Suc j) s))\<rparr>)"
proof (induction s arbitrary: i)
  case Nil
  then show ?case by simp
next
  case (Cons c s)
  then show ?case
    by (cases "c = CHR '':''"; cases "find_char CHR ''/'' s")
       (auto simp: find_separators_from_type split: option.splits)
qed

lemma find_separators_eq:
  assumes "no_whitespace s"
  shows "find_separators s =
     (case find_char CHR '':'' s of
        None \<Rightarrow> \<lparr>scheme_separator = None, type_separator = None, has_whitespace = False\<rparr>
      | Some j \<Rightarrow> \<lparr>scheme_separator = Some j,
          type_separator = map_option (\<lambda>k. Suc j + k) (find_char CHR ''/'' (drop (Suc j) s)), has_whitespace = False\<rparr>)"
  using assms by (simp add: find_separators_def find_separators_from_scheme split: option.splits)

lemma find_separators_whitespace [simp]: "has_whitespace (find_separators s) \<longleftrightarrow> \<not> no_whitespace s"
  by (simp add: find_separators_def find_separators_from_whitespace)

subsection \<open>Parsing\<close>

lemma scheme_is_pkg: "equals_ascii_ignore_case scheme ''pkg'' \<longleftrightarrow> to_lower_ascii scheme = ''pkg''"
proof -
  have "to_lower_ascii ''pkg'' = ''pkg''" by code_simp
  then show ?thesis by (simp only: equals_ascii_ignore_case_iff)
qed

lemma purl_malformed_fields [simp]:
  "\<not> complete (purl_malformed m)" "result_value (purl_malformed m) = []"
  "length (result_warnings (purl_malformed m)) = 1"
  by (simp_all add: purl_malformed_def warn_def new_result_def)

lemma new_result_fields [simp]:
  "complete (new_result v)" "result_value (new_result v) = v" "result_warnings (new_result v) = []"
  by (simp_all add: new_result_def)

text \<open>The parse of a text of the right shape.\<close>

lemma pkg_scheme_no_colon: "to_lower_ascii scheme = ''pkg'' \<Longrightarrow> CHR '':'' \<notin> set scheme"
  using in_to_lower_nonletter [of "CHR '':''" scheme] by simp

lemma purl_parse_shape:
  assumes ws: "no_whitespace (scheme @ '':'' @ ty @ ''/'' @ rest)" and s: "to_lower_ascii scheme = ''pkg''"
    and ty: "ty \<noteq> []" "CHR ''/'' \<notin> set ty" and rest: "rest \<noteq> []"
  shows "purl_parse (scheme @ '':'' @ ty @ ''/'' @ rest) = new_result (''pkg:'' @ to_lower_ascii ty @ ''/'' @ rest)"
proof -
  have ts: "\<forall>y \<in> set ty. y \<noteq> CHR ''/''" "\<forall>y \<in> set scheme. y \<noteq> CHR '':''"
    using ty(2) pkg_scheme_no_colon [OF s] by auto
  define raw where "raw = scheme @ '':'' @ ty @ ''/'' @ rest"
  have raw: "no_whitespace raw" "raw \<noteq> []" "take (length scheme) raw = scheme"
    "substr raw (Suc (length scheme)) (length ty) = ty" "drop (Suc (length scheme) + length ty) raw = ''/'' @ rest"
    "Suc (Suc (length scheme) + length ty) \<noteq> length raw"
    using ws rest by (simp_all add: raw_def substr_def)
  have "find_char CHR '':'' raw = Some (length scheme)" "find_char CHR ''/'' (drop (Suc (length scheme)) raw) = Some (length ty)"
    using ts by (simp_all add: raw_def find_pos_append)
  then have "find_separators raw = \<lparr>scheme_separator = Some (length scheme),
      type_separator = Some (Suc (length scheme) + length ty), has_whitespace = False\<rparr>"
    by (simp add: find_separators_eq [OF raw(1)])
  moreover have "equals_ascii_ignore_case scheme ''pkg''" using s by (simp only: scheme_is_pkg)
  ultimately have "purl_parse raw = new_result (append_lowercase_ascii ''pkg:'' ty @ ''/'' @ rest)"
    using raw ty by (simp add: purl_parse_def)
  then show ?thesis by (simp add: raw_def append_lowercase_ascii_def to_lower_ascii_def)
qed

text \<open>And a complete parse has found that shape.\<close>

lemma purl_parse_complete:
  assumes "complete (purl_parse raw)"
  obtains scheme ty rest where "raw = scheme @ '':'' @ ty @ ''/'' @ rest" "no_whitespace raw"
    "to_lower_ascii scheme = ''pkg''" "ty \<noteq> []" "CHR ''/'' \<notin> set ty" "rest \<noteq> []"
proof -
  from assms have ws: "no_whitespace raw"
    by (auto simp: purl_parse_def Let_def split: if_splits)
  with assms obtain j k where j: "find_char CHR '':'' raw = Some j"
    and s: "to_lower_ascii (take j raw) = ''pkg''" and k: "find_char CHR ''/'' (drop (Suc j) raw) = Some k"
    and k0: "k \<noteq> 0" and e: "Suc (Suc (j + k)) \<noteq> length raw"
    by (auto simp: purl_parse_def find_separators_eq Let_def scheme_is_pkg split: option.splits if_splits)
  let ?d = "drop (Suc j) raw"
  from find_pos_SomeD [OF k] have kl: "k < length ?d" and "?d ! k = CHR ''/''" and ns: "CHR ''/'' \<notin> set (take k ?d)"
    by auto
  then have d: "?d = take k ?d @ ''/'' @ drop (Suc k) ?d"
    using find_pos_split [OF k] by simp
  from find_pos_split [OF j] find_pos_SomeD [OF j] have "raw = take j raw @ '':'' @ ?d" by simp
  then have "raw = take j raw @ '':'' @ take k ?d @ ''/'' @ drop (Suc k) ?d" using d by simp
  then show ?thesis
    using that [of "take j raw" "take k ?d" "drop (Suc k) ?d"] ws s k0 kl ns e by force
qed

lemma no_whitespace_lower [simp]: "no_whitespace (to_lower_ascii s) = no_whitespace s"
proof -
  have "\<forall>c. is_ascii_whitespace (to_lower_ascii_char c) = is_ascii_whitespace c" by code_simp
  then show ?thesis by (simp add: to_lower_ascii_def list.pred_map comp_def)
qed

lemma no_whitespace_seps [simp]:
  "\<not> is_ascii_whitespace CHR '':''" "\<not> is_ascii_whitespace CHR ''/''" "\<not> is_ascii_whitespace CHR ''p''"
  "\<not> is_ascii_whitespace CHR ''k''" "\<not> is_ascii_whitespace CHR ''g''"
  by (simp_all add: is_ascii_whitespace_def)

lemma purl_parse_warnings: "length (result_warnings (purl_parse raw)) = (if complete (purl_parse raw) then 0 else 1)"
  by (simp add: purl_parse_def Let_def split: option.splits)

lemma purl_parse_incomplete: "\<not> complete (purl_parse raw) \<Longrightarrow> result_value (purl_parse raw) = []"
  by (auto simp: purl_parse_def Let_def split: option.splits if_splits)

lemma canonicalize_purl_complete:
  "complete (purl_parse purl) \<Longrightarrow> canonicalize_purl purl producer ws = (result_value (purl_parse purl), ws)"
  by (simp add: canonicalize_purl_def)

subsection \<open>Accessors\<close>

lemma purl_identity_part_extras:
  assumes "CHR ''?'' \<notin> set p" "CHR ''#'' \<notin> set p"
  shows "purl_identity_part p = p" and "e \<in> {CHR ''?'', CHR ''#''} \<Longrightarrow> purl_identity_part (p @ e # extras) = p"
proof -
  have n: "\<forall>c \<in> set p. \<not> c \<in> set ''?#''" using assms by auto
  then have "find_pos (\<lambda>c. c \<in> set ''?#'') p = None" by (simp only: find_pos_None)
  then show "purl_identity_part p = p" by (simp add: purl_identity_part_def)
  show "purl_identity_part (p @ e # extras) = p" if "e \<in> {CHR ''?'', CHR ''#''}"
    using find_pos_append [OF n, of "e # extras"] that by (auto simp: purl_identity_part_def)
qed

lemma purl_type_of_shape: "CHR ''/'' \<notin> set ty \<Longrightarrow> purl_type_of (''pkg:'' @ ty @ ''/'' @ rest) = ty"
proof -
  assume "CHR ''/'' \<notin> set ty"
  then have "\<forall>y \<in> set ty. y \<noteq> CHR ''/''" by auto
  then show ?thesis by (simp add: purl_type_of_def Let_def find_pos_append)
qed

lemma purl_version_of_shape: "CHR ''@'' \<notin> set v \<Longrightarrow> purl_version_of (p @ ''@'' @ v) = v"
proof -
  assume "CHR ''@'' \<notin> set v"
  then have "\<forall>y \<in> set v. y \<noteq> CHR ''@''" by auto
  from rfind_pos_append [OF this] show ?thesis by (simp add: purl_version_of_def)
qed

text \<open>\<open>ns\<close> is empty or ends in a slash.\<close>

lemma purl_name_of_shape:
  assumes ty: "CHR ''/'' \<notin> set ty" and v: "CHR ''@'' \<notin> set v" and n: "CHR ''/'' \<notin> set n"
    and ns: "ns = [] \<or> last ns = CHR ''/''"
  shows "purl_name_of (''pkg:'' @ ty @ ''/'' @ ns @ n @ ''@'' @ v) = n"
proof -
  have sl: "\<forall>y \<in> set ty. y \<noteq> CHR ''/''" "\<forall>y \<in> set v. y \<noteq> CHR ''@''" "\<forall>y \<in> set n. y \<noteq> CHR ''/''"
    using ty v n by auto
  have at: "rfind_char CHR ''@'' (ns @ n @ CHR ''@'' # v) = Some (length (ns @ n))"
    using rfind_pos_append [OF sl(2), of "CHR ''@''" "ns @ n"] by simp
  have slash: "rfind_char CHR ''/'' (ns @ n) = (if ns = [] then None else Some (length ns - 1))"
  proof (cases "ns = []")
    case True
    then show ?thesis using sl(3) by (simp add: rfind_pos_None)
  next
    case False
    with ns have "ns = butlast ns @ [CHR ''/'']" by (metis append_butlast_last_id)
    then have "ns @ n = butlast ns @ CHR ''/'' # n" by (metis append.assoc append_Cons append_Nil)
    then have "rfind_char CHR ''/'' (ns @ n) = Some (length (butlast ns))"
      by (simp only: rfind_pos_append [OF sl(3), of "CHR ''/''" "butlast ns"])
    with False show ?thesis by simp
  qed
  show ?thesis
    using at slash sl(1) by (cases "ns = []") (simp_all add: purl_name_of_def Let_def find_pos_append)
qed

section \<open>Properties\<close>

text \<open>C9: \<open>Purl::parse\<close> accepts exactly the texts of the form \<open>pkg:<type>/<name>\<close>: no white space, a scheme
  that is \<open>pkg\<close> in any case, a non-empty type up to the first slash and a non-empty remainder. What it
  returns is \<open>pkg:\<close>, the lower-cased type and the remainder unchanged; every rejected text gets one
  warning and an empty value, and an accepted one none.\<close>

theorem purl_parse_accepts:
  "(complete (purl_parse raw) \<and> result_value (purl_parse raw) = p \<longleftrightarrow>
     no_whitespace raw \<and> (\<exists>scheme ty rest. raw = scheme @ '':'' @ ty @ ''/'' @ rest \<and> to_lower_ascii scheme = ''pkg'' \<and>
        ty \<noteq> [] \<and> CHR ''/'' \<notin> set ty \<and> rest \<noteq> [] \<and> p = ''pkg:'' @ to_lower_ascii ty @ ''/'' @ rest)) \<and>
   (if complete (purl_parse raw) then result_warnings (purl_parse raw) = []
    else length (result_warnings (purl_parse raw)) = 1 \<and> result_value (purl_parse raw) = [])"
proof (intro conjI iffI)
  assume "complete (purl_parse raw) \<and> result_value (purl_parse raw) = p"
  then have c: "complete (purl_parse raw)" and p: "result_value (purl_parse raw) = p" by auto
  from c obtain scheme ty rest where raw: "raw = scheme @ '':'' @ ty @ ''/'' @ rest" and sh: "no_whitespace raw"
    "to_lower_ascii scheme = ''pkg''" "ty \<noteq> []" "CHR ''/'' \<notin> set ty" "rest \<noteq> []" by (rule purl_parse_complete)
  have "p = ''pkg:'' @ to_lower_ascii ty @ ''/'' @ rest"
    using purl_parse_shape [OF sh(1) [unfolded raw] sh(2-5)] p raw by simp
  with raw sh show "no_whitespace raw"
    and "\<exists>scheme ty rest. raw = scheme @ '':'' @ ty @ ''/'' @ rest \<and> to_lower_ascii scheme = ''pkg'' \<and>
        ty \<noteq> [] \<and> CHR ''/'' \<notin> set ty \<and> rest \<noteq> [] \<and> p = ''pkg:'' @ to_lower_ascii ty @ ''/'' @ rest" by blast+
next
  assume "no_whitespace raw \<and> (\<exists>scheme ty rest. raw = scheme @ '':'' @ ty @ ''/'' @ rest \<and> to_lower_ascii scheme = ''pkg'' \<and>
        ty \<noteq> [] \<and> CHR ''/'' \<notin> set ty \<and> rest \<noteq> [] \<and> p = ''pkg:'' @ to_lower_ascii ty @ ''/'' @ rest)"
  then have "purl_parse raw = new_result p" using purl_parse_shape by blast
  then show "complete (purl_parse raw)" and "result_value (purl_parse raw) = p" by simp_all
next
  show "if complete (purl_parse raw) then result_warnings (purl_parse raw) = []
    else length (result_warnings (purl_parse raw)) = 1 \<and> result_value (purl_parse raw) = []"
    using purl_parse_warnings [of raw] purl_parse_incomplete [of raw] by auto
qed

text \<open>Canonicalising a purl settles it: canonicalising the result again changes nothing and adds no
  warning where the first time added none; two spellings that differ only in the case of the scheme
  and the type get the same canonical form; and the canonical form's type is lower case and is read
  back by \<open>purl_type_of\<close>.\<close>

theorem canonicalize_purl_settles:
  assumes ty: "CHR ''/'' \<notin> set ty" "ty \<noteq> []" and rest: "rest \<noteq> []" and ws: "no_whitespace (ty @ rest)"
    and s: "to_lower_ascii scheme = ''pkg''"
  shows "canonicalize_purl (scheme @ '':'' @ ty @ ''/'' @ rest) producer ws =
      (''pkg:'' @ to_lower_ascii ty @ ''/'' @ rest, ws) \<and>
    canonicalize_purl (''pkg:'' @ to_lower_ascii ty @ ''/'' @ rest) producer ws =
      (''pkg:'' @ to_lower_ascii ty @ ''/'' @ rest, ws) \<and>
    purl_type_of (fst (canonicalize_purl (scheme @ '':'' @ ty @ ''/'' @ rest) producer ws)) = to_lower_ascii ty"
proof -
  have w: "no_whitespace scheme" using no_whitespace_lower [of scheme] by (simp add: s)
  have pkg: "to_lower_ascii ''pkg'' = ''pkg''" by code_simp
  have sl: "CHR ''/'' \<notin> set (to_lower_ascii ty)" using ty(1) by (simp add: in_to_lower_nonletter)
  have 1: "purl_parse (scheme @ '':'' @ ty @ ''/'' @ rest) = new_result (''pkg:'' @ to_lower_ascii ty @ ''/'' @ rest)"
    using ws w ty rest s by (intro purl_parse_shape) simp_all
  have "purl_parse (''pkg'' @ '':'' @ to_lower_ascii ty @ ''/'' @ rest) =
      new_result (''pkg:'' @ to_lower_ascii (to_lower_ascii ty) @ ''/'' @ rest)"
    using ws ty rest sl by (intro purl_parse_shape)
      (simp_all add: pkg del: to_lower_ascii_Cons)
  then have 2: "purl_parse (''pkg:'' @ to_lower_ascii ty @ ''/'' @ rest) = new_result (''pkg:'' @ to_lower_ascii ty @ ''/'' @ rest)"
    by simp
  show ?thesis
    using 1 2 purl_type_of_shape [OF sl] by (simp add: canonicalize_purl_def)
qed

theorem canonicalize_purl_settles_witness:
  "canonicalize_purl ''PKG:NPM/Left-Pad@1.0'' ''npm'' [] = (''pkg:npm/Left-Pad@1.0'', [])"
proof -
  have "to_lower_ascii ''PKG'' = ''pkg''" "to_lower_ascii ''NPM'' = ''npm''" "no_whitespace (''NPM'' @ ''Left-Pad@1.0'')"
    by code_simp+
  then show ?thesis
    using canonicalize_purl_settles [of "''NPM''" "''Left-Pad@1.0''" "''PKG''" "''npm''" "[]"]
    by (simp del: to_lower_ascii_Cons)
qed

text \<open>The accessors take a purl apart at the right places: qualifiers and subpath are cut at the first
  \<open>?\<close> or \<open>#\<close>, the type, the last segment of the name and the version (with an \<open>@\<close> anywhere in the name
  or namespace but none in the version) are read back exactly.\<close>

theorem purl_accessors_exact:
  assumes "CHR ''/'' \<notin> set ty" "CHR ''@'' \<notin> set v" "CHR ''/'' \<notin> set n" "ns = [] \<or> last ns = CHR ''/''"
    and "p = ''pkg:'' @ ty @ ''/'' @ ns @ n @ ''@'' @ v"
    and "CHR ''?'' \<notin> set p" "CHR ''#'' \<notin> set p" "e = CHR ''?'' \<or> e = CHR ''#''"
  shows "purl_identity_part (p @ e # extras) = p \<and> purl_identity_part p = p \<and> purl_type_of p = ty \<and>
    purl_name_of p = n \<and> purl_version_of p = v"
  using purl_identity_part_extras [OF assms(6,7)] purl_type_of_shape [OF assms(1)] assms(8)
    purl_version_of_shape [OF assms(2), of "''pkg:'' @ ty @ ''/'' @ ns @ n"] purl_name_of_shape [OF assms(1-4)] assms(5)
  by auto

theorem purl_accessors_exact_witness:
  "purl_name_of ''pkg:maven/org.slf4j/slf4j-api@2.0.9'' = ''slf4j-api'' \<and>
   purl_version_of ''pkg:maven/org.slf4j/slf4j-api@2.0.9'' = ''2.0.9'' \<and>
   purl_identity_part ''pkg:maven/org.slf4j/slf4j-api@2.0.9?type=jar'' = ''pkg:maven/org.slf4j/slf4j-api@2.0.9''"
  using purl_accessors_exact [of "''maven''" "''2.0.9''" "''slf4j-api''" "''org.slf4j/''"
      "''pkg:maven/org.slf4j/slf4j-api@2.0.9''" "CHR ''?''" "''type=jar''"] by simp

end
