(* ===== verification/Ordered_Map.thy ===== *)
theory Ordered_Map
  imports Prelude
begin

text \<open>
  The containers the components keep their state in. \<open>std::map\<close> is an ordered map: the locale
  \<open>ordered_map\<close> states what a client relies on (lookups after a put, iteration in ascending key order)
  and proves what follows for a container that is filled by one pass over a list;
  \<open>omap_find\<close>/\<open>omap_put\<close> on strictly ascending association lists provide it.
  The locale \<open>dedup_order\<close> states when \<open>std::sort\<close> followed by \<open>std::unique\<close> with a predicate leaves the
  least element of every class, and depends only on the set of the elements.
\<close>

section \<open>Ordered maps\<close>

locale ordered_map =
  fixes empty :: 'm
    and lookup :: "'m \<Rightarrow> 'k :: linorder \<Rightarrow> 'v option"
    and put :: "'k \<Rightarrow> 'v \<Rightarrow> 'm \<Rightarrow> 'm"
    and entries :: "'m \<Rightarrow> ('k \<times> 'v) list"
    and ok :: "'m \<Rightarrow> bool"
  assumes ok_empty: "ok empty"
    and ok_put: "ok m \<Longrightarrow> ok (put k v m)"
    and lookup_empty: "lookup empty k = None"
    and lookup_put: "ok m \<Longrightarrow> lookup (put k v m) k' = (if k' = k then Some v else lookup m k')"
    and entries_sorted: "ok m \<Longrightarrow> sorted_wrt (<) (map fst (entries m))"
    and entries_lookup: "ok m \<Longrightarrow> map_of (entries m) = lookup m"
begin

lemma keys_eq: "ok m \<Longrightarrow> set (map fst (entries m)) = {k. lookup m k \<noteq> None}"
  using entries_lookup [of m] dom_map_of_conv_image_fst [of "entries m"] by (auto simp: dom_def)

lemma finite_keys: "ok m \<Longrightarrow> finite {k. lookup m k \<noteq> None}"
  using keys_eq [of m] by (metis List.finite_set)

text \<open>The iteration order is determined by the lookups.\<close>

lemma entries_eq:
  assumes "ok m"
  shows "entries m = map (\<lambda>k. (k, the (lookup m k))) (sorted_list_of_set {k. lookup m k \<noteq> None})"
proof -
  let ?ks = "map fst (entries m)"
  have s: "sorted_wrt (<) ?ks" by (rule entries_sorted [OF assms])
  then have "sorted ?ks" "distinct ?ks" by (simp_all add: strict_sorted_iff)
  then have ks: "?ks = sorted_list_of_set {k. lookup m k \<noteq> None}"
    using keys_eq [OF assms] finite_keys [OF assms] by (metis sorted_list_of_set_unique strict_sorted_iff distinct_card
        length_map)
  have "e = (fst e, the (lookup m (fst e)))" if "e \<in> set (entries m)" for e
    using that \<open>distinct ?ks\<close> entries_lookup [OF assms] by (metis map_of_is_SomeI option.sel prod.collapse)
  then have "entries m = map (\<lambda>k. (k, the (lookup m k))) ?ks"
    by (simp add: map_idI comp_def)
  with ks show ?thesis by simp
qed

lemma entries_cong: "ok m \<Longrightarrow> ok m' \<Longrightarrow> lookup m = lookup m' \<Longrightarrow> entries m = entries m'"
  by (simp add: entries_eq)

text \<open>Filling a map by one pass: the first element of a key starts its value, the later ones are
  combined into it.\<close>

definition group_step :: "('a \<Rightarrow> 'k) \<Rightarrow> ('a \<Rightarrow> 'v) \<Rightarrow> ('v \<Rightarrow> 'a \<Rightarrow> 'v) \<Rightarrow> 'a \<Rightarrow> 'm \<Rightarrow> 'm" where
  "group_step key start combine x m =
     put (key x) (case lookup m (key x) of None \<Rightarrow> start x | Some v \<Rightarrow> combine v x) m"

definition group_value :: "('a \<Rightarrow> 'v) \<Rightarrow> ('v \<Rightarrow> 'a \<Rightarrow> 'v) \<Rightarrow> 'a list \<Rightarrow> 'v option" where
  "group_value start combine xs = (case xs of [] \<Rightarrow> None | x # xs \<Rightarrow> Some (foldl combine (start x) xs))"

lemma group_value_snoc:
  "group_value start combine (xs @ [x]) =
     Some (case group_value start combine xs of None \<Rightarrow> start x | Some v \<Rightarrow> combine v x)"
  by (cases xs) (simp_all add: group_value_def)

lemma group_fold:
  "ok (foldl (\<lambda>m x. group_step key start combine x m) empty xs) \<and>
   lookup (foldl (\<lambda>m x. group_step key start combine x m) empty xs) k =
     group_value start combine (filter (\<lambda>x. key x = k) xs)"
proof (induction xs arbitrary: k rule: rev_induct)
  case Nil
  then show ?case by (simp add: ok_empty lookup_empty group_value_def)
next
  case (snoc x xs)
  then show ?case
    by (auto simp: group_step_def ok_put lookup_put group_value_snoc split: option.split)
qed

lemma group_entries:
  "entries (foldl (\<lambda>m x. group_step key start combine x m) empty xs) =
     map (\<lambda>k. (k, the (group_value start combine (filter (\<lambda>x. key x = k) xs)))) (sorted_list_of_set (key ` set xs))"
proof -
  let ?m = "foldl (\<lambda>m x. group_step key start combine x m) empty xs"
  have ok: "ok ?m" and l: "lookup ?m k = group_value start combine (filter (\<lambda>x. key x = k) xs)" for k
    using group_fold [of key start combine xs k] by auto
  have "{k. lookup ?m k \<noteq> None} = key ` set xs"
  proof -
    have "lookup ?m k \<noteq> None \<longleftrightarrow> k \<in> key ` set xs" for k
      by (cases "filter (\<lambda>x. key x = k) xs") (auto simp: l group_value_def filter_empty_conv filter_eq_Cons_iff)
    then show ?thesis by blast
  qed
  then show ?thesis using entries_eq [OF ok] by (simp add: l)
qed

end

fun omap_find :: "('k :: linorder \<times> 'v) list \<Rightarrow> 'k \<Rightarrow> 'v option" where
  "omap_find [] k = None"
| "omap_find ((k', v) # m) k = (if k = k' then Some v else if k < k' then None else omap_find m k)"

fun omap_put :: "'k :: linorder \<Rightarrow> 'v \<Rightarrow> ('k \<times> 'v) list \<Rightarrow> ('k \<times> 'v) list" where
  "omap_put k v [] = [(k, v)]"
| "omap_put k v ((k', v') # m) =
     (if k < k' then (k, v) # (k', v') # m
      else if k = k' then (k, v) # m
      else (k', v') # omap_put k v m)"

definition omap_ok :: "('k :: linorder \<times> 'v) list \<Rightarrow> bool" where
  "omap_ok m \<longleftrightarrow> sorted_wrt (<) (map fst m)"

lemma omap_put_keys: "fst ` set (omap_put k v m) = insert k (fst ` set m)"
  by (induction k v m rule: omap_put.induct) auto

lemma omap_ok_put: "omap_ok m \<Longrightarrow> omap_ok (omap_put k v m)"
  unfolding omap_ok_def
proof (induction k v m rule: omap_put.induct)
  case (2 k v k' v' m)
  then show ?case
    using omap_put_keys [of k v m] by (auto simp flip: image_set)
qed simp

lemma omap_find_map_of: "omap_ok m \<Longrightarrow> omap_find m k = map_of m k"
proof (induction m)
  case Nil
  then show ?case by simp
next
  case (Cons e m)
  moreover have "map_of m k = None" if "k < fst e"
  proof -
    from Cons.prems have "\<forall>y \<in> fst ` set m. fst e < y" by (auto simp: omap_ok_def)
    then have "k \<notin> fst ` set m" using that by (meson less_asym)
    then show ?thesis by (simp add: map_of_eq_None_iff)
  qed
  ultimately show ?case by (cases e) (auto simp: omap_ok_def)
qed

lemma map_of_omap_put: "omap_ok m \<Longrightarrow> map_of (omap_put k v m) = (map_of m)(k \<mapsto> v)"
  by (induction k v m rule: omap_put.induct) (auto simp: omap_ok_def fun_upd_twist)

interpretation omap: ordered_map "[]" omap_find omap_put "\<lambda>m. m" omap_ok
proof unfold_locales
  show "omap_ok ([] :: ('k :: linorder \<times> 'v) list)" by (simp add: omap_ok_def)
  show "omap_ok (omap_put k v m)" if "omap_ok m" for k :: "'k :: linorder" and v :: 'v and m
    using that by (rule omap_ok_put)
  show "omap_find [] k = None" for k :: "'k :: linorder" by simp
  show "omap_find (omap_put k v m) k' = (if k' = k then Some v else omap_find m k')" if "omap_ok m"
    for k k' :: "'k :: linorder" and v :: 'v and m
    using that by (simp add: omap_find_map_of omap_ok_put map_of_omap_put)
  show "sorted_wrt (<) (map fst m)" if "omap_ok m" for m :: "('k :: linorder \<times> 'v) list"
    using that by (simp add: omap_ok_def)
  show "map_of m = omap_find m" if "omap_ok m" for m :: "('k :: linorder \<times> 'v) list"
    using omap_find_map_of [OF that] by auto
qed

section \<open>Sorting and removing duplicates\<close>

lemma pairwise_list_induct [case_names Nil single pair]:
  assumes nil: "Q []" and one: "\<And>a. Q [a]" and two: "\<And>a b r. Q (a # r) \<Longrightarrow> Q (b # r) \<Longrightarrow> Q (a # b # r)"
  shows "Q l"
proof (induction "length l" arbitrary: l rule: less_induct)
  case less
  then show ?case using nil one two by (cases l rule: remdups_adj.cases) auto
qed

locale dedup_order =
  fixes same :: "'a :: linorder \<Rightarrow> 'a \<Rightarrow> bool"
  assumes same_refl: "same x x"
    and same_sym: "same x y \<Longrightarrow> same y x"
    and same_trans: "same x y \<Longrightarrow> same y z \<Longrightarrow> same x z"
    and same_convex: "x \<le> y \<Longrightarrow> y \<le> z \<Longrightarrow> same x z \<Longrightarrow> same x y"
begin

definition best :: "'a set \<Rightarrow> 'a set" where
  "best S = {x \<in> S. \<forall>y \<in> S. same x y \<longrightarrow> x \<le> y}"

lemma best_subset: "best S \<subseteq> S"
  by (auto simp: best_def)

lemma best_below:
  assumes "finite S" "x \<in> S"
  shows "\<exists>y \<in> best S. same x y \<and> y \<le> x"
proof -
  let ?C = "{y \<in> S. same x y}"
  have f: "finite ?C" "?C \<noteq> {}" using assms same_refl by auto
  let ?y = "Min ?C"
  have "?y \<in> ?C" using f by (rule Min_in)
  moreover have "?y \<le> z" if "z \<in> S" "same ?y z" for z
    using that f \<open>?y \<in> ?C\<close> by (intro Min_le) (auto intro: same_trans)
  ultimately show ?thesis using f assms same_refl by (auto simp: best_def)
qed

lemma best_unique: "x \<in> best S \<Longrightarrow> y \<in> best S \<Longrightarrow> same x y \<Longrightarrow> x = y"
  using same_sym [of x y] by (auto simp: best_def intro: antisym)

lemma best_Un:
  assumes "finite S"
  shows "best (best S \<union> T) = best (S \<union> T)"
proof (intro set_eqI iffI)
  fix x assume x: "x \<in> best (best S \<union> T)"
  have "x \<le> y" if y: "y \<in> S \<union> T" "same x y" for y
  proof (cases "y \<in> T")
    case True
    with x y show ?thesis by (auto simp: best_def)
  next
    case False
    with y have "y \<in> S" by auto
    from best_below [OF assms this] obtain z where "z \<in> best S" "same y z" "z \<le> y" by auto
    with x y(2) show ?thesis by (auto simp: best_def intro: same_trans order_trans)
  qed
  with x best_subset [of S] show "x \<in> best (S \<union> T)" by (auto simp: best_def)
next
  fix x assume "x \<in> best (S \<union> T)"
  with best_subset [of S] show "x \<in> best (best S \<union> T)" by (auto simp: best_def)
qed

lemma set_unique_adj_sorted: "sorted xs \<Longrightarrow> set (unique_adj same xs) = best (set xs)"
proof (induction xs rule: pairwise_list_induct)
  case Nil
  then show ?case by (simp add: best_def)
next
  case (single x)
  then show ?case by (auto simp: best_def)
next
  case (pair x y ys)
  from pair.prems have xy: "x \<le> y" and le: "\<forall>z \<in> set ys. x \<le> z \<and> y \<le> z" by auto
  show ?case
  proof (cases "same x y")
    case True
    then have "set (unique_adj same (x # y # ys)) = best (insert x (set ys))"
      using pair.IH(1) pair.prems by auto
    also have "\<dots> = best (insert x (insert y (set ys)))"
    proof -
      have "same x z \<longleftrightarrow> same y z" "same z x \<longleftrightarrow> same z y" for z
        using True same_sym same_trans by blast+
      then show ?thesis
        using xy le same_refl by (auto simp: best_def intro: antisym)
    qed
    finally show ?thesis by simp
  next
    case False
    have none: "\<not> same x z" "\<not> same z x" if "z \<in> set (y # ys)" for z
      using that False same_convex [of x y z] le xy same_sym [of z x] by auto
    have "set (unique_adj same (x # y # ys)) = insert x (best (set (y # ys)))"
      using pair.IH(2) pair.prems False by auto
    also have "\<dots> = best (insert x (set (y # ys)))"
      using none by (auto simp: best_def)
    finally show ?thesis by simp
  qed
qed

lemma sorted_unique_adj: "sorted xs \<Longrightarrow> sorted (unique_adj same xs)"
proof (induction xs rule: pairwise_list_induct)
  case (pair x y ys)
  then show ?case using set_unique_adj_subset [of same "y # ys"] by auto
qed simp_all

lemma distinct_unique_adj: "sorted xs \<Longrightarrow> distinct (unique_adj same xs)"
proof (induction xs rule: pairwise_list_induct)
  case (pair x y ys)
  have "x \<notin> set (y # ys)" if "\<not> same x y"
    using that pair.prems same_refl by (auto intro: antisym)
  with pair show ?case using set_unique_adj_subset [of same "y # ys"] by auto
qed simp_all

lemma dedup_eq: "unique_adj same (sort xs) = sorted_list_of_set (best (set xs))"
proof (rule sorted_distinct_set_unique)
  show "sorted (unique_adj same (sort xs))" by (simp add: sorted_unique_adj)
  show "distinct (unique_adj same (sort xs))" by (simp add: distinct_unique_adj)
  have "finite (best (set xs))" by (rule finite_subset [OF best_subset]) simp
  then show "set (unique_adj same (sort xs)) = set (sorted_list_of_set (best (set xs)))"
    by (simp add: set_unique_adj_sorted)
qed simp_all

lemma dedup_append: "unique_adj same (sort (unique_adj same (sort xs) @ ys)) = unique_adj same (sort (xs @ ys))"
proof -
  have "finite (best (set xs))" by (rule finite_subset [OF best_subset]) simp
  then show ?thesis by (simp add: dedup_eq best_Un)
qed

end

end
