(* ===== verification/Model.thy ===== *)
theory Model
  imports Purl Ordered_Map "HOL-Library.Product_Lexorder" "HOL-Library.Multiset"
begin

text \<open>
  The one data model every module shares, \<open>core/model.hpp\<close> and \<open>core/model.cpp\<close>: components with their
  evidence, and the merge that makes one component per identity out of everything the producers
  reported. The enumerations are ordered by their ranks, evidence by \<open>evidence_order\<close>, so that
  \<open>std::sort\<close> is \<^const>\<open>sort\<close>.
\<close>

section \<open>Enumerations\<close>

datatype source = Manifest | Heuristic | ObservedBuild | Fingerprint | Binary

datatype confidence = Low | Medium | High

datatype scope = Required | Optional | Excluded

datatype cpe_provenance = Unspecified | SynthesizedWildcardVendor

definition confidence_to_string :: "confidence \<Rightarrow> string" where
  "confidence_to_string c = (case c of High \<Rightarrow> ''high'' | Medium \<Rightarrow> ''medium'' | Low \<Rightarrow> ''low'')"

definition scope_to_string :: "scope \<Rightarrow> string" where
  "scope_to_string s = (case s of Required \<Rightarrow> ''required'' | Optional \<Rightarrow> ''optional'' | Excluded \<Rightarrow> ''excluded'')"

definition provenance_to_string :: "cpe_provenance \<Rightarrow> string" where
  "provenance_to_string p = (case p of SynthesizedWildcardVendor \<Rightarrow> ''wildcard-vendor-guess'' | Unspecified \<Rightarrow> [])"

definition confidence_rank :: "confidence \<Rightarrow> int" where
  "confidence_rank c = (case c of Low \<Rightarrow> 0 | Medium \<Rightarrow> 1 | High \<Rightarrow> 2)"

definition source_rank :: "source \<Rightarrow> int" where
  "source_rank s = (case s of Manifest \<Rightarrow> 0 | Heuristic \<Rightarrow> 1 | ObservedBuild \<Rightarrow> 2 | Fingerprint \<Rightarrow> 3 | Binary \<Rightarrow> 4)"

definition scope_rank :: "scope \<Rightarrow> int" where
  "scope_rank s = (case s of Required \<Rightarrow> 0 | Optional \<Rightarrow> 1 | Excluded \<Rightarrow> 2)"

lemma confidence_rank_inj [simp]: "confidence_rank a = confidence_rank b \<longleftrightarrow> a = b"
  by (cases a; cases b) (simp_all add: confidence_rank_def)

lemma source_rank_inj [simp]: "source_rank a = source_rank b \<longleftrightarrow> a = b"
  by (cases a; cases b) (simp_all add: source_rank_def)

lemma scope_rank_inj [simp]: "scope_rank a = scope_rank b \<longleftrightarrow> a = b"
  by (cases a; cases b) (simp_all add: scope_rank_def)

instantiation confidence :: linorder
begin

definition "a \<le> b \<longleftrightarrow> confidence_rank a \<le> confidence_rank b"

definition "a < b \<longleftrightarrow> confidence_rank a < confidence_rank b"

instance by standard (auto simp: less_eq_confidence_def less_confidence_def)

end

instantiation scope :: linorder
begin

definition "a \<le> b \<longleftrightarrow> scope_rank a \<le> scope_rank b"

definition "a < b \<longleftrightarrow> scope_rank a < scope_rank b"

instance by standard (auto simp: less_eq_scope_def less_scope_def)

end

section \<open>Evidence\<close>

datatype evidence = Evidence (ev_source: source) (ev_detail: string) (ev_confidence: confidence)

definition evidence_order :: "evidence \<Rightarrow> evidence \<Rightarrow> bool" where
  "evidence_order l r =
     (if ev_source l \<noteq> ev_source r then source_rank (ev_source l) < source_rank (ev_source r)
      else if ev_detail l \<noteq> ev_detail r then ev_detail l < ev_detail r
      else confidence_rank (ev_confidence l) > confidence_rank (ev_confidence r))"

definition evidence_key :: "evidence \<Rightarrow> int \<times> string \<times> int" where
  "evidence_key e = (source_rank (ev_source e), ev_detail e, - confidence_rank (ev_confidence e))"

lemma evidence_key_inj [simp]: "evidence_key a = evidence_key b \<longleftrightarrow> a = b"
  by (cases a; cases b) (auto simp: evidence_key_def)

lemma evidence_order_key: "evidence_order l r \<longleftrightarrow> evidence_key l < evidence_key r"
  by (auto simp: evidence_order_def evidence_key_def less_prod_def less_le)

instantiation evidence :: linorder
begin

definition "l \<le> r \<longleftrightarrow> \<not> evidence_order r (l :: evidence)"

definition "l < r \<longleftrightarrow> evidence_order l (r :: evidence)"

instance by standard (auto simp: less_eq_evidence_def less_evidence_def evidence_order_key)

end

definition has_same_evidence_identity :: "evidence \<Rightarrow> evidence \<Rightarrow> bool" where
  "has_same_evidence_identity l r \<longleftrightarrow> ev_source l = ev_source r \<and> ev_detail l = ev_detail r"

definition normalize_evidence :: "evidence list \<Rightarrow> evidence list" where
  "normalize_evidence ev = unique_adj has_same_evidence_identity (sort ev)"

section \<open>Components\<close>

record component =
  comp_name :: string
  comp_version :: string
  comp_supplier :: string
  comp_license :: string
  comp_purl :: string
  comp_cpe :: string
  comp_cpe_provenance :: cpe_provenance
  comp_sha256 :: string
  comp_root :: string
  comp_evidence :: "evidence list"
  used_in_build :: bool
  comp_scope :: scope

definition new_component :: component where
  "new_component = \<lparr>comp_name = [], comp_version = [], comp_supplier = [], comp_license = [], comp_purl = [],
     comp_cpe = [], comp_cpe_provenance = Unspecified, comp_sha256 = [], comp_root = [], comp_evidence = [],
     used_in_build = True, comp_scope = Required\<rparr>"

definition component_identity :: "component \<Rightarrow> string" where
  "component_identity c =
     (if comp_purl c \<noteq> [] then
        let parsed_purl = purl_parse (comp_purl c) in
        if complete parsed_purl then result_value parsed_purl else comp_purl c
      else comp_name c @ ''@'' @ comp_version c)"

text \<open>The statements of \<open>merge_into\<close>, in their order, on the destination.\<close>

definition merge_into :: "component \<Rightarrow> component \<Rightarrow> component" where
  "merge_into destination src =
     (let d = destination;
          d = (if comp_name d = [] then d\<lparr>comp_name := comp_name src\<rparr> else d);
          d = (if comp_version d = [] then d\<lparr>comp_version := comp_version src\<rparr> else d);
          d = (if comp_supplier d = [] then d\<lparr>comp_supplier := comp_supplier src\<rparr> else d);
          d = (if comp_license d = [] then d\<lparr>comp_license := comp_license src\<rparr> else d);
          d = (if comp_cpe d = [] then d\<lparr>comp_cpe := comp_cpe src, comp_cpe_provenance := comp_cpe_provenance src\<rparr> else d);
          d = (if comp_sha256 d = [] then d\<lparr>comp_sha256 := comp_sha256 src\<rparr> else d);
          d = (if comp_root d = [] then d\<lparr>comp_root := comp_root src\<rparr> else d);
          d = d\<lparr>used_in_build := used_in_build d \<or> used_in_build src\<rparr>;
          d = (if scope_rank (comp_scope src) < scope_rank (comp_scope d) then d\<lparr>comp_scope := comp_scope src\<rparr> else d)
      in d\<lparr>comp_evidence := normalize_evidence (comp_evidence d @ comp_evidence src)\<rparr>)"

fun highest_confidence_from :: "evidence list \<Rightarrow> confidence \<Rightarrow> confidence" where
  "highest_confidence_from [] highest = highest"
| "highest_confidence_from (e # es) highest =
     highest_confidence_from es
       (if confidence_rank (ev_confidence e) > confidence_rank highest then ev_confidence e else highest)"

definition highest_confidence :: "component \<Rightarrow> confidence" where
  "highest_confidence c = highest_confidence_from (comp_evidence c) Low"

text \<open>The loop of \<open>merge_all\<close> over the ordered map \<open>components_by_identity\<close>.\<close>

definition merge_all_step :: "(string \<times> component) list \<Rightarrow> component \<Rightarrow> (string \<times> component) list" where
  "merge_all_step components_by_identity c =
     (let identity_key = component_identity c in
      case omap_find components_by_identity identity_key of
        None \<Rightarrow> omap_put identity_key (c\<lparr>comp_evidence := normalize_evidence (comp_evidence c)\<rparr>) components_by_identity
      | Some existing \<Rightarrow> omap_put identity_key (merge_into existing c) components_by_identity)"

definition merge_all :: "component list \<Rightarrow> component list" where
  "merge_all components = map snd (foldl merge_all_step [] components)"

section \<open>What a merged component is\<close>

definition first_nonempty :: "'a list list \<Rightarrow> 'a list" where
  "first_nonempty ss = (case filter (\<lambda>s. s \<noteq> []) ss of [] \<Rightarrow> [] | s # _ \<Rightarrow> s)"

text \<open>The identifier and its provenance travel together: those of the first component that has an
  identifier, or the last component's when none has.\<close>

definition first_cpe :: "component list \<Rightarrow> component" where
  "first_cpe cs = (case filter (\<lambda>c. comp_cpe c \<noteq> []) cs of [] \<Rightarrow> last cs | c # _ \<Rightarrow> c)"

definition merged_component :: "component list \<Rightarrow> component" where
  "merged_component cs =
    \<lparr>comp_name = first_nonempty (map comp_name cs), comp_version = first_nonempty (map comp_version cs),
     comp_supplier = first_nonempty (map comp_supplier cs), comp_license = first_nonempty (map comp_license cs),
     comp_purl = comp_purl (hd cs), comp_cpe = comp_cpe (first_cpe cs), comp_cpe_provenance = comp_cpe_provenance (first_cpe cs),
     comp_sha256 = first_nonempty (map comp_sha256 cs), comp_root = first_nonempty (map comp_root cs),
     comp_evidence = normalize_evidence (concat (map comp_evidence cs)),
     used_in_build = list_ex used_in_build cs, comp_scope = Min (comp_scope ` set cs)\<rparr>"

section \<open>Lemmas\<close>

subsection \<open>Evidence\<close>

interpretation ev: dedup_order has_same_evidence_identity
  by unfold_locales
    (auto simp: has_same_evidence_identity_def less_eq_evidence_def evidence_order_def split: if_splits)

lemma normalize_evidence_eq: "normalize_evidence xs = sorted_list_of_set (ev.best (set xs))"
  by (simp add: normalize_evidence_def ev.dedup_eq)

lemma normalize_evidence_append [simp]:
  "normalize_evidence (normalize_evidence xs @ ys) = normalize_evidence (xs @ ys)"
  by (simp add: normalize_evidence_def ev.dedup_append)

lemma normalize_evidence_cong: "set xs = set ys \<Longrightarrow> normalize_evidence xs = normalize_evidence ys"
  by (simp add: normalize_evidence_eq)

lemma finite_best_evidence [simp]: "finite S \<Longrightarrow> finite (ev.best S)"
  by (rule finite_subset [OF ev.best_subset])

lemma set_normalize_evidence: "set (normalize_evidence xs) = ev.best (set xs)"
  by (simp add: normalize_evidence_eq)

lemma same_identity_le:
  "has_same_evidence_identity e f \<Longrightarrow> e \<le> f \<longleftrightarrow> ev_confidence f \<le> ev_confidence e"
  by (auto simp: has_same_evidence_identity_def less_eq_evidence_def evidence_order_def less_eq_confidence_def)

lemma normalize_evidence_strict:
  "sorted_wrt (\<lambda>e f. (source_rank (ev_source e), ev_detail e) < (source_rank (ev_source f), ev_detail f))
     (normalize_evidence xs)"
proof -
  let ?ys = "normalize_evidence xs"
  have "sorted_wrt (<) ?ys" by (simp add: normalize_evidence_eq strict_sorted_iff)
  moreover have "(source_rank (ev_source e), ev_detail e) < (source_rank (ev_source f), ev_detail f)"
    if "e \<in> set ?ys" "f \<in> set ?ys" "e < f" for e f
  proof -
    from that have "\<not> has_same_evidence_identity e f"
      using ev.best_unique [of e "set xs" f] by (auto simp: set_normalize_evidence)
    with that(3) show ?thesis
      by (auto simp: less_evidence_def evidence_order_def has_same_evidence_identity_def split: if_splits)
  qed
  ultimately show ?thesis by (rule sorted_wrt_mono_rel [rotated])
qed

subsection \<open>Confidence\<close>

lemma highest_confidence_from_eq:
  "highest_confidence_from es h = Max (insert h (ev_confidence ` set es))"
proof (induction es arbitrary: h)
  case Nil
  then show ?case by simp
next
  case (Cons e es)
  have "(if confidence_rank (ev_confidence e) > confidence_rank h then ev_confidence e else h) = max h (ev_confidence e)"
    by (simp add: max_def less_eq_confidence_def)
  moreover have "Max (insert (max h c) S) = Max (insert h (insert c S))" if "finite S" for c :: confidence and S
    using that by (cases "S = {}") (simp_all add: max.assoc)
  ultimately show ?case using Cons.IH by simp
qed

lemma Low_least [simp]: "Low \<le> c"
  by (cases c) (simp_all add: less_eq_confidence_def confidence_rank_def)

lemma highest_confidence_normalize:
  "highest_confidence (c\<lparr>comp_evidence := normalize_evidence es\<rparr>) = highest_confidence (c\<lparr>comp_evidence := es\<rparr>)"
proof -
  have "Max (insert Low (ev_confidence ` ev.best (set es))) = Max (insert Low (ev_confidence ` set es))"
  proof (rule antisym)
    show "Max (insert Low (ev_confidence ` ev.best (set es))) \<le> Max (insert Low (ev_confidence ` set es))"
      using ev.best_subset [of "set es"] by (intro Max_mono) auto
    have "c \<le> Max (insert Low (ev_confidence ` ev.best (set es)))" if "c \<in> insert Low (ev_confidence ` set es)" for c
      using that
    proof
      assume "c = Low"
      then show ?thesis by simp
    next
      assume "c \<in> ev_confidence ` set es"
      then obtain e where e: "e \<in> set es" and c: "c = ev_confidence e" by auto
      from ev.best_below [OF _ e] obtain f where "f \<in> ev.best (set es)" "has_same_evidence_identity e f" "f \<le> e" by auto
      then have "c \<le> ev_confidence f" using same_identity_le [of f e] ev.same_sym [of e f] c by simp
      also have "\<dots> \<le> Max (insert Low (ev_confidence ` ev.best (set es)))"
        using \<open>f \<in> ev.best (set es)\<close> by (intro Max_ge) auto
      finally show ?thesis .
    qed
    then show "Max (insert Low (ev_confidence ` set es)) \<le> Max (insert Low (ev_confidence ` ev.best (set es)))"
      by (intro Max.boundedI) auto
  qed
  then show ?thesis by (simp add: highest_confidence_def highest_confidence_from_eq set_normalize_evidence)
qed

subsection \<open>Merging\<close>

lemma merge_into_fields [simp]:
  "comp_name (merge_into d s) = (if comp_name d = [] then comp_name s else comp_name d)"
  "comp_version (merge_into d s) = (if comp_version d = [] then comp_version s else comp_version d)"
  "comp_supplier (merge_into d s) = (if comp_supplier d = [] then comp_supplier s else comp_supplier d)"
  "comp_license (merge_into d s) = (if comp_license d = [] then comp_license s else comp_license d)"
  "comp_purl (merge_into d s) = comp_purl d"
  "comp_cpe (merge_into d s) = (if comp_cpe d = [] then comp_cpe s else comp_cpe d)"
  "comp_cpe_provenance (merge_into d s) = (if comp_cpe d = [] then comp_cpe_provenance s else comp_cpe_provenance d)"
  "comp_sha256 (merge_into d s) = (if comp_sha256 d = [] then comp_sha256 s else comp_sha256 d)"
  "comp_root (merge_into d s) = (if comp_root d = [] then comp_root s else comp_root d)"
  "comp_evidence (merge_into d s) = normalize_evidence (comp_evidence d @ comp_evidence s)"
  "used_in_build (merge_into d s) = (used_in_build d \<or> used_in_build s)"
  "comp_scope (merge_into d s) = min (comp_scope d) (comp_scope s)"
  by (simp_all add: merge_into_def Let_def min_def less_eq_scope_def)

lemma first_nonempty_snoc:
  "first_nonempty (ss @ [s]) = (if first_nonempty ss = [] then s else first_nonempty ss)"
  by (auto simp: first_nonempty_def filter_empty_conv filter_eq_Cons_iff split: list.split)

lemma first_cpe_snoc:
  "cs \<noteq> [] \<Longrightarrow> first_cpe (cs @ [c]) = (if comp_cpe (first_cpe cs) = [] then c else first_cpe cs)"
proof (cases "filter (\<lambda>c. comp_cpe c \<noteq> []) cs")
  case Nil
  moreover assume "cs \<noteq> []"
  ultimately show ?thesis by (auto simp: first_cpe_def filter_empty_conv)
next
  case (Cons d ds)
  then have "comp_cpe d \<noteq> []" by (metis (mono_tags) filter_eq_ConsD)
  with Cons show ?thesis by (simp add: first_cpe_def)
qed

lemma merged_component_single:
  "merged_component [c] = c\<lparr>comp_evidence := normalize_evidence (comp_evidence c)\<rparr>"
  by (simp add: merged_component_def first_nonempty_def first_cpe_def)

lemma merged_component_snoc:
  assumes "cs \<noteq> []"
  shows "merged_component (cs @ [c]) = merge_into (merged_component cs) c"
proof -
  have "Min (comp_scope ` set (cs @ [c])) = min (Min (comp_scope ` set cs)) (comp_scope c)"
    using assms by (simp add: min.commute)
  then show ?thesis
    using assms by (intro component.equality) (simp_all add: merged_component_def first_nonempty_snoc first_cpe_snoc)
qed

lemma foldl_merge_into:
  "foldl merge_into (merged_component [c]) cs = merged_component (c # cs)"
proof (induction cs rule: rev_induct)
  case Nil
  then show ?case by simp
next
  case (snoc d cs)
  then show ?case using merged_component_snoc [of "c # cs" d] by simp
qed

lemma merge_all_step_group:
  "merge_all_step = (\<lambda>m c. omap.group_step component_identity (\<lambda>c. merged_component [c]) merge_into c m)"
  by (intro ext) (simp add: merge_all_step_def omap.group_step_def Let_def merged_component_single split: option.split)

lemma merge_all_grouped:
  "merge_all cs = map (\<lambda>k. merged_component (filter (\<lambda>c. component_identity c = k) cs))
     (sorted_list_of_set (component_identity ` set cs))"
proof -
  have "the (omap.group_value (\<lambda>c. merged_component [c]) merge_into (filter (\<lambda>c. component_identity c = k) cs)) =
      merged_component (filter (\<lambda>c. component_identity c = k) cs)"
    if "k \<in> component_identity ` set cs" for k
  proof -
    from that obtain x xs where "filter (\<lambda>c. component_identity c = k) cs = x # xs"
      by (cases "filter (\<lambda>c. component_identity c = k) cs") (auto simp: filter_empty_conv)
    then show ?thesis by (simp add: omap.group_value_def foldl_merge_into)
  qed
  then show ?thesis
    using omap.group_entries [of component_identity "\<lambda>c. merged_component [c]" merge_into cs]
    by (simp add: merge_all_def merge_all_step_group comp_def)
qed

section \<open>Properties\<close>

text \<open>C2: \<open>merge_all\<close> makes exactly one component per identity, in strictly ascending order of the
  identities, and each is what the group of components with that identity determines: every text
  field is the first non-empty one, the identifier keeps its own provenance, the evidence is the
  normalised union, \<open>used_in_build\<close> is any-true-wins and the scope is the least restrictive.\<close>

theorem merge_all_groups:
  "merge_all cs = map (\<lambda>k. merged_component (filter (\<lambda>c. component_identity c = k) cs))
     (sorted_list_of_set (component_identity ` set cs))"
  by (rule merge_all_grouped)

text \<open>C3: Reruns agree: when the producers report the same components in another order, the merged list
  has the same identities in the same order, with the same evidence, the same \<open>used_in_build\<close>, the
  same scope and the same highest confidence at every place.\<close>

theorem merge_all_order_independent:
  assumes "mset cs = mset cs'"
  shows "map (\<lambda>c. (comp_evidence c, used_in_build c, comp_scope c, highest_confidence c)) (merge_all cs) =
    map (\<lambda>c. (comp_evidence c, used_in_build c, comp_scope c, highest_confidence c)) (merge_all cs')"
proof -
  have s: "set cs = set cs'" using assms by (metis set_mset_mset)
  have "comp_evidence (merged_component (filter p cs)) = comp_evidence (merged_component (filter p cs')) \<and>
      used_in_build (merged_component (filter p cs)) = used_in_build (merged_component (filter p cs')) \<and>
      comp_scope (merged_component (filter p cs)) = comp_scope (merged_component (filter p cs'))" for p
    using s by (auto simp: merged_component_def list_ex_iff intro!: normalize_evidence_cong)
  then show ?thesis
    by (simp add: merge_all_grouped s highest_confidence_def)
qed

theorem merge_all_order_independent_witness:
  "map comp_scope (merge_all [new_component\<lparr>comp_name := ''a''\<rparr>, new_component\<lparr>comp_name := ''a'', comp_scope := Excluded\<rparr>]) =
   map comp_scope (merge_all [new_component\<lparr>comp_name := ''a'', comp_scope := Excluded\<rparr>, new_component\<lparr>comp_name := ''a''\<rparr>])"
proof -
  let ?a = "new_component\<lparr>comp_name := ''a''\<rparr>" and ?b = "new_component\<lparr>comp_name := ''a'', comp_scope := Excluded\<rparr>"
  have "mset [?a, ?b] = mset [?b, ?a]" by (simp add: add_mset_commute)
  from arg_cong [OF merge_all_order_independent [OF this], of "map (\<lambda>(e, u, s, h). s)"]
  show ?thesis by (simp add: comp_def)
qed

text \<open>Evidence is kept in one normal form: strictly ascending by source and detail, one item for each
  source and detail that occurs, carrying the highest confidence any duplicate had; and normalising
  early changes nothing later, so merging in stages or all at once gives the same evidence and loses
  no confidence.\<close>

theorem normalize_evidence_normal_form:
  "sorted_wrt (\<lambda>e f. (source_rank (ev_source e), ev_detail e) < (source_rank (ev_source f), ev_detail f)) (normalize_evidence xs) \<and>
   (e \<in> set (normalize_evidence xs)) =
     (e \<in> set xs \<and> ev_confidence e = Max (ev_confidence ` {f \<in> set xs. has_same_evidence_identity e f})) \<and>
   normalize_evidence (normalize_evidence xs @ ys) = normalize_evidence (xs @ ys) \<and>
   highest_confidence (merge_into c d) = max (highest_confidence c) (highest_confidence d)"
proof (intro conjI)
  show "sorted_wrt (\<lambda>e f. (source_rank (ev_source e), ev_detail e) < (source_rank (ev_source f), ev_detail f)) (normalize_evidence xs)"
    by (rule normalize_evidence_strict)
  show "(e \<in> set (normalize_evidence xs)) =
     (e \<in> set xs \<and> ev_confidence e = Max (ev_confidence ` {f \<in> set xs. has_same_evidence_identity e f}))"
  proof (cases "e \<in> set xs")
    case True
    have mx: "ev_confidence e = Max (ev_confidence ` {f \<in> set xs. has_same_evidence_identity e f}) \<longleftrightarrow>
        (\<forall>f \<in> set xs. has_same_evidence_identity e f \<longrightarrow> ev_confidence f \<le> ev_confidence e)"
    proof -
      let ?S = "ev_confidence ` {f \<in> set xs. has_same_evidence_identity e f}"
      have S: "ev_confidence e \<in> ?S" "finite ?S" "?S \<noteq> {}" using True ev.same_refl by auto
      have "ev_confidence e = Max ?S \<longleftrightarrow> (\<forall>c \<in> ?S. c \<le> ev_confidence e)"
        using S(1) by (subst eq_commute, subst Max_eq_iff [OF S(2,3)]) blast
      also have "\<dots> \<longleftrightarrow> (\<forall>f \<in> set xs. has_same_evidence_identity e f \<longrightarrow> ev_confidence f \<le> ev_confidence e)"
        by blast
      finally show ?thesis .
    qed
    have "e \<in> set (normalize_evidence xs) \<longleftrightarrow>
        (\<forall>f \<in> set xs. has_same_evidence_identity e f \<longrightarrow> ev_confidence f \<le> ev_confidence e)"
      using True by (auto simp: set_normalize_evidence ev.best_def same_identity_le)
    with mx True show ?thesis by blast
  next
    case False
    then show ?thesis by (simp add: set_normalize_evidence ev.best_def)
  qed
  show "normalize_evidence (normalize_evidence xs @ ys) = normalize_evidence (xs @ ys)" by simp
  have "highest_confidence (merge_into c d) = Max (insert Low (ev_confidence ` (set (comp_evidence c) \<union> set (comp_evidence d))))"
    using highest_confidence_normalize [where c = c and es = "comp_evidence c @ comp_evidence d"]
    by (simp add: highest_confidence_def highest_confidence_from_eq)
  also have "insert Low (ev_confidence ` (set (comp_evidence c) \<union> set (comp_evidence d))) =
      insert Low (ev_confidence ` set (comp_evidence c)) \<union> insert Low (ev_confidence ` set (comp_evidence d))" by auto
  also have "Max \<dots> = max (Max (insert Low (ev_confidence ` set (comp_evidence c)))) (Max (insert Low (ev_confidence ` set (comp_evidence d))))"
    by (rule Max_Un) auto
  finally show "highest_confidence (merge_into c d) = max (highest_confidence c) (highest_confidence d)"
    by (simp only: highest_confidence_def highest_confidence_from_eq)
qed

text \<open>The identity a component is grouped by is not the identity the merged component has in every
  case: filling an empty version can move it. Three components whose names and versions carry \<open>@\<close>
  merge into two that share one identity, although the output is to be deduplicated by it.\<close>

theorem merge_all_identity_drift:
  "map component_identity
     (merge_all [new_component\<lparr>comp_name := ''a@b''\<rparr>, new_component\<lparr>comp_name := ''a'', comp_version := ''b@''\<rparr>,
        new_component\<lparr>comp_name := ''a@b'', comp_version := ''b@''\<rparr>]) = [''a@b@b@'', ''a@b@b@'']"
  by (simp add: merge_all_def merge_all_step_def Let_def component_identity_def new_component_def less_char_def)

end
