(* ===== verification/Git_Url.thy ===== *)
theory Git_Url
  imports Purl Percent
begin

text \<open>
  Git remotes: \<open>core/git_url.hpp\<close> and \<open>core/git_url.cpp\<close>. A remote URL is reduced to host, owner and
  repository, a relative submodule URL is resolved against the superproject's, and a package URL
  pinned at a commit is built from a remote. The loops that pop characters or path segments are
  recursive functions.
\<close>

section \<open>Remotes\<close>

record git_remote =
  remote_host :: string
  remote_owner :: string
  remote_repo :: string

definition kForgeHosts :: "(string \<times> string) list" where
  "kForgeHosts = [(''github.com'', ''github''), (''gitlab.com'', ''gitlab''), (''bitbucket.org'', ''bitbucket'')]"

fun forge_type_in :: "(string \<times> string) list \<Rightarrow> string \<Rightarrow> string" where
  "forge_type_in [] host = []"
| "forge_type_in ((h, t) # forges) host = (if host = h then t else forge_type_in forges host)"

definition forge_type_for_host :: "string \<Rightarrow> string" where
  "forge_type_for_host host = forge_type_in kForgeHosts host"

text \<open>\<open>while (!s.empty() && s.back() == '/') s.pop_back();\<close>\<close>

function pop_slashes :: "string \<Rightarrow> string" where
  "pop_slashes s = (if s \<noteq> [] \<and> last s = CHR ''/'' then pop_slashes (butlast s) else s)"
  by auto

termination by (relation "measure length") auto

declare pop_slashes.simps [simp del]

definition no_remote :: git_remote where
  "no_remote = \<lparr>remote_host = [], remote_owner = [], remote_repo = []\<rparr>"

text \<open>The part of \<open>parse_git_remote\<close> after every form has been reduced to \<open>host/owner/repo\<close>.\<close>

definition parse_host_and_path :: "string \<Rightarrow> git_remote" where
  "parse_host_and_path host_and_path =
     (let first_slash = find_char CHR ''/'' host_and_path;
          host_segment = (case first_slash of None \<Rightarrow> host_and_path | Some i \<Rightarrow> take i host_and_path);
          path_segment = (case first_slash of None \<Rightarrow> [] | Some i \<Rightarrow> drop (i + 1) host_and_path);
          host_segment = (case find_char CHR ''@'' host_segment of None \<Rightarrow> host_segment | Some i \<Rightarrow> drop (i + 1) host_segment);
          host_segment = (case find_char CHR '':'' host_segment of None \<Rightarrow> host_segment | Some i \<Rightarrow> take i host_segment);
          path_segment = pop_slashes path_segment;
          path_segment = (if length path_segment > 4 \<and> ends_with path_segment ''.git''
            then take (length path_segment - 4) path_segment else path_segment)
      in case rfind_char CHR ''/'' path_segment of
           None \<Rightarrow> \<lparr>remote_host = to_lower_ascii host_segment, remote_owner = [], remote_repo = path_segment\<rparr>
         | Some i \<Rightarrow> \<lparr>remote_host = to_lower_ascii host_segment, remote_owner = take i path_segment,
             remote_repo = drop (i + 1) path_segment\<rparr>)"

definition parse_git_remote :: "string \<Rightarrow> git_remote" where
  "parse_git_remote url =
     (let working = trimmed url in
      if working = [] then no_remote
      else case find_sub ''://'' working of
        Some scheme_position \<Rightarrow> parse_host_and_path (drop (scheme_position + 3) working)
      | None \<Rightarrow>
          (case find_char CHR '':'' working of
             None \<Rightarrow> no_remote
           | Some colon_position \<Rightarrow>
               parse_host_and_path (take colon_position working @ ''/'' @ drop (colon_position + 1) working)))"

section \<open>Relative URLs\<close>

definition is_relative_url :: "string \<Rightarrow> bool" where
  "is_relative_url relative \<longleftrightarrow> starts_with relative ''./'' \<or> starts_with relative ''../''"

function resolve_loop :: "string \<Rightarrow> string \<Rightarrow> string \<times> string" where
  "resolve_loop resolved_base remainder =
     (if starts_with remainder ''./'' then resolve_loop resolved_base (drop 2 remainder)
      else if starts_with remainder ''../'' then
        (case rfind_char CHR ''/'' resolved_base of
           None \<Rightarrow> (resolved_base, drop 3 remainder)
         | Some last_slash \<Rightarrow> resolve_loop (take last_slash resolved_base) (drop 3 remainder))
      else (resolved_base, remainder))"
  by pat_completeness auto

termination
  by (relation "measure (\<lambda>(_, r). length r)") (auto dest: starts_with_length)

declare resolve_loop.simps [simp del]

definition resolve_relative_url :: "string \<Rightarrow> string \<Rightarrow> string" where
  "resolve_relative_url base relative =
     (if \<not> is_relative_url relative \<or> base = [] then relative
      else let (resolved_base, remainder) = resolve_loop (pop_slashes base) relative in
        if resolved_base = [] then remainder else resolved_base @ ''/'' @ remainder)"

section \<open>Package URLs of remotes\<close>

definition build_git_purl :: "string \<Rightarrow> string \<Rightarrow> string \<Rightarrow> string" where
  "build_git_purl url commit fallback_name =
     (let remote = parse_git_remote url;
          forge_type = forge_type_for_host (remote_host remote);
          version = normalized_object_id commit
      in if forge_type \<noteq> [] \<and> remote_owner remote \<noteq> [] \<and> remote_repo remote \<noteq> [] then
           let purl = ''pkg:'' @ forge_type @ ''/'' @ percent_encode_purl_namespace (to_lower_ascii (remote_owner remote))
                 @ ''/'' @ percent_encode (to_lower_ascii (remote_repo remote))
           in if version \<noteq> [] then purl @ ''@'' @ percent_encode version else purl
         else
           let name = (if remote_repo remote = [] then fallback_name else remote_repo remote);
               name = (if name = [] then ''unknown'' else name);
               purl = ''pkg:generic/'' @ percent_encode name;
               purl = (if version \<noteq> [] then purl @ ''@'' @ percent_encode version else purl)
           in purl @ ''?vcs_url='' @ percent_encode (''git+'' @ trimmed url))"

section \<open>Lemmas\<close>

subsection \<open>Slashes\<close>

lemma pop_slashes_id [simp]: "s = [] \<or> last s \<noteq> CHR ''/'' \<Longrightarrow> pop_slashes s = s"
  by (subst pop_slashes.simps) auto

lemma pop_slashes_snoc [simp]: "pop_slashes (s @ ''/'') = pop_slashes s"
  by (subst pop_slashes.simps) simp

lemma pop_slashes_replicate [simp]: "pop_slashes (s @ replicate n CHR ''/'') = pop_slashes s"
proof (induction n)
  case (Suc n)
  have "s @ replicate (Suc n) CHR ''/'' = (s @ replicate n CHR ''/'') @ ''/''"
    by (simp add: replicate_append_same)
  then show ?case using Suc by (simp only: pop_slashes_snoc)
qed simp

lemma pop_slashes_last: "pop_slashes s = [] \<or> last (pop_slashes s) \<noteq> CHR ''/''"
proof (induction s rule: pop_slashes.induct)
  case (1 s)
  then show ?case by (subst (1 2) pop_slashes.simps) auto
qed

subsection \<open>The forms of a remote\<close>

text \<open>A host and a path of plain characters: no separator in the host, the path does not end in a slash.\<close>

definition plain_host :: "string \<Rightarrow> bool" where
  "plain_host h \<longleftrightarrow> h \<noteq> [] \<and> set h \<inter> {CHR ''/'', CHR ''@'', CHR '':''} = {}"

definition plain_path :: "string \<Rightarrow> bool" where
  "plain_path p \<longleftrightarrow> p \<noteq> [] \<and> last p \<noteq> CHR ''/'' \<and> \<not> ends_with p ''.git''"

definition remote_of :: "string \<Rightarrow> string \<Rightarrow> git_remote" where
  "remote_of host path =
     (case rfind_char CHR ''/'' path of
        None \<Rightarrow> \<lparr>remote_host = to_lower_ascii host, remote_owner = [], remote_repo = path\<rparr>
      | Some i \<Rightarrow> \<lparr>remote_host = to_lower_ascii host, remote_owner = take i path, remote_repo = drop (i + 1) path\<rparr>)"

lemma find_char_none [find_simps]: "c \<notin> set s \<Longrightarrow> find_char c s = None"
  by (auto simp: find_pos_None)

lemma find_char_append [find_simps]: "c \<notin> set s \<Longrightarrow> find_char c (s @ c # t) = Some (length s)"
  using find_pos_append [of s "\<lambda>x. x = c" "c # t"] by auto

lemma parse_host_and_path_eq:
  assumes h: "plain_host h" and p: "plain_path p"
    and u: "user = [] \<or> (\<exists>w. user = w @ ''@'' \<and> set w \<inter> {CHR ''/'', CHR ''@''} = {})"
    and r: "port = [] \<or> (\<exists>n. port = '':'' @ n \<and> CHR ''/'' \<notin> set n \<and> CHR ''@'' \<notin> set n)"
    and s: "suffix = [] \<or> suffix = ''.git''"
  shows "parse_host_and_path (user @ h @ port @ ''/'' @ p @ suffix @ replicate n CHR ''/'') = remote_of h p"
proof -
  let ?hs = "user @ h @ port" and ?ps = "p @ suffix @ replicate n CHR ''/''"
  have nh: "CHR ''/'' \<notin> set h" "CHR ''@'' \<notin> set h" "CHR '':'' \<notin> set h" using h by (auto simp: plain_host_def)
  have slash: "CHR ''/'' \<notin> set ?hs" using nh u r by auto
  have split: "find_char CHR ''/'' (?hs @ ''/'' @ ?ps) = Some (length ?hs)"
    using find_char_append [OF slash, of ?ps] by simp
  have user: "(case find_char CHR ''@'' ?hs of None \<Rightarrow> ?hs | Some i \<Rightarrow> drop (i + 1) ?hs) = h @ port"
  proof (cases "user = []")
    case True
    then show ?thesis using nh r by (auto simp: find_char_none)
  next
    case False
    with u obtain w where "user = w @ ''@''" "CHR ''@'' \<notin> set w" by auto
    then show ?thesis by (simp add: find_char_append)
  qed
  have port: "(case find_char CHR '':'' (h @ port) of None \<Rightarrow> h @ port | Some i \<Rightarrow> take i (h @ port)) = h"
    using r nh by (auto simp: find_char_none find_char_append)
  have pop: "pop_slashes ?ps = p @ suffix"
  proof -
    have "pop_slashes ?ps = pop_slashes (p @ suffix)" using pop_slashes_replicate [of "p @ suffix" n] by simp
    also have "\<dots> = p @ suffix" using p s by (intro pop_slashes_id) (auto simp: plain_path_def)
    finally show ?thesis .
  qed
  have git: "(if length (p @ suffix) > 4 \<and> ends_with (p @ suffix) ''.git''
      then take (length (p @ suffix) - 4) (p @ suffix) else p @ suffix) = p"
    using p s by (auto simp: plain_path_def ends_with_def)
  have "parse_host_and_path (?hs @ ''/'' @ ?ps) = remote_of h p"
  proof -
    have tk: "take (length ?hs) (?hs @ ''/'' @ ?ps) = ?hs" "drop (length ?hs + 1) (?hs @ ''/'' @ ?ps) = ?ps" by simp_all
    show ?thesis
      unfolding parse_host_and_path_def split Let_def option.case tk user port pop git remote_of_def ..
  qed
  then show ?thesis by simp
qed

subsection \<open>Validity\<close>

lemma forge_type_cases:
  "forge_type_for_host h = [] \<or> forge_type_for_host h = ''github'' \<or> forge_type_for_host h = ''gitlab'' \<or>
   forge_type_for_host h = ''bitbucket''"
  by (simp add: forge_type_for_host_def kForgeHosts_def)

lemma encoded_no_whitespace [simp]: "no_whitespace (percent_encode s)"
proof -
  have "\<forall>c. is_ascii_whitespace c \<longrightarrow> \<not> is_unreserved c \<and> c \<noteq> CHR ''%''" by code_simp
  then show ?thesis using percent_encode_alphabet [of _ s] by (auto simp: list_all_iff)
qed

lemma encoded_namespace_no_whitespace [simp]: "no_whitespace (percent_encode_purl_namespace s)"
proof -
  have "\<forall>c. is_ascii_whitespace c \<longrightarrow> \<not> is_unreserved c \<and> c \<noteq> CHR ''%'' \<and> c \<noteq> CHR ''/''" by code_simp
  then show ?thesis using percent_encode_purl_namespace_alphabet [of _ s] by (auto simp: list_all_iff)
qed

text \<open>A text \<open>pkg:<type>/<rest>\<close> with a lower-case type is its own canonical form.\<close>

lemma purl_parse_canonical:
  assumes "no_whitespace ty" "no_whitespace rest" "ty \<noteq> []" "CHR ''/'' \<notin> set ty" "rest \<noteq> []" "to_lower_ascii ty = ty"
  shows "purl_parse (''pkg:'' @ ty @ ''/'' @ rest) = new_result (''pkg:'' @ ty @ ''/'' @ rest)"
proof -
  have "to_lower_ascii ''pkg'' = ''pkg''" by code_simp
  then have "purl_parse (''pkg'' @ '':'' @ ty @ ''/'' @ rest) = new_result (''pkg:'' @ to_lower_ascii ty @ ''/'' @ rest)"
    using assms by (intro purl_parse_shape) (simp_all del: to_lower_ascii_Cons)
  with assms(6) show ?thesis by simp
qed

lemma no_whitespace_more_seps [simp]:
  "\<not> is_ascii_whitespace CHR ''@''" "\<not> is_ascii_whitespace CHR ''?''" "\<not> is_ascii_whitespace CHR ''=''"
  "\<not> is_ascii_whitespace CHR ''v''" "\<not> is_ascii_whitespace CHR ''c''" "\<not> is_ascii_whitespace CHR ''s''"
  "\<not> is_ascii_whitespace CHR ''_''" "\<not> is_ascii_whitespace CHR ''u''" "\<not> is_ascii_whitespace CHR ''r''"
  "\<not> is_ascii_whitespace CHR ''l''"
  by (simp_all add: is_ascii_whitespace_def)

lemma build_git_purl_canonical: "purl_parse (build_git_purl url commit name) = new_result (build_git_purl url commit name)"
proof -
  have forge: "purl_parse (''pkg:'' @ t @ ''/'' @ rest) = new_result (''pkg:'' @ t @ ''/'' @ rest)"
    if "t = ''github'' \<or> t = ''gitlab'' \<or> t = ''bitbucket'' \<or> t = ''generic''" "no_whitespace rest" "rest \<noteq> []" for t rest
  proof (rule purl_parse_canonical)
    have "\<forall>t \<in> {''github'', ''gitlab'', ''bitbucket'', ''generic''}. no_whitespace t \<and> CHR ''/'' \<notin> set t \<and> to_lower_ascii t = t"
      by code_simp
    with that show "no_whitespace t" "CHR ''/'' \<notin> set t" "to_lower_ascii t = t" "t \<noteq> []" by auto
  qed (use that in auto)
  let ?r = "parse_git_remote url" and ?v = "normalized_object_id commit"
  define version where "version = (if ?v \<noteq> [] then ''@'' @ percent_encode ?v else [])"
  have v: "no_whitespace version" by (simp add: version_def)
  show ?thesis
  proof (cases "forge_type_for_host (remote_host ?r) \<noteq> [] \<and> remote_owner ?r \<noteq> [] \<and> remote_repo ?r \<noteq> []")
    case True
    then have "build_git_purl url commit name = ''pkg:'' @ forge_type_for_host (remote_host ?r) @ ''/'' @
        (percent_encode_purl_namespace (to_lower_ascii (remote_owner ?r)) @ ''/'' @
         percent_encode (to_lower_ascii (remote_repo ?r)) @ version)"
      by (simp add: build_git_purl_def Let_def version_def)
    then show ?thesis
      using forge_type_cases [of "remote_host ?r"] True v by (simp only:) (rule forge, auto)
  next
    case False
    define n where "n = (let n = (if remote_repo ?r = [] then name else remote_repo ?r) in if n = [] then ''unknown'' else n)"
    have "n \<noteq> []" by (simp add: n_def Let_def)
    from False have "build_git_purl url commit name = ''pkg:'' @ ''generic'' @ ''/'' @
        (percent_encode n @ version @ ''?vcs_url='' @ percent_encode (''git+'' @ trimmed url))"
      by (auto simp add: build_git_purl_def Let_def version_def n_def simp del: percent_encode.simps)
    then show ?thesis using v \<open>n \<noteq> []\<close> by (simp only:) (rule forge, simp_all del: percent_encode.simps)
  qed
qed

subsection \<open>Resolving\<close>

text \<open>A path of segments: the base is the join of its segments.\<close>

lemma rfind_slash_join:
  assumes "CHR ''/'' \<notin> set seg" "segs \<noteq> []"
  shows "rfind_char CHR ''/'' (join_with CHR ''/'' (segs @ [seg])) = Some (length (join_with CHR ''/'' segs))"
    and "take (length (join_with CHR ''/'' segs)) (join_with CHR ''/'' (segs @ [seg])) = join_with CHR ''/'' segs"
proof -
  have j: "join_with CHR ''/'' (segs @ [seg]) = join_with CHR ''/'' segs @ CHR ''/'' # seg"
    using assms(2)
  proof (induction segs)
    case (Cons s segs)
    then show ?case by (cases segs) (simp_all add: join_with_Cons)
  qed simp
  have "\<forall>z \<in> set seg. z \<noteq> CHR ''/''" using assms(1) by auto
  from rfind_pos_append [OF this] show "rfind_char CHR ''/'' (join_with CHR ''/'' (segs @ [seg])) = Some (length (join_with CHR ''/'' segs))"
    by (simp add: j)
  show "take (length (join_with CHR ''/'' segs)) (join_with CHR ''/'' (segs @ [seg])) = join_with CHR ''/'' segs"
    by (simp add: j)
qed

lemma resolve_loop_up:
  assumes "list_all (\<lambda>s. CHR ''/'' \<notin> set s) segs" "k < length segs" "\<not> is_relative_url rest"
  shows "resolve_loop (join_with CHR ''/'' segs) (concat (replicate k ''../'') @ rest) =
    (join_with CHR ''/'' (take (length segs - k) segs), rest)"
  using assms(1,2)
proof (induction k arbitrary: segs)
  case 0
  then show ?case using assms(3) by (simp add: resolve_loop.simps is_relative_url_def)
next
  case (Suc k)
  then obtain init seg where i: "segs = init @ [seg]" by (cases segs rule: rev_cases) auto
  with Suc.prems have s: "segs = init @ [seg]" "init \<noteq> []" by auto
  have "resolve_loop (join_with CHR ''/'' segs) (concat (replicate (Suc k) ''../'') @ rest) =
      resolve_loop (join_with CHR ''/'' init) (concat (replicate k ''../'') @ rest)"
    using Suc.prems s rfind_slash_join [of seg init] by (subst resolve_loop.simps) simp
  then show ?case using Suc.IH [of init] Suc.prems s by simp
qed

section \<open>Properties\<close>

text \<open>Whatever text a manifest gives for URL, commit and name, the purl built from it is valid and
  already canonical: \<open>Purl::parse\<close> accepts it without a warning and returns it unchanged, so two
  producers that build it get one identity.\<close>

theorem build_git_purl_valid:
  "complete (purl_parse (build_git_purl url commit name)) \<and>
   result_value (purl_parse (build_git_purl url commit name)) = build_git_purl url commit name \<and>
   result_warnings (purl_parse (build_git_purl url commit name)) = []"
  by (simp add: build_git_purl_canonical)

text \<open>The written forms of one remote agree: scheme URL with or without user and port, scp-like form,
  with or without \<open>.git\<close> and trailing slashes, all reduce to the same lower-cased host, owner and
  repository.\<close>

theorem git_remote_forms_agree:
  assumes h: "plain_host host" and p: "plain_path path" and w: "plain_host user"
    and ws: "trimmed (''https://'' @ host @ ''/'' @ path @ ''.git'') = ''https://'' @ host @ ''/'' @ path @ ''.git''"
      "trimmed (''ssh://'' @ user @ ''@'' @ host @ '':22/'' @ path @ ''/'') = ''ssh://'' @ user @ ''@'' @ host @ '':22/'' @ path @ ''/''"
      "trimmed (user @ ''@'' @ host @ '':'' @ path @ ''.git'') = user @ ''@'' @ host @ '':'' @ path @ ''.git''"
    and n: "find_sub ''://'' (user @ ''@'' @ host @ '':'' @ path @ ''.git'') = None"
  shows "parse_git_remote (''https://'' @ host @ ''/'' @ path @ ''.git'') = remote_of host path \<and>
    parse_git_remote (''ssh://'' @ user @ ''@'' @ host @ '':22/'' @ path @ ''/'') = remote_of host path \<and>
    parse_git_remote (user @ ''@'' @ host @ '':'' @ path @ ''.git'') = remote_of host path"
proof (intro conjI)
  show "parse_git_remote (''https://'' @ host @ ''/'' @ path @ ''.git'') = remote_of host path"
    using parse_host_and_path_eq [OF h p, of "[]" "[]" "''.git''" 0] ws(1)
    by (simp add: parse_git_remote_def Let_def)
  show "parse_git_remote (''ssh://'' @ user @ ''@'' @ host @ '':22/'' @ path @ ''/'') = remote_of host path"
    using parse_host_and_path_eq [OF h p, of "user @ ''@''" "'':22''" "[]" 1] ws(2) w
    by (simp add: parse_git_remote_def Let_def plain_host_def)
  have "CHR '':'' \<notin> set (user @ ''@'' @ host)" using h w by (auto simp: plain_host_def)
  from find_char_append [OF this, of "path @ ''.git''"]
  show "parse_git_remote (user @ ''@'' @ host @ '':'' @ path @ ''.git'') = remote_of host path"
    using parse_host_and_path_eq [OF h p, of "user @ ''@''" "[]" "''.git''" 0] ws(3) n w
    by (simp add: parse_git_remote_def Let_def plain_host_def)
qed

theorem git_remote_forms_agree_witness:
  "parse_git_remote ''git@GitHub.com:microsoft/vcpkg.git'' =
     \<lparr>remote_host = ''github.com'', remote_owner = ''microsoft'', remote_repo = ''vcpkg''\<rparr>"
proof -
  let ?h = "''GitHub.com''" and ?p = "''microsoft/vcpkg''" and ?u = "''git''"
  have a: "plain_host ?h" "plain_path ?p" "plain_host ?u"
    by code_simp+
  have b: "trimmed (''https://'' @ ?h @ ''/'' @ ?p @ ''.git'') = ''https://'' @ ?h @ ''/'' @ ?p @ ''.git''"
    "trimmed (''ssh://'' @ ?u @ ''@'' @ ?h @ '':22/'' @ ?p @ ''/'') = ''ssh://'' @ ?u @ ''@'' @ ?h @ '':22/'' @ ?p @ ''/''"
    "trimmed (?u @ ''@'' @ ?h @ '':'' @ ?p @ ''.git'') = ?u @ ''@'' @ ?h @ '':'' @ ?p @ ''.git''"
    "find_sub ''://'' (?u @ ''@'' @ ?h @ '':'' @ ?p @ ''.git'') = None"
    "remote_of ?h ?p = \<lparr>remote_host = ''github.com'', remote_owner = ''microsoft'', remote_repo = ''vcpkg''\<rparr>"
    by code_simp+
  show ?thesis using git_remote_forms_agree [OF a b(1-4)] b(5) by simp
qed

text \<open>A relative submodule URL is resolved like a path: each leading \<open>../\<close> drops one segment of the base
  and the rest is appended, as long as the base has segments to drop; an absolute URL, or any URL
  against an empty base, is returned unchanged.\<close>

theorem resolve_relative_url_segments:
  assumes "list_all (\<lambda>s. CHR ''/'' \<notin> set s) segs" "0 < k" "k < length segs" "\<not> is_relative_url rest"
    and "last segs \<noteq> []" "join_with CHR ''/'' (take (length segs - k) segs) \<noteq> []" "\<not> is_relative_url absolute"
  shows "resolve_relative_url (join_with CHR ''/'' segs @ replicate n CHR ''/'') (concat (replicate k ''../'') @ rest) =
      join_with CHR ''/'' (take (length segs - k) segs) @ ''/'' @ rest \<and>
    resolve_relative_url base absolute = absolute \<and> resolve_relative_url [] (concat (replicate k ''../'') @ rest) =
      concat (replicate k ''../'') @ rest"
proof -
  let ?b = "join_with CHR ''/'' segs"
  from assms(3,5) obtain init seg where s: "segs = init @ [seg]" "seg \<noteq> []" by (cases segs rule: rev_cases) auto
  have b: "?b \<noteq> [] \<and> last ?b \<noteq> CHR ''/''"
  proof -
    have "last (join_with CHR ''/'' (init @ [seg])) = last seg \<and> join_with CHR ''/'' (init @ [seg]) \<noteq> []" if "seg \<noteq> []"
      using that
    proof (induction init)
      case (Cons i init)
      then show ?case by (simp add: join_with_Cons)
    qed simp
    moreover have "last seg \<noteq> CHR ''/''"
    proof -
      from assms(1) s(1) have "CHR ''/'' \<notin> set seg" by simp
      with last_in_set [OF s(2)] show ?thesis by metis
    qed
    ultimately show ?thesis using s assms(1) by auto
  qed
  then have p: "pop_slashes (?b @ replicate n CHR ''/'') = ?b" by simp
  from assms(2) obtain j where "k = Suc j" by (cases k) auto
  then have rel: "is_relative_url (concat (replicate k ''../'') @ rest)" by (simp add: is_relative_url_def)
  show ?thesis
    using resolve_loop_up [OF assms(1,3,4)] p b rel assms(6,7)
    by (simp add: resolve_relative_url_def)
qed

theorem resolve_relative_url_segments_witness:
  "resolve_relative_url ''https://h.org/team/app/'' ''../lib.git'' = ''https://h.org/team/lib.git''"
proof -
  let ?s = "[''https:'', [], ''h.org'', ''team'', ''app'']"
  have "list_all (\<lambda>s. CHR ''/'' \<notin> set s) ?s" "\<not> is_relative_url ''lib.git''" by code_simp+
  then show ?thesis
    using resolve_relative_url_segments [of ?s 1 "''lib.git''" "''lib.git''" 1 "[]"] by simp
qed

text \<open>Too many \<open>../\<close> are not stopped at the host: the loop keeps dropping segments into the scheme of
  the base, so a hostile submodule URL resolves to one without the host of the superproject.\<close>

theorem resolve_relative_url_eats_host:
  "resolve_relative_url ''https://h.org/r'' ''../../x'' = ''https://x'' \<and>
   resolve_relative_url ''https://h.org/r'' ''../../../x'' = ''https:/x''"
  by code_simp

text \<open>One commit is one identity: the purl of a remote pinned at a git object id is the same however
  the manifest spells the hexadecimal digits, and the version it carries is the lower-cased id.\<close>

theorem build_git_purl_commit_case:
  assumes "is_hex_object_id commit"
  shows "build_git_purl url (to_upper_ascii commit) name = build_git_purl url commit name \<and>
    build_git_purl url (to_lower_ascii commit) name = build_git_purl url commit name"
proof -
  have "is_hex_object_id (to_upper_ascii commit)"
    using assms is_hex_object_id_lower [of "to_upper_ascii commit"] is_hex_object_id_lower [of commit] by simp
  then have "normalized_object_id (to_upper_ascii commit) = normalized_object_id commit"
    and "normalized_object_id (to_lower_ascii commit) = normalized_object_id commit"
    using assms by (simp_all add: normalized_object_id_def)
  then show ?thesis by (simp add: build_git_purl_def)
qed

theorem build_git_purl_commit_case_witness:
  "build_git_purl ''https://h/r'' (to_upper_ascii ''0123456789abcdef0123456789abcdef01234567'') [] =
   build_git_purl ''https://h/r'' ''0123456789abcdef0123456789abcdef01234567'' []"
  using build_git_purl_commit_case [of "''0123456789abcdef0123456789abcdef01234567''" "''https://h/r''" "[]"]
  by code_simp

end
