(* ===== verification/Build_Variables.thy ===== *)
theory Build_Variables
  imports Text Ordered_Map
begin

text \<open>
  Build-system variables: \<open>core/build_variables.hpp\<close> and \<open>core/build_variables.cpp\<close>. A table maps a
  variable's key to its value, or to \<open>None\<close> when the variable is ambiguous; \<open>expand_variables\<close> replaces
  the references it can resolve within three budgets. \<open>expand_with_budget\<close>, its \<open>while\<close> loop
  \<open>expand_loop\<close> and the treatment of one reference are mutually recursive and total: the depth test bounds the recursion, the rest of the
  text the loop.
\<close>

section \<open>Tables\<close>

record variable_dialect =
  open_bracket :: char
  close_bracket :: char
  case_insensitive_names :: bool

definition kCmakeVariableDialect :: variable_dialect where
  "kCmakeVariableDialect = \<lparr>open_bracket = CHR ''{'', close_bracket = CHR ''}'', case_insensitive_names = False\<rparr>"

definition kMsbuildVariableDialect :: variable_dialect where
  "kMsbuildVariableDialect = \<lparr>open_bracket = CHR ''('', close_bracket = CHR '')'', case_insensitive_names = True\<rparr>"

type_synonym variable_table = "(string \<times> string option) list"

definition table_key :: "variable_dialect \<Rightarrow> string \<Rightarrow> string" where
  "table_key dialect name = (if case_insensitive_names dialect then to_lower_ascii name else name)"

definition record_variable_definition :: "variable_table \<Rightarrow> variable_dialect \<Rightarrow> string \<Rightarrow> string \<Rightarrow> variable_table" where
  "record_variable_definition table dialect name txt =
     (let key = table_key dialect name; found = omap_find table key in
      if txt = [] then omap_put key None table
      else case found of
        None \<Rightarrow> omap_put key (Some txt) table
      | Some old \<Rightarrow> if old \<noteq> None \<and> old \<noteq> Some txt then omap_put key None table else table)"

definition mark_variable_ambiguous :: "variable_table \<Rightarrow> variable_dialect \<Rightarrow> string \<Rightarrow> variable_table" where
  "mark_variable_ambiguous table dialect name = omap_put (table_key dialect name) None table"

definition merge_variable_entry :: "variable_dialect \<Rightarrow> variable_table \<Rightarrow> string \<times> string option \<Rightarrow> variable_table" where
  "merge_variable_entry dialect destination e =
     (case snd e of
        Some txt \<Rightarrow> record_variable_definition destination dialect (fst e) txt
      | None \<Rightarrow> mark_variable_ambiguous destination dialect (fst e))"

definition merge_variable_tables :: "variable_table \<Rightarrow> variable_dialect \<Rightarrow> variable_table \<Rightarrow> variable_table" where
  "merge_variable_tables destination dialect src = foldl (merge_variable_entry dialect) destination src"

section \<open>Expansion\<close>

definition kMaxExpansionDepth :: nat where "kMaxExpansionDepth = 8"
definition kMaxSubstitutions :: nat where "kMaxSubstitutions = 256"
definition kMaxExpandedBytes :: nat where "kMaxExpandedBytes = 8192"

definition kUnexpandedMarkers :: "string list" where
  "kUnexpandedMarkers = [''${'', ''$('', ''$<'', ''%('', ''$ENV{'', ''$CACHE{'']"

definition contains_unexpanded_variable :: "string \<Rightarrow> bool" where
  "contains_unexpanded_variable txt \<longleftrightarrow> list_ex (\<lambda>marker. find_sub marker txt \<noteq> None) kUnexpandedMarkers"

record expansion_budget =
  substitutions_left :: nat
  exceeded :: bool

text \<open>The scan from the opening bracket; \<open>nesting\<close> is at least one after the first character.\<close>

fun closing_bracket_from :: "variable_dialect \<Rightarrow> string \<Rightarrow> nat \<Rightarrow> nat option" where
  "closing_bracket_from dialect [] nesting = None"
| "closing_bracket_from dialect (c # rest) nesting =
     (if c = open_bracket dialect then map_option Suc (closing_bracket_from dialect rest (nesting + 1))
      else if c = close_bracket dialect then
        (if nesting - 1 = 0 then Some 0 else map_option Suc (closing_bracket_from dialect rest (nesting - 1)))
      else map_option Suc (closing_bracket_from dialect rest nesting))"

text \<open>The position in \<open>txt\<close> of the bracket that closes the one at \<open>open_position\<close>.\<close>

definition find_closing_bracket :: "string \<Rightarrow> nat \<Rightarrow> variable_dialect \<Rightarrow> nat option" where
  "find_closing_bracket txt open_position dialect =
     map_option (\<lambda>i. open_position + i) (closing_bracket_from dialect (drop open_position txt) 0)"

text \<open>The loop keeps the unread rest of the text instead of a position, so the reference at hand
  starts at 0 and its bracket at 1.\<close>

function expand_with_budget ::
    "variable_table \<Rightarrow> variable_dialect \<Rightarrow> string \<Rightarrow> nat \<Rightarrow> expansion_budget \<Rightarrow> string \<times> expansion_budget"
  and expand_loop ::
    "variable_table \<Rightarrow> variable_dialect \<Rightarrow> string \<Rightarrow> nat \<Rightarrow> string \<Rightarrow> expansion_budget \<Rightarrow> string \<times> expansion_budget"
  and expand_reference ::
    "variable_table \<Rightarrow> variable_dialect \<Rightarrow> string \<Rightarrow> string \<Rightarrow> nat \<Rightarrow> string \<Rightarrow> expansion_budget \<Rightarrow> string \<times> expansion_budget"
where
  "expand_with_budget table dialect txt depth budget =
     (if depth > kMaxExpansionDepth then (txt, budget\<lparr>exceeded := True\<rparr>)
      else expand_loop table dialect txt depth [] budget)"
| "expand_loop table dialect rest depth expanded budget =
     (if rest = [] \<or> exceeded budget then (expanded, budget)
      else if \<not> (hd rest = CHR ''$'' \<and> 1 < length rest \<and> rest ! 1 = open_bracket dialect)
      then expand_loop table dialect (tl rest) depth (expanded @ [hd rest]) budget
      else case find_closing_bracket rest 1 dialect of
        None \<Rightarrow> (expanded @ rest, budget)
      | Some closing_position \<Rightarrow>
          (case expand_with_budget table dialect (substr rest 2 (closing_position - 2)) (depth + 1) budget of
             (name, budget1) \<Rightarrow>
               (case expand_reference table dialect name (take (closing_position + 1) rest) depth expanded budget1 of
                  (expanded1, budget2) \<Rightarrow>
                    expand_loop table dialect (drop (closing_position + 1) rest) depth expanded1
                      (if length expanded1 > kMaxExpandedBytes then budget2\<lparr>exceeded := True\<rparr> else budget2))))"
| "expand_reference table dialect name reference depth expanded budget =
     (case omap_find table (table_key dialect name) of
        None \<Rightarrow> (expanded @ reference, budget)
      | Some found \<Rightarrow>
          (case found of
             None \<Rightarrow> (expanded @ reference, budget)
           | Some txt \<Rightarrow>
               if substitutions_left budget = 0 then (expanded, budget\<lparr>exceeded := True\<rparr>)
               else case expand_with_budget table dialect txt (depth + 1)
                      (budget\<lparr>substitutions_left := substitutions_left budget - 1\<rparr>) of
                 (e, budget1) \<Rightarrow> (expanded @ e, budget1)))"
  by pat_completeness auto

termination
  by (relation "measures [\<lambda>x. case x of Inl (t, d, txt, depth, b) \<Rightarrow> 2 * (9 - depth)
        | Inr (Inl (t, d, rest, depth, e, b)) \<Rightarrow> max 1 (2 * (9 - depth) - 1)
        | Inr (Inr (t, d, name, ref, depth, e, b)) \<Rightarrow> max 1 (2 * (9 - depth) - 1),
      \<lambda>x. case x of Inl _ \<Rightarrow> 0 | Inr (Inl (t, d, rest, depth, e, b)) \<Rightarrow> Suc (length rest) | Inr (Inr _) \<Rightarrow> 0]")
    (auto simp: kMaxExpansionDepth_def)

declare expand_with_budget.simps [simp del] expand_loop.simps [simp del] expand_reference.simps [simp del]

definition expand_variables :: "string \<Rightarrow> variable_table \<Rightarrow> variable_dialect \<Rightarrow> string" where
  "expand_variables txt table dialect =
     (if table = [] \<or> find_char CHR ''$'' txt = None then txt
      else case expand_with_budget table dialect txt 0 \<lparr>substitutions_left = kMaxSubstitutions, exceeded = False\<rparr> of
        (expanded, budget) \<Rightarrow> if exceeded budget then txt else expanded)"

section \<open>What a table knows\<close>

text \<open>The lattice behind the table: nothing known, one value, or ambiguous.\<close>

datatype knowledge = Unknown | Known string | Ambiguous

fun knowledge_join :: "knowledge \<Rightarrow> knowledge \<Rightarrow> knowledge" where
  "knowledge_join Unknown k = k"
| "knowledge_join k Unknown = k"
| "knowledge_join (Known v) (Known w) = (if v = w then Known v else Ambiguous)"
| "knowledge_join k l = Ambiguous"

text \<open>A store that learns facts about keys by joining: what it knows at the end depends only on the
  set of the facts.\<close>

locale joining_store =
  fixes view :: "'t \<Rightarrow> 'key \<Rightarrow> 'k" and learn :: "'t \<Rightarrow> 'fact \<Rightarrow> 't" and ok :: "'t \<Rightarrow> bool"
    and about :: "'fact \<Rightarrow> 'key" and info :: "'fact \<Rightarrow> 'k" and join :: "'k \<Rightarrow> 'k \<Rightarrow> 'k"
  assumes ok_learn: "ok t \<Longrightarrow> ok (learn t f)"
    and view_learn: "ok t \<Longrightarrow> view (learn t f) y = (if y = about f then join (view t y) (info f) else view t y)"
    and join_assoc: "join (join a b) c = join a (join b c)"
    and join_commute: "join a b = join b a"
    and join_idem: "join a a = a"
begin

lemma view_learn_all:
  "ok t \<Longrightarrow> ok (foldl learn t fs) \<and>
     view (foldl learn t fs) y = foldl join (view t y) (map info (filter (\<lambda>f. about f = y) fs))"
  by (induction fs arbitrary: t) (auto simp: ok_learn view_learn)

lemma foldl_join_set:
  assumes "set ks = set ks'"
  shows "foldl join a ks = foldl join a ks'"
proof -
  have c: "comp_fun_idem_on UNIV (\<lambda>k a. join a k)"
    by unfold_locales (auto simp: fun_eq_iff, (metis join_assoc join_commute join_idem)+)
  have "foldl join a ks = Finite_Set.fold (\<lambda>k a. join a k) a (set ks)" for ks
    using comp_fun_idem_on.fold_set_fold [OF c, of ks a] by (simp add: foldl_conv_fold)
  then show ?thesis by (simp add: assms)
qed

lemma learn_all_set:
  assumes "set fs = set fs'" "ok t"
  shows "view (foldl learn t fs) = view (foldl learn t fs')"
proof
  fix y
  have "set (map info (filter (\<lambda>f. about f = y) fs)) = set (map info (filter (\<lambda>f. about f = y) fs'))"
    using assms(1) by simp
  then show "view (foldl learn t fs) y = view (foldl learn t fs') y"
    using view_learn_all [OF assms(2)] foldl_join_set by metis
qed

end

definition table_view :: "variable_table \<Rightarrow> string \<Rightarrow> knowledge" where
  "table_view table key = (case omap_find table key of None \<Rightarrow> Unknown | Some None \<Rightarrow> Ambiguous | Some (Some v) \<Rightarrow> Known v)"

definition entry_info :: "string \<times> string option \<Rightarrow> knowledge" where
  "entry_info e = (case snd e of None \<Rightarrow> Ambiguous | Some v \<Rightarrow> if v = [] then Ambiguous else Known v)"

definition table_ok :: "variable_table \<Rightarrow> bool" where
  "table_ok table \<longleftrightarrow> omap_ok table \<and> (\<forall>k. table_view table k \<noteq> Known [])"

lemma table_view_put:
  "omap_ok t \<Longrightarrow> table_view (omap_put k v t) y =
     (if y = k then (case v of None \<Rightarrow> Ambiguous | Some w \<Rightarrow> Known w) else table_view t y)"
  by (simp add: table_view_def omap.lookup_put)

lemma table_view_inj: "omap_ok t \<Longrightarrow> omap_ok t' \<Longrightarrow> table_view t = table_view t' \<longleftrightarrow> t = t'"
proof
  assume ok: "omap_ok t" "omap_ok t'" and v: "table_view t = table_view t'"
  have "omap_find t k = omap_find t' k" for k
    using fun_cong [OF v, of k] by (auto simp: table_view_def split: option.splits)
  then show "t = t'" using omap.entries_cong [OF ok] by blast
qed simp

lemma table_ok_Nil [simp]: "table_ok []"
  by (simp add: table_ok_def omap_ok_def table_view_def)

lemma table_view_entry:
  assumes "omap_ok t"
  shows "table_view (merge_variable_entry dialect t e) y =
     (if y = table_key dialect (fst e) then knowledge_join (table_view t y) (entry_info e) else table_view t y)"
proof (cases "snd e")
  case None
  then show ?thesis using assms
    by (cases "table_view t y") (auto simp: merge_variable_entry_def mark_variable_ambiguous_def table_view_put entry_info_def)
next
  case (Some v)
  then show ?thesis using assms
    by (cases "omap_find t y"; cases "table_view t y")
       (auto simp: merge_variable_entry_def record_variable_definition_def Let_def table_view_put entry_info_def
          table_view_def omap.lookup_put split: option.splits)
qed

lemma table_ok_entry: "table_ok t \<Longrightarrow> table_ok (merge_variable_entry dialect t e)"
proof -
  assume t: "table_ok t"
  then have "omap_ok (merge_variable_entry dialect t e)"
    by (auto simp: table_ok_def merge_variable_entry_def record_variable_definition_def mark_variable_ambiguous_def
        Let_def omap_ok_put split: option.split)
  moreover have "knowledge_join k (entry_info e) \<noteq> Known []" if "k \<noteq> Known []" for k
    using that by (cases k) (auto simp: entry_info_def split: option.split)
  ultimately show ?thesis using t by (auto simp: table_ok_def table_view_entry)
qed

lemma knowledge_join_assoc: "knowledge_join (knowledge_join a b) c = knowledge_join a (knowledge_join b c)"
  by (cases a; cases b; cases c) simp_all

lemma knowledge_join_commute: "knowledge_join a b = knowledge_join b a"
  by (cases a; cases b) simp_all

lemma knowledge_join_idem [simp]: "knowledge_join a a = a"
  by (cases a) simp_all

lemma table_ok_omap: "table_ok t \<Longrightarrow> omap_ok t"
  by (simp add: table_ok_def)

interpretation variables: joining_store table_view "merge_variable_entry dialect" table_ok
    "\<lambda>e. table_key dialect (fst e)" entry_info knowledge_join
  for dialect
proof unfold_locales
  show "table_ok t \<Longrightarrow> table_ok (merge_variable_entry dialect t f)" for t f by (rule table_ok_entry)
  show "table_ok t \<Longrightarrow> table_view (merge_variable_entry dialect t f) y =
      (if y = table_key dialect (fst f) then knowledge_join (table_view t y) (entry_info f) else table_view t y)" for t f y
    by (simp add: table_view_entry table_ok_omap)
  show "knowledge_join (knowledge_join a b) c = knowledge_join a (knowledge_join b c)" for a b c
    by (rule knowledge_join_assoc)
  show "knowledge_join a b = knowledge_join b a" for a b by (rule knowledge_join_commute)
  show "knowledge_join a a = a" for a by simp
qed

text \<open>Joining facts: known exactly when all facts agree.\<close>

lemma foldl_join_known:
  "foldl knowledge_join a ks = Known v \<longleftrightarrow>
     set (a # ks) \<subseteq> {Unknown, Known v} \<and> Known v \<in> set (a # ks)"
proof (induction ks arbitrary: a)
  case (Cons k ks)
  then show ?case by (cases a; cases k) auto
qed auto

text \<open>A table whose keys are in the dialect's canonical form, as every operation leaves them.\<close>

definition canonical_keys :: "variable_dialect \<Rightarrow> variable_table \<Rightarrow> bool" where
  "canonical_keys dialect t \<longleftrightarrow> list_all (\<lambda>e. table_key dialect (fst e) = fst e) t"

lemma table_key_idem [simp]: "table_key dialect (table_key dialect n) = table_key dialect n"
  by (simp add: table_key_def)

lemma merge_view:
  assumes "table_ok d" "table_ok s" "canonical_keys dialect s"
  shows "table_view (merge_variable_tables d dialect s) y = knowledge_join (table_view d y) (table_view s y)"
proof -
  have "filter (\<lambda>e. table_key dialect (fst e) = y) s = filter (\<lambda>e. fst e = y) s"
    using assms(3) by (intro filter_cong) (auto simp: canonical_keys_def list_all_iff)
  moreover have "filter (\<lambda>e. fst e = y) s = (case omap_find s y of None \<Rightarrow> [] | Some v \<Rightarrow> [(y, v)])"
  proof -
    from table_ok_omap [OF assms(2)] have ok: "omap_ok s" and d: "distinct (map fst s)"
      by (auto simp: omap_ok_def strict_sorted_iff)
    from d have "filter (\<lambda>e. fst e = y) s = (case map_of s y of None \<Rightarrow> [] | Some v \<Rightarrow> [(y, v)])"
    proof (induction s)
      case (Cons e s)
      have n: "filter (\<lambda>e. fst e = y) s = []" "map_of s y = None" if "fst e = y"
        using that Cons.prems by (auto simp: filter_empty_conv map_of_eq_None_iff rev_image_eqI)
      show ?case
      proof (cases "fst e = y")
        case True
        with n show ?thesis by (cases e) auto
      next
        case False
        with Cons show ?thesis by (cases e) auto
      qed
    qed simp
    then show ?thesis by (simp add: omap_find_map_of [OF ok])
  qed
  moreover have "entry_info (y, v) = table_view s y" if "omap_find s y = Some v" for v
    using that assms(2) by (auto simp: entry_info_def table_view_def table_ok_def split: option.splits)
  ultimately show ?thesis
    using variables.view_learn_all [OF assms(1), of dialect s y]
    by (cases "omap_find s y")
       (auto simp: merge_variable_tables_def table_view_def [of s] knowledge_join_commute [of _ Unknown])
qed

lemma table_ok_merge: "table_ok d \<Longrightarrow> table_ok (merge_variable_tables d dialect s)"
  using variables.view_learn_all [of d dialect s] by (simp add: merge_variable_tables_def)

section \<open>What expansion does\<close>

text \<open>The reference: a text made of literal pieces and references, and its substitution.\<close>

datatype piece = Lit string | Ref string

fun render_piece :: "variable_dialect \<Rightarrow> piece \<Rightarrow> string" where
  "render_piece d (Lit s) = s"
| "render_piece d (Ref n) = CHR ''$'' # open_bracket d # n @ [close_bracket d]"

fun subst_piece :: "variable_dialect \<Rightarrow> variable_table \<Rightarrow> piece \<Rightarrow> string" where
  "subst_piece d t (Lit s) = s"
| "subst_piece d t (Ref n) =
     (case table_view t (table_key d n) of Known v \<Rightarrow> v | _ \<Rightarrow> render_piece d (Ref n))"

fun is_known_ref :: "variable_dialect \<Rightarrow> variable_table \<Rightarrow> piece \<Rightarrow> bool" where
  "is_known_ref d t (Lit s) = False"
| "is_known_ref d t (Ref n) = (case table_view t (table_key d n) of Known v \<Rightarrow> True | _ \<Rightarrow> False)"

fun piece_ok :: "variable_dialect \<Rightarrow> piece \<Rightarrow> bool" where
  "piece_ok d (Lit s) = (CHR ''$'' \<notin> set s)"
| "piece_ok d (Ref n) = (set n \<inter> {CHR ''$'', open_bracket d, close_bracket d} = {})"

text \<open>No value of the table contains a reference.\<close>

definition flat_table :: "variable_table \<Rightarrow> bool" where
  "flat_table t \<longleftrightarrow> list_all (\<lambda>e. case snd e of None \<Rightarrow> True | Some v \<Rightarrow> CHR ''$'' \<notin> set v) t"

lemma flat_tableD: "flat_table t \<Longrightarrow> omap_ok t \<Longrightarrow> table_view t k = Known v \<Longrightarrow> CHR ''$'' \<notin> set v"
proof -
  assume "flat_table t" "omap_ok t" "table_view t k = Known v"
  then have "map_of t k = Some (Some v)" by (simp add: table_view_def omap_find_map_of split: option.splits)
  from map_of_SomeD [OF this] \<open>flat_table t\<close> show ?thesis by (auto simp: flat_table_def list_all_iff)
qed

lemma expand_loop_exceeded [simp]: "exceeded b \<Longrightarrow> expand_loop t d rest depth e b = (e, b)"
  by (simp add: expand_loop.simps)

lemma expand_loop_copy:
  "CHR ''$'' \<notin> set s \<Longrightarrow> \<not> exceeded b \<Longrightarrow>
   expand_loop t d (s @ rest) depth e b = expand_loop t d rest depth (e @ s) b"
proof (induction s arbitrary: e)
  case (Cons c s)
  then have "expand_loop t d ((c # s) @ rest) depth e b = expand_loop t d (s @ rest) depth (e @ [c]) b"
    by (subst expand_loop.simps) auto
  with Cons show ?case by simp
qed simp

lemma expand_plain:
  assumes "CHR ''$'' \<notin> set s" "\<not> exceeded b" "depth \<le> 8"
  shows "expand_with_budget t d s depth b = (s, b)"
proof -
  have "expand_loop t d (s @ []) depth [] b = (s, b)"
    using assms by (simp add: expand_loop_copy del: append_Nil2) (simp add: expand_loop.simps)
  with assms(3) show ?thesis by (simp add: expand_with_budget.simps kMaxExpansionDepth_def)
qed

lemma closing_bracket_from_plain:
  "set n \<inter> {open_bracket d, close_bracket d} = {} \<Longrightarrow> open_bracket d \<noteq> close_bracket d \<Longrightarrow>
   closing_bracket_from d (n @ close_bracket d # rest) (Suc 0) = Some (length n)"
  by (induction n) auto

lemma find_closing_bracket_plain:
  "set n \<inter> {open_bracket d, close_bracket d} = {} \<Longrightarrow> open_bracket d \<noteq> close_bracket d \<Longrightarrow>
   find_closing_bracket (CHR ''$'' # open_bracket d # n @ close_bracket d # rest) 1 d = Some (length n + 2)"
  by (simp add: find_closing_bracket_def closing_bracket_from_plain)

lemma expand_loop_reference:
  assumes n: "piece_ok d (Ref n)" and d: "open_bracket d \<noteq> close_bracket d"
    and flat: "flat_table t" "omap_ok t" and b: "\<not> exceeded b" "depth < 8"
    and left: "is_known_ref d t (Ref n) \<Longrightarrow> 0 < substitutions_left b"
    and len: "length (e @ subst_piece d t (Ref n)) \<le> 8192"
  shows "expand_loop t d (render_piece d (Ref n) @ rest) depth e b =
    expand_loop t d rest depth (e @ subst_piece d t (Ref n))
      (if is_known_ref d t (Ref n) then b\<lparr>substitutions_left := substitutions_left b - 1\<rparr> else b)"
proof -
  let ?r = "CHR ''$'' # open_bracket d # n @ close_bracket d # rest"
  from n have "set n \<inter> {open_bracket d, close_bracket d} = {}" by auto
  from find_closing_bracket_plain [OF this d, of rest]
  have c: "find_closing_bracket ?r 1 d = Some (length n + 2)" .
  have name: "expand_with_budget t d n (depth + 1) b = (n, b)"
    using n b by (intro expand_plain) auto
  have pieces: "substr ?r 2 (length n + 2 - 2) = n" "take (length n + 2 + 1) ?r = render_piece d (Ref n)"
    "drop (length n + 2 + 1) ?r = rest"
    by (simp_all add: substr_def)
  have ref: "expand_reference t d n (render_piece d (Ref n)) depth e b =
      (e @ subst_piece d t (Ref n), if is_known_ref d t (Ref n) then b\<lparr>substitutions_left := substitutions_left b - 1\<rparr> else b)"
  proof (cases "table_view t (table_key d n)")
    case (Known v)
    then have "omap_find t (table_key d n) = Some (Some v)" by (simp add: table_view_def split: option.splits)
    moreover have "expand_with_budget t d v (depth + 1) (b\<lparr>substitutions_left := substitutions_left b - 1\<rparr>) =
        (v, b\<lparr>substitutions_left := substitutions_left b - 1\<rparr>)"
      using flat_tableD [OF flat Known] b by (intro expand_plain) auto
    ultimately show ?thesis using Known left by (simp add: expand_reference.simps)
  qed (auto simp: table_view_def expand_reference.simps split: option.splits)
  have "expand_loop t d ?r depth e b =
    expand_loop t d rest depth (e @ subst_piece d t (Ref n))
      (if is_known_ref d t (Ref n) then b\<lparr>substitutions_left := substitutions_left b - 1\<rparr> else b)"
    using b len by (subst expand_loop.simps) (simp only: c option.case name prod.case pieces ref, simp add: kMaxExpandedBytes_def)
  then show ?thesis by simp
qed

lemma expand_loop_pieces:
  assumes d: "open_bracket d \<noteq> close_bracket d" and flat: "flat_table t" "omap_ok t" and depth: "depth < 8"
  shows "list_all (piece_ok d) ps \<Longrightarrow> \<not> exceeded b \<Longrightarrow> length (filter (is_known_ref d t) ps) \<le> substitutions_left b \<Longrightarrow>
    length (e @ concat (map (subst_piece d t) ps)) \<le> 8192 \<Longrightarrow>
    expand_loop t d (concat (map (render_piece d) ps)) depth e b =
      (e @ concat (map (subst_piece d t) ps),
       b\<lparr>substitutions_left := substitutions_left b - length (filter (is_known_ref d t) ps)\<rparr>)"
proof (induction ps arbitrary: e b)
  case Nil
  then show ?case by (simp add: expand_loop.simps)
next
  case (Cons p ps)
  show ?case
  proof (cases p)
    case (Lit s)
    with Cons show ?thesis by (simp add: expand_loop_copy)
  next
    case (Ref n)
    let ?b = "if is_known_ref d t p then b\<lparr>substitutions_left := substitutions_left b - 1\<rparr> else b"
    have "expand_loop t d (concat (map (render_piece d) (p # ps))) depth e b =
        expand_loop t d (concat (map (render_piece d) ps)) depth (e @ subst_piece d t p) ?b"
      using expand_loop_reference [OF _ d flat _ depth, of n b e "concat (map (render_piece d) ps)"] Cons.prems Ref
      by (simp split: if_splits)
    also have "\<dots> = ((e @ subst_piece d t p) @ concat (map (subst_piece d t) ps),
       ?b\<lparr>substitutions_left := substitutions_left ?b - length (filter (is_known_ref d t) ps)\<rparr>)"
      using Cons.prems by (intro Cons.IH) (auto split: if_splits)
    finally show ?thesis by simp
  qed
qed

lemma expand_loop_length:
  "length e \<le> kMaxExpandedBytes + c \<Longrightarrow> \<not> exceeded (snd (expand_loop t d rest depth e b)) \<Longrightarrow>
   length (fst (expand_loop t d rest depth e b)) \<le> kMaxExpandedBytes + c + length rest"
proof (induction "length rest" arbitrary: rest e b c rule: less_induct)
  case less
  consider (stop) "rest = [] \<or> exceeded b"
    | (char) "rest \<noteq> []" "\<not> exceeded b" "\<not> (hd rest = CHR ''$'' \<and> 1 < length rest \<and> rest ! 1 = open_bracket d)"
    | (ref) "rest \<noteq> []" "\<not> exceeded b" "hd rest = CHR ''$'' \<and> 1 < length rest \<and> rest ! 1 = open_bracket d"
    by blast
  then show ?case
  proof cases
    case stop
    with less.prems show ?thesis by (subst expand_loop.simps) auto
  next
    case char
    then have eq: "expand_loop t d rest depth e b = expand_loop t d (tl rest) depth (e @ [hd rest]) b"
      by (subst expand_loop.simps) simp
    have len: "Suc (length (tl rest)) = length rest" using char(1) by (cases rest) auto
    show ?thesis
      using less.hyps [of "tl rest" "e @ [hd rest]" "Suc c" b] less.prems char(1) len by (simp add: eq)
  next
    case ref
    show ?thesis
    proof (cases "find_closing_bracket rest 1 d")
      case None
      with ref less.prems show ?thesis by (subst expand_loop.simps) simp
    next
      case (Some p)
      obtain name b1 where 1: "expand_with_budget t d (substr rest 2 (p - 2)) (depth + 1) b = (name, b1)"
        by fastforce
      obtain e1 b2 where 2: "expand_reference t d name (take (p + 1) rest) depth e b1 = (e1, b2)" by fastforce
      let ?b = "if length e1 > kMaxExpandedBytes then b2\<lparr>exceeded := True\<rparr> else b2"
      have eq: "expand_loop t d rest depth e b = expand_loop t d (drop (p + 1) rest) depth e1 ?b"
        using ref by (subst expand_loop.simps) (simp only: Some 1 2 option.case prod.case, simp)
      have "length e1 \<le> kMaxExpandedBytes + 0" using less.prems(2) by (cases "length e1 > kMaxExpandedBytes") (simp_all add: eq)
      from less.hyps [of "drop (p + 1) rest" e1 0 ?b] this less.prems(2) ref(1) show ?thesis by (auto simp: eq)
    qed
  qed
qed

text \<open>An ambiguous entry and a missing one are the same to expansion.\<close>

definition same_values :: "variable_table \<Rightarrow> variable_table \<Rightarrow> bool" where
  "same_values t t' \<longleftrightarrow> (\<forall>k v. omap_find t k = Some (Some v) \<longleftrightarrow> omap_find t' k = Some (Some v))"

lemma expand_same_values:
  assumes "same_values t t'"
  shows "expand_with_budget t d txt depth b = expand_with_budget t' d txt depth b"
    and "expand_loop t d rest depth e b = expand_loop t' d rest depth e b"
    and "expand_reference t d name ref depth e b = expand_reference t' d name ref depth e b"
  using assms
proof (induction t d "txt" depth b and t d rest depth e b and t d name ref depth e b
    rule: expand_with_budget_expand_loop_expand_reference.induct)
  case (1 t d s depth b)
  then show ?case by (auto simp: expand_with_budget.simps)
next
  case (2 t d rest depth e b)
  show ?case
  proof (cases "rest = [] \<or> exceeded b \<or> \<not> (hd rest = CHR ''$'' \<and> 1 < length rest \<and> rest ! 1 = open_bracket d)
      \<or> find_closing_bracket rest 1 d = None")
    case True
    with 2 show ?thesis by (subst (1 2) expand_loop.simps) auto
  next
    case False
    then obtain p where p: "find_closing_bracket rest 1 d = Some p" by auto
    obtain name b1 where 1: "expand_with_budget t d (substr rest 2 (p - 2)) (depth + 1) b = (name, b1)"
      by fastforce
    obtain e1 b2 where r: "expand_reference t d name (take (p + 1) rest) depth e b1 = (e1, b2)" by fastforce
    have "expand_with_budget t' d (substr rest 2 (p - 2)) (depth + 1) b = (name, b1)"
      "expand_reference t' d name (take (p + 1) rest) depth e b1 = (e1, b2)"
      "expand_loop t d (drop (p + 1) rest) depth e1 (if length e1 > kMaxExpandedBytes then b2\<lparr>exceeded := True\<rparr> else b2) =
       expand_loop t' d (drop (p + 1) rest) depth e1 (if length e1 > kMaxExpandedBytes then b2\<lparr>exceeded := True\<rparr> else b2)"
      using 2 False p 1 r by auto
    with False p 1 r show ?thesis by (subst (1 2) expand_loop.simps) (simp only: p option.case prod.case, simp)
  qed
next
  case (3 t d name ref depth e b)
  show ?case
  proof (cases "omap_find t (table_key d name)")
    case None
    with 3(2) have "omap_find t' (table_key d name) = None \<or> omap_find t' (table_key d name) = Some None"
      by (cases "omap_find t' (table_key d name)") (force simp: same_values_def)+
    with None show ?thesis by (auto simp: expand_reference.simps)
  next
    case (Some f)
    show ?thesis
    proof (cases f)
      case None
      with Some 3(2) have "omap_find t' (table_key d name) = None \<or> omap_find t' (table_key d name) = Some None"
        by (cases "omap_find t' (table_key d name)") (force simp: same_values_def)+
      with Some None show ?thesis by (auto simp: expand_reference.simps)
    next
      case (Some v)
      with \<open>omap_find t (table_key d name) = Some f\<close> 3(2) have "omap_find t' (table_key d name) = Some (Some v)"
        by (auto simp: same_values_def)
      with 3 Some \<open>omap_find t (table_key d name) = Some f\<close> show ?thesis by (auto simp: expand_reference.simps)
    qed
  qed
qed

lemma expand_loop_no_values:
  "same_values [] t \<Longrightarrow> \<not> exceeded (snd (expand_loop t d rest depth e b)) \<Longrightarrow>
   fst (expand_loop t d rest depth e b) = e @ rest"
proof (induction "length rest" arbitrary: rest e b rule: less_induct)
  case less
  consider (stop) "rest = [] \<or> exceeded b"
    | (char) "rest \<noteq> []" "\<not> exceeded b" "\<not> (hd rest = CHR ''$'' \<and> 1 < length rest \<and> rest ! 1 = open_bracket d)"
    | (ref) "rest \<noteq> []" "\<not> exceeded b" "hd rest = CHR ''$'' \<and> 1 < length rest \<and> rest ! 1 = open_bracket d"
    by blast
  then show ?case
  proof cases
    case stop
    with less.prems show ?thesis by (cases "exceeded b") (auto simp: expand_loop.simps)
  next
    case char
    then have eq: "expand_loop t d rest depth e b = expand_loop t d (tl rest) depth (e @ [hd rest]) b"
      by (subst expand_loop.simps) simp
    show ?thesis
      using less.hyps [of "tl rest" "e @ [hd rest]" b] less.prems char(1) by (simp add: eq)
  next
    case ref
    show ?thesis
    proof (cases "find_closing_bracket rest 1 d")
      case None
      with ref less.prems show ?thesis by (subst expand_loop.simps) simp
    next
      case (Some p)
      obtain name b1 where 1: "expand_with_budget t d (substr rest 2 (p - 2)) (depth + 1) b = (name, b1)"
        by fastforce
      have 2: "expand_reference t d name (take (p + 1) rest) depth e b1 = (e @ take (p + 1) rest, b1)"
      proof (cases "omap_find t (table_key d name)")
        case (Some f)
        with less.prems(1) have "f = None" by (cases f) (auto simp: same_values_def)
        with Some show ?thesis by (simp add: expand_reference.simps)
      qed (simp add: expand_reference.simps)
      let ?e = "e @ take (p + 1) rest" and ?b = "if length (e @ take (p + 1) rest) > kMaxExpandedBytes then b1\<lparr>exceeded := True\<rparr> else b1"
      have eq: "expand_loop t d rest depth e b = expand_loop t d (drop (p + 1) rest) depth ?e ?b"
        using ref by (subst expand_loop.simps) (simp only: Some 1 2 option.case prod.case, simp)
      have "fst (expand_loop t d (drop (p + 1) rest) depth ?e ?b) = ?e @ drop (p + 1) rest"
        using less.prems ref(1) unfolding eq by (intro less.hyps) auto
      then show ?thesis by (simp add: eq)
    qed
  qed
qed

lemma same_values_filter:
  assumes "omap_ok t"
  shows "same_values (filter (\<lambda>e. snd e \<noteq> None) t) t"
proof -
  have ok: "omap_ok (filter (\<lambda>e. snd e \<noteq> None) t)"
    using assms by (simp only: omap_ok_def sorted_wrt_map sorted_wrt_filter)
  have d: "distinct (map fst t)" using assms by (simp add: omap_ok_def strict_sorted_iff)
  have "map_of (filter (\<lambda>e. snd e \<noteq> None) t) k = Some (Some v) \<longleftrightarrow> map_of t k = Some (Some v)" for k v
    using d by (auto simp: distinct_map_filter map_of_eq_Some_iff)
  then show ?thesis unfolding same_values_def omap_find_map_of [OF ok] omap_find_map_of [OF assms] by blast
qed

section \<open>Properties\<close>

text \<open>What a table knows does not depend on the order in which the definitions are met, nor on how
  often: the same set of definitions and ambiguity marks gives the same table, and starting from an
  empty table a variable has a value exactly when it has a definition and every fact about it is that
  one non-empty value.\<close>

theorem variable_table_order_independent:
  assumes "set fs = set fs'" "table_ok t"
  shows "foldl (merge_variable_entry dialect) t fs = foldl (merge_variable_entry dialect) t fs' \<and>
    (omap_find (foldl (merge_variable_entry dialect) [] fs) k = Some (Some v)) =
      (let facts = entry_info ` {f \<in> set fs. table_key dialect (fst f) = k} in v \<noteq> [] \<and> facts = {Known v})"
proof
  have ok: "omap_ok (foldl (merge_variable_entry dialect) t xs)" for xs
    using variables.view_learn_all [OF assms(2), of dialect xs] by (simp add: table_ok_omap)
  then show "foldl (merge_variable_entry dialect) t fs = foldl (merge_variable_entry dialect) t fs'"
    using variables.learn_all_set [OF assms, of dialect] by (simp add: table_view_inj)
next
  let ?t = "foldl (merge_variable_entry dialect) [] fs" and ?fs = "filter (\<lambda>f. table_key dialect (fst f) = k) fs"
  have ok: "table_ok ?t" and "table_view ?t k = foldl knowledge_join (table_view [] k) (map entry_info ?fs)"
    using variables.view_learn_all [of "[]" dialect fs k] by simp_all
  moreover have "table_view [] k = Unknown" by (simp add: table_view_def)
  moreover have "entry_info f \<noteq> Unknown" for f by (simp add: entry_info_def split: option.split)
  ultimately have "table_view ?t k = Known v \<longleftrightarrow> entry_info ` set ?fs = {Known v}"
    by (auto simp: foldl_join_known)
  moreover have "table_view ?t k = Known v \<longleftrightarrow> omap_find ?t k = Some (Some v)"
    by (simp add: table_view_def split: option.split)
  moreover have "table_view ?t k \<noteq> Known []" using ok by (simp add: table_ok_def)
  ultimately show "(omap_find ?t k = Some (Some v)) =
      (let facts = entry_info ` {f \<in> set fs. table_key dialect (fst f) = k} in v \<noteq> [] \<and> facts = {Known v})"
    by (auto simp: Let_def)
qed

theorem variable_table_order_independent_witness:
  "foldl (merge_variable_entry kCmakeVariableDialect) [] [(''V'', Some ''1''), (''W'', Some ''2''), (''V'', Some ''1'')] =
   foldl (merge_variable_entry kCmakeVariableDialect) [] [(''W'', Some ''2''), (''V'', Some ''1'')]"
  using variable_table_order_independent [of "[(''V'', Some ''1''), (''W'', Some ''2''), (''V'', Some ''1'')]"
      "[(''W'', Some ''2''), (''V'', Some ''1'')]" "[]" kCmakeVariableDialect] by auto

text \<open>Merging tables is pointwise joining, so it does not matter which of two tables is merged into
  which, in what grouping three are merged, or whether one is merged twice.\<close>

theorem merge_variable_tables_semilattice:
  assumes "table_ok a" "canonical_keys dialect a" "table_ok b" "canonical_keys dialect b" "table_ok c" "canonical_keys dialect c"
  shows "merge_variable_tables a dialect b = merge_variable_tables b dialect a \<and>
    table_view (merge_variable_tables (merge_variable_tables a dialect b) dialect c) =
      (\<lambda>k. knowledge_join (table_view a k) (knowledge_join (table_view b k) (table_view c k))) \<and>
    merge_variable_tables (merge_variable_tables a dialect b) dialect b = merge_variable_tables a dialect b"
proof (intro conjI)
  note v = merge_view [OF _ assms(1,2)] merge_view [OF _ assms(3,4)] merge_view [OF _ assms(5,6)]
  have ok: "omap_ok (merge_variable_tables x dialect y)" if "table_ok x" for x y
    using that by (intro table_ok_omap table_ok_merge)
  show "merge_variable_tables a dialect b = merge_variable_tables b dialect a"
    using table_view_inj [OF ok ok, of a b b a] assms by (simp add: fun_eq_iff v knowledge_join_commute)
  show "table_view (merge_variable_tables (merge_variable_tables a dialect b) dialect c) =
      (\<lambda>k. knowledge_join (table_view a k) (knowledge_join (table_view b k) (table_view c k)))"
    using assms by (simp add: fun_eq_iff v table_ok_merge knowledge_join_assoc)
  have "table_view (merge_variable_tables (merge_variable_tables a dialect b) dialect b) =
      table_view (merge_variable_tables a dialect b)"
    using assms by (simp add: fun_eq_iff v table_ok_merge knowledge_join_assoc)
  then show "merge_variable_tables (merge_variable_tables a dialect b) dialect b = merge_variable_tables a dialect b"
    using table_view_inj [OF ok ok, of "merge_variable_tables a dialect b" a b b] assms by (simp add: table_ok_merge)
qed

theorem merge_variable_tables_semilattice_witness:
  "merge_variable_tables [(''V'', Some ''1'')] kCmakeVariableDialect [(''V'', Some ''2'')] =
   merge_variable_tables [(''V'', Some ''2'')] kCmakeVariableDialect [(''V'', Some ''1'')]"
proof -
  have ok: "table_ok [(''V'', Some v)]" if "v \<noteq> []" for v
    using that by (auto simp: table_ok_def omap_ok_def table_view_def split: if_splits)
  have k: "canonical_keys kCmakeVariableDialect [(''V'', v)]" for v
    by (simp add: canonical_keys_def table_key_def kCmakeVariableDialect_def)
  show ?thesis
    using merge_variable_tables_semilattice [OF ok k ok k ok k, of "''1''" "''2''" "''1''"] by simp
qed

text \<open>C10: Expansion is substitution: in a text of literal pieces and references, with values that hold no
  further reference and within the budgets, every reference to a variable with one known value is
  replaced by it, and every other reference stays verbatim.\<close>

theorem expand_variables_substitutes:
  assumes "open_bracket d \<noteq> close_bracket d" "omap_ok t" "flat_table t" "list_all (piece_ok d) ps"
    and "length (filter (is_known_ref d t) ps) \<le> kMaxSubstitutions"
    and "length (concat (map (subst_piece d t) ps)) \<le> kMaxExpandedBytes"
  shows "expand_variables (concat (map (render_piece d) ps)) t d = concat (map (subst_piece d t) ps)"
proof (cases "t = [] \<or> find_char CHR ''$'' (concat (map (render_piece d) ps)) = None")
  case True
  have "subst_piece d t p = render_piece d p" if "p \<in> set ps" for p
    using True
  proof
    assume "t = []"
    then show ?thesis by (cases p) (simp_all add: table_view_def)
  next
    assume "find_char CHR ''$'' (concat (map (render_piece d) ps)) = None"
    then have "CHR ''$'' \<notin> set (render_piece d p)" using that by (auto simp: find_pos_None)
    then show ?thesis by (cases p) simp_all
  qed
  then have "map (render_piece d) ps = map (subst_piece d t) ps" by simp
  moreover have "expand_variables (concat (map (render_piece d) ps)) t d = concat (map (render_piece d) ps)"
    using True by (simp only: expand_variables_def if_True)
  ultimately show ?thesis by (simp only:)
next
  case False
  then show ?thesis
    using expand_loop_pieces [OF assms(1,3,2), of 0 ps "\<lparr>substitutions_left = kMaxSubstitutions, exceeded = False\<rparr>" "[]"] assms
    by (auto simp: expand_variables_def expand_with_budget.simps kMaxExpandedBytes_def)
qed

theorem expand_variables_substitutes_witness:
  "expand_variables ''$(Version)-$(Other)'' [(''version'', Some ''1.2'')] kMsbuildVariableDialect = ''1.2-$(Other)''"
proof -
  let ?t = "[(''version'', Some ''1.2'')]" and ?ps = "[Ref ''Version'', Lit ''-'', Ref ''Other'']"
  let ?d = kMsbuildVariableDialect
  have "open_bracket ?d \<noteq> close_bracket ?d" "omap_ok ?t" "flat_table ?t" "list_all (piece_ok ?d) ?ps"
    "length (filter (is_known_ref ?d ?t) ?ps) \<le> kMaxSubstitutions"
    "length (concat (map (subst_piece ?d ?t) ?ps)) \<le> kMaxExpandedBytes"
    by code_simp+
  note e = expand_variables_substitutes [OF this]
  have "concat (map (render_piece ?d) ?ps) = ''$(Version)-$(Other)''" "concat (map (subst_piece ?d ?t) ?ps) = ''1.2-$(Other)''"
    by code_simp+
  with e show ?thesis by simp
qed

text \<open>Expansion is bounded and safe on every table, cyclic ones included: the result is never longer
  than the text and the size limit together, an ambiguous variable is treated exactly as an undefined
  one, and a text without \<open>$\<close> is returned as it is.\<close>

theorem expand_variables_bounded:
  assumes "omap_ok t"
  shows "length (expand_variables txt t d) \<le> kMaxExpandedBytes + length txt \<and>
    expand_variables txt (filter (\<lambda>e. snd e \<noteq> None) t) d = expand_variables txt t d \<and>
    (CHR ''$'' \<in> set txt \<or> expand_variables txt t d = txt)"
proof (intro conjI)
  let ?b = "\<lparr>substitutions_left = kMaxSubstitutions, exceeded = False\<rparr>" and ?t = "filter (\<lambda>e. snd e \<noteq> None) t"
  show "length (expand_variables txt t d) \<le> kMaxExpandedBytes + length txt"
    using expand_loop_length [of "[]" 0 t d "txt" 0 ?b]
    by (auto simp: expand_variables_def expand_with_budget.simps split: prod.split)
  show "CHR ''$'' \<in> set txt \<or> expand_variables txt t d = txt"
    by (auto simp: expand_variables_def find_pos_None)
  have same: "same_values ?t t" by (rule same_values_filter [OF assms])
  show "expand_variables txt ?t d = expand_variables txt t d"
  proof (cases "?t = []")
    case True
    with same have "same_values [] t" by simp
    from expand_loop_no_values [OF this, of d "txt" 0 "[]" ?b] show ?thesis
      unfolding True by (auto simp: expand_variables_def expand_with_budget.simps split: prod.split)
  next
    case False
    then have "t \<noteq> []" by auto
    with False show ?thesis by (simp only: expand_variables_def expand_same_values(1) [OF same])
  qed
qed

theorem expand_variables_bounded_witness:
  "length (expand_variables ''${a}x'' [(''a'', Some ''${b}${b}''), (''b'', Some ''${a}${a}'')] kCmakeVariableDialect) \<le> 8197"
proof -
  have "omap_ok [(''a'', Some ''${b}${b}''), (''b'', Some ''${a}${a}'')]" by code_simp
  from expand_variables_bounded [OF this, of "''${a}x''" kCmakeVariableDialect] show ?thesis
    by (simp add: kMaxExpandedBytes_def)
qed

end
