(* ===== verification/Byte_Cursor.thy ===== *)
theory Byte_Cursor
  imports Ordered_Map
begin

text \<open>
  The bounds-checked cursor the binary readers are built on, \<open>binscan/byte_cursor.hpp\<close>, and
  the caps of \<open>binscan/bounds.hpp\<close>. Offsets, lengths and values are \<open>std::size_t\<close> and \<open>std::uint64_t\<close>: 64-bit
  words whose arithmetic wraps. An image is a list of bytes; \<open>image_ok\<close> says that its size is a
  \<open>std::size_t\<close>, as every container's is.
\<close>

section \<open>The cursor\<close>

datatype byte_order = Little | Big

datatype integer_width = OneByte | TwoBytes | FourBytes | EightBytes

primrec width_bytes :: "integer_width \<Rightarrow> nat" where
  "width_bytes OneByte = 1"
| "width_bytes TwoBytes = 2"
| "width_bytes FourBytes = 4"
| "width_bytes EightBytes = 8"

record byte_cursor =
  cursor_bytes :: "u8 list"
  cursor_order :: byte_order

definition cursor_size :: "byte_cursor \<Rightarrow> u64" where
  "cursor_size c = word_of_nat (length (cursor_bytes c))"

definition has_range :: "byte_cursor \<Rightarrow> u64 \<Rightarrow> u64 \<Rightarrow> bool" where
  "has_range c offset len = (if len > cursor_size c then False else offset \<le> cursor_size c - len)"

text \<open>The loop of \<open>uint_at\<close>, with \<open>byte_index\<close> counting up to \<open>byte_count\<close>.\<close>

definition uint_source_index :: "byte_cursor \<Rightarrow> u64 \<Rightarrow> nat \<Rightarrow> nat \<Rightarrow> u64" where
  "uint_source_index c offset byte_count byte_index =
     (if cursor_order c = Little then offset + word_of_nat byte_index
      else offset + word_of_nat byte_count - 1 - word_of_nat byte_index)"

definition uint_step :: "byte_cursor \<Rightarrow> u64 \<Rightarrow> nat \<Rightarrow> nat \<Rightarrow> u64 \<Rightarrow> u64" where
  "uint_step c offset byte_count byte_index v =
     v OR push_bit (8 * byte_index) (ucast (cursor_bytes c ! unat (uint_source_index c offset byte_count byte_index)))"

definition uint_at :: "byte_cursor \<Rightarrow> u64 \<Rightarrow> integer_width \<Rightarrow> u64 option" where
  "uint_at c offset width =
     (let byte_count = width_bytes width in
      if \<not> has_range c offset (word_of_nat byte_count) then None
      else Some (fold (uint_step c offset byte_count) [0..<byte_count] 0))"

fun c_string_scan :: "byte_cursor \<Rightarrow> u64 \<Rightarrow> nat \<Rightarrow> nat \<Rightarrow> nat option" where
  "c_string_scan c offset len 0 = None"
| "c_string_scan c offset len (Suc fuel) =
     (if cursor_bytes c ! unat (offset + word_of_nat len) = 0 then Some len
      else c_string_scan c offset (Suc len) fuel)"

definition c_string_at :: "byte_cursor \<Rightarrow> u64 \<Rightarrow> u64 \<Rightarrow> string option" where
  "c_string_at c offset max_length =
     (if offset > cursor_size c then None
      else
        let available = cursor_size c - offset;
            searchable = (if max_length < available then max_length else available)
        in case c_string_scan c offset 0 (unat searchable) of
             None \<Rightarrow> None
           | Some len \<Rightarrow> Some (map char_of_u8 (substr (cursor_bytes c) (unat offset) len)))"

definition subrange :: "byte_cursor \<Rightarrow> u64 \<Rightarrow> u64 \<Rightarrow> byte_cursor option" where
  "subrange c offset len =
     (if \<not> has_range c offset len then None
      else Some (c\<lparr>cursor_bytes := substr (cursor_bytes c) (unat offset) (unat len)\<rparr>))"

definition with_byte_order :: "byte_cursor \<Rightarrow> byte_order \<Rightarrow> byte_cursor" where
  "with_byte_order c order = c\<lparr>cursor_order := order\<rparr>"

definition as_image :: "string \<Rightarrow> u8 list" where
  "as_image s = map u8_of_char s"

section \<open>Bounds\<close>

definition kMaxBinaryBytes :: nat where "kMaxBinaryBytes = 134217728"
definition kMaxProgramHeaders :: nat where "kMaxProgramHeaders = 1024"
definition kMaxSectionHeaders :: nat where "kMaxSectionHeaders = 4096"
definition kMaxDynamicEntries :: nat where "kMaxDynamicEntries = 4096"
definition kMaxSymbolTableEntries :: nat where "kMaxSymbolTableEntries = 200000"
definition kMaxStringLength :: nat where "kMaxStringLength = 4096"
definition kMaxNeededEntries :: nat where "kMaxNeededEntries = 512"
definition kMaxArchiveMembers :: nat where "kMaxArchiveMembers = 4096"
definition kMaxSymbolSample :: nat where "kMaxSymbolSample = 256"

lemmas bounds_defs = kMaxProgramHeaders_def kMaxSectionHeaders_def kMaxDynamicEntries_def
  kMaxSymbolTableEntries_def kMaxStringLength_def kMaxNeededEntries_def kMaxArchiveMembers_def kMaxSymbolSample_def

definition normalize_and_cap :: "string list \<Rightarrow> nat \<Rightarrow> string list \<times> bool" where
  "normalize_and_cap vals maximum =
     (let vals = remdups_adj (sort vals) in
      if length vals \<le> maximum then (vals, False) else (take maximum vals, True))"

section \<open>Lemmas\<close>

definition image_ok :: "byte_cursor \<Rightarrow> bool" where
  "image_ok c \<longleftrightarrow> length (cursor_bytes c) < 2 ^ 64"

lemma unat_cursor_size: "image_ok c \<Longrightarrow> unat (cursor_size c) = length (cursor_bytes c)"
  by (simp add: image_ok_def cursor_size_def unat_of_nat take_bit_nat_eq_self)

lemma has_range_iff:
  assumes "image_ok c"
  shows "has_range c offset len \<longleftrightarrow> unat offset + unat len \<le> length (cursor_bytes c)"
proof (cases "len \<le> cursor_size c")
  case True
  then have "unat (cursor_size c - len) = length (cursor_bytes c) - unat len"
    by (simp add: unat_sub unat_cursor_size [OF assms])
  moreover have "unat len \<le> length (cursor_bytes c)"
    using True by (simp add: word_le_nat_alt unat_cursor_size [OF assms])
  ultimately show ?thesis using True by (auto simp: has_range_def word_le_nat_alt word_less_nat_alt)
next
  case False
  then show ?thesis by (auto simp: has_range_def word_le_nat_alt word_less_nat_alt unat_cursor_size [OF assms] not_le)
qed

lemma unat_add_offset:
  assumes "image_ok c" "unat offset + n \<le> length (cursor_bytes c)" "k \<le> n"
  shows "unat (offset + word_of_nat k :: u64) = unat offset + k"
proof -
  have k: "unat (word_of_nat k :: u64) = k"
    using assms by (simp add: image_ok_def unat_of_nat take_bit_nat_eq_self)
  have "unat offset + unat (word_of_nat k :: u64) < 2 ^ LENGTH(64)" using assms k by (simp add: image_ok_def)
  then show ?thesis using unat_add_lem [of offset "word_of_nat k"] k by simp
qed

subsection \<open>Integers\<close>

text \<open>The value of a byte string, least significant byte first.\<close>

fun le_value :: "u8 list \<Rightarrow> nat" where
  "le_value [] = 0"
| "le_value (b # bs) = unat b + 256 * le_value bs"

lemma le_value_snoc: "le_value (bs @ [b]) = le_value bs + 256 ^ length bs * unat b"
  by (induction bs) simp_all

lemma le_value_less: "le_value bs < 256 ^ length bs"
proof (induction bs)
  case (Cons b bs)
  have "unat b < 256" using unsigned_less [of b, where ?'a = nat] by simp
  then have "unat b + 256 * le_value bs < 256 * Suc (le_value bs)" by simp
  also have "\<dots> \<le> 256 * 256 ^ length bs" using Cons by simp
  finally show ?case by simp
qed simp

text \<open>The bytes of a field in the order of their significance.\<close>

definition field_bytes :: "byte_cursor \<Rightarrow> nat \<Rightarrow> nat \<Rightarrow> u8 list" where
  "field_bytes c p n = (if cursor_order c = Little then substr (cursor_bytes c) p n else rev (substr (cursor_bytes c) p n))"

lemma length_field_bytes: "p + n \<le> length (cursor_bytes c) \<Longrightarrow> length (field_bytes c p n) = n"
  by (simp add: field_bytes_def)

lemma uint_source_byte:
  assumes c: "image_ok c" and r: "unat offset + n \<le> length (cursor_bytes c)" and i: "i < n"
  shows "cursor_bytes c ! unat (uint_source_index c offset n i) = field_bytes c (unat offset) n ! i"
proof (cases "cursor_order c = Little")
  case True
  then show ?thesis
    using unat_add_offset [OF c r, of i] i r by (simp add: uint_source_index_def field_bytes_def substr_def)
next
  case False
  have eq: "offset + word_of_nat n - 1 - word_of_nat i = offset + (word_of_nat (n - 1 - i) :: u64)"
    using i by (simp add: of_nat_diff algebra_simps)
  have "unat (uint_source_index c offset n i) = unat offset + (n - 1 - i)"
    using unat_add_offset [OF c r, of "n - 1 - i"] False by (simp only: uint_source_index_def if_False eq)
  moreover have "field_bytes c (unat offset) n ! i = cursor_bytes c ! (unat offset + (n - 1 - i))"
    using False i r by (simp add: field_bytes_def rev_nth substr_def)
  ultimately show ?thesis by simp
qed

lemma uint_step_value:
  assumes v: "unat v = le_value (take i bs)" and i: "i < length bs" "i < 8"
  shows "unat (v OR push_bit (8 * i) (ucast (bs ! i)) :: u64) = le_value (take (Suc i) bs)"
proof -
  let ?b = "bs ! i"
  have b: "unat ?b < 256" using unsigned_less [of ?b, where ?'a = nat] by simp
  have v_less: "unat v < 2 ^ (8 * i)"
    using le_value_less [of "take i bs"] i v by (simp add: power_mult)
  have "unat ?b * 2 ^ (8 * i) < 2 ^ 8 * 2 ^ (8 * i)" using b by simp
  also have "\<dots> = (2 :: nat) ^ (8 + 8 * i)" by (simp add: power_add)
  also have "\<dots> \<le> 2 ^ 64" using i by (intro power_increasing) auto
  finally have fit: "unat ?b * 2 ^ (8 * i) < 2 ^ 64" .
  have "unat (push_bit (8 * i) (ucast ?b) :: u64) = take_bit 64 (push_bit (8 * i) (unat ?b))"
    using b by (simp add: unsigned_push_bit_eq unsigned_ucast_eq take_bit_nat_eq_self)
  also have "\<dots> = push_bit (8 * i) (unat ?b)"
    using fit by (simp add: push_bit_eq_mult take_bit_nat_eq_self)
  finally have p: "unat (push_bit (8 * i) (ucast ?b) :: u64) = push_bit (8 * i) (unat ?b)" .
  have "unat (v OR push_bit (8 * i) (ucast ?b) :: u64) = push_bit (8 * i) (unat ?b) OR unat v"
    by (simp add: unsigned_or_eq p or.commute)
  also have "\<dots> = unat ?b * 2 ^ (8 * i) + unat v" by (rule or_push_nat [OF v_less])
  also have "\<dots> = le_value (take (Suc i) bs)"
    using i v by (simp add: take_Suc_conv_app_nth le_value_snoc power_mult min_def)
  finally show ?thesis .
qed

lemma uint_loop_value:
  assumes c: "image_ok c" and r: "unat offset + n \<le> length (cursor_bytes c)" and n: "n \<le> 8" and k: "k \<le> n"
  shows "unat (fold (uint_step c offset n) [0..<k] 0) = le_value (take k (field_bytes c (unat offset) n))"
  using k
proof (induction k)
  case 0
  then show ?case by simp
next
  case (Suc k)
  then show ?case
    using uint_step_value [of "fold (uint_step c offset n) [0..<k] 0" k "field_bytes c (unat offset) n"] n
      length_field_bytes [OF r] uint_source_byte [OF c r, of k]
    by (simp add: uint_step_def [of c offset n k])
qed

lemma width_bytes_bounds [simp]: "width_bytes w \<le> 8" "0 < width_bytes w"
  by (cases w; simp)+

lemma unat_width [simp]: "unat (word_of_nat (width_bytes w) :: u64) = width_bytes w"
  by (cases w) simp_all

lemma uint_at_eq:
  assumes "image_ok c"
  shows "uint_at c offset w = (if unat offset + width_bytes w \<le> length (cursor_bytes c)
    then Some (word_of_nat (le_value (field_bytes c (unat offset) (width_bytes w)))) else None)"
proof (cases "unat offset + width_bytes w \<le> length (cursor_bytes c)")
  case True
  from uint_loop_value [OF assms True, of "width_bytes w"] length_field_bytes [OF True]
  have "unat (fold (uint_step c offset (width_bytes w)) [0..<width_bytes w] 0) =
      le_value (field_bytes c (unat offset) (width_bytes w))" by simp
  then have "word_of_nat (unat (fold (uint_step c offset (width_bytes w)) [0..<width_bytes w] 0)) =
      (word_of_nat (le_value (field_bytes c (unat offset) (width_bytes w))) :: u64)" by (rule arg_cong)
  then have "fold (uint_step c offset (width_bytes w)) [0..<width_bytes w] 0 =
      word_of_nat (le_value (field_bytes c (unat offset) (width_bytes w)))" by simp
  with True show ?thesis by (simp add: uint_at_def has_range_iff [OF assms])
next
  case False
  then show ?thesis by (simp add: uint_at_def has_range_iff [OF assms])
qed

subsection \<open>Strings\<close>

lemma c_string_scan_eq:
  assumes "image_ok c" "unat offset + n \<le> length (cursor_bytes c)" "len + fuel = n"
  shows "c_string_scan c offset len fuel =
    map_option (\<lambda>i. len + i) (find_pos (\<lambda>b. b = 0) (substr (cursor_bytes c) (unat offset + len) fuel))"
  using assms(3)
proof (induction fuel arbitrary: len)
  case 0
  then show ?case by (simp add: substr_def)
next
  case (Suc fuel)
  have l: "unat offset + len < length (cursor_bytes c)" using assms(2) Suc.prems by simp
  have u: "unat (offset + word_of_nat len) = unat offset + len"
    using unat_add_offset [OF assms(1,2), of len] Suc.prems by simp
  have "substr (cursor_bytes c) (unat offset + len) (Suc fuel) =
      cursor_bytes c ! (unat offset + len) # substr (cursor_bytes c) (unat offset + Suc len) fuel"
    using l by (simp add: substr_def Cons_nth_drop_Suc [symmetric])
  with Suc.IH [of "Suc len"] Suc.prems u show ?case
    by (simp add: option.map_comp comp_def)
qed

lemma c_string_at_eq:
  assumes "image_ok c"
  shows "c_string_at c offset max_length =
    (case find_pos (\<lambda>b. b = 0) (substr (cursor_bytes c) (unat offset) (unat max_length)) of
       None \<Rightarrow> None
     | Some len \<Rightarrow> Some (map char_of_u8 (substr (cursor_bytes c) (unat offset) len)))"
proof (cases "offset \<le> cursor_size c")
  case True
  let ?s = "if max_length < cursor_size c - offset then max_length else cursor_size c - offset"
  have o: "unat offset \<le> length (cursor_bytes c)"
    using True by (simp add: word_le_nat_alt unat_cursor_size [OF assms])
  have a: "unat (cursor_size c - offset) = length (cursor_bytes c) - unat offset"
    using True by (simp add: unat_sub unat_cursor_size [OF assms])
  have s: "unat ?s = min (unat max_length) (length (cursor_bytes c) - unat offset)"
    using a by (auto simp: word_less_nat_alt)
  have "substr (cursor_bytes c) (unat offset) (unat ?s) = substr (cursor_bytes c) (unat offset) (unat max_length)"
    by (auto simp: s substr_def min_def)
  moreover have "unat offset + unat ?s \<le> length (cursor_bytes c)" using o s by simp
  moreover have "\<not> cursor_size c < offset" using True by simp
  ultimately show ?thesis
    using c_string_scan_eq [OF assms, of offset "unat ?s" 0 "unat ?s"]
    by (auto simp: c_string_at_def Let_def option.map_ident)
next
  case False
  then have "length (cursor_bytes c) < unat offset"
    by (simp add: not_le word_less_nat_alt unat_cursor_size [OF assms])
  then have "substr (cursor_bytes c) (unat offset) n = []" for n by (simp add: substr_def)
  with False show ?thesis by (simp add: c_string_at_def not_le)
qed

subsection \<open>Subranges\<close>

lemma subrange_eq:
  "image_ok c \<Longrightarrow> subrange c offset len =
    (if unat offset + unat len \<le> length (cursor_bytes c)
     then Some (c\<lparr>cursor_bytes := substr (cursor_bytes c) (unat offset) (unat len)\<rparr>) else None)"
  by (simp add: subrange_def has_range_iff)

lemma subrange_SomeD:
  assumes "image_ok c" "subrange c offset len = Some d"
  shows "image_ok d" "length (cursor_bytes d) = unat len" "cursor_order d = cursor_order c"
    "unat offset + unat len \<le> length (cursor_bytes c)" "cursor_bytes d = substr (cursor_bytes c) (unat offset) (unat len)"
  using assms by (auto simp: subrange_eq image_ok_def split: if_splits)

subsection \<open>Lists\<close>

lemma normalize_and_cap_eq:
  "normalize_and_cap vals maximum =
    (take maximum (sorted_list_of_set (set vals)), maximum < card (set vals))"
  by (auto simp: normalize_and_cap_def sort_remdups_adj_eq Let_def)

lemma sorted_wrt_take: "sorted_wrt P xs \<Longrightarrow> sorted_wrt P (take n xs)"
  by (induction xs arbitrary: n) (auto simp: take_Cons dest: in_set_takeD split: nat.split)

lemma normalize_and_cap_props:
  assumes "normalize_and_cap vals maximum = (out, hit)"
  shows "sorted_wrt (<) out" "set out \<subseteq> set vals" "length out \<le> maximum" "hit \<longleftrightarrow> maximum < card (set vals)"
    "\<not> hit \<Longrightarrow> set out = set vals"
proof -
  from assms have o: "out = take maximum (sorted_list_of_set (set vals))" and h: "hit \<longleftrightarrow> maximum < card (set vals)"
    by (auto simp: normalize_and_cap_eq)
  show "sorted_wrt (<) out" unfolding o by (rule sorted_wrt_take) simp
  show "set out \<subseteq> set vals" using set_take_subset [of maximum "sorted_list_of_set (set vals)"] by (simp add: o)
  show "length out \<le> maximum" by (simp add: o)
  show "hit \<longleftrightarrow> maximum < card (set vals)" by (rule h)
  show "\<not> hit \<Longrightarrow> set out = set vals" by (simp add: o h)
qed

lemma c_string_at_SomeD:
  assumes "image_ok c" "c_string_at c offset max_length = Some s"
  shows "length s < unat max_length" "unat offset + length s < length (cursor_bytes c)"
    "cursor_bytes c ! (unat offset + length s) = 0" "as_image s = substr (cursor_bytes c) (unat offset) (length s)"
    "CHR 0x00 \<notin> set s"
proof -
  let ?t = "substr (cursor_bytes c) (unat offset) (unat max_length)"
  from assms(2) obtain len where f: "find_pos (\<lambda>b. b = 0) ?t = Some len"
    and s: "s = map char_of_u8 (substr (cursor_bytes c) (unat offset) len)"
    by (auto simp: c_string_at_eq [OF assms(1)] split: option.splits)
  from find_pos_SomeD [OF f] have l: "len < length ?t" and z: "?t ! len = 0" and n: "\<forall>b \<in> set (take len ?t). b \<noteq> 0" by auto
  have t: "take len ?t = substr (cursor_bytes c) (unat offset) len" using l by (simp add: substr_def min_absorb1)
  have ls: "length s = len" using l s by simp
  show "length s < unat max_length" "unat offset + length s < length (cursor_bytes c)" using l ls by auto
  show "cursor_bytes c ! (unat offset + length s) = 0" using z l ls by (auto simp: substr_def)
  show "as_image s = substr (cursor_bytes c) (unat offset) (length s)"
    by (simp add: as_image_def s ls [unfolded s] comp_def) (use l in simp)
  show "CHR 0x00 \<notin> set s"
  proof
    assume "CHR 0x00 \<in> set s"
    then obtain b where b: "b \<in> set (take len ?t)" "char_of_u8 b = CHR 0x00" by (auto simp: s t)
    from b(2) have "b = u8_of_char CHR 0x00" by (metis u8_of_char_of_u8)
    then have "b = 0" by (simp add: u8_of_char_def)
    with n b(1) show False by blast
  qed
qed

lemma c_string_at_SomeI:
  assumes "image_ok c" "length s < unat max_length" "unat offset + length s < length (cursor_bytes c)"
    "cursor_bytes c ! (unat offset + length s) = 0" "as_image s = substr (cursor_bytes c) (unat offset) (length s)"
    "CHR 0x00 \<notin> set s"
  shows "c_string_at c offset max_length = Some s"
proof -
  let ?t = "substr (cursor_bytes c) (unat offset) (unat max_length)"
  have l: "length s < length ?t" using assms by simp
  have t: "take (length s) ?t = as_image s" using assms(2,5) by (simp add: substr_def min_def)
  have "find_pos (\<lambda>b. b = 0) ?t = Some (length s)"
  proof (rule find_pos_SomeI [OF l])
    show "?t ! length s = 0" using assms(2-4) by (simp add: substr_def)
    have "u8_of_char a \<noteq> 0" if "a \<in> set s" for a
    proof
      assume "u8_of_char a = 0"
      then have "a = char_of_u8 0" by (metis char_of_u8_of_char)
      with that assms(6) show False by (simp add: char_of_u8_def char_of_def)
    qed
    then show "\<forall>b \<in> set (take (length s) ?t). b \<noteq> 0" by (auto simp: t as_image_def)
  qed
  moreover have "map char_of_u8 (substr (cursor_bytes c) (unat offset) (length s)) = s"
    by (simp add: assms(5) [symmetric] as_image_def comp_def)
  ultimately show ?thesis by (simp add: c_string_at_eq [OF assms(1)])
qed

section \<open>Properties\<close>

text \<open>C4: The range check is exact for every pair of 64-bit words: a hostile length near \<open>SIZE_MAX\<close> never
  makes it accept a range that leaves the image, and it never rejects one that fits; a sub-cursor is
  exactly the bytes of an accepted range, in the same byte order.\<close>

theorem has_range_exact:
  assumes "image_ok c"
  shows "(has_range c offset len = (unat offset + unat len \<le> length (cursor_bytes c))) \<and>
    subrange c offset len =
      (if unat offset + unat len \<le> length (cursor_bytes c)
       then Some \<lparr>cursor_bytes = substr (cursor_bytes c) (unat offset) (unat len), cursor_order = cursor_order c\<rparr> else None)"
  using has_range_iff [OF assms] subrange_eq [OF assms] by simp

theorem has_range_exact_witness:
  "\<not> has_range \<lparr>cursor_bytes = [1, 2, 3], cursor_order = Little\<rparr> 2 (-1)"
proof -
  have "image_ok \<lparr>cursor_bytes = [1, 2, 3], cursor_order = Little\<rparr>" by (simp add: image_ok_def)
  moreover have "(3 :: u64) < - 1" by simp
  then have "unat (3 :: u64) < unat (- 1 :: u64)" by (simp only: word_less_nat_alt)
  then have "\<not> unat (2 :: u64) + unat (- 1 :: u64) \<le> length [1, 2, 3 :: u8]" by simp
  ultimately show ?thesis using has_range_exact [of "\<lparr>cursor_bytes = [1, 2, 3], cursor_order = Little\<rparr>" 2 "-1"] by simp
qed

text \<open>An integer field has the value its bytes denote in the cursor's byte order, or nothing when it does
  not fit the image: little-endian fields read the bytes in order, big-endian fields in reverse, and no
  width overflows the 64-bit result.\<close>

theorem uint_at_value:
  assumes "image_ok c"
  shows "map_option unat (uint_at c offset w) =
    (if unat offset + width_bytes w \<le> length (cursor_bytes c)
     then Some (le_value (if cursor_order c = Little then substr (cursor_bytes c) (unat offset) (width_bytes w)
                          else rev (substr (cursor_bytes c) (unat offset) (width_bytes w)))) else None)"
proof (cases "unat offset + width_bytes w \<le> length (cursor_bytes c)")
  case True
  have "le_value (field_bytes c (unat offset) (width_bytes w)) < 2 ^ 64"
  proof -
    have "le_value (field_bytes c (unat offset) (width_bytes w)) < 256 ^ width_bytes w"
      using le_value_less [of "field_bytes c (unat offset) (width_bytes w)"] length_field_bytes [OF True] by simp
    also have "\<dots> \<le> (256 :: nat) ^ 8" by (intro power_increasing) simp_all
    finally show ?thesis by simp
  qed
  then have "unat (word_of_nat (le_value (field_bytes c (unat offset) (width_bytes w))) :: u64) =
      le_value (field_bytes c (unat offset) (width_bytes w))"
    by (simp add: unat_of_nat take_bit_nat_eq_self)
  with True show ?thesis by (simp add: uint_at_eq [OF assms] field_bytes_def)
next
  case False
  then show ?thesis by (simp add: uint_at_eq [OF assms])
qed

theorem uint_at_value_witness:
  "map_option unat (uint_at \<lparr>cursor_bytes = [9, 0, 0, 1, 4], cursor_order = Big\<rparr> 1 FourBytes) = Some 260"
proof -
  let ?c = "\<lparr>cursor_bytes = [9, 0, 0, 1, 4], cursor_order = Big\<rparr>"
  have "image_ok ?c" by (simp add: image_ok_def)
  note uint_at_value [OF this, of 1 FourBytes]
  also have "(if unat (1 :: u64) + width_bytes FourBytes \<le> length (cursor_bytes ?c)
     then Some (le_value (if cursor_order ?c = Little then substr (cursor_bytes ?c) (unat (1 :: u64)) (width_bytes FourBytes)
                          else rev (substr (cursor_bytes ?c) (unat (1 :: u64)) (width_bytes FourBytes)))) else None) = Some 260"
    by code_simp
  finally show ?thesis .
qed

text \<open>A string read from the image is there: it is the run of non-zero bytes at the offset, shorter than
  the cap, and ended by a zero byte inside the image. An unterminated run is nothing, never a
  fragment, so no name can carry bytes the file does not terminate.\<close>

theorem c_string_at_exact:
  assumes "image_ok c"
  shows "(c_string_at c offset max_length = Some s) =
    (length s < unat max_length \<and> unat offset + length s < length (cursor_bytes c) \<and>
     cursor_bytes c ! (unat offset + length s) = 0 \<and> as_image s = substr (cursor_bytes c) (unat offset) (length s) \<and>
     CHR 0x00 \<notin> set s)"
  using c_string_at_SomeD [OF assms, of offset max_length s] c_string_at_SomeI [OF assms, of s max_length offset] by blast

theorem c_string_at_exact_witness:
  "c_string_at \<lparr>cursor_bytes = [0x61, 0x62, 0, 0x63], cursor_order = Little\<rparr> 0 10 = Some ''ab''"
proof -
  let ?c = "\<lparr>cursor_bytes = [0x61, 0x62, 0, 0x63], cursor_order = Little\<rparr>"
  have "image_ok ?c" by (simp add: image_ok_def)
  moreover have "length ''ab'' < unat (10 :: u64) \<and> unat (0 :: u64) + length ''ab'' < length (cursor_bytes ?c) \<and>
     cursor_bytes ?c ! (unat (0 :: u64) + length ''ab'') = 0 \<and>
     as_image ''ab'' = substr (cursor_bytes ?c) (unat (0 :: u64)) (length ''ab'') \<and> CHR 0x00 \<notin> set ''ab''"
    by code_simp
  ultimately show ?thesis by (rule c_string_at_exact [THEN iffD2])
qed

text \<open>Every list of names the binary readers produce is in one order: \<open>normalize_and_cap\<close> leaves a strictly
  ascending list without duplicates, at most as long as the cap, that depends only on the set of the
  names; it is a prefix of all of them, and the flag is set exactly when some were dropped.\<close>

theorem normalize_and_cap_canonical:
  "normalize_and_cap vals maximum = (take maximum (sorted_list_of_set (set vals)), maximum < card (set vals)) \<and>
   sorted_wrt (<) (fst (normalize_and_cap vals maximum)) \<and> length (fst (normalize_and_cap vals maximum)) \<le> maximum"
proof -
  obtain out hit where "normalize_and_cap vals maximum = (out, hit)" by fastforce
  from this normalize_and_cap_props(1,3) [OF this] normalize_and_cap_eq [of vals maximum] show ?thesis by auto
qed

end
