(* ===== verification/Archive_Read.thy ===== *)
theory Archive_Read
  imports Byte_Cursor Text Warnings File_Io
begin

text \<open>
  The static-archive reader: \<open>binscan/archive_read.hpp\<close> and \<open>binscan/archive_read.cpp\<close>. One walk over the
  60-byte member headers resolves names in the GNU and BSD spellings and reads the GNU symbol
  index. \<open>archive_walk\<close> is the state of an \<open>ArchiveReader\<close>: the result with its warnings, the long-name
  table found so far and whether an index was seen. Offsets into the file are natural numbers: the
  file is at most \<open>kMaxBinaryBytes\<close> long, so none of the sums wraps; the numbers read from the file
  stay 64-bit words.
\<close>

section \<open>Format\<close>

definition kArchiveMagic :: string where "kArchiveMagic = ''!<arch>'' @ [CHR 0x0A]"
definition kMemberHeaderSize :: nat where "kMemberHeaderSize = 60"
definition kMemberNameOffset :: nat where "kMemberNameOffset = 0"
definition kMemberNameLength :: nat where "kMemberNameLength = 16"
definition kMemberSizeOffset :: nat where "kMemberSizeOffset = 48"
definition kMemberSizeLength :: nat where "kMemberSizeLength = 10"
definition kMemberTrailerOffset :: nat where "kMemberTrailerOffset = 58"
definition kMemberTrailer :: string where "kMemberTrailer = [CHR 0x60, CHR 0x0A]"
definition kMemberAlignment :: nat where "kMemberAlignment = 2"
definition kGnuSymbolIndexName :: string where "kGnuSymbolIndexName = ''/''"
definition kGnuSymbolIndex64Name :: string where "kGnuSymbolIndex64Name = ''/SYM64/''"
definition kGnuLongNameTableName :: string where "kGnuLongNameTableName = ''//''"
definition kBsdSymbolIndexName :: string where "kBsdSymbolIndexName = ''__.SYMDEF''"
definition kBsdLongNamePrefix :: string where "kBsdLongNamePrefix = ''#1/''"

lemmas archive_format_defs = kArchiveMagic_def kMemberHeaderSize_def kMemberNameOffset_def kMemberNameLength_def
  kMemberSizeOffset_def kMemberSizeLength_def kMemberTrailerOffset_def kMemberTrailer_def kMemberAlignment_def

lemmas archive_name_defs = kGnuSymbolIndexName_def kGnuSymbolIndex64Name_def kGnuLongNameTableName_def
  kBsdSymbolIndexName_def kBsdLongNamePrefix_def

fun parse_decimal_digits :: "string \<Rightarrow> u64 \<Rightarrow> u64 option" where
  "parse_decimal_digits [] v = Some v"
| "parse_decimal_digits (character # rest) v =
     (if character < CHR ''0'' \<or> character > CHR ''9'' then None
      else let digit = word_of_nat (of_char character - of_char CHR ''0'') in
        if v > (- 1 - digit) div 10 then None
        else parse_decimal_digits rest (v * 10 + digit))"

definition parse_decimal_field :: "string \<Rightarrow> u64 option" where
  "parse_decimal_field field =
     (let digits = trimmed_view field in
      if digits = [] then None else parse_decimal_digits digits 0)"

section \<open>Member names\<close>

definition raw_member_name :: "string \<Rightarrow> string" where
  "raw_member_name header = trimmed_view (substr header kMemberNameOffset kMemberNameLength)"

definition is_bookkeeping_member :: "string \<Rightarrow> bool" where
  "is_bookkeeping_member name \<longleftrightarrow> name = kGnuSymbolIndexName \<or> name = kGnuSymbolIndex64Name \<or>
     name = kGnuLongNameTableName \<or> starts_with name kBsdSymbolIndexName"

definition resolve_member_name :: "string \<Rightarrow> string \<Rightarrow> string \<Rightarrow> string option" where
  "resolve_member_name raw_name long_name_table member_data =
     (if raw_name = [] \<or> is_bookkeeping_member raw_name then None
      else if starts_with raw_name kBsdLongNamePrefix then
        (case parse_decimal_field (drop (length kBsdLongNamePrefix) raw_name) of
           None \<Rightarrow> None
         | Some len \<Rightarrow>
             if unat len > length member_data \<or> unat len > kMaxStringLength then None
             else
               let name = take (unat len) member_data;
                   name = (case find_char CHR 0x00 name of None \<Rightarrow> name | Some terminator \<Rightarrow> take terminator name)
               in if name = [] then None else Some name)
      else if hd raw_name = CHR ''/'' then
        (case parse_decimal_field (drop 1 raw_name) of
           None \<Rightarrow> None
         | Some offset \<Rightarrow>
             if unat offset \<ge> length long_name_table then None
             else
               let name = drop (unat offset) long_name_table;
                   name = (case find_pos (\<lambda>c. c \<in> {CHR ''/'', CHR 0x0A}) name of
                     None \<Rightarrow> name | Some terminator \<Rightarrow> take terminator name);
                   name = (if length name > kMaxStringLength then take kMaxStringLength name else name)
               in if name = [] then None else Some name)
      else
        let raw_name = (if last raw_name = CHR ''/'' then butlast raw_name else raw_name)
        in if raw_name = [] then None else Some raw_name)"

section \<open>The walk\<close>

record archive_contents =
  is_archive :: bool
  member_names :: "string list"
  indexed_symbols :: "string list"
  members_truncated :: bool
  ar_symbols_truncated :: bool
  ar_symbols_unavailable :: bool

definition no_archive :: archive_contents where
  "no_archive = \<lparr>is_archive = False, member_names = [], indexed_symbols = [], members_truncated = False,
     ar_symbols_truncated = False, ar_symbols_unavailable = False\<rparr>"

record archive_walk =
  walk_result :: "archive_contents result"
  long_name_table :: string
  saw_symbol_index :: bool

definition update_out :: "(archive_contents \<Rightarrow> archive_contents) \<Rightarrow> archive_walk \<Rightarrow> archive_walk" where
  "update_out f st = st\<lparr>walk_result := (walk_result st)\<lparr>result_value := f (result_value (walk_result st))\<rparr>\<rparr>"

definition archive_warn :: "string \<Rightarrow> string \<Rightarrow> archive_walk \<Rightarrow> archive_walk" where
  "archive_warn label m st = st\<lparr>walk_result := warn kBinaryMalformedHeader (label @ '': '' @ m) [] [] (walk_result st)\<rparr>"

text \<open>The loop over the names of the index: \<open>fuel\<close> counts \<open>symbol_index\<close> down from \<open>capped_count\<close>.\<close>

fun read_symbol_names :: "byte_cursor \<Rightarrow> nat \<Rightarrow> u64 \<Rightarrow> string list \<Rightarrow> string list" where
  "read_symbol_names index 0 name_offset symbols = symbols"
| "read_symbol_names index (Suc fuel) name_offset symbols =
     (case c_string_at index name_offset (word_of_nat kMaxStringLength) of
        None \<Rightarrow> symbols
      | Some name \<Rightarrow> read_symbol_names index fuel (name_offset + word_of_nat (length name) + 1)
          (if name \<noteq> [] then symbols @ [name] else symbols))"

definition read_gnu_symbol_index :: "string \<Rightarrow> bool \<Rightarrow> archive_contents \<Rightarrow> archive_contents" where
  "read_gnu_symbol_index index_data is_64_bit out =
     (let index = \<lparr>cursor_bytes = as_image index_data, cursor_order = Big\<rparr>;
          width = (if is_64_bit then EightBytes else FourBytes)
      in case uint_at index 0 width of
           None \<Rightarrow> out\<lparr>ar_symbols_unavailable := True\<rparr>
         | Some declared_count \<Rightarrow>
             let capped_count = (if declared_count > word_of_nat kMaxSymbolTableEntries then word_of_nat kMaxSymbolTableEntries
                   else declared_count);
                 name_offset = word_of_nat (width_bytes width) + word_of_nat (width_bytes width) * capped_count;
                 out = (if declared_count \<noteq> capped_count then out\<lparr>ar_symbols_truncated := True\<rparr> else out);
                 (symbols, hit) = normalize_and_cap
                   (read_symbol_names index (unat capped_count) name_offset (indexed_symbols out)) kMaxSymbolSample
             in out\<lparr>indexed_symbols := symbols, ar_symbols_truncated := (hit \<or> ar_symbols_truncated out)\<rparr>)"

text \<open>What the loop does with one member whose header and data are in range; the flag says whether the
  walk goes on, \<open>False\<close> is the \<open>break\<close> of a full member list.\<close>

definition read_member :: "string \<Rightarrow> string \<Rightarrow> string \<Rightarrow> nat \<Rightarrow> archive_walk \<Rightarrow> bool \<times> nat \<times> archive_walk" where
  "read_member label raw_name data member_count st =
     (if raw_name = kGnuLongNameTableName then (True, member_count, st\<lparr>long_name_table := data\<rparr>)
      else if raw_name = kGnuSymbolIndexName \<or> raw_name = kGnuSymbolIndex64Name then
        (True, member_count, update_out (read_gnu_symbol_index data (raw_name = kGnuSymbolIndex64Name))
           (st\<lparr>saw_symbol_index := True\<rparr>))
      else if starts_with raw_name kBsdSymbolIndexName then
        (True, member_count, update_out (\<lambda>out. out\<lparr>ar_symbols_unavailable := True\<rparr>) st)
      else if member_count \<ge> kMaxArchiveMembers then
        (False, member_count, update_out (\<lambda>out. out\<lparr>members_truncated := True\<rparr>)
           (archive_warn label (''holds more members than bomwerk lists ('' @ string_of_nat kMaxArchiveMembers @
              ''); the rest were skipped'') st))
      else case resolve_member_name raw_name (long_name_table st) data of
        None \<Rightarrow> (True, member_count, st)
      | Some name \<Rightarrow> (True, member_count + 1, update_out (\<lambda>out. out\<lparr>member_names := member_names out @ [name]\<rparr>) st))"

definition cut_off :: "string \<Rightarrow> string \<Rightarrow> archive_walk \<Rightarrow> archive_walk" where
  "cut_off label m st = update_out (\<lambda>out. out\<lparr>members_truncated := True\<rparr>) (archive_warn label m st)"

function read_members :: "string \<Rightarrow> string \<Rightarrow> nat \<Rightarrow> nat \<Rightarrow> archive_walk \<Rightarrow> archive_walk" where
  "read_members img label offset member_count st =
     (if \<not> offset < length img then st
      else if length img - offset < kMemberHeaderSize then
        cut_off label (''member header at byte '' @ string_of_nat offset @
          '' is cut off by the end of the file; the rest was skipped'') st
      else
        let header = substr img offset kMemberHeaderSize in
        if substr header kMemberTrailerOffset (length kMemberTrailer) \<noteq> kMemberTrailer then
          cut_off label (''member header at byte '' @ string_of_nat offset @ '' is malformed; the rest was skipped'') st
        else case parse_decimal_field (substr header kMemberSizeOffset kMemberSizeLength) of
          None \<Rightarrow> cut_off label (''member at byte '' @ string_of_nat offset @
            '' declares an unreadable size; the rest was skipped'') st
        | Some member_size \<Rightarrow>
            let data_offset = offset + kMemberHeaderSize in
            if unat member_size > length img - data_offset then
              cut_off label (''member at byte '' @ string_of_nat offset @
                '' declares a size running past the end of the file; the rest was skipped'') st
            else case read_member label (raw_member_name header) (substr img data_offset (unat member_size)) member_count st of
              (continue, member_count1, st1) \<Rightarrow>
                let padded_size = unat member_size + unat member_size mod kMemberAlignment in
                if \<not> continue \<or> padded_size > length img - data_offset then st1
                else read_members img label (data_offset + padded_size) member_count1 st1)"
  by pat_completeness auto

termination
  by (relation "measure (\<lambda>(img, label, offset, n, st). length img - offset)") (auto simp: kMemberHeaderSize_def)

declare read_members.simps [simp del]

definition archive_reader_read :: "string \<Rightarrow> string \<Rightarrow> archive_contents result \<Rightarrow> archive_contents result" where
  "archive_reader_read img label r =
     (let st = read_members img label (length kArchiveMagic) 0
            \<lparr>walk_result = r, long_name_table = [], saw_symbol_index = False\<rparr>;
          st = update_out (\<lambda>out. out\<lparr>member_names := fst (normalize_and_cap (member_names out) kMaxArchiveMembers)\<rparr>) st;
          st = (if \<not> saw_symbol_index st then update_out (\<lambda>out. out\<lparr>ar_symbols_unavailable := True\<rparr>) st else st)
      in walk_result st)"

definition read_archive :: "string \<Rightarrow> disk_file \<Rightarrow> archive_contents result" where
  "read_archive path f =
     (let outcome = new_result no_archive; file = read_file_bounded f kMaxBinaryBytes in
      if \<not> readable file then warn kBinaryUnreadable (path @ '': cannot be read; skipped'') [] [] outcome
      else if truncated file then
        warn kBinaryTooLarge (path @ '': larger than '' @ string_of_nat kMaxBinaryBytes @
          '' bytes; refused rather than parsed from a partial image'') [] [] outcome
      else if length (bytes file) < length kArchiveMagic \<or> take (length kArchiveMagic) (bytes file) \<noteq> kArchiveMagic
      then outcome
      else archive_reader_read (bytes file) path
        (outcome\<lparr>result_value := (result_value outcome)\<lparr>is_archive := True\<rparr>\<rparr>))"

section \<open>Lemmas\<close>

subsection \<open>Decimal fields\<close>

definition is_digit :: "char \<Rightarrow> bool" where
  "is_digit c \<longleftrightarrow> CHR ''0'' \<le> c \<and> c \<le> CHR ''9''"

definition digit_value :: "char \<Rightarrow> nat" where
  "digit_value c = of_char c - 48"

fun decimal_from :: "nat \<Rightarrow> string \<Rightarrow> nat" where
  "decimal_from v [] = v"
| "decimal_from v (c # cs) = decimal_from (v * 10 + digit_value c) cs"

lemma is_digit_value: "is_digit c \<longleftrightarrow> 48 \<le> (of_char c :: nat) \<and> (of_char c :: nat) \<le> 57"
  by (simp add: is_digit_def less_eq_char_def)

lemma decimal_from_ge: "v \<le> decimal_from v ds"
proof (induction ds arbitrary: v)
  case (Cons c ds)
  have "v \<le> v * 10 + digit_value c" by simp
  also have "\<dots> \<le> decimal_from (v * 10 + digit_value c) ds" by (rule Cons.IH)
  finally show ?case by simp
qed simp

lemma digit_value_le: "is_digit c \<Longrightarrow> digit_value c \<le> 9"
  unfolding is_digit_value digit_value_def by linarith

lemma unat_digit: "is_digit c \<Longrightarrow> unat (word_of_nat (of_char c - of_char CHR ''0'') :: u64) = digit_value c"
proof -
  assume c: "is_digit c"
  have "of_char c - of_char CHR ''0'' = digit_value c" by (simp add: digit_value_def)
  moreover have "unat (word_of_nat (digit_value c) :: u64) = digit_value c"
    using digit_value_le [OF c] by (simp add: unat_of_nat take_bit_nat_eq_self)
  ultimately show ?thesis by (simp only:)
qed

lemma decimal_overflow:
  fixes v w :: u64
  assumes "unat w \<le> 9"
  shows "v > (- 1 - w) div 10 \<longleftrightarrow> 2 ^ 64 \<le> unat v * 10 + unat w"
    and "\<not> v > (- 1 - w) div 10 \<Longrightarrow> unat (v * 10 + w) = unat v * 10 + unat w"
proof -
  have m: "unat (- 1 :: u64) = 2 ^ 64 - 1"
    by (simp add: unsigned_minus_1_eq_mask mask_eq_exp_minus_1)
  have "w \<le> - 1" by simp
  then have "unat (- 1 - w) = 2 ^ 64 - 1 - unat w" by (simp add: unat_sub m)
  then have d: "unat ((- 1 - w) div 10) = (2 ^ 64 - 1 - unat w) div 10" by (simp add: unat_div)
  have "v > (- 1 - w) div 10 \<longleftrightarrow> (2 ^ 64 - 1 - unat w) div 10 < unat v" by (simp only: word_less_nat_alt d)
  also have "\<dots> \<longleftrightarrow> 2 ^ 64 \<le> unat v * 10 + unat w" using assms by (simp add: div_less_iff_less_mult; linarith)
  finally show i: "v > (- 1 - w) div 10 \<longleftrightarrow> 2 ^ 64 \<le> unat v * 10 + unat w" .
  assume "\<not> v > (- 1 - w) div 10"
  with i have l: "unat v * 10 + unat w < 2 ^ 64" by simp
  have "unat (v * 10) = unat v * 10" using l unat_mult_lem [of v 10] by simp
  moreover from this have "unat (v * 10 + w) = unat (v * 10) + unat w" using l unat_add_lem [of "v * 10" w] by simp
  ultimately show "unat (v * 10 + w) = unat v * 10 + unat w" by simp
qed

lemma parse_decimal_digits_eq:
  "map_option unat (parse_decimal_digits ds v) =
    (if list_all is_digit ds \<and> decimal_from (unat v) ds < 2 ^ 64 then Some (decimal_from (unat v) ds) else None)"
proof (induction ds arbitrary: v)
  case Nil
  then show ?case using unsigned_less [of v, where ?'a = nat] by simp
next
  case (Cons c ds)
  show ?case
  proof (cases "is_digit c")
    case True
    let ?w = "word_of_nat (of_char c - of_char CHR ''0'') :: u64"
    have w: "unat ?w = digit_value c" by (rule unat_digit [OF True])
    have w9: "unat ?w \<le> 9" using digit_value_le [OF True] by (simp only: w)
    have step: "parse_decimal_digits (c # ds) v = (if v > (- 1 - ?w) div 10 then None else parse_decimal_digits ds (v * 10 + ?w))"
    proof -
      have "\<not> (c < CHR ''0'' \<or> c > CHR ''9'')" using True by (auto simp: is_digit_def)
      then show ?thesis by (simp only: parse_decimal_digits.simps Let_def if_False)
    qed
    show ?thesis
    proof (cases "v > (- 1 - ?w) div 10")
      case gt: True
      then have "2 ^ 64 \<le> unat v * 10 + digit_value c" using decimal_overflow(1) [OF w9] w by simp
      also have "\<dots> \<le> decimal_from (unat v) (c # ds)" using decimal_from_ge [of "unat v * 10 + digit_value c" ds] by simp
      finally show ?thesis using step gt by simp
    next
      case False
      then have "unat (v * 10 + ?w) = unat v * 10 + digit_value c" using decimal_overflow(2) [OF w9 False] w by simp
      then show ?thesis using step False Cons.IH [of "v * 10 + ?w"] True by simp
    qed
  next
    case False
    then have "c < CHR ''0'' \<or> c > CHR ''9''" by (auto simp: is_digit_def)
    then have "parse_decimal_digits (c # ds) v = None" by (simp only: parse_decimal_digits.simps if_True)
    with False show ?thesis by simp
  qed
qed

lemma digit_char_value: "n < 10 \<Longrightarrow> is_digit (digit_char n) \<and> digit_value (digit_char n) = n"
  by (simp add: digit_char_def is_digit_value digit_value_def)

lemma decimal_from_append: "decimal_from v (s @ t) = decimal_from (decimal_from v s) t"
  by (induction s arbitrary: v) simp_all

lemma string_of_nat_digits: "list_all is_digit (string_of_nat n) \<and> decimal_from 0 (string_of_nat n) = n \<and> string_of_nat n \<noteq> []"
proof (induction n rule: string_of_nat.induct)
  case (1 n)
  show ?case
  proof (cases "n < 10")
    case True
    then show ?thesis using digit_char_value [of n] by (simp add: string_of_nat.simps [of n])
  next
    case False
    then show ?thesis using 1 digit_char_value [of "n mod 10"]
      by (simp add: string_of_nat.simps [of n] decimal_from_append)
  qed
qed

lemma digit_not_space: "is_digit c \<Longrightarrow> \<not> is_space c"
  by (auto simp: is_digit_value kAsciiWhitespace_def)

lemma trimmed_digits:
  assumes "list_all is_digit ds" "ds \<noteq> []" "\<forall>c \<in> set pad. is_space c"
  shows "trimmed_view (ds @ pad) = ds"
proof -
  have "\<not> is_space (hd ds)" "\<not> is_space (last ds)"
    using assms(1,2) digit_not_space by (auto simp: list_all_iff hd_in_set last_in_set)
  with trimmed_view_core [of "[]" pad ds] assms(2,3) show ?thesis by simp
qed

lemma parse_decimal_string_of_nat:
  assumes "n < 2 ^ 64" "\<forall>c \<in> set pad. is_space c"
  shows "parse_decimal_field (string_of_nat n @ pad) = Some (word_of_nat n)"
proof -
  note d = string_of_nat_digits [of n]
  have "trimmed_view (string_of_nat n @ pad) = string_of_nat n" using d assms(2) by (intro trimmed_digits) auto
  moreover have "map_option unat (parse_decimal_digits (string_of_nat n) 0) = Some n"
    using d assms(1) by (simp add: parse_decimal_digits_eq)
  then obtain w where "parse_decimal_digits (string_of_nat n) 0 = Some w" "unat w = n" by auto
  moreover from this have "w = word_of_nat n" by auto
  ultimately show ?thesis using d by (simp add: parse_decimal_field_def)
qed

subsection \<open>Names\<close>

definition name_ok :: "string \<Rightarrow> bool" where
  "name_ok n \<longleftrightarrow> n \<noteq> [] \<and> length n \<le> kMaxStringLength"

lemma resolve_member_name_ok:
  "resolve_member_name raw tbl data = Some n \<Longrightarrow> length raw \<le> 16 \<Longrightarrow> name_ok n"
  by (auto simp: resolve_member_name_def Let_def name_ok_def kMaxStringLength_def
      split: if_splits option.splits)

lemma length_raw_member_name: "length (raw_member_name h) \<le> 16"
  using length_trimmed_view [of "substr h kMemberNameOffset kMemberNameLength"]
  by (simp add: raw_member_name_def kMemberNameLength_def)

subsection \<open>The symbol index\<close>

lemma read_symbol_names_ok:
  assumes "image_ok index"
  shows "list_all (\<lambda>s. s \<noteq> [] \<and> CHR 0x00 \<notin> set s \<and> length s < kMaxStringLength) syms \<Longrightarrow>
    list_all (\<lambda>s. s \<noteq> [] \<and> CHR 0x00 \<notin> set s \<and> length s < kMaxStringLength) (read_symbol_names index fuel p syms)"
proof (induction fuel arbitrary: p syms)
  case (Suc fuel)
  show ?case
  proof (cases "c_string_at index p (word_of_nat kMaxStringLength)")
    case (Some n)
    have "unat (word_of_nat kMaxStringLength :: u64) = kMaxStringLength" by (simp add: kMaxStringLength_def)
    with c_string_at_SomeD [OF assms Some] have "CHR 0x00 \<notin> set n" "length n < kMaxStringLength" by simp_all
    with Suc Some show ?thesis by auto
  qed (use Suc in simp)
qed simp

definition symbols_ok :: "string list \<Rightarrow> bool" where
  "symbols_ok syms \<longleftrightarrow> sorted_wrt (<) syms \<and> length syms \<le> kMaxSymbolSample \<and>
     list_all (\<lambda>s. s \<noteq> [] \<and> CHR 0x00 \<notin> set s \<and> length s < kMaxStringLength) syms"

lemma symbols_ok_Nil [simp]: "symbols_ok []"
  by (simp add: symbols_ok_def)

lemma symbols_ok_normalize:
  "list_all (\<lambda>s. s \<noteq> [] \<and> CHR 0x00 \<notin> set s \<and> length s < kMaxStringLength) syms \<Longrightarrow>
   symbols_ok (fst (normalize_and_cap syms kMaxSymbolSample))"
proof -
  assume s: "list_all (\<lambda>s. s \<noteq> [] \<and> CHR 0x00 \<notin> set s \<and> length s < kMaxStringLength) syms"
  obtain out hit where n: "normalize_and_cap syms kMaxSymbolSample = (out, hit)" by fastforce
  from normalize_and_cap_props(1-3) [OF n] s n show ?thesis by (auto simp: symbols_ok_def list_all_iff)
qed

lemma read_gnu_symbol_index_ok:
  assumes "length data < 2 ^ 64" "symbols_ok (indexed_symbols out)"
  shows "symbols_ok (indexed_symbols (read_gnu_symbol_index data b out))"
    "member_names (read_gnu_symbol_index data b out) = member_names out"
    "members_truncated (read_gnu_symbol_index data b out) = members_truncated out"
    "is_archive (read_gnu_symbol_index data b out) = is_archive out"
proof -
  let ?index = "\<lparr>cursor_bytes = as_image data, cursor_order = Big\<rparr>"
  have ok: "image_ok ?index" using assms(1) by (simp add: image_ok_def as_image_def)
  note s = symbols_ok_normalize [OF read_symbol_names_ok [OF ok]]
  from assms(2) have a: "list_all (\<lambda>s. s \<noteq> [] \<and> CHR 0x00 \<notin> set s \<and> length s < kMaxStringLength) (indexed_symbols out)"
    by (simp add: symbols_ok_def)
  show "symbols_ok (indexed_symbols (read_gnu_symbol_index data b out))"
    using s [OF a] assms(2) by (auto simp: read_gnu_symbol_index_def Let_def split: option.split prod.split) (metis fst_conv)+
qed (auto simp: read_gnu_symbol_index_def Let_def split: option.split prod.split)

subsection \<open>The walk\<close>

lemma update_out_fields [simp]:
  "result_value (walk_result (update_out f st)) = f (result_value (walk_result st))"
  "result_warnings (walk_result (update_out f st)) = result_warnings (walk_result st)"
  "complete (walk_result (update_out f st)) = complete (walk_result st)"
  "long_name_table (update_out f st) = long_name_table st"
  "saw_symbol_index (update_out f st) = saw_symbol_index st"
  by (simp_all add: update_out_def)

lemma archive_warn_fields [simp]:
  "result_value (walk_result (archive_warn label m st)) = result_value (walk_result st)"
  "length (result_warnings (walk_result (archive_warn label m st))) = Suc (length (result_warnings (walk_result st)))"
  "complete (walk_result (archive_warn label m st)) = complete (walk_result st)"
  "saw_symbol_index (archive_warn label m st) = saw_symbol_index st"
  by (simp_all add: archive_warn_def warn_def)

text \<open>While the walk runs nothing has been reported; when it ends, it has either read to the end in
  silence or reported once and said that it stopped early.\<close>

definition walk_inv :: "nat \<Rightarrow> archive_walk \<Rightarrow> bool" where
  "walk_inv n st \<longleftrightarrow>
     (let r = walk_result st; out = result_value r in
      result_warnings r = [] \<and> complete r \<and> is_archive out \<and> \<not> members_truncated out \<and> length (member_names out) = n \<and>
      n \<le> kMaxArchiveMembers \<and> list_all name_ok (member_names out) \<and> symbols_ok (indexed_symbols out))"

definition walk_end :: "archive_walk \<Rightarrow> bool" where
  "walk_end st \<longleftrightarrow>
     (let r = walk_result st; out = result_value r in
      length (result_warnings r) = (if members_truncated out then 1 else 0) \<and> complete r \<and> is_archive out \<and>
      length (member_names out) \<le> kMaxArchiveMembers \<and> list_all name_ok (member_names out) \<and> symbols_ok (indexed_symbols out))"

lemma walk_inv_end: "walk_inv n st \<Longrightarrow> walk_end st"
  by (simp add: walk_inv_def walk_end_def Let_def)

lemma walk_end_cut_off: "walk_inv n st \<Longrightarrow> walk_end (cut_off label m st)"
  by (simp add: walk_inv_def walk_end_def Let_def cut_off_def)

lemma read_member_inv:
  assumes "walk_inv n st" "length data < 2 ^ 64" "length raw \<le> 16" "read_member label raw data n st = (go, n', st')"
  shows "if go then walk_inv n' st' else walk_end st'"
proof -
  consider (table) "raw = kGnuLongNameTableName"
    | (index) "raw \<noteq> kGnuLongNameTableName" "raw = kGnuSymbolIndexName \<or> raw = kGnuSymbolIndex64Name"
    | (bsd) "raw \<noteq> kGnuLongNameTableName" "\<not> (raw = kGnuSymbolIndexName \<or> raw = kGnuSymbolIndex64Name)"
        "starts_with raw kBsdSymbolIndexName"
    | (member) "raw \<noteq> kGnuLongNameTableName" "\<not> (raw = kGnuSymbolIndexName \<or> raw = kGnuSymbolIndex64Name)"
        "\<not> starts_with raw kBsdSymbolIndexName" by blast
  then show ?thesis
  proof cases
    case table
    with assms show ?thesis by (auto simp: read_member_def walk_inv_def)
  next
    case index
    then have "(go, n', st') = (True, n, update_out (read_gnu_symbol_index data (raw = kGnuSymbolIndex64Name)) (st\<lparr>saw_symbol_index := True\<rparr>))"
      using assms(4) unfolding read_member_def by (simp only: if_True if_False)
    with assms read_gnu_symbol_index_ok [OF assms(2), of "result_value (walk_result st)"] show ?thesis
      by (auto simp: walk_inv_def Let_def)
  next
    case bsd
    with assms show ?thesis by (auto simp: read_member_def walk_inv_def Let_def)
  next
    case member
    show ?thesis
    proof (cases "n \<ge> kMaxArchiveMembers")
      case True
      with member assms show ?thesis by (auto simp: read_member_def walk_inv_def walk_end_def Let_def)
    next
      case False
      with member assms resolve_member_name_ok [of raw "long_name_table st" data] show ?thesis
        by (auto simp: read_member_def walk_inv_def Let_def split: option.splits)
    qed
  qed
qed

lemma read_members_end:
  "walk_inv n st \<Longrightarrow> length img < 2 ^ 64 \<Longrightarrow> walk_end (read_members img label offset n st)"
proof (induction img label offset n st rule: read_members.induct)
  case (1 img label offset n st)
  let ?h = "substr img offset kMemberHeaderSize" and ?o = "offset + kMemberHeaderSize"
  show ?case
  proof (cases "\<not> offset < length img \<or> length img - offset < kMemberHeaderSize \<or>
      substr ?h kMemberTrailerOffset (length kMemberTrailer) \<noteq> kMemberTrailer \<or>
      parse_decimal_field (substr ?h kMemberSizeOffset kMemberSizeLength) = None")
    case True
    then show ?thesis using "1.prems"
      by (subst read_members.simps) (auto simp: Let_def walk_inv_end walk_end_cut_off)
  next
    case False
    then obtain sz where sz: "parse_decimal_field (substr ?h kMemberSizeOffset kMemberSizeLength) = Some sz" by auto
    obtain go n' st' where m: "read_member label (raw_member_name ?h) (substr img ?o (unat sz)) n st = (go, n', st')"
      by (metis prod_cases3)
    have l: "length (substr img ?o (unat sz)) < 2 ^ 64" using "1.prems"(2) by simp
    from read_member_inv [OF "1.prems"(1) l length_raw_member_name m]
    have inv: "if go then walk_inv n' st' else walk_end st'" .
    show ?thesis
    proof (cases "unat sz > length img - ?o")
      case True
      with False sz "1.prems" show ?thesis by (subst read_members.simps) (simp add: Let_def walk_end_cut_off)
    next
      case fits: False
      let ?p = "unat sz + unat sz mod kMemberAlignment"
      show ?thesis
      proof (cases "\<not> go \<or> ?p > length img - ?o")
        case True
        with False fits sz m inv show ?thesis
          by (subst read_members.simps) (auto simp: Let_def walk_inv_end split: if_splits)
      next
        case cont: False
        have "read_members img label offset n st = read_members img label (?o + ?p) n' st'"
          using False fits sz m cont by (subst read_members.simps) (simp add: Let_def)
        moreover have "walk_end (read_members img label (?o + ?p) n' st')"
          using "1.IH" [OF _ _ refl _ sz refl _ m [symmetric] refl refl] False fits cont inv "1.prems"(2) by auto
        ultimately show ?thesis by simp
      qed
    qed
  qed
qed

lemma archive_reader_read_end:
  assumes "length img < 2 ^ 64" "result_warnings r = []" "complete r"
    "result_value r = no_archive\<lparr>is_archive := True\<rparr>" "archive_reader_read img label r = r'"
  shows "length (result_warnings r') = (if members_truncated (result_value r') then 1 else 0) \<and> complete r' \<and>
    is_archive (result_value r') \<and> sorted_wrt (<) (member_names (result_value r')) \<and>
    length (member_names (result_value r')) \<le> kMaxArchiveMembers \<and>
    list_all name_ok (member_names (result_value r')) \<and> symbols_ok (indexed_symbols (result_value r'))"
proof -
  let ?st = "\<lparr>walk_result = r, long_name_table = [], saw_symbol_index = False\<rparr>"
  have "walk_inv 0 ?st" using assms(2-4) by (simp add: walk_inv_def no_archive_def)
  from read_members_end [OF this assms(1), of label "length kArchiveMagic"]
  have e: "walk_end (read_members img label (length kArchiveMagic) 0 ?st)" .
  define st where "st = read_members img label (length kArchiveMagic) 0 ?st"
  let ?out = "result_value (walk_result st)"
  obtain names hit where n: "normalize_and_cap (member_names ?out) kMaxArchiveMembers = (names, hit)" by fastforce
  have r': "member_names (result_value r') = names" "indexed_symbols (result_value r') = indexed_symbols ?out"
    "members_truncated (result_value r') = members_truncated ?out" "is_archive (result_value r') = is_archive ?out"
    "result_warnings r' = result_warnings (walk_result st)" "complete r' = complete (walk_result st)"
    using n by (simp_all add: assms(5) [symmetric] archive_reader_read_def Let_def st_def)
  from e have "list_all name_ok (member_names ?out)" by (simp add: walk_end_def Let_def st_def)
  with normalize_and_cap_props(2) [OF n] have "list_all name_ok names" by (auto simp: list_all_iff)
  with normalize_and_cap_props(1,3) [OF n] e show ?thesis
    by (simp add: r' walk_end_def Let_def flip: st_def)
qed

section \<open>Writing an archive\<close>

text \<open>The reference writer: plain GNU short names, as \<open>ar\<close> lays members out.\<close>

definition pad_to :: "nat \<Rightarrow> string \<Rightarrow> string" where
  "pad_to n s = s @ replicate (n - length s) CHR '' ''"

definition member_header :: "string \<Rightarrow> nat \<Rightarrow> string" where
  "member_header name sz = pad_to 16 (name @ ''/'') @ replicate 32 CHR ''0'' @ pad_to 10 (string_of_nat sz) @ kMemberTrailer"

definition build_member :: "string \<times> string \<Rightarrow> string" where
  "build_member m = member_header (fst m) (length (snd m)) @ snd m @ (if odd (length (snd m)) then [CHR 0x0A] else [])"

definition build_archive :: "(string \<times> string) list \<Rightarrow> string" where
  "build_archive ms = kArchiveMagic @ concat (map build_member ms)"

definition plain_member :: "string \<times> string \<Rightarrow> bool" where
  "plain_member m \<longleftrightarrow> fst m \<noteq> [] \<and> length (fst m) \<le> 15 \<and> CHR ''/'' \<notin> set (fst m) \<and> \<not> is_space (hd (fst m)) \<and>
     \<not> starts_with (fst m) ''__.SYMDEF'' \<and> fst m \<noteq> ''#1'' \<and> length (string_of_nat (length (snd m))) \<le> 10 \<and>
     length (snd m) < 2 ^ 64"

lemma length_pad_to [simp]: "length s \<le> n \<Longrightarrow> length (pad_to n s) = n"
  by (simp add: pad_to_def)

lemma length_member_header:
  "plain_member (name, data) \<Longrightarrow> length (member_header name (length data)) = 60"
  by (simp add: member_header_def plain_member_def kMemberTrailer_def)

lemma member_header_parts:
  assumes "plain_member (name, data)"
  shows "raw_member_name (member_header name (length data)) = name @ ''/''"
    and "substr (member_header name (length data)) kMemberTrailerOffset (length kMemberTrailer) = kMemberTrailer"
    and "parse_decimal_field (substr (member_header name (length data)) kMemberSizeOffset kMemberSizeLength) =
      Some (word_of_nat (length data))"
proof -
  let ?h = "member_header name (length data)"
  from assms have l: "length (pad_to 16 (name @ ''/'')) = 16" "length (pad_to 10 (string_of_nat (length data))) = 10"
    by (simp_all add: plain_member_def)
  have "substr ?h kMemberNameOffset kMemberNameLength = pad_to 16 (name @ ''/'')"
    using l by (simp add: member_header_def archive_format_defs)
  also have "trimmed_view \<dots> = name @ ''/''"
    using assms trimmed_view_core [of "[]" "replicate (16 - length (name @ ''/'')) CHR '' ''" "name @ ''/''"]
    by (simp add: pad_to_def plain_member_def kAsciiWhitespace_def)
  finally show "raw_member_name ?h = name @ ''/''" by (simp add: raw_member_name_def)
  show "substr ?h kMemberTrailerOffset (length kMemberTrailer) = kMemberTrailer"
    using l by (simp add: member_header_def archive_format_defs substr_def)
  have "substr ?h kMemberSizeOffset kMemberSizeLength = pad_to 10 (string_of_nat (length data))"
    using l by (simp add: member_header_def archive_format_defs substr_def)
  then show "parse_decimal_field (substr ?h kMemberSizeOffset kMemberSizeLength) = Some (word_of_nat (length data))"
    using assms by (simp add: pad_to_def plain_member_def parse_decimal_string_of_nat kAsciiWhitespace_def)
qed

lemma starts_with_append_char:
  "c \<notin> set p \<Longrightarrow> starts_with (s @ [c]) p \<longleftrightarrow> starts_with s p"
proof (induction s arbitrary: p)
  case Nil
  then show ?case by (cases p) auto
next
  case (Cons x s)
  then show ?case by (cases p) auto
qed

lemma read_member_plain:
  assumes "plain_member (name, data)" "n < kMaxArchiveMembers"
  shows "read_member label (name @ ''/'') d n st =
    (True, n + 1, update_out (\<lambda>out. out\<lparr>member_names := member_names out @ [name]\<rparr>) st)"
proof -
  from assms(1) have n: "name \<noteq> []" "CHR ''/'' \<notin> set name" "\<not> starts_with name ''__.SYMDEF''" "name \<noteq> ''#1''"
    by (auto simp: plain_member_def)
  obtain c cs where c: "name = c # cs" using n(1) by (cases name) auto
  have k: "name @ ''/'' \<noteq> kGnuLongNameTableName" "name @ ''/'' \<noteq> kGnuSymbolIndexName" "name @ ''/'' \<noteq> kGnuSymbolIndex64Name"
    "\<not> starts_with (name @ ''/'') kBsdSymbolIndexName"
    using n c starts_with_append_char [of "CHR ''/''" kBsdSymbolIndexName name] by (auto simp: archive_name_defs)
  have b: "\<not> starts_with (name @ ''/'') kBsdLongNamePrefix"
  proof
    assume "starts_with (name @ ''/'') kBsdLongNamePrefix"
    then show False using n c by (cases cs; cases "tl cs") (auto simp: kBsdLongNamePrefix_def)
  qed
  have "resolve_member_name (name @ ''/'') (long_name_table st) d = Some name"
    using k b c n by (auto simp: resolve_member_name_def is_bookkeeping_member_def Let_def)
  then show ?thesis using k assms(2) by (simp add: read_member_def)
qed

lemma read_members_build:
  "list_all plain_member ms \<Longrightarrow> n + length ms \<le> kMaxArchiveMembers \<Longrightarrow>
   read_members (pre @ concat (map build_member ms)) label (length pre) n st =
     (if ms = [] then st else update_out (\<lambda>out. out\<lparr>member_names := member_names out @ map fst ms\<rparr>) st)"
proof (induction ms arbitrary: pre n st)
  case Nil
  then show ?case by (simp add: read_members.simps)
next
  case (Cons m ms)
  obtain name data where m: "m = (name, data)" by (cases m)
  with Cons.prems have p: "plain_member (name, data)" and n: "n < kMaxArchiveMembers" by auto
  let ?h = "member_header name (length data)" and ?pad = "if odd (length data) then [CHR 0x0A] else []"
  let ?rest = "concat (map build_member ms)"
  let ?img = "pre @ ?h @ data @ ?pad @ ?rest" and ?pre = "pre @ ?h @ data @ ?pad"
  let ?st = "update_out (\<lambda>out. out\<lparr>member_names := member_names out @ [name]\<rparr>) st"
  note hl = length_member_header [OF p]
  have sz: "unat (word_of_nat (length data) :: u64) = length data"
    using p by (simp add: plain_member_def unat_of_nat take_bit_nat_eq_self)
  define img where "img = ?img"
  let ?next = "length pre + kMemberHeaderSize + (length data + length data mod kMemberAlignment)"
  have pieces: "substr img (length pre) kMemberHeaderSize = ?h" "substr img (length pre + kMemberHeaderSize) (length data) = data"
    "?next = length ?pre" "length data \<le> length img - (length pre + kMemberHeaderSize)"
    "length data + length data mod kMemberAlignment \<le> length img - (length pre + kMemberHeaderSize)"
    "length pre < length img" "kMemberHeaderSize \<le> length img - length pre"
    using hl by (auto simp: img_def substr_def kMemberHeaderSize_def kMemberAlignment_def odd_iff_mod_2_eq_one)
  have "read_members img label (length pre) n st = read_members img label ?next (n + 1) ?st"
    using pieces(1,2,4-7) member_header_parts [OF p] read_member_plain [OF p n]
    by (subst read_members.simps) (simp add: Let_def sz not_less)
  also have "\<dots> = read_members (?pre @ ?rest) label (length ?pre) (n + 1) ?st"
    unfolding pieces(3) by (simp add: img_def)
  also have "\<dots> = (if ms = [] then ?st else update_out (\<lambda>out. out\<lparr>member_names := member_names out @ map fst ms\<rparr>) ?st)"
    using Cons.IH [of "n + 1" ?pre ?st] Cons.prems by simp
  finally have "read_members img label (length pre) n st = \<dots>" .
  moreover have "pre @ concat (map build_member (m # ms)) = img" by (simp add: img_def m build_member_def)
  ultimately show ?case by (simp add: m update_out_def)
qed

section \<open>Properties\<close>

text \<open>A decimal field is read exactly, with no wrap-around: it has a value just when it is a non-empty
  run of digits between spaces whose number fits 64 bits, and then that number; everything else,
  a size no archive could honestly carry included, is refused.\<close>

theorem parse_decimal_field_exact:
  "map_option unat (parse_decimal_field field) =
    (let ds = trimmed_view field in
     if ds \<noteq> [] \<and> list_all is_digit ds \<and> decimal_from 0 ds < 2 ^ 64 then Some (decimal_from 0 ds) else None)"
  using parse_decimal_digits_eq [of "trimmed_view field" 0]
  by (cases "parse_decimal_digits (trimmed_view field) 0") (auto simp: parse_decimal_field_def Let_def split: if_splits)

text \<open>C5: Whatever bytes the file holds, an archive is read to an ordered and bounded result: member names and
  symbols are strictly ascending and within their caps, no name is empty or longer than the cap, no
  symbol holds a zero byte; at most one warning is raised, and for an archive it is raised exactly
  when the walk stopped early.\<close>

theorem read_archive_wellformed:
  "(let r = read_archive path f; out = result_value r in
    complete r \<and> length (result_warnings r) \<le> 1 \<and>
    members_truncated out = (is_archive out \<and> result_warnings r \<noteq> []) \<and>
    sorted_wrt (<) (member_names out) \<and> length (member_names out) \<le> kMaxArchiveMembers \<and>
    list_all (\<lambda>n. n \<noteq> [] \<and> length n \<le> kMaxStringLength) (member_names out) \<and>
    sorted_wrt (<) (indexed_symbols out) \<and> length (indexed_symbols out) \<le> kMaxSymbolSample \<and>
    list_all (\<lambda>s. s \<noteq> [] \<and> CHR 0x00 \<notin> set s \<and> length s < kMaxStringLength) (indexed_symbols out))"
proof -
  let ?file = "read_file_bounded f kMaxBinaryBytes"
  let ?start = "(new_result no_archive)\<lparr>result_value := (result_value (new_result no_archive))\<lparr>is_archive := True\<rparr>\<rparr>"
  have "length (bytes ?file) \<le> kMaxBinaryBytes"
    by (auto simp: read_file_bounded_def Let_def split: option.split)
  then have l: "length (bytes ?file) < 2 ^ 64" by (simp add: kMaxBinaryBytes_def)
  have s: "result_warnings ?start = []" "complete ?start" "result_value ?start = no_archive\<lparr>is_archive := True\<rparr>"
    by (simp_all add: new_result_def)
  have "read_archive path f = new_result no_archive \<or> (\<exists>c m. read_archive path f = warn c m [] [] (new_result no_archive)) \<or>
      read_archive path f = archive_reader_read (bytes ?file) path ?start"
    unfolding read_archive_def Let_def by (simp only: split: if_split) blast
  then consider (nothing) "read_archive path f = new_result no_archive"
    | (warned) c m where "read_archive path f = warn c m [] [] (new_result no_archive)"
    | (archive) "read_archive path f = archive_reader_read (bytes ?file) path ?start"
    by blast
  then show ?thesis
  proof cases
    case nothing
    then show ?thesis by (simp add: Let_def new_result_def no_archive_def)
  next
    case warned
    then show ?thesis by (simp add: Let_def new_result_def no_archive_def warn_def)
  next
    case archive
    from archive_reader_read_end [OF l s refl, of path] show ?thesis
      by (auto simp: Let_def archive symbols_ok_def name_ok_def list_all_iff)
  qed
qed

text \<open>Reading inverts writing: an archive of members with plain GNU short names, as the archiver lays it
  out, is read back to exactly the set of its names, in order, complete and without a warning.\<close>

theorem read_archive_roundtrip:
  assumes "list_all plain_member ms" "length ms \<le> kMaxArchiveMembers" "bytes (read_file_bounded f kMaxBinaryBytes) = build_archive ms"
    and "readable (read_file_bounded f kMaxBinaryBytes)" "\<not> truncated (read_file_bounded f kMaxBinaryBytes)"
  shows "member_names (result_value (read_archive path f)) = sorted_list_of_set (fst ` set ms) \<and>
    result_warnings (read_archive path f) = [] \<and> \<not> members_truncated (result_value (read_archive path f))"
proof -
  let ?r = "(new_result no_archive)\<lparr>result_value := (result_value (new_result no_archive))\<lparr>is_archive := True\<rparr>\<rparr>"
  let ?st = "\<lparr>walk_result = ?r, long_name_table = [], saw_symbol_index = False\<rparr>"
  have m: "length kArchiveMagic = 8" by (simp add: kArchiveMagic_def)
  have "read_archive path f = archive_reader_read (build_archive ms) path ?r"
    using assms(3-5) by (simp add: read_archive_def Let_def build_archive_def m)
  moreover have "read_members (build_archive ms) path (length kArchiveMagic) 0 ?st =
      (if ms = [] then ?st else update_out (\<lambda>out. out\<lparr>member_names := member_names out @ map fst ms\<rparr>) ?st)"
    using read_members_build [OF assms(1), of 0 kArchiveMagic path ?st] assms(2) by (simp add: build_archive_def)
  moreover have "card (fst ` set ms) \<le> kMaxArchiveMembers"
    using card_image_le [of "set ms" fst] card_length [of ms] assms(2) by simp
  moreover have "take kMaxArchiveMembers (sorted_list_of_set (fst ` set ms)) = sorted_list_of_set (fst ` set ms)"
    if "card (fst ` set ms) \<le> kMaxArchiveMembers"
    using that by simp
  ultimately show ?thesis
    by (simp add: archive_reader_read_def Let_def normalize_and_cap_eq new_result_def no_archive_def update_out_def)
qed

theorem read_archive_roundtrip_witness:
  "member_names (result_value (read_archive ''lib.a''
     \<lparr>declared_size = None, opens = True, content = build_archive [(''b.o'', ''xyz''), (''a.o'', [])], fails = False\<rparr>)) =
   [''a.o'', ''b.o'']"
proof -
  let ?ms = "[(''b.o'', ''xyz''), (''a.o'', [])]"
  let ?f = "\<lparr>declared_size = None, opens = True, content = build_archive ?ms, fails = False\<rparr>"
  have p: "list_all plain_member ?ms"
    by (simp add: plain_member_def kAsciiWhitespace_def string_of_nat.simps)
  have "length (build_archive ?ms) = 132"
    using length_member_header [of "''b.o''" "''xyz''"] length_member_header [of "''a.o''" "[]"] p
    by (simp add: build_archive_def build_member_def kArchiveMagic_def)
  then have b: "read_file_bounded ?f kMaxBinaryBytes = \<lparr>bytes = build_archive ?ms, readable = True, truncated = False\<rparr>"
    by (simp add: read_file_bounded_def kMaxBinaryBytes_def)
  have "sorted_list_of_set {''b.o'', ''a.o''} = [''a.o'', ''b.o'']"
    by (simp add: sorted_list_of_set_insert_remove less_char_def)
  then show ?thesis
    using read_archive_roundtrip [OF p, of ?f "''lib.a''"] b by (simp add: kMaxArchiveMembers_def)
qed

text \<open>The symbol index of a BSD archive is not always recognised as bookkeeping: \<open>ranlib\<close> spells its name
  the long way (\<open>#1/20\<close> with the name in the data), and then \<open>__.SYMDEF SORTED\<close> is listed as one of the
  objects, although the same name spelled the short way is excluded.\<close>

theorem bsd_symdef_listed_as_member:
  "resolve_member_name ''#1/20'' tbl (''__.SYMDEF SORTED'' @ [CHR 0x00, CHR 0x00, CHR 0x00, CHR 0x00] @ rest) = Some ''__.SYMDEF SORTED'' \<and>
   resolve_member_name ''__.SYMDEF SORTED'' tbl data = None"
proof -
  have "parse_decimal_field ''20'' = Some 20"
    by code_simp
  then show ?thesis
    by (simp add: resolve_member_name_def is_bookkeeping_member_def archive_name_defs Let_def kMaxStringLength_def)
qed

end
