(* ===== verification/Elf_Read.thy ===== *)
theory Elf_Read
  imports Byte_Cursor Warnings File_Io
begin

text \<open>
  The ELF reader: \<open>binscan/elf_read.hpp\<close> and \<open>binscan/elf_read.cpp\<close>. \<open>elf_reader\<close> is the state of an
  \<open>ElfReader\<close>; the result, which the class holds by reference, is passed through the operations that warn.
  The loops over section headers, segment headers, dynamic entries and symbols are recursions over the list of
  their indices. Everything read from the file is a 64-bit word; the theorems say that no sum of them is used
  after it wrapped.
\<close>

section \<open>Format\<close>

definition kIdentSize :: nat where "kIdentSize = 16"
definition kMagic :: "u64 list" where "kMagic = [0x7F, 0x45, 0x4C, 0x46]"
definition kIdentClassOffset :: u64 where "kIdentClassOffset = 4"
definition kIdentDataOffset :: u64 where "kIdentDataOffset = 5"
definition kClass32 :: u64 where "kClass32 = 1"
definition kClass64 :: u64 where "kClass64 = 2"
definition kDataLittleEndian :: u64 where "kDataLittleEndian = 1"
definition kDataBigEndian :: u64 where "kDataBigEndian = 2"
definition kTypeRelocatable :: u64 where "kTypeRelocatable = 1"
definition kSegmentTypeLoad :: u64 where "kSegmentTypeLoad = 1"
definition kSegmentTypeDynamic :: u64 where "kSegmentTypeDynamic = 2"
definition kSectionTypeStringTable :: u64 where "kSectionTypeStringTable = 3"
definition kSectionTypeDynamic :: u64 where "kSectionTypeDynamic = 6"
definition kSectionTypeDynamicSymbols :: u64 where "kSectionTypeDynamicSymbols = 11"
definition kDynamicTagNull :: u64 where "kDynamicTagNull = 0"
definition kDynamicTagNeeded :: u64 where "kDynamicTagNeeded = 1"
definition kDynamicTagStringTable :: u64 where "kDynamicTagStringTable = 5"
definition kDynamicTagStringTableSize :: u64 where "kDynamicTagStringTableSize = 10"
definition kDynamicTagSoname :: u64 where "kDynamicTagSoname = 14"
definition kSectionIndexUndefined :: u64 where "kSectionIndexUndefined = 0"
definition kSymbolBindShift :: nat where "kSymbolBindShift = 4"
definition kSymbolBindGlobal :: u64 where "kSymbolBindGlobal = 1"
definition kSymbolBindWeak :: u64 where "kSymbolBindWeak = 2"
definition kHeaderSize32 :: nat where "kHeaderSize32 = 52"
definition kHeaderSize64 :: nat where "kHeaderSize64 = 64"
definition kDynamicEntrySize32 :: nat where "kDynamicEntrySize32 = 8"
definition kDynamicEntrySize64 :: nat where "kDynamicEntrySize64 = 16"
definition kSymbolEntrySize32 :: nat where "kSymbolEntrySize32 = 16"
definition kSymbolEntrySize64 :: nat where "kSymbolEntrySize64 = 24"

record field_location =
  location_offset :: nat
  location_width :: integer_width

record class_dependent_field =
  in_class_32 :: field_location
  in_class_64 :: field_location

definition at_offset :: "nat \<Rightarrow> integer_width \<Rightarrow> field_location" where
  "at_offset n w = \<lparr>location_offset = n, location_width = w\<rparr>"

definition by_class :: "field_location \<Rightarrow> field_location \<Rightarrow> class_dependent_field" where
  "by_class l32 l64 = \<lparr>in_class_32 = l32, in_class_64 = l64\<rparr>"

definition kHeaderType :: class_dependent_field where
  "kHeaderType = by_class (at_offset 16 TwoBytes) (at_offset 16 TwoBytes)"
definition kHeaderSegmentTableOffset :: class_dependent_field where
  "kHeaderSegmentTableOffset = by_class (at_offset 28 FourBytes) (at_offset 32 EightBytes)"
definition kHeaderSectionTableOffset :: class_dependent_field where
  "kHeaderSectionTableOffset = by_class (at_offset 32 FourBytes) (at_offset 40 EightBytes)"
definition kHeaderSegmentEntrySize :: class_dependent_field where
  "kHeaderSegmentEntrySize = by_class (at_offset 42 TwoBytes) (at_offset 54 TwoBytes)"
definition kHeaderSegmentCount :: class_dependent_field where
  "kHeaderSegmentCount = by_class (at_offset 44 TwoBytes) (at_offset 56 TwoBytes)"
definition kHeaderSectionEntrySize :: class_dependent_field where
  "kHeaderSectionEntrySize = by_class (at_offset 46 TwoBytes) (at_offset 58 TwoBytes)"
definition kHeaderSectionCount :: class_dependent_field where
  "kHeaderSectionCount = by_class (at_offset 48 TwoBytes) (at_offset 60 TwoBytes)"
definition kSegmentType :: class_dependent_field where
  "kSegmentType = by_class (at_offset 0 FourBytes) (at_offset 0 FourBytes)"
definition kSegmentFileOffset :: class_dependent_field where
  "kSegmentFileOffset = by_class (at_offset 4 FourBytes) (at_offset 8 EightBytes)"
definition kSegmentVirtualAddress :: class_dependent_field where
  "kSegmentVirtualAddress = by_class (at_offset 8 FourBytes) (at_offset 16 EightBytes)"
definition kSegmentFileSize :: class_dependent_field where
  "kSegmentFileSize = by_class (at_offset 16 FourBytes) (at_offset 32 EightBytes)"
definition kSectionType :: class_dependent_field where
  "kSectionType = by_class (at_offset 4 FourBytes) (at_offset 4 FourBytes)"
definition kSectionFileOffset :: class_dependent_field where
  "kSectionFileOffset = by_class (at_offset 16 FourBytes) (at_offset 24 EightBytes)"
definition kSectionSize :: class_dependent_field where
  "kSectionSize = by_class (at_offset 20 FourBytes) (at_offset 32 EightBytes)"
definition kSectionLink :: class_dependent_field where
  "kSectionLink = by_class (at_offset 24 FourBytes) (at_offset 40 FourBytes)"
definition kDynamicTag :: class_dependent_field where
  "kDynamicTag = by_class (at_offset 0 FourBytes) (at_offset 0 EightBytes)"
definition kDynamicValue :: class_dependent_field where
  "kDynamicValue = by_class (at_offset 4 FourBytes) (at_offset 8 EightBytes)"
definition kSymbolName :: class_dependent_field where
  "kSymbolName = by_class (at_offset 0 FourBytes) (at_offset 0 FourBytes)"
definition kSymbolInfo :: class_dependent_field where
  "kSymbolInfo = by_class (at_offset 12 OneByte) (at_offset 4 OneByte)"
definition kSymbolSectionIndex :: class_dependent_field where
  "kSymbolSectionIndex = by_class (at_offset 14 TwoBytes) (at_offset 6 TwoBytes)"

section \<open>State\<close>

datatype elf_shape = NotElf | Malformed | Relocatable | StaticExecutable | Dynamic

primrec elf_shape_to_string :: "elf_shape \<Rightarrow> string" where
  "elf_shape_to_string NotElf = ''not-elf''"
| "elf_shape_to_string Malformed = ''malformed''"
| "elf_shape_to_string Relocatable = ''relocatable''"
| "elf_shape_to_string StaticExecutable = ''static''"
| "elf_shape_to_string Dynamic = ''dynamic''"

record elf_image =
  shape :: elf_shape
  soname :: string
  needed :: "string list"
  exported_symbols :: "string list"
  needed_truncated :: bool
  symbols_truncated :: bool
  symbols_unavailable :: bool
  names_unavailable :: bool

definition no_elf :: elf_image where
  "no_elf = \<lparr>shape = NotElf, soname = [], needed = [], exported_symbols = [], needed_truncated = False,
     symbols_truncated = False, symbols_unavailable = False, names_unavailable = False\<rparr>"

record dynamic_array =
  needed_offsets :: "u64 list"
  soname_offset :: "u64 option"
  string_table_address :: "u64 option"
  string_table_size :: "u64 option"
  array_truncated :: bool
  array_needed_truncated :: bool

definition no_entries :: dynamic_array where
  "no_entries = \<lparr>needed_offsets = [], soname_offset = None, string_table_address = None,
     string_table_size = None, array_truncated = False, array_needed_truncated = False\<rparr>"

record dynamic_location =
  location_region :: byte_cursor
  from_section_headers :: bool
  string_table_section_index :: "u64 option"

record elf_reader =
  reader_image :: byte_cursor
  reader_is_64_bit :: bool
  reader_label :: string
  section_table_offset :: u64
  section_entry_size :: u64
  section_count :: nat
  segment_table_offset :: u64
  segment_entry_size :: u64
  segment_count :: nat
  section_headers_capped :: bool
  segment_headers_capped :: bool
  section_table_declared :: bool
  segment_table_declared :: bool

definition new_reader :: "byte_cursor \<Rightarrow> bool \<Rightarrow> string \<Rightarrow> elf_reader" where
  "new_reader img is_64_bit label = \<lparr>reader_image = img, reader_is_64_bit = is_64_bit, reader_label = label,
     section_table_offset = 0, section_entry_size = 0, section_count = 0,
     segment_table_offset = 0, segment_entry_size = 0, segment_count = 0,
     section_headers_capped = False, segment_headers_capped = False,
     section_table_declared = False, segment_table_declared = False\<rparr>"

section \<open>Headers\<close>

definition location_for :: "class_dependent_field \<Rightarrow> bool \<Rightarrow> field_location" where
  "location_for field is_64_bit = (if is_64_bit then in_class_64 field else in_class_32 field)"

definition field_of :: "elf_reader \<Rightarrow> byte_cursor \<Rightarrow> class_dependent_field \<Rightarrow> u64 option" where
  "field_of r rec field =
     (let l = location_for field (reader_is_64_bit r)
      in uint_at rec (word_of_nat (location_offset l)) (location_width l))"

definition dynamic_entry_size :: "elf_reader \<Rightarrow> nat" where
  "dynamic_entry_size r = (if reader_is_64_bit r then kDynamicEntrySize64 else kDynamicEntrySize32)"

definition symbol_entry_size :: "elf_reader \<Rightarrow> nat" where
  "symbol_entry_size r = (if reader_is_64_bit r then kSymbolEntrySize64 else kSymbolEntrySize32)"

definition elf_warn :: "elf_reader \<Rightarrow> string \<Rightarrow> elf_image result \<Rightarrow> elf_image result" where
  "elf_warn r m = warn kBinaryMalformedHeader (reader_label r @ '': '' @ m) [] []"

definition update_image :: "(elf_image \<Rightarrow> elf_image) \<Rightarrow> elf_image result \<Rightarrow> elf_image result" where
  "update_image f res = res\<lparr>result_value := f (result_value res)\<rparr>"

definition read_section_table_bounds :: "elf_reader \<Rightarrow> elf_reader" where
  "read_section_table_bounds r =
     (case (field_of r (reader_image r) kHeaderSectionTableOffset, field_of r (reader_image r) kHeaderSectionEntrySize,
            field_of r (reader_image r) kHeaderSectionCount) of
        (Some offset, Some entry, Some count) \<Rightarrow>
          let capped = (if count > word_of_nat kMaxSectionHeaders then word_of_nat kMaxSectionHeaders else count)
          in r\<lparr>section_table_offset := offset, section_entry_size := entry, section_count := unat capped,
               section_headers_capped := (count > word_of_nat kMaxSectionHeaders),
               section_table_declared := (offset \<noteq> 0 \<and> unat capped > 0)\<rparr>
      | _ \<Rightarrow> r)"

definition read_segment_table_bounds :: "elf_reader \<Rightarrow> elf_reader" where
  "read_segment_table_bounds r =
     (case (field_of r (reader_image r) kHeaderSegmentTableOffset, field_of r (reader_image r) kHeaderSegmentEntrySize,
            field_of r (reader_image r) kHeaderSegmentCount) of
        (Some offset, Some entry, Some count) \<Rightarrow>
          let capped = (if count > word_of_nat kMaxProgramHeaders then word_of_nat kMaxProgramHeaders else count)
          in r\<lparr>segment_table_offset := offset, segment_entry_size := entry, segment_count := unat capped,
               segment_headers_capped := (count > word_of_nat kMaxProgramHeaders),
               segment_table_declared := (offset \<noteq> 0 \<and> unat capped > 0)\<rparr>
      | _ \<Rightarrow> r)"

definition read_table_bounds :: "elf_reader \<Rightarrow> elf_reader" where
  "read_table_bounds r = read_segment_table_bounds (read_section_table_bounds r)"

definition table_entry :: "elf_reader \<Rightarrow> u64 \<Rightarrow> u64 \<Rightarrow> nat \<Rightarrow> byte_cursor option" where
  "table_entry r table_offset entry_size index =
     (if entry_size = 0 \<or> table_offset = 0 then None
      else let entry_offset = table_offset + entry_size * word_of_nat index in
        if entry_offset < table_offset then None
        else if entry_offset > cursor_size (reader_image r) then None
        else subrange (reader_image r) entry_offset entry_size)"

definition section_header :: "elf_reader \<Rightarrow> nat \<Rightarrow> byte_cursor option" where
  "section_header r index = table_entry r (section_table_offset r) (section_entry_size r) index"

definition segment_header :: "elf_reader \<Rightarrow> nat \<Rightarrow> byte_cursor option" where
  "segment_header r index = table_entry r (segment_table_offset r) (segment_entry_size r) index"

definition section_contents :: "elf_reader \<Rightarrow> byte_cursor \<Rightarrow> byte_cursor option" where
  "section_contents r header =
     (case (field_of r header kSectionFileOffset, field_of r header kSectionSize) of
        (Some offset, Some len) \<Rightarrow>
          if offset > cursor_size (reader_image r) \<or> len > cursor_size (reader_image r) then None
          else subrange (reader_image r) offset len
      | _ \<Rightarrow> None)"

section \<open>The dynamic array\<close>

fun locate_via_sections :: "elf_reader \<Rightarrow> nat list \<Rightarrow> elf_image result \<Rightarrow> dynamic_location option \<times> elf_image result" where
  "locate_via_sections r [] res = (None, res)"
| "locate_via_sections r (index # rest) res =
     (case section_header r index of
        None \<Rightarrow> locate_via_sections r rest res
      | Some header \<Rightarrow>
          if field_of r header kSectionType \<noteq> Some kSectionTypeDynamic then locate_via_sections r rest res
          else case section_contents r header of
            None \<Rightarrow> (None, elf_warn r ''dynamic section lies outside the file'' res)
          | Some contents \<Rightarrow>
              (Some \<lparr>location_region = contents, from_section_headers = True,
                 string_table_section_index = (case field_of r header kSectionLink of
                    None \<Rightarrow> None
                  | Some link \<Rightarrow> if link < word_of_nat (section_count r) then Some link else None)\<rparr>, res))"

definition locate_dynamic_via_sections ::
  "elf_reader \<Rightarrow> elf_image result \<Rightarrow> dynamic_location option \<times> elf_image result" where
  "locate_dynamic_via_sections r res = locate_via_sections r [0..<section_count r] res"

definition segment_contents :: "elf_reader \<Rightarrow> byte_cursor \<Rightarrow> byte_cursor option" where
  "segment_contents r header =
     (case (field_of r header kSegmentFileOffset, field_of r header kSegmentFileSize) of
        (Some offset, Some len) \<Rightarrow>
          if offset > cursor_size (reader_image r) \<or> len > cursor_size (reader_image r) then None
          else subrange (reader_image r) offset len
      | _ \<Rightarrow> None)"

fun locate_via_segments :: "elf_reader \<Rightarrow> nat list \<Rightarrow> elf_image result \<Rightarrow> dynamic_location option \<times> elf_image result" where
  "locate_via_segments r [] res = (None, res)"
| "locate_via_segments r (index # rest) res =
     (case segment_header r index of
        None \<Rightarrow> locate_via_segments r rest res
      | Some header \<Rightarrow>
          if field_of r header kSegmentType \<noteq> Some kSegmentTypeDynamic then locate_via_segments r rest res
          else case segment_contents r header of
            None \<Rightarrow> (None, elf_warn r ''PT_DYNAMIC segment lies outside the file'' res)
          | Some region \<Rightarrow>
              (Some \<lparr>location_region = region, from_section_headers = False, string_table_section_index = None\<rparr>, res))"

definition locate_dynamic_via_segments ::
  "elf_reader \<Rightarrow> elf_image result \<Rightarrow> dynamic_location option \<times> elf_image result" where
  "locate_dynamic_via_segments r res = locate_via_segments r [0..<segment_count r] res"

text \<open>The answer of one segment header, \<open>None\<close> for each \<open>continue\<close> of the loop.\<close>

definition segment_answer :: "elf_reader \<Rightarrow> u64 \<Rightarrow> byte_cursor \<Rightarrow> u64 option" where
  "segment_answer r address header =
     (case (field_of r header kSegmentType, field_of r header kSegmentVirtualAddress,
            field_of r header kSegmentFileOffset, field_of r header kSegmentFileSize) of
        (Some type, Some virtual_address, Some file_offset, Some file_size) \<Rightarrow>
          if type \<noteq> kSegmentTypeLoad then None
          else if address < virtual_address then None
          else let distance = address - virtual_address in
            if distance \<ge> file_size then None
            else let resolved = file_offset + distance in
              if resolved < file_offset \<or> resolved \<ge> cursor_size (reader_image r) then None
              else Some resolved
      | _ \<Rightarrow> None)"

fun file_offset_via :: "elf_reader \<Rightarrow> u64 \<Rightarrow> nat list \<Rightarrow> u64 option" where
  "file_offset_via r address [] = None"
| "file_offset_via r address (index # rest) =
     (case segment_header r index of
        None \<Rightarrow> file_offset_via r address rest
      | Some header \<Rightarrow>
          case segment_answer r address header of
            None \<Rightarrow> file_offset_via r address rest
          | Some resolved \<Rightarrow> Some resolved)"

definition file_offset_of_address :: "elf_reader \<Rightarrow> u64 \<Rightarrow> u64 option" where
  "file_offset_of_address r address = file_offset_via r address [0..<segment_count r]"

definition record_entry :: "u64 \<Rightarrow> u64 \<Rightarrow> dynamic_array \<Rightarrow> dynamic_array" where
  "record_entry tag val found =
     (if tag = kDynamicTagNeeded then
        (if length (needed_offsets found) \<ge> kMaxNeededEntries
         then found\<lparr>array_needed_truncated := True\<rparr>
         else found\<lparr>needed_offsets := needed_offsets found @ [val]\<rparr>)
      else if tag = kDynamicTagSoname then found\<lparr>soname_offset := Some val\<rparr>
      else if tag = kDynamicTagStringTable then found\<lparr>string_table_address := Some val\<rparr>
      else if tag = kDynamicTagStringTableSize then found\<lparr>string_table_size := Some val\<rparr>
      else found)"

fun walk_entries :: "elf_reader \<Rightarrow> byte_cursor \<Rightarrow> nat list \<Rightarrow> dynamic_array \<Rightarrow> dynamic_array" where
  "walk_entries r region [] found = found\<lparr>array_truncated := True\<rparr>"
| "walk_entries r region (index # rest) found =
     (case subrange region (word_of_nat (index * dynamic_entry_size r)) (word_of_nat (dynamic_entry_size r)) of
        None \<Rightarrow> found
      | Some entry \<Rightarrow>
          case (field_of r entry kDynamicTag, field_of r entry kDynamicValue) of
            (Some tag, Some val) \<Rightarrow>
              if tag = kDynamicTagNull then found else walk_entries r region rest (record_entry tag val found)
          | _ \<Rightarrow> found)"

definition walk_dynamic_array :: "elf_reader \<Rightarrow> byte_cursor \<Rightarrow> dynamic_array" where
  "walk_dynamic_array r region = walk_entries r region [0..<kMaxDynamicEntries] no_entries"

section \<open>Names and symbols\<close>

definition linked_string_table :: "elf_reader \<Rightarrow> dynamic_location \<Rightarrow> byte_cursor option" where
  "linked_string_table r location =
     (case string_table_section_index location of
        None \<Rightarrow> None
      | Some index \<Rightarrow>
          case section_header r (unat index) of
            None \<Rightarrow> None
          | Some header \<Rightarrow>
              if field_of r header kSectionType = Some kSectionTypeStringTable
              then section_contents r header else None)"

definition resolve_string_table ::
  "elf_reader \<Rightarrow> dynamic_location \<Rightarrow> dynamic_array \<Rightarrow> elf_image result \<Rightarrow> byte_cursor option \<times> elf_image result" where
  "resolve_string_table r location found res =
     (case linked_string_table r location of
        Some contents \<Rightarrow> (Some contents, res)
      | None \<Rightarrow>
          case string_table_address found of
            None \<Rightarrow> (None, elf_warn r
              ''dynamic section declares no string table (DT_STRTAB); no library names recoverable'' res)
          | Some address \<Rightarrow>
              case file_offset_of_address r address of
                None \<Rightarrow> (None, elf_warn r
                  ''DT_STRTAB address lies in no PT_LOAD segment; no library names recoverable'' res)
              | Some offset \<Rightarrow>
                  let available = cursor_size (reader_image r) - offset;
                      len = (case string_table_size found of
                               Some declared \<Rightarrow> if declared \<le> available then declared else available
                             | None \<Rightarrow> available)
                  in case subrange (reader_image r) offset len of
                       None \<Rightarrow> (None, elf_warn r ''string table does not fit the file; no library names recoverable'' res)
                     | Some table \<Rightarrow> (Some table, res))"

definition string_at :: "byte_cursor \<Rightarrow> u64 \<Rightarrow> string option" where
  "string_at string_table offset =
     (if offset > cursor_size string_table then None
      else case c_string_at string_table offset (word_of_nat kMaxStringLength) of
        None \<Rightarrow> None
      | Some name \<Rightarrow> if name = [] then None else Some name)"

text \<open>The name one symbol table entry contributes, \<open>None\<close> for each \<open>continue\<close> of the loop.\<close>

definition symbol_export :: "elf_reader \<Rightarrow> byte_cursor \<Rightarrow> byte_cursor \<Rightarrow> string option" where
  "symbol_export r names entry =
     (case (field_of r entry kSymbolSectionIndex, field_of r entry kSymbolInfo, field_of r entry kSymbolName) of
        (Some section_index, Some info, Some name_offset) \<Rightarrow>
          if section_index = kSectionIndexUndefined then None
          else let binding = drop_bit kSymbolBindShift info in
            if binding \<noteq> kSymbolBindGlobal \<and> binding \<noteq> kSymbolBindWeak then None
            else string_at names name_offset
      | _ \<Rightarrow> None)"

fun collect_symbols :: "elf_reader \<Rightarrow> byte_cursor \<Rightarrow> byte_cursor \<Rightarrow> nat list \<Rightarrow> string list \<Rightarrow> string list" where
  "collect_symbols r table names [] symbols = symbols"
| "collect_symbols r table names (symbol_index # rest) symbols =
     (case subrange table (word_of_nat (symbol_index * symbol_entry_size r)) (word_of_nat (symbol_entry_size r)) of
        None \<Rightarrow> symbols
      | Some entry \<Rightarrow>
          collect_symbols r table names rest
            (case symbol_export r names entry of None \<Rightarrow> symbols | Some name \<Rightarrow> symbols @ [name]))"

definition symbol_names :: "elf_reader \<Rightarrow> byte_cursor \<Rightarrow> byte_cursor option" where
  "symbol_names r header =
     (case field_of r header kSectionLink of
        None \<Rightarrow> None
      | Some link \<Rightarrow>
          if link \<ge> word_of_nat (section_count r) then None
          else case section_header r (unat link) of
            None \<Rightarrow> None
          | Some names_header \<Rightarrow> section_contents r names_header)"

definition read_symbol_table :: "elf_reader \<Rightarrow> byte_cursor \<Rightarrow> byte_cursor \<Rightarrow> elf_image \<Rightarrow> elf_image" where
  "read_symbol_table r table names out =
     (let declared_entries = unat (cursor_size table) div symbol_entry_size r;
          entries = (if declared_entries > kMaxSymbolTableEntries then kMaxSymbolTableEntries else declared_entries);
          (symbols, hit) = normalize_and_cap
            (collect_symbols r table names [0..<entries] (exported_symbols out)) kMaxSymbolSample
      in out\<lparr>exported_symbols := symbols, symbols_truncated := (hit \<or> declared_entries > kMaxSymbolTableEntries)\<rparr>)"

fun collect_via_sections :: "elf_reader \<Rightarrow> nat list \<Rightarrow> elf_image result \<Rightarrow> bool \<times> elf_image result" where
  "collect_via_sections r [] res = (False, res)"
| "collect_via_sections r (index # rest) res =
     (case section_header r index of
        None \<Rightarrow> collect_via_sections r rest res
      | Some header \<Rightarrow>
          if field_of r header kSectionType \<noteq> Some kSectionTypeDynamicSymbols then collect_via_sections r rest res
          else case (section_contents r header, symbol_names r header) of
            (Some table, Some names) \<Rightarrow> (True, update_image (read_symbol_table r table names) res)
          | _ \<Rightarrow> (False, elf_warn r ''dynamic symbol table is unreadable; symbol sample skipped'' res))"

definition collect_exported_symbols :: "elf_reader \<Rightarrow> elf_image result \<Rightarrow> bool \<times> elf_image result" where
  "collect_exported_symbols r res = collect_via_sections r [0..<section_count r] res"

section \<open>The reader\<close>

definition locate_dynamic :: "elf_reader \<Rightarrow> elf_image result \<Rightarrow> dynamic_location option \<times> elf_image result" where
  "locate_dynamic r res =
     (case locate_dynamic_via_sections r res of
        (Some location, res) \<Rightarrow> (Some location, res)
      | (None, res) \<Rightarrow> locate_dynamic_via_segments r res)"

definition warn_truncation :: "elf_reader \<Rightarrow> dynamic_array \<Rightarrow> elf_image result \<Rightarrow> elf_image result" where
  "warn_truncation r found res =
     (let res = (if array_truncated found
                 then update_image (\<lambda>out. out\<lparr>needed_truncated := True\<rparr>)
                   (elf_warn r (''dynamic section declares more entries than bomwerk walks ('' @
                      string_of_nat kMaxDynamicEntries @ ''); the rest were skipped'') res)
                 else res)
      in if array_needed_truncated found
         then update_image (\<lambda>out. out\<lparr>needed_truncated := True\<rparr>)
           (elf_warn r (''declares more dynamic dependencies than bomwerk records ('' @
              string_of_nat kMaxNeededEntries @ ''); the rest were skipped'') res)
         else res)"

definition read_names :: "dynamic_array \<Rightarrow> byte_cursor option \<Rightarrow> elf_image \<Rightarrow> elf_image" where
  "read_names found string_table out =
     (let out = out\<lparr>names_unavailable := (string_table = None)\<rparr>;
          out = (case string_table of
             None \<Rightarrow> out
           | Some table \<Rightarrow>
               let out = out\<lparr>needed := needed out @ List.map_filter (string_at table) (needed_offsets found)\<rparr>
               in case soname_offset found of
                    None \<Rightarrow> out
                  | Some offset \<Rightarrow>
                      case string_at table offset of
                        None \<Rightarrow> out
                      | Some name \<Rightarrow> out\<lparr>soname := name\<rparr>);
          (names, hit) = normalize_and_cap (needed out) kMaxNeededEntries
      in out\<lparr>needed := names, needed_truncated := (hit \<or> needed_truncated out)\<rparr>)"

definition read_dynamic :: "elf_reader \<Rightarrow> dynamic_location \<Rightarrow> elf_image result \<Rightarrow> elf_image result" where
  "read_dynamic r location res =
     (let found = walk_dynamic_array r (location_region location);
          res = warn_truncation r found res;
          (string_table, res) = resolve_string_table r location found res;
          res = update_image (read_names found string_table) res
      in if \<not> from_section_headers location
         then elf_warn r (''section headers are stripped; dynamic dependencies were recovered from PT_DYNAMIC but '' @
                ''the exported-symbol sample was not'')
                (update_image (\<lambda>out. out\<lparr>symbols_unavailable := True\<rparr>) res)
         else case collect_exported_symbols r res of
                (collected, res) \<Rightarrow> update_image (\<lambda>out. out\<lparr>symbols_unavailable := \<not> collected\<rparr>) res)"

definition set_shape :: "elf_shape \<Rightarrow> elf_image result \<Rightarrow> elf_image result" where
  "set_shape s = update_image (\<lambda>out. out\<lparr>shape := s\<rparr>)"

definition elf_reader_read :: "elf_reader \<Rightarrow> elf_image result \<Rightarrow> elf_image result" where
  "elf_reader_read r res =
     (let r = read_table_bounds r;
          res = (if section_headers_capped r \<or> segment_headers_capped r
                 then elf_warn r ''declares more headers than bomwerk follows; the rest were skipped'' res else res)
      in if cursor_size (reader_image r) < word_of_nat (if reader_is_64_bit r then kHeaderSize64 else kHeaderSize32)
         then set_shape Malformed
           (elf_warn r ''ELF header is truncated; nothing about this image could be read'' res)
         else case field_of r (reader_image r) kHeaderType of
           None \<Rightarrow> set_shape Malformed (elf_warn r ''ELF header is truncated'' res)
         | Some type \<Rightarrow>
             if section_table_declared r \<and> section_header r 0 = None \<or>
                segment_table_declared r \<and> segment_header r 0 = None
             then set_shape Malformed
               (elf_warn r ''declares a header table that lies outside the file; nothing could be read from it'' res)
             else if type = kTypeRelocatable then set_shape Relocatable res
             else case locate_dynamic r res of
               (None, res) \<Rightarrow> set_shape StaticExecutable res
             | (Some location, res) \<Rightarrow> read_dynamic r location (set_shape Dynamic res))"

fun magic_matches :: "byte_cursor \<Rightarrow> nat \<Rightarrow> u64 list \<Rightarrow> bool" where
  "magic_matches c index [] = True"
| "magic_matches c index (m # ms) =
     (if uint_at c (word_of_nat index) OneByte \<noteq> Some m then False else magic_matches c (index + 1) ms)"

definition read_elf :: "string \<Rightarrow> disk_file \<Rightarrow> elf_image result" where
  "read_elf path f =
     (let outcome = new_result no_elf; file = read_file_bounded f kMaxBinaryBytes in
      if \<not> readable file then warn kBinaryUnreadable (path @ '': cannot be read; skipped'') [] [] outcome
      else if truncated file then
        warn kBinaryTooLarge (path @ '': larger than '' @ string_of_nat kMaxBinaryBytes @
          '' bytes; refused rather than parsed from a partial image'') [] [] outcome
      else
        let identification = \<lparr>cursor_bytes = as_image (bytes file), cursor_order = Little\<rparr> in
        if cursor_size identification < word_of_nat kIdentSize then outcome
        else if \<not> magic_matches identification 0 kMagic then outcome
        else
          let file_class = uint_at identification kIdentClassOffset OneByte;
              file_data = uint_at identification kIdentDataOffset OneByte in
          if file_class \<noteq> Some kClass32 \<and> file_class \<noteq> Some kClass64 then
            set_shape Malformed (warn kBinaryMalformedHeader
              (path @ '': ELF magic with an unknown class byte; skipped'') [] [] outcome)
          else if file_data \<noteq> Some kDataLittleEndian \<and> file_data \<noteq> Some kDataBigEndian then
            set_shape Malformed (warn kBinaryMalformedHeader
              (path @ '': ELF magic with an unknown data-encoding byte; skipped'') [] [] outcome)
          else
            let order = (if file_data = Some kDataBigEndian then Big else Little)
            in elf_reader_read (new_reader (with_byte_order identification order) (file_class = Some kClass64) path) outcome)"

section \<open>Lemmas\<close>

subsection \<open>Tables\<close>

definition table_slot :: "byte_cursor \<Rightarrow> u64 \<Rightarrow> u64 \<Rightarrow> nat \<Rightarrow> byte_cursor option" where
  "table_slot c table_offset entry_size index =
     (let first = unat table_offset + unat entry_size * index in
      if 0 < table_offset \<and> 0 < entry_size \<and> first + unat entry_size \<le> length (cursor_bytes c)
      then Some (c\<lparr>cursor_bytes := substr (cursor_bytes c) first (unat entry_size)\<rparr>) else None)"

lemma table_entry_eq:
  assumes c: "image_ok (reader_image r)" and e: "unat entry_size < 2 ^ 16" and i: "index < 2 ^ 16"
  shows "table_entry r table_offset entry_size index = table_slot (reader_image r) table_offset entry_size index"
proof (cases "entry_size = 0 \<or> table_offset = 0")
  case True
  then show ?thesis by (auto simp: table_entry_def table_slot_def)
next
  case False
  let ?d = "entry_size * word_of_nat index" and ?n = "length (cursor_bytes (reader_image r))"
  from False have pos: "0 < table_offset" "0 < entry_size" by (simp_all add: word_neq_0_conv)
  have ui: "unat (word_of_nat index :: u64) = index" using i by (simp add: unat_of_nat take_bit_nat_eq_self)
  have small: "unat entry_size * index < 2 ^ 32"
  proof -
    have "unat entry_size * index \<le> unat entry_size * 2 ^ 16" using i by simp
    also have "\<dots> < 2 ^ 16 * 2 ^ 16" using e by simp
    finally show ?thesis by simp
  qed
  then have d: "unat ?d = unat entry_size * index"
    using unat_mult_lem [of entry_size "word_of_nat index"] ui by simp
  have n: "?n < 2 ^ 64" using c by (simp add: image_ok_def)
  note size = unat_cursor_size [OF c]
  show ?thesis
  proof (cases "unat table_offset + unat ?d < 2 ^ 64")
    case True
    then have sum: "unat (table_offset + ?d) = unat table_offset + unat entry_size * index"
      using unat_add_lem [of table_offset ?d] d by simp
    then have "\<not> table_offset + ?d < table_offset" by (simp add: word_less_nat_alt)
    moreover have "table_offset + ?d > cursor_size (reader_image r) \<longleftrightarrow> unat table_offset + unat entry_size * index > ?n"
      using sum size by (simp add: word_less_nat_alt)
    ultimately show ?thesis using False pos sum
      by (auto simp: table_entry_def table_slot_def Let_def subrange_eq [OF c])
  next
    case wraps: False
    then have "unat (table_offset + ?d) = unat table_offset + unat ?d - 2 ^ 64"
      using unat_plus_if_size [of table_offset ?d] by (simp add: word_size not_less)
    moreover have "unat ?d < 2 ^ 64" using small d by simp
    ultimately have "table_offset + ?d < table_offset" using wraps by (simp add: word_less_nat_alt)
    with False wraps d n show ?thesis by (auto simp: table_entry_def table_slot_def Let_def)
  qed
qed

lemma table_slot_SomeD:
  assumes "table_slot c off es i = Some h" "image_ok c"
  shows "image_ok h" "cursor_order h = cursor_order c" "length (cursor_bytes h) = unat es"
  using assms by (auto simp: table_slot_def image_ok_def Let_def split: if_splits)

text \<open>What \<open>read_table_bounds\<close> leaves: both tables have at most the capped number of entries, and entry sizes
  that fit in two bytes.\<close>

definition reader_ok :: "elf_reader \<Rightarrow> bool" where
  "reader_ok r \<longleftrightarrow> image_ok (reader_image r) \<and> unat (section_entry_size r) < 2 ^ 16 \<and> unat (segment_entry_size r) < 2 ^ 16 \<and>
     section_count r \<le> kMaxSectionHeaders \<and> segment_count r \<le> kMaxProgramHeaders"

lemma uint_at_two_bytes:
  assumes "image_ok c" "uint_at c p TwoBytes = Some v"
  shows "unat v < 2 ^ 16"
proof -
  from assms have r: "unat p + 2 \<le> length (cursor_bytes c)" and v: "v = word_of_nat (le_value (field_bytes c (unat p) 2))"
    by (auto simp: uint_at_eq split: if_splits)
  have "le_value (field_bytes c (unat p) 2) < 2 ^ 16"
    using le_value_less [of "field_bytes c (unat p) 2"] length_field_bytes [OF r] by simp
  then show ?thesis by (simp add: v unat_of_nat take_bit_nat_eq_self)
qed

lemma unat_capped: "k < 2 ^ 64 \<Longrightarrow> unat (if c > word_of_nat k then word_of_nat k else c :: u64) \<le> k"
  by (auto simp: word_less_nat_alt unat_of_nat take_bit_nat_eq_self)

lemma field_of_two_bytes:
  "image_ok c \<Longrightarrow> field_of r c (by_class (at_offset a TwoBytes) (at_offset b TwoBytes)) = Some v \<Longrightarrow> unat v < 2 ^ 16"
  by (auto simp: field_of_def location_for_def by_class_def at_offset_def Let_def split: if_splits dest: uint_at_two_bytes)

lemma new_reader_fields [simp]:
  "reader_image (new_reader c b l) = c" "reader_is_64_bit (new_reader c b l) = b" "reader_label (new_reader c b l) = l"
  by (simp_all add: new_reader_def)

lemma read_table_bounds_fields [simp]:
  "reader_image (read_table_bounds r) = reader_image r" "reader_is_64_bit (read_table_bounds r) = reader_is_64_bit r"
  "reader_label (read_table_bounds r) = reader_label r"
  by (auto simp: read_table_bounds_def read_section_table_bounds_def read_segment_table_bounds_def Let_def split: option.split)

lemma reader_ok_sections:
  assumes "reader_ok r" shows "reader_ok (read_section_table_bounds r)"
  using assms unat_capped [of kMaxSectionHeaders]
    field_of_two_bytes [of "reader_image r" r 46 58, folded kHeaderSectionEntrySize_def]
  by (auto simp: reader_ok_def read_section_table_bounds_def Let_def bounds_defs split: option.split)

lemma reader_ok_segments:
  assumes "reader_ok r" shows "reader_ok (read_segment_table_bounds r)"
  using assms unat_capped [of kMaxProgramHeaders]
    field_of_two_bytes [of "reader_image r" r 42 54, folded kHeaderSegmentEntrySize_def]
  by (auto simp: reader_ok_def read_segment_table_bounds_def Let_def bounds_defs split: option.split)

lemma reader_ok_read_table_bounds:
  "image_ok img \<Longrightarrow> reader_ok (read_table_bounds (new_reader img is_64_bit label))"
  unfolding read_table_bounds_def
  by (intro reader_ok_segments reader_ok_sections) (simp add: reader_ok_def new_reader_def)

lemma section_header_eq:
  "reader_ok r \<Longrightarrow> index < 2 ^ 16 \<Longrightarrow>
   section_header r index = table_slot (reader_image r) (section_table_offset r) (section_entry_size r) index"
  by (simp add: section_header_def reader_ok_def table_entry_eq)

lemma segment_header_eq:
  "reader_ok r \<Longrightarrow> index < 2 ^ 16 \<Longrightarrow>
   segment_header r index = table_slot (reader_image r) (segment_table_offset r) (segment_entry_size r) index"
  by (simp add: segment_header_def reader_ok_def table_entry_eq)

subsection \<open>Addresses\<close>

text \<open>What a loadable segment says of an address, on natural numbers: the file offset of the byte mapped
  there, when the segment covers the address and the byte is in the file.\<close>

definition mapped_offset :: "elf_reader \<Rightarrow> u64 \<Rightarrow> byte_cursor \<Rightarrow> nat option" where
  "mapped_offset r address header =
     (case (field_of r header kSegmentVirtualAddress, field_of r header kSegmentFileOffset, field_of r header kSegmentFileSize) of
        (Some v, Some p, Some n) \<Rightarrow>
          if field_of r header kSegmentType = Some kSegmentTypeLoad \<and> unat v \<le> unat address \<and>
             unat address < unat v + unat n \<and> unat p + (unat address - unat v) < length (cursor_bytes (reader_image r))
          then Some (unat p + (unat address - unat v)) else None
      | _ \<Rightarrow> None)"

lemma segment_answer_eq:
  assumes "image_ok (reader_image r)"
  shows "map_option unat (segment_answer r address header) = mapped_offset r address header"
proof (cases "field_of r header kSegmentType = None \<or> field_of r header kSegmentVirtualAddress = None \<or>
    field_of r header kSegmentFileOffset = None \<or> field_of r header kSegmentFileSize = None")
  case True
  then show ?thesis by (auto simp: segment_answer_def mapped_offset_def split: option.splits)
next
  case False
  then obtain t v p n where f: "field_of r header kSegmentType = Some t" "field_of r header kSegmentVirtualAddress = Some v"
    "field_of r header kSegmentFileOffset = Some p" "field_of r header kSegmentFileSize = Some n" by auto
  note size = unat_cursor_size [OF assms]
  have n64: "length (cursor_bytes (reader_image r)) < 2 ^ 64" using assms by (simp add: image_ok_def)
  show ?thesis
  proof (cases "t = kSegmentTypeLoad \<and> v \<le> address \<and> address - v < n")
    case False
    then show ?thesis
      by (auto simp: segment_answer_def mapped_offset_def f Let_def word_less_nat_alt word_le_nat_alt unat_sub not_less not_le)
  next
    case True
    then have d: "unat (address - v) = unat address - unat v" by (simp add: unat_sub)
    let ?s = "p + (address - v)"
    show ?thesis
    proof (cases "unat p + unat (address - v) < 2 ^ 64")
      case fits: True
      then have "unat ?s = unat p + (unat address - unat v)" using unat_add_lem [of p "address - v"] d by simp
      with True d show ?thesis
        by (auto simp: segment_answer_def mapped_offset_def f Let_def word_less_nat_alt word_le_nat_alt size)
    next
      case wraps: False
      then have "unat ?s = unat p + unat (address - v) - 2 ^ 64"
        using unat_plus_if_size [of p "address - v"] by (simp add: word_size not_less)
      moreover have "unat (address - v) < 2 ^ 64" using unsigned_less [of "address - v", where ?'a = nat] by simp
      ultimately have "?s < p" using wraps by (simp add: word_less_nat_alt)
      with True wraps d n64 show ?thesis by (auto simp: segment_answer_def mapped_offset_def f Let_def)
    qed
  qed
qed

text \<open>The first answer of a list of headers, missing ones passed over.\<close>

fun first_answer :: "('a \<Rightarrow> 'b option) \<Rightarrow> 'a list \<Rightarrow> 'b option" where
  "first_answer f [] = None"
| "first_answer f (x # xs) = (case f x of None \<Rightarrow> first_answer f xs | Some y \<Rightarrow> Some y)"

lemma first_answer_SomeD: "first_answer f xs = Some y \<Longrightarrow> \<exists>x \<in> set xs. f x = Some y"
  by (induction xs) (auto split: option.splits)

lemma first_answer_NoneD: "first_answer f xs = None \<Longrightarrow> x \<in> set xs \<Longrightarrow> f x = None"
  by (induction xs) (auto split: option.splits)

lemma file_offset_via_eq:
  assumes "reader_ok r" "\<forall>i \<in> set is. i < 2 ^ 16"
  shows "map_option unat (file_offset_via r address is) =
    first_answer (\<lambda>i. Option.bind (table_slot (reader_image r) (segment_table_offset r) (segment_entry_size r) i)
      (mapped_offset r address)) is"
  using assms(2)
proof (induction "is")
  case (Cons i "is")
  note h = segment_header_eq [OF assms(1), of i]
  have ok: "image_ok (reader_image r)" using assms(1) by (simp add: reader_ok_def)
  show ?case
  proof (cases "segment_header r i")
    case None
    with Cons h show ?thesis by simp
  next
    case (Some hd)
    with Cons h segment_answer_eq [OF ok, of address hd] show ?thesis
      by (cases "segment_answer r address hd") (auto split: option.splits)
  qed
qed simp

lemma segment_indices: "reader_ok r \<Longrightarrow> \<forall>i \<in> set [0..<segment_count r]. i < 2 ^ 16"
  by (auto simp: reader_ok_def bounds_defs)

lemma section_index_less: "reader_ok r \<Longrightarrow> i < section_count r \<Longrightarrow> i < 2 ^ 16"
  by (simp add: reader_ok_def bounds_defs)

lemma mapped_offset_less: "mapped_offset r address h = Some p \<Longrightarrow> p < length (cursor_bytes (reader_image r))"
  by (auto simp: mapped_offset_def split: option.splits if_splits)

lemma file_offset_of_address_less:
  assumes "reader_ok r" "file_offset_of_address r address = Some p"
  shows "unat p < length (cursor_bytes (reader_image r))"
proof -
  from assms(2) file_offset_via_eq [OF assms(1) segment_indices [OF assms(1)], of address]
  have "first_answer (\<lambda>i. Option.bind (table_slot (reader_image r) (segment_table_offset r) (segment_entry_size r) i)
      (mapped_offset r address)) [0..<segment_count r] = Some (unat p)" by (simp add: file_offset_of_address_def)
  from first_answer_SomeD [OF this] show ?thesis by (auto simp: bind_eq_Some_conv mapped_offset_less)
qed

subsection \<open>Parts of the file\<close>

text \<open>A cursor the reader walks lies in the image, and every name is a terminated string of the image.\<close>

definition part_of :: "byte_cursor \<Rightarrow> byte_cursor \<Rightarrow> bool" where
  "part_of c img \<longleftrightarrow> image_ok c \<and>
     (\<exists>p. p + length (cursor_bytes c) \<le> length (cursor_bytes img) \<and> cursor_bytes c = substr (cursor_bytes img) p (length (cursor_bytes c)))"

definition file_name_ok :: "u8 list \<Rightarrow> string \<Rightarrow> bool" where
  "file_name_ok img s \<longleftrightarrow> s \<noteq> [] \<and> length s < kMaxStringLength \<and> CHR 0x00 \<notin> set s \<and>
     (\<exists>p. p + length s < length img \<and> substr img p (length s + 1) = as_image s @ [0])"

lemma part_of_subrange:
  assumes "image_ok c" "subrange c p n = Some d"
  shows "part_of d c"
  using subrange_SomeD [OF assms] by (auto simp: part_of_def)

lemma part_of_section_contents:
  assumes "image_ok (reader_image r)" "section_contents r h = Some c"
  shows "part_of c (reader_image r)"
  using assms part_of_subrange [OF assms(1)] by (auto simp: section_contents_def split: option.splits if_splits)

lemma part_of_segment_contents:
  assumes "image_ok (reader_image r)" "segment_contents r h = Some c"
  shows "part_of c (reader_image r)"
  using assms part_of_subrange [OF assms(1)] by (auto simp: segment_contents_def split: option.splits if_splits)

lemma part_of_linked:
  assumes "image_ok (reader_image r)" "linked_string_table r location = Some c"
  shows "part_of c (reader_image r)"
  using assms part_of_section_contents [OF assms(1)] by (auto simp: linked_string_table_def split: option.splits if_splits)

lemma string_at_ok:
  assumes "part_of c img" "string_at c p = Some s"
  shows "file_name_ok (cursor_bytes img) s"
proof -
  from assms(1) obtain q where c: "image_ok c" and q: "q + length (cursor_bytes c) \<le> length (cursor_bytes img)"
    "cursor_bytes c = substr (cursor_bytes img) q (length (cursor_bytes c))" by (auto simp: part_of_def)
  from assms(2) have s: "s \<noteq> []" "c_string_at c p (word_of_nat kMaxStringLength) = Some s"
    by (auto simp: string_at_def split: if_splits option.splits)
  note d = c_string_at_SomeD [OF c s(2)]
  let ?p = "q + unat p"
  have k: "unat (word_of_nat kMaxStringLength :: u64) = kMaxStringLength" by (simp add: kMaxStringLength_def)
  have in_c: "?p + length s < length (cursor_bytes img)" using d(2) q(1) by simp
  have "substr (cursor_bytes c) (unat p) (length s + 1) = as_image s @ [0]"
    using d(2-4) by (simp add: substr_def take_Suc_conv_app_nth)
  moreover have "substr (cursor_bytes c) (unat p) (length s + 1) = substr (cursor_bytes img) ?p (length s + 1)"
    using d(2) q(1) by (subst q(2)) (simp add: substr_def drop_take add.commute)
  ultimately show ?thesis using s(1) d(1,5) k in_c by (auto simp: file_name_ok_def)
qed

subsection \<open>The dynamic array\<close>

lemma dynamic_entry_size_cases: "dynamic_entry_size r = (if reader_is_64_bit r then 16 else 8)"
  by (simp add: dynamic_entry_size_def kDynamicEntrySize32_def kDynamicEntrySize64_def)

text \<open>Entry \<open>i\<close> of the array as a pair of words, each half an entry wide.\<close>

definition entry_word :: "elf_reader \<Rightarrow> byte_cursor \<Rightarrow> nat \<Rightarrow> u64" where
  "entry_word r c p = word_of_nat (le_value (field_bytes c p (dynamic_entry_size r div 2)))"

definition dynamic_pair :: "elf_reader \<Rightarrow> byte_cursor \<Rightarrow> nat \<Rightarrow> u64 \<times> u64" where
  "dynamic_pair r c i =
     (let p = i * dynamic_entry_size r in (entry_word r c p, entry_word r c (p + dynamic_entry_size r div 2)))"

text \<open>The entries before the terminator, at most as many as the cap.\<close>

definition live_entries :: "elf_reader \<Rightarrow> byte_cursor \<Rightarrow> (u64 \<times> u64) list" where
  "live_entries r c = takeWhile (\<lambda>e. fst e \<noteq> kDynamicTagNull)
     (map (dynamic_pair r c) [0..<min kMaxDynamicEntries (length (cursor_bytes c) div dynamic_entry_size r)])"

lemma field_bytes_within:
  "q + n \<le> len \<Longrightarrow> p + len \<le> length (cursor_bytes c) \<Longrightarrow>
   field_bytes (c\<lparr>cursor_bytes := substr (cursor_bytes c) p len\<rparr>) q n = field_bytes c (p + q) n"
  by (simp add: field_bytes_def substr_def drop_take min_absorb1 add.commute)

lemma dynamic_fields:
  assumes "image_ok c" "i * dynamic_entry_size r + dynamic_entry_size r \<le> length (cursor_bytes c)"
  defines "e \<equiv> c\<lparr>cursor_bytes := substr (cursor_bytes c) (i * dynamic_entry_size r) (dynamic_entry_size r)\<rparr>"
  shows "field_of r e kDynamicTag = Some (fst (dynamic_pair r c i))" "field_of r e kDynamicValue = Some (snd (dynamic_pair r c i))"
proof -
  have ok: "image_ok e" using assms(1) by (simp add: e_def image_ok_def)
  have l: "length (cursor_bytes e) = dynamic_entry_size r" using assms(2) by (simp add: e_def)
  note sub = field_bytes_within [OF _ assms(2), folded e_def]
  show "field_of r e kDynamicTag = Some (fst (dynamic_pair r c i))"
    using l sub [of 0 "dynamic_entry_size r div 2"]
    by (auto simp: field_of_def location_for_def kDynamicTag_def by_class_def at_offset_def Let_def uint_at_eq [OF ok]
        dynamic_pair_def entry_word_def dynamic_entry_size_cases split: if_splits)
  show "field_of r e kDynamicValue = Some (snd (dynamic_pair r c i))"
    using l sub [of "dynamic_entry_size r div 2" "dynamic_entry_size r div 2"]
    by (auto simp: field_of_def location_for_def kDynamicValue_def by_class_def at_offset_def Let_def uint_at_eq [OF ok]
        dynamic_pair_def entry_word_def dynamic_entry_size_cases split: if_splits)
qed

definition record_pair :: "u64 \<times> u64 \<Rightarrow> dynamic_array \<Rightarrow> dynamic_array" where
  "record_pair e found = record_entry (fst e) (snd e) found"

lemma record_entry_truncated [simp]: "array_truncated (record_entry t v found) = array_truncated found"
  by (simp add: record_entry_def)

lemma subrange_slot:
  assumes "image_ok c" "i * n < 2 ^ 64" "n < 2 ^ 64"
  shows "subrange c (word_of_nat (i * n)) (word_of_nat n) =
    (if i * n + n \<le> length (cursor_bytes c) then Some (c\<lparr>cursor_bytes := substr (cursor_bytes c) (i * n) n\<rparr>) else None)"
proof -
  have "unat (word_of_nat (i * n) :: u64) = i * n" "unat (word_of_nat n :: u64) = n"
    using assms(2,3) by (simp_all only: unat_of_nat) (simp_all add: take_bit_nat_eq_self)
  then show ?thesis by (simp only: subrange_eq [OF assms(1)])
qed

lemma walk_entries_eq:
  assumes "image_ok c" "n \<le> kMaxDynamicEntries" "k \<le> n"
  shows "walk_entries r c [k..<n] found =
    (let live = takeWhile (\<lambda>e. fst e \<noteq> kDynamicTagNull) (map (dynamic_pair r c) [k..<min n (length (cursor_bytes c) div dynamic_entry_size r)])
     in (fold record_pair live found)\<lparr>array_truncated := (array_truncated found \<or> length live = n - k)\<rparr>)"
  using assms(3)
proof (induction "n - k" arbitrary: k found)
  case 0
  then show ?case by simp
next
  case (Suc d)
  let ?es = "dynamic_entry_size r" and ?len = "length (cursor_bytes c)"
  from Suc have k: "k < n" by simp
  have es: "0 < ?es" "?es \<le> 16" by (simp_all add: dynamic_entry_size_cases)
  have "k * ?es < 2 ^ 64"
  proof -
    have "k * ?es \<le> 4096 * 16" using k assms(2) es(2) by (intro mult_le_mono) (simp_all add: kMaxDynamicEntries_def)
    then show ?thesis by simp
  qed
  then have sub: "subrange c (word_of_nat (k * ?es)) (word_of_nat ?es) =
      (if k * ?es + ?es \<le> ?len then Some (c\<lparr>cursor_bytes := substr (cursor_bytes c) (k * ?es) ?es\<rparr>) else None)"
    using es(2) by (intro subrange_slot [OF assms(1)]) simp_all
  have in_range: "k * ?es + ?es \<le> ?len \<longleftrightarrow> k < ?len div ?es"
    using less_eq_div_iff_mult_less_eq [OF es(1), of "Suc k" ?len] by (simp add: Suc_le_eq add.commute)
  show ?case
  proof (cases "k < ?len div ?es")
    case False
    with sub in_range k have "walk_entries r c [k..<n] found = found" by (simp add: upt_conv_Cons)
    moreover have e: "[k..<min n (?len div ?es)] = []" using False by simp
    ultimately show ?thesis using k unfolding Let_def e by simp
  next
    case True
    with in_range have r: "k * ?es + ?es \<le> ?len" by simp
    note f = dynamic_fields [OF assms(1) r]
    have m: "[k..<min n (?len div ?es)] = k # [Suc k..<min n (?len div ?es)]" using True k by (simp add: upt_conv_Cons)
    show ?thesis
    proof (cases "fst (dynamic_pair r c k) = kDynamicTagNull")
      case True
      with sub r f k have "walk_entries r c [k..<n] found = found" by (simp add: upt_conv_Cons)
      then show ?thesis using True k by (simp add: m Let_def)
    next
      case False
      with sub r f k have "walk_entries r c [k..<n] found = walk_entries r c [Suc k..<n] (record_pair (dynamic_pair r c k) found)"
        by (simp add: upt_conv_Cons record_pair_def)
      also note Suc.hyps(1) [of "Suc k"]
      moreover have "Suc x = n - k \<longleftrightarrow> x = n - Suc k" for x using k by arith
      ultimately show ?thesis using Suc.hyps(2) k False by (simp add: m Let_def record_pair_def)
    qed
  qed
qed

text \<open>Folding the entries: the first needed offsets up to the cap, and for every other tag the last value.\<close>

lemma tag_defs_distinct [simp]:
  "kDynamicTagSoname \<noteq> kDynamicTagNeeded" "kDynamicTagStringTable \<noteq> kDynamicTagNeeded"
  "kDynamicTagStringTableSize \<noteq> kDynamicTagNeeded" "kDynamicTagStringTable \<noteq> kDynamicTagSoname"
  "kDynamicTagStringTableSize \<noteq> kDynamicTagSoname" "kDynamicTagStringTableSize \<noteq> kDynamicTagStringTable"
  by (simp_all add: kDynamicTagSoname_def kDynamicTagNeeded_def kDynamicTagStringTable_def kDynamicTagStringTableSize_def)

definition latest :: "u64 \<Rightarrow> (u64 \<times> u64) list \<Rightarrow> u64 option \<Rightarrow> u64 option" where
  "latest tag es old = (case map_of (rev es) tag of None \<Rightarrow> old | Some v \<Rightarrow> Some v)"

lemma latest_simps [simp]:
  "latest tag [] old = old"
  "latest tag (e # es) old = latest tag es (if fst e = tag then Some (snd e) else old)"
  by (auto simp: latest_def map_add_def split: option.split)

lemma latest_None [simp]: "latest tag es None = map_of (rev es) tag"
  by (simp add: latest_def split: option.split)

lemma record_pair_fields [simp]:
  "soname_offset (record_pair e found) = (if fst e = kDynamicTagSoname then Some (snd e) else soname_offset found)"
  "string_table_address (record_pair e found) =
     (if fst e = kDynamicTagStringTable then Some (snd e) else string_table_address found)"
  "string_table_size (record_pair e found) =
     (if fst e = kDynamicTagStringTableSize then Some (snd e) else string_table_size found)"
  "array_truncated (record_pair e found) = array_truncated found"
  "fst e \<noteq> kDynamicTagNeeded \<Longrightarrow> needed_offsets (record_pair e found) = needed_offsets found"
  "fst e \<noteq> kDynamicTagNeeded \<Longrightarrow> array_needed_truncated (record_pair e found) = array_needed_truncated found"
  using tag_defs_distinct tag_defs_distinct [symmetric] by (simp_all add: record_pair_def record_entry_def)

lemma fold_record_pair_latest:
  "soname_offset (fold record_pair es found) = latest kDynamicTagSoname es (soname_offset found)"
  "string_table_address (fold record_pair es found) = latest kDynamicTagStringTable es (string_table_address found)"
  "string_table_size (fold record_pair es found) = latest kDynamicTagStringTableSize es (string_table_size found)"
  "array_truncated (fold record_pair es found) = array_truncated found"
  by (induction es arbitrary: found) simp_all

lemma fold_record_pair_needed:
  assumes "length (needed_offsets found) \<le> kMaxNeededEntries"
  shows "needed_offsets (fold record_pair es found) =
      take kMaxNeededEntries (needed_offsets found @ map snd (filter (\<lambda>e. fst e = kDynamicTagNeeded) es)) \<and>
    array_needed_truncated (fold record_pair es found) = (array_needed_truncated found \<or>
      kMaxNeededEntries < length (needed_offsets found) + length (filter (\<lambda>e. fst e = kDynamicTagNeeded) es))"
  using assms
proof (induction es arbitrary: found)
  case (Cons e es)
  consider (other) "fst e \<noteq> kDynamicTagNeeded"
    | (room) "fst e = kDynamicTagNeeded" "length (needed_offsets found) < kMaxNeededEntries"
    | (full) "fst e = kDynamicTagNeeded" "length (needed_offsets found) = kMaxNeededEntries"
    using Cons.prems by linarith
  then show ?case
  proof cases
    case other
    with Cons show ?thesis by simp
  next
    case room
    then have "record_pair e found = found\<lparr>needed_offsets := needed_offsets found @ [snd e]\<rparr>"
      by (simp add: record_pair_def record_entry_def)
    with room Cons.IH [of "record_pair e found"] show ?thesis by simp
  next
    case full
    then have "record_pair e found = found\<lparr>array_needed_truncated := True\<rparr>"
      by (simp add: record_pair_def record_entry_def)
    with full Cons.IH [of "record_pair e found"] show ?thesis by simp
  qed
qed simp

text \<open>The reference: the array read at once.\<close>

definition dynamic_summary :: "(u64 \<times> u64) list \<Rightarrow> dynamic_array" where
  "dynamic_summary live =
     (let needs = map snd (filter (\<lambda>e. fst e = kDynamicTagNeeded) live)
      in \<lparr>needed_offsets = take kMaxNeededEntries needs, soname_offset = map_of (rev live) kDynamicTagSoname,
          string_table_address = map_of (rev live) kDynamicTagStringTable,
          string_table_size = map_of (rev live) kDynamicTagStringTableSize,
          array_truncated = (length live = kMaxDynamicEntries), array_needed_truncated = (kMaxNeededEntries < length needs)\<rparr>)"

lemma walk_dynamic_array_eq:
  assumes "image_ok c"
  shows "walk_dynamic_array r c = dynamic_summary (live_entries r c)"
  using walk_entries_eq [OF assms le_refl le0, of r no_entries]
  by (intro dynamic_array.equality)
    (simp_all add: walk_dynamic_array_def live_entries_def dynamic_summary_def Let_def no_entries_def
      fold_record_pair_latest fold_record_pair_needed)

subsection \<open>Symbols\<close>

lemma symbol_entry_size_cases: "symbol_entry_size r = (if reader_is_64_bit r then 24 else 16)"
  by (simp add: symbol_entry_size_def kSymbolEntrySize32_def kSymbolEntrySize64_def)

text \<open>The name entry \<open>i\<close> of a symbol table exports, read at the offsets of \<open>Elf32_Sym\<close> or \<open>Elf64_Sym\<close>.\<close>

definition exported_name :: "elf_reader \<Rightarrow> byte_cursor \<Rightarrow> byte_cursor \<Rightarrow> nat \<Rightarrow> string option" where
  "exported_name r table names i =
     (let p = i * symbol_entry_size r;
          name_offset = le_value (field_bytes table p 4);
          info = le_value (field_bytes table (p + (if reader_is_64_bit r then 4 else 12)) 1);
          section_index = le_value (field_bytes table (p + (if reader_is_64_bit r then 6 else 14)) 2)
      in if section_index \<noteq> 0 \<and> info div 16 \<in> {1, 2} then string_at names (word_of_nat name_offset) else None)"

lemma unat_of_nat_small: "n < 2 ^ 64 \<Longrightarrow> unat (word_of_nat n :: u64) = n"
  by (simp add: unat_of_nat take_bit_nat_eq_self)

lemma le_value_field_less:
  "p + n \<le> length (cursor_bytes c) \<Longrightarrow> le_value (field_bytes c p n) < 256 ^ n"
  using le_value_less [of "field_bytes c p n"] by (simp add: length_field_bytes)

lemma binding_eq:
  assumes "n < 256"
  shows "drop_bit kSymbolBindShift (word_of_nat n :: u64) = kSymbolBindGlobal \<longleftrightarrow> n div 16 = 1"
    "drop_bit kSymbolBindShift (word_of_nat n :: u64) = kSymbolBindWeak \<longleftrightarrow> n div 16 = 2"
proof -
  have "unat (drop_bit kSymbolBindShift (word_of_nat n :: u64)) = n div 16"
    using assms by (simp add: drop_bit_eq_div unat_div kSymbolBindShift_def unat_of_nat_small)
  then show "drop_bit kSymbolBindShift (word_of_nat n :: u64) = kSymbolBindGlobal \<longleftrightarrow> n div 16 = 1"
    "drop_bit kSymbolBindShift (word_of_nat n :: u64) = kSymbolBindWeak \<longleftrightarrow> n div 16 = 2"
    by (auto simp: word_unat_eq_iff kSymbolBindGlobal_def kSymbolBindWeak_def)
qed

lemma symbol_export_eq:
  assumes "image_ok c" "i * symbol_entry_size r + symbol_entry_size r \<le> length (cursor_bytes c)"
  shows "symbol_export r names (c\<lparr>cursor_bytes := substr (cursor_bytes c) (i * symbol_entry_size r) (symbol_entry_size r)\<rparr>) =
    exported_name r c names i"
proof -
  define e where "e = c\<lparr>cursor_bytes := substr (cursor_bytes c) (i * symbol_entry_size r) (symbol_entry_size r)\<rparr>"
  have ok: "image_ok e" using assms(1) by (simp add: e_def image_ok_def)
  have l: "length (cursor_bytes e) = symbol_entry_size r" using assms(2) by (simp add: e_def)
  let ?p = "i * symbol_entry_size r"
  define n where "n = le_value (field_bytes c ?p 4)"
  define b where "b = le_value (field_bytes c (?p + (if reader_is_64_bit r then 4 else 12)) 1)"
  define s where "s = le_value (field_bytes c (?p + (if reader_is_64_bit r then 6 else 14)) 2)"
  note sub = field_bytes_within [OF _ assms(2), folded e_def]
  note unfolds = field_of_def location_for_def by_class_def at_offset_def Let_def uint_at_eq [OF ok] symbol_entry_size_cases
  have f: "field_of r e kSymbolName = Some (word_of_nat n)" "field_of r e kSymbolInfo = Some (word_of_nat b)"
    "field_of r e kSymbolSectionIndex = Some (word_of_nat s)"
    using l sub [of 0 4] sub [of 4 1] sub [of 12 1] sub [of 6 2] sub [of 14 2]
    by (simp_all add: unfolds kSymbolName_def kSymbolInfo_def kSymbolSectionIndex_def n_def b_def s_def split: if_splits)
  have small: "b < 256" "s < 65536"
    using le_value_field_less [of "?p + (if reader_is_64_bit r then 4 else 12)" 1 c]
      le_value_field_less [of "?p + (if reader_is_64_bit r then 6 else 14)" 2 c] assms(2)
    by (auto simp: b_def s_def symbol_entry_size_cases split: if_splits)
  have "(word_of_nat s :: u64) = kSectionIndexUndefined \<longleftrightarrow> s = 0"
    using small(2) by (simp add: kSectionIndexUndefined_def word_unat_eq_iff unat_of_nat_small)
  moreover have "exported_name r c names i =
      (if s \<noteq> 0 \<and> b div 16 \<in> {1, 2} then string_at names (word_of_nat n) else None)"
    by (simp only: exported_name_def Let_def n_def b_def s_def)
  ultimately have "symbol_export r names e = exported_name r c names i"
    using f binding_eq [OF small(1)] by (simp add: symbol_export_def Let_def)
  then show ?thesis by (simp only: e_def)
qed

lemma collect_symbols_eq:
  assumes "image_ok c"
  shows "\<forall>i \<in> set is. i * symbol_entry_size r + symbol_entry_size r \<le> length (cursor_bytes c) \<Longrightarrow>
    collect_symbols r c names is syms = syms @ List.map_filter (exported_name r c names) is"
proof (induction "is" arbitrary: syms)
  case (Cons i "is")
  have es: "symbol_entry_size r < 2 ^ 64" by (simp add: symbol_entry_size_cases)
  from Cons.prems have r: "i * symbol_entry_size r + symbol_entry_size r \<le> length (cursor_bytes c)" by simp
  moreover have "length (cursor_bytes c) < 2 ^ 64" using assms by (simp add: image_ok_def)
  ultimately have "i * symbol_entry_size r < 2 ^ 64" by linarith
  from subrange_slot [OF assms this es] r symbol_export_eq [OF assms r, of names] Cons show ?case
    by (auto simp: map_filter_simps split: option.split)
qed (simp add: map_filter_simps)

text \<open>The symbols of a table, as a set.\<close>

definition table_exports :: "elf_reader \<Rightarrow> byte_cursor \<Rightarrow> byte_cursor \<Rightarrow> string set" where
  "table_exports r table names =
     {s. \<exists>i < min kMaxSymbolTableEntries (length (cursor_bytes table) div symbol_entry_size r).
        exported_name r table names i = Some s}"

lemma read_symbol_table_eq:
  assumes "image_ok table" "exported_symbols out = []"
  shows "read_symbol_table r table names out = out\<lparr>
    exported_symbols := take kMaxSymbolSample (sorted_list_of_set (table_exports r table names)),
    symbols_truncated := (kMaxSymbolSample < card (table_exports r table names) \<or>
       kMaxSymbolTableEntries < length (cursor_bytes table) div symbol_entry_size r)\<rparr>"
proof -
  let ?n = "length (cursor_bytes table) div symbol_entry_size r"
  let ?is = "[0..<min kMaxSymbolTableEntries ?n]"
  have "i * symbol_entry_size r + symbol_entry_size r \<le> length (cursor_bytes table)" if "i < ?n" for i
  proof -
    from that have "Suc i * symbol_entry_size r \<le> ?n * symbol_entry_size r" by (intro mult_le_mono1) simp
    also have "\<dots> \<le> length (cursor_bytes table)" by simp
    finally show ?thesis by simp
  qed
  then have c: "collect_symbols r table names ?is [] = List.map_filter (exported_name r table names) ?is"
    by (subst collect_symbols_eq [OF assms(1)]) auto
  have set: "set (List.map_filter (exported_name r table names) ?is) = table_exports r table names"
    by (auto simp: map_filter_def table_exports_def image_iff) force
  have m: "(if ?n > kMaxSymbolTableEntries then kMaxSymbolTableEntries else ?n) = min kMaxSymbolTableEntries ?n" by simp
  show ?thesis
    by (simp only: read_symbol_table_def Let_def unat_cursor_size [OF assms(1)] m assms(2) c normalize_and_cap_eq set prod.case)
qed

subsection \<open>The result\<close>

lemma update_image_fields [simp]:
  "result_value (update_image f res) = f (result_value res)" "result_warnings (update_image f res) = result_warnings res"
  "complete (update_image f res) = complete res"
  by (simp_all add: update_image_def)

lemma set_shape_fields [simp]:
  "result_value (set_shape s res) = (result_value res)\<lparr>shape := s\<rparr>" "result_warnings (set_shape s res) = result_warnings res"
  "complete (set_shape s res) = complete res"
  by (simp_all add: set_shape_def)

lemma elf_warn_fields [simp]:
  "result_value (elf_warn r m res) = result_value res" "complete (elf_warn r m res) = complete res"
  "result_warnings (elf_warn r m res) \<noteq> []"
  by (simp_all add: elf_warn_def warn_def)

text \<open>The invariant of an image that is being filled: what is recorded is ordered, bounded and made of
  terminated strings of the file.\<close>

definition elf_image_ok :: "u8 list \<Rightarrow> elf_image \<Rightarrow> bool" where
  "elf_image_ok img out \<longleftrightarrow>
     sorted_wrt (<) (needed out) \<and> length (needed out) \<le> kMaxNeededEntries \<and> list_all (file_name_ok img) (needed out) \<and>
     sorted_wrt (<) (exported_symbols out) \<and> length (exported_symbols out) \<le> kMaxSymbolSample \<and>
     list_all (file_name_ok img) (exported_symbols out) \<and> (soname out = [] \<or> file_name_ok img (soname out)) \<and>
     (if names_unavailable out then needed out = [] \<and> soname out = [] else True) \<and>
     (if symbols_unavailable out then exported_symbols out = [] else True)"

lemma locate_via_sections_ok:
  "locate_via_sections r is res = (l, res') \<Longrightarrow> image_ok (reader_image r) \<Longrightarrow>
    result_value res' = result_value res \<and> complete res' = complete res \<and>
    (case l of None \<Rightarrow> True | Some l \<Rightarrow> part_of (location_region l) (reader_image r))"
  by (induction r "is" res rule: locate_via_sections.induct)
    (auto split: option.splits if_splits intro: part_of_section_contents)

lemma locate_via_segments_ok:
  "locate_via_segments r is res = (l, res') \<Longrightarrow> image_ok (reader_image r) \<Longrightarrow>
    result_value res' = result_value res \<and> complete res' = complete res \<and>
    (case l of None \<Rightarrow> True | Some l \<Rightarrow> part_of (location_region l) (reader_image r))"
  by (induction r "is" res rule: locate_via_segments.induct)
    (auto split: option.splits if_splits intro: part_of_segment_contents)

lemma locate_dynamic_ok:
  assumes "locate_dynamic r res = (l, res')" "image_ok (reader_image r)"
  shows "result_value res' = result_value res \<and> complete res' = complete res \<and>
    (case l of None \<Rightarrow> True | Some l \<Rightarrow> part_of (location_region l) (reader_image r))"
  using assms locate_via_sections_ok [of r "[0..<section_count r]" res] locate_via_segments_ok [of r "[0..<segment_count r]"]
  by (fastforce simp: locate_dynamic_def locate_dynamic_via_sections_def locate_dynamic_via_segments_def
      split: prod.splits option.splits)

lemma warn_truncation_fields [simp]:
  "result_value (warn_truncation r found res) =
     (result_value res)\<lparr>needed_truncated := (needed_truncated (result_value res) \<or> array_truncated found \<or> array_needed_truncated found)\<rparr>"
  "complete (warn_truncation r found res) = complete res"
  by (auto simp: warn_truncation_def Let_def)

lemma resolve_string_table_ok:
  assumes "resolve_string_table r l found res = (t, res')" "image_ok (reader_image r)"
  shows "result_value res' = result_value res \<and> complete res' = complete res \<and>
    (case t of None \<Rightarrow> result_warnings res' \<noteq> [] | Some t \<Rightarrow> part_of t (reader_image r))"
  using assms part_of_subrange [OF assms(2)] part_of_linked [OF assms(2)]
  by (auto simp: resolve_string_table_def Let_def split: option.splits)

lemma list_all_map_filter: "(\<And>x y. f x = Some y \<Longrightarrow> P y) \<Longrightarrow> list_all P (List.map_filter f xs)"
  by (auto simp: list_all_iff map_filter_def)

lemma normalize_and_cap_list_all:
  "normalize_and_cap vals n = (out, hit) \<Longrightarrow> list_all P vals \<Longrightarrow> list_all P out"
  using normalize_and_cap_props(2) by (fastforce simp: list_all_iff)

lemma read_names_ok:
  assumes "elf_image_ok (cursor_bytes img) out" "needed out = []" "soname out = []"
    and t: "case t of None \<Rightarrow> True | Some t \<Rightarrow> part_of t img"
  shows "elf_image_ok (cursor_bytes img) (read_names found t out)"
    and "shape (read_names found t out) = shape out"
    and "exported_symbols (read_names found t out) = exported_symbols out"
proof -
  let ?ns = "case t of None \<Rightarrow> [] | Some t \<Rightarrow> List.map_filter (string_at t) (needed_offsets found)"
  let ?so = "case t of None \<Rightarrow> [] | Some t \<Rightarrow> (case soname_offset found of None \<Rightarrow> [] | Some p \<Rightarrow>
    (case string_at t p of None \<Rightarrow> [] | Some s \<Rightarrow> s))"
  obtain ns hit where n: "normalize_and_cap ?ns kMaxNeededEntries = (ns, hit)" by fastforce
  have r: "read_names found t out = out\<lparr>names_unavailable := (t = None), soname := ?so, needed := ns,
      needed_truncated := (hit \<or> needed_truncated out)\<rparr>"
    using assms(2,3) n by (auto simp: read_names_def Let_def split: option.splits)
  have "list_all (file_name_ok (cursor_bytes img)) ?ns"
    using t string_at_ok by (auto split: option.splits intro!: list_all_map_filter)
  from normalize_and_cap_list_all [OF n this] normalize_and_cap_props(1,3) [OF n]
  have ns: "list_all (file_name_ok (cursor_bytes img)) ns" "sorted_wrt (<) ns" "length ns \<le> kMaxNeededEntries" by auto
  have so: "?so = [] \<or> file_name_ok (cursor_bytes img) ?so" using t string_at_ok by (auto split: option.splits)
  have "ns = [] \<and> ?so = []" if "t = None" using that n by (simp add: normalize_and_cap_def Let_def)
  with ns so assms(1) show "elf_image_ok (cursor_bytes img) (read_names found t out)"
    unfolding r by (simp add: elf_image_ok_def)
  show "shape (read_names found t out) = shape out" "exported_symbols (read_names found t out) = exported_symbols out"
    by (simp_all add: r)
qed

lemma read_symbol_table_ok:
  assumes "image_ok table" "part_of names img" "elf_image_ok (cursor_bytes img) out" "exported_symbols out = []"
    "\<not> symbols_unavailable out"
  shows "elf_image_ok (cursor_bytes img) (read_symbol_table r table names out)"
    and "symbols_unavailable (read_symbol_table r table names out) = symbols_unavailable out"
    and "shape (read_symbol_table r table names out) = shape out"
proof -
  note eq = read_symbol_table_eq [OF assms(1,4), of r names]
  have fin: "finite (table_exports r table names)"
  proof (rule finite_subset)
    let ?n = "min kMaxSymbolTableEntries (length (cursor_bytes table) div symbol_entry_size r)"
    show "table_exports r table names \<subseteq> (\<lambda>i. the (exported_name r table names i)) ` {..<?n}"
      by (force simp: table_exports_def image_iff)
    show "finite ((\<lambda>i. the (exported_name r table names i)) ` {..<?n})" by simp
  qed
  have "file_name_ok (cursor_bytes img) x" if "x \<in> table_exports r table names" for x
    using that string_at_ok [OF assms(2)] by (auto simp: table_exports_def exported_name_def Let_def split: if_splits)
  then have all: "list_all (file_name_ok (cursor_bytes img)) (take kMaxSymbolSample (sorted_list_of_set (table_exports r table names)))"
    using fin set_sorted_list_of_set [OF fin] by (metis in_set_takeD list_all_iff)
  have "sorted_wrt (<) (take kMaxSymbolSample (sorted_list_of_set (table_exports r table names)))"
    by (intro sorted_wrt_take sorted_list_of_set.strict_sorted_key_list_of_set)
  with all assms(3,5) show "elf_image_ok (cursor_bytes img) (read_symbol_table r table names out)"
    by (simp add: eq elf_image_ok_def)
  show "symbols_unavailable (read_symbol_table r table names out) = symbols_unavailable out"
    "shape (read_symbol_table r table names out) = shape out" by (simp_all add: eq)
qed

lemma symbol_names_ok:
  assumes "symbol_names r h = Some c" "image_ok (reader_image r)"
  shows "part_of c (reader_image r)"
  using assms part_of_section_contents [OF assms(2)] by (auto simp: symbol_names_def split: option.splits if_splits)

lemma collect_via_sections_ok:
  "collect_via_sections r is res = (b, res') \<Longrightarrow> image_ok (reader_image r) \<Longrightarrow>
    elf_image_ok (cursor_bytes (reader_image r)) (result_value res) \<Longrightarrow> exported_symbols (result_value res) = [] \<Longrightarrow>
    \<not> symbols_unavailable (result_value res) \<Longrightarrow>
    elf_image_ok (cursor_bytes (reader_image r)) (result_value res') \<and> \<not> symbols_unavailable (result_value res') \<and>
    shape (result_value res') = shape (result_value res) \<and> complete res' = complete res \<and>
    (if b then True else exported_symbols (result_value res') = [])"
proof (induction r "is" res rule: collect_via_sections.induct)
  case (2 r index rest res)
  show ?case
  proof (cases "section_header r index")
    case None
    with 2 show ?thesis by simp
  next
    case (Some h)
    show ?thesis
    proof (cases "field_of r h kSectionType = Some kSectionTypeDynamicSymbols")
      case False
      with Some 2 show ?thesis by simp
    next
      case dynsym: True
      show ?thesis
      proof (cases "section_contents r h = None \<or> symbol_names r h = None")
        case True
        with Some dynsym 2 show ?thesis by (auto split: option.splits)
      next
        case False
        then obtain t n where tn: "section_contents r h = Some t" "symbol_names r h = Some n" by auto
        have "image_ok t" using part_of_section_contents [OF "2.prems"(2) tn(1)] by (simp add: part_of_def)
        from read_symbol_table_ok [OF this symbol_names_ok [OF tn(2) "2.prems"(2)] "2.prems"(3-5), of r] Some dynsym tn 2
        show ?thesis by (auto split: option.splits)
      qed
    qed
  qed
qed auto

text \<open>The start of a reader: nothing recorded yet.\<close>

definition blank :: "elf_image \<Rightarrow> bool" where
  "blank out \<longleftrightarrow> soname out = [] \<and> needed out = [] \<and> exported_symbols out = [] \<and> \<not> needed_truncated out \<and>
     \<not> symbols_truncated out \<and> \<not> symbols_unavailable out \<and> \<not> names_unavailable out"

lemma blank_iff: "blank out \<longleftrightarrow> out = no_elf\<lparr>shape := shape out\<rparr>"
  by (cases out) (auto simp: blank_def no_elf_def)

lemma blank_set_shape [simp]: "blank (out\<lparr>shape := s\<rparr>) = blank out"
  by (simp add: blank_def)

lemma blank_no_elf [simp]: "blank no_elf"
  by (simp add: blank_def no_elf_def)

lemma blank_ok: "blank out \<Longrightarrow> elf_image_ok img out"
  by (simp add: blank_def elf_image_ok_def)

lemma read_dynamic_ok:
  assumes "image_ok (reader_image r)" "blank (result_value res)" "shape (result_value res) = Dynamic"
    "part_of (location_region l) (reader_image r)"
  shows "elf_image_ok (cursor_bytes (reader_image r)) (result_value (read_dynamic r l res)) \<and>
    shape (result_value (read_dynamic r l res)) = Dynamic \<and> complete (read_dynamic r l res) = complete res"
proof -
  let ?img = "cursor_bytes (reader_image r)" and ?found = "walk_dynamic_array r (location_region l)"
  obtain t res1 where t: "resolve_string_table r l ?found (warn_truncation r ?found res) = (t, res1)" by fastforce
  note t1 = resolve_string_table_ok [OF t assms(1)]
  have "elf_image_ok ?img (result_value res1)" "needed (result_value res1) = []" "soname (result_value res1) = []"
    "\<not> symbols_unavailable (result_value res1)" "exported_symbols (result_value res1) = []" "shape (result_value res1) = Dynamic"
    using t1 assms(2,3) by (simp_all add: elf_image_ok_def blank_def)
  note r1 = this
  have "case t of None \<Rightarrow> True | Some t \<Rightarrow> part_of t (reader_image r)" using t1 by (auto split: option.splits)
  note names = read_names_ok [OF r1(1-3) this, of ?found]
  define res2 where "res2 = update_image (read_names ?found t) res1"
  have r2: "elf_image_ok ?img (result_value res2)" "shape (result_value res2) = Dynamic" "exported_symbols (result_value res2) = []"
    "complete res2 = complete res"
    using names r1 t1 by (simp_all add: res2_def)
  have su: "\<not> symbols_unavailable (result_value res2)"
    using r1(4) by (auto simp: res2_def read_names_def Let_def split: option.splits prod.splits)
  show ?thesis
  proof (cases "from_section_headers l")
    case False
    with t r2 show ?thesis by (simp add: read_dynamic_def Let_def elf_image_ok_def flip: res2_def)
  next
    case True
    obtain c res3 where c: "collect_exported_symbols r res2 = (c, res3)" by fastforce
    from collect_via_sections_ok [OF c [unfolded collect_exported_symbols_def] assms(1) r2(1,3) su]
    have "elf_image_ok ?img (result_value res3)" "\<not> symbols_unavailable (result_value res3)" "shape (result_value res3) = Dynamic"
      "complete res3 = complete res" "if c then True else exported_symbols (result_value res3) = []" using r2 by auto
    with True t c show ?thesis
      by (cases c) (simp_all add: read_dynamic_def Let_def elf_image_ok_def flip: res2_def)
  qed
qed

lemma elf_reader_read_ok:
  assumes "image_ok (reader_image r)" "result_value res = no_elf"
  shows "(let out = result_value (elf_reader_read r res) in
    elf_image_ok (cursor_bytes (reader_image r)) out \<and> (shape out = Dynamic \<or> blank out) \<and> shape out \<noteq> NotElf \<and>
    (if shape out = Malformed then result_warnings (elf_reader_read r res) \<noteq> [] else True) \<and>
    complete (elf_reader_read r res) = complete res)"
proof -
  define q where "q = read_table_bounds r"
  define res0 where "res0 = (if section_headers_capped q \<or> segment_headers_capped q
    then elf_warn q ''declares more headers than bomwerk follows; the rest were skipped'' res else res)"
  have v: "result_value res0 = no_elf" "complete res0 = complete res" using assms(2) by (simp_all add: res0_def)
  have ok: "image_ok (reader_image q)" "cursor_bytes (reader_image q) = cursor_bytes (reader_image r)"
    using assms(1) by (simp_all add: q_def)
  obtain l res1 where l: "locate_dynamic q res0 = (l, res1)" by fastforce
  note l1 = locate_dynamic_ok [OF l ok(1)]
  have e: "elf_reader_read r res =
     (if cursor_size (reader_image q) < word_of_nat (if reader_is_64_bit q then kHeaderSize64 else kHeaderSize32)
      then set_shape Malformed (elf_warn q ''ELF header is truncated; nothing about this image could be read'' res0)
      else case field_of q (reader_image q) kHeaderType of
        None \<Rightarrow> set_shape Malformed (elf_warn q ''ELF header is truncated'' res0)
      | Some type \<Rightarrow>
          if section_table_declared q \<and> section_header q 0 = None \<or>
             segment_table_declared q \<and> segment_header q 0 = None
          then set_shape Malformed
            (elf_warn q ''declares a header table that lies outside the file; nothing could be read from it'' res0)
          else if type = kTypeRelocatable then set_shape Relocatable res0
          else case l of
            None \<Rightarrow> set_shape StaticExecutable res1
          | Some location \<Rightarrow> read_dynamic q location (set_shape Dynamic res1))"
    unfolding elf_reader_read_def Let_def by (simp only: q_def [symmetric] res0_def [symmetric] l prod.case)
  have "(\<exists>m. elf_reader_read r res = set_shape Malformed (elf_warn q m res0)) \<or>
      elf_reader_read r res = set_shape Relocatable res0 \<or> elf_reader_read r res = set_shape StaticExecutable res1 \<or>
      (\<exists>d. l = Some d \<and> elf_reader_read r res = read_dynamic q d (set_shape Dynamic res1))"
    unfolding e by (cases "field_of q (reader_image q) kHeaderType"; cases l) auto
  then consider (short) m where "elf_reader_read r res = set_shape Malformed (elf_warn q m res0)"
    | (rel) "elf_reader_read r res = set_shape Relocatable res0"
    | (static) "elf_reader_read r res = set_shape StaticExecutable res1"
    | (dyn) d where "l = Some d" "elf_reader_read r res = read_dynamic q d (set_shape Dynamic res1)" by blast
  then show ?thesis
  proof cases
    case dyn
    have "blank (result_value (set_shape Dynamic res1))" using l1 v by simp
    from read_dynamic_ok [OF ok(1) this, of d] dyn l1 ok(2) v show ?thesis by (simp add: Let_def)
  qed (use v l1 blank_ok in \<open>simp_all add: Let_def\<close>)
qed

lemma unat_ucast_byte: "unat (ucast (b :: u8) :: u64) = unat b"
proof -
  have "unat b < 2 ^ 8" using unsigned_less [of b, where ?'a = nat] by simp
  then have "unat b < 2 ^ 64" by simp
  then show ?thesis by (simp add: unsigned_ucast_eq take_bit_nat_eq_self)
qed

lemma uint_at_byte:
  assumes "image_ok c" "p < length (cursor_bytes c)" "p < 2 ^ 64"
  shows "uint_at c (word_of_nat p) OneByte = Some (ucast (cursor_bytes c ! p))"
proof -
  have "field_bytes c p 1 = [cursor_bytes c ! p]"
    using assms(2) by (simp add: field_bytes_def substr_def take_Suc hd_drop_conv_nth)
  then show ?thesis using assms by (simp add: uint_at_eq unat_of_nat_small word_unat_eq_iff unat_ucast_byte)
qed

lemma ucast_byte_eq: "(ucast (b :: u8) :: u64) = word_of_nat n \<longleftrightarrow> unat b = n" if "n < 256"
  using that unsigned_less [of b, where ?'a = nat] by (auto simp: word_unat_eq_iff unat_ucast_byte unat_of_nat_small)

definition elf_magic_bytes :: "u8 list" where "elf_magic_bytes = [0x7F, 0x45, 0x4C, 0x46]"

lemma magic_matches_eq:
  assumes "image_ok c" "4 \<le> length (cursor_bytes c)"
  shows "magic_matches c 0 kMagic \<longleftrightarrow> take 4 (cursor_bytes c) = elf_magic_bytes"
proof -
  obtain b0 b1 b2 b3 bs where c: "cursor_bytes c = b0 # b1 # b2 # b3 # bs"
    using assms(2) by (auto simp: numeral_eq_Suc Suc_le_length_iff)
  have u: "uint_at c 0 OneByte = Some (ucast b0)" "uint_at c 1 OneByte = Some (ucast b1)" "uint_at c 2 OneByte = Some (ucast b2)"
    "uint_at c 3 OneByte = Some (ucast b3)"
    using uint_at_byte [OF assms(1), of 0] uint_at_byte [OF assms(1), of 1] uint_at_byte [OF assms(1), of 2]
      uint_at_byte [OF assms(1), of 3] by (simp_all add: c)
  have "(ucast b0 :: u64) = 0x7F \<longleftrightarrow> b0 = 0x7F" "(ucast b1 :: u64) = 0x45 \<longleftrightarrow> b1 = 0x45"
    "(ucast b2 :: u64) = 0x4C \<longleftrightarrow> b2 = 0x4C" "(ucast b3 :: u64) = 0x46 \<longleftrightarrow> b3 = 0x46"
    using ucast_byte_eq [of "0x7F" b0] ucast_byte_eq [of "0x45" b1] ucast_byte_eq [of "0x4C" b2] ucast_byte_eq [of "0x46" b3]
    by (simp_all add: word_unat_eq_iff)
  then show ?thesis by (simp add: kMagic_def elf_magic_bytes_def c u)
qed

text \<open>A file is an ELF file when it was read whole, is no shorter than \<open>e_ident\<close> and starts with the magic.\<close>

definition is_elf_file :: "disk_file \<Rightarrow> bool" where
  "is_elf_file f \<longleftrightarrow>
     (let file = read_file_bounded f kMaxBinaryBytes in
      readable file \<and> \<not> truncated file \<and> kIdentSize \<le> length (bytes file) \<and> take 4 (as_image (bytes file)) = elf_magic_bytes)"

definition whole_image :: "disk_file \<Rightarrow> u8 list" where
  "whole_image f = as_image (bytes (read_file_bounded f kMaxBinaryBytes))"

lemma whole_image_ok: "image_ok \<lparr>cursor_bytes = whole_image f, cursor_order = order\<rparr>"
proof -
  have "length (bytes (read_file_bounded f kMaxBinaryBytes)) \<le> kMaxBinaryBytes"
    by (auto simp: read_file_bounded_def Let_def split: option.split)
  then show ?thesis by (simp add: image_ok_def whole_image_def as_image_def kMaxBinaryBytes_def)
qed

lemma read_elf_cases:
  obtains (not_elf) "\<not> is_elf_file f" "result_value (read_elf path f) = no_elf" "complete (read_elf path f)"
  | (malformed) "is_elf_file f" "result_value (read_elf path f) = no_elf\<lparr>shape := Malformed\<rparr>"
      "result_warnings (read_elf path f) \<noteq> []" "complete (read_elf path f)"
  | (elf) order b where "is_elf_file f"
      "read_elf path f = elf_reader_read (new_reader \<lparr>cursor_bytes = whole_image f, cursor_order = order\<rparr> b path) (new_result no_elf)"
proof -
  let ?file = "read_file_bounded f kMaxBinaryBytes"
  let ?id = "\<lparr>cursor_bytes = whole_image f, cursor_order = Little\<rparr>"
  have l: "length (whole_image f) = length (bytes ?file)" by (simp add: whole_image_def as_image_def)
  have u: "unat (cursor_size ?id) = length (bytes ?file)" using unat_cursor_size [OF whole_image_ok] l by simp
  have short: "cursor_size ?id < word_of_nat kIdentSize \<longleftrightarrow> length (bytes ?file) < kIdentSize"
    by (simp add: word_less_nat_alt u kIdentSize_def)
  have magic: "magic_matches ?id 0 kMagic \<longleftrightarrow> take 4 (whole_image f) = elf_magic_bytes" if "kIdentSize \<le> length (bytes ?file)"
    using magic_matches_eq [OF whole_image_ok [of f Little]] that l by (simp add: kIdentSize_def)
  note unfolds = read_elf_def Let_def as_image_def [symmetric]
  show thesis
  proof (cases "is_elf_file f")
    case False
    then have "read_elf path f = new_result no_elf \<or> (\<exists>c m. read_elf path f = warn c m [] [] (new_result no_elf))"
      using short magic unfolding read_elf_def Let_def is_elf_file_def
      by (simp only: whole_image_def [symmetric] split: if_split) (auto simp: not_less)
    then have "result_value (read_elf path f) = no_elf" "complete (read_elf path f)"
      by (auto simp: new_result_def warn_def)
    with False show thesis by (rule not_elf)
  next
    case True
    then have c: "readable ?file" "\<not> truncated ?file" "\<not> cursor_size ?id < word_of_nat kIdentSize" "magic_matches ?id 0 kMagic"
      using short magic by (auto simp: is_elf_file_def Let_def whole_image_def)
    have "(\<exists>m. read_elf path f = set_shape Malformed (warn kBinaryMalformedHeader m [] [] (new_result no_elf))) \<or>
      (\<exists>order b. read_elf path f = elf_reader_read (new_reader \<lparr>cursor_bytes = whole_image f, cursor_order = order\<rparr> b path) (new_result no_elf))"
      unfolding read_elf_def Let_def using c
      by (simp only: whole_image_def [symmetric] if_True if_False simp_thms with_byte_order_def byte_cursor.simps split: if_split) blast
    then show thesis
    proof (elim disjE exE)
      fix m assume "read_elf path f = set_shape Malformed (warn kBinaryMalformedHeader m [] [] (new_result no_elf))"
      with True show thesis by (intro malformed) (auto simp: new_result_def warn_def)
    qed (use True elf in blast)
  qed
qed

section \<open>Properties\<close>

text \<open>Whatever the ELF header declares, a section or segment header is read exactly from its slot of the
  declared table, and only when the table is declared and the slot lies inside the file: no product of
  entry size and index and no sum with the table offset is used after it wrapped.\<close>

theorem header_slots_exact:
  assumes "image_ok img" "i < kMaxSectionHeaders"
  shows "let r = read_table_bounds (new_reader img is_64_bit label) in
    section_header r i = table_slot img (section_table_offset r) (section_entry_size r) i \<and>
    segment_header r i = table_slot img (segment_table_offset r) (segment_entry_size r) i \<and>
    section_count r \<le> kMaxSectionHeaders \<and> segment_count r \<le> kMaxProgramHeaders"
proof -
  let ?r = "read_table_bounds (new_reader img is_64_bit label)"
  have ok: "reader_ok ?r" by (rule reader_ok_read_table_bounds [OF assms(1)])
  have i: "i < 2 ^ 16" using assms(2) by (simp add: kMaxSectionHeaders_def)
  have "reader_image ?r = img" by (simp add: new_reader_def)
  with section_header_eq [OF ok i] segment_header_eq [OF ok i] ok show ?thesis by (simp add: Let_def reader_ok_def)
qed

theorem header_slots_exact_witness:
  "section_header (read_table_bounds (new_reader \<lparr>cursor_bytes = [0x7F, 0x45], cursor_order = Little\<rparr> True ''a'')) 3 =
    table_slot \<lparr>cursor_bytes = [0x7F, 0x45], cursor_order = Little\<rparr>
      (section_table_offset (read_table_bounds (new_reader \<lparr>cursor_bytes = [0x7F, 0x45], cursor_order = Little\<rparr> True ''a'')))
      (section_entry_size (read_table_bounds (new_reader \<lparr>cursor_bytes = [0x7F, 0x45], cursor_order = Little\<rparr> True ''a''))) 3"
proof -
  have "image_ok \<lparr>cursor_bytes = [0x7F, 0x45], cursor_order = Little\<rparr>" "3 < kMaxSectionHeaders"
    by (simp_all add: image_ok_def kMaxSectionHeaders_def)
  from header_slots_exact [OF this, of True "''a''"] show ?thesis by (simp only: Let_def)
qed

text \<open>A virtual address is translated through the first \<open>PT_LOAD\<close> segment that covers it and whose byte is in
  the file, to exactly that byte's offset, and to nothing when there is none; the offset is always inside
  the file, so the subtraction that bounds the string table cannot underflow.\<close>

theorem file_offset_of_address_exact:
  assumes "image_ok img"
  shows "let r = read_table_bounds (new_reader img is_64_bit label) in
    map_option unat (file_offset_of_address r address) =
      first_answer (\<lambda>i. Option.bind (table_slot img (segment_table_offset r) (segment_entry_size r) i) (mapped_offset r address))
        [0..<segment_count r] \<and>
    (case file_offset_of_address r address of None \<Rightarrow> True | Some p \<Rightarrow> p < cursor_size img)"
proof -
  let ?r = "read_table_bounds (new_reader img is_64_bit label)"
  have ok: "reader_ok ?r" by (rule reader_ok_read_table_bounds [OF assms(1)])
  have img: "reader_image ?r = img" by (simp add: new_reader_def)
  have "p < cursor_size img" if "file_offset_of_address ?r address = Some p" for p
    using file_offset_of_address_less [OF ok that] by (simp only: img word_less_nat_alt unat_cursor_size [OF assms])
  with file_offset_via_eq [OF ok segment_indices [OF ok], of address] show ?thesis
    by (simp add: Let_def img file_offset_of_address_def split: option.split)
qed

theorem file_offset_of_address_exact_witness:
  "file_offset_of_address (read_table_bounds (new_reader \<lparr>cursor_bytes = [], cursor_order = Big\<rparr> False ''a'')) 16 = None"
proof -
  have "image_ok \<lparr>cursor_bytes = [], cursor_order = Big\<rparr>" by (simp add: image_ok_def)
  from file_offset_of_address_exact [OF this, of False "''a''" 16]
  have "case file_offset_of_address (read_table_bounds (new_reader \<lparr>cursor_bytes = [], cursor_order = Big\<rparr> False ''a'')) 16 of
      None \<Rightarrow> True | Some p \<Rightarrow> p < cursor_size \<lparr>cursor_bytes = [], cursor_order = Big\<rparr>"
    by (simp only: Let_def)
  moreover have "cursor_size \<lparr>cursor_bytes = [], cursor_order = Big\<rparr> = 0" by (simp add: cursor_size_def)
  ultimately show ?thesis by (simp split: option.splits)
qed

text \<open>C8: The walk of the dynamic array is the array read at once: the entries before the terminator, or up to
  the end of the section or the cap, give the needed offsets in their order up to their cap and the last
  value of each other tag, and the two truncation flags say which of the two caps was reached.\<close>

theorem walk_dynamic_array_exact:
  assumes "image_ok region"
  shows "walk_dynamic_array r region = dynamic_summary (live_entries r region)"
  by (rule walk_dynamic_array_eq [OF assms])

theorem walk_dynamic_array_exact_witness:
  "walk_dynamic_array (new_reader \<lparr>cursor_bytes = [], cursor_order = Little\<rparr> False ''a'')
     \<lparr>cursor_bytes = [1, 0, 0, 0, 7, 0, 0, 0, 14, 0, 0, 0, 9, 0, 0, 0, 0, 0, 0, 0, 0, 0, 0, 0], cursor_order = Little\<rparr> =
   dynamic_summary [(1, 7), (14, 9)]"
proof -
  let ?c = "\<lparr>cursor_bytes = [1, 0, 0, 0, 7, 0, 0, 0, 14, 0, 0, 0, 9, 0, 0, 0, 0, 0, 0, 0, 0, 0, 0, 0], cursor_order = Little\<rparr>"
  let ?r = "new_reader \<lparr>cursor_bytes = [], cursor_order = Little\<rparr> False ''a''"
  have ok: "image_ok ?c" by (simp add: image_ok_def)
  have "min kMaxDynamicEntries (length (cursor_bytes ?c) div dynamic_entry_size ?r) = Suc (Suc (Suc 0))"
    by (simp add: kMaxDynamicEntries_def dynamic_entry_size_cases new_reader_def)
  then have "live_entries ?r ?c = [(1, 7), (14, 9)]"
    unfolding live_entries_def
    by (simp add: upt_rec dynamic_pair_def entry_word_def dynamic_entry_size_cases new_reader_def field_bytes_def
        substr_def kDynamicTagNull_def Let_def)
  with walk_dynamic_array_exact [OF ok, of ?r] show ?thesis by (simp only:)
qed

text \<open>The symbol sample is exactly the defined global and weak symbols of the table that have a readable name,
  each read at the field offsets of its ELF class, in ascending order without duplicates and cut at the
  cap; the flag says when there are more.\<close>

theorem symbol_sample_exact:
  assumes "image_ok table" "exported_symbols out = []"
  shows "read_symbol_table r table names out = out\<lparr>
    exported_symbols := take kMaxSymbolSample (sorted_list_of_set (table_exports r table names)),
    symbols_truncated := (kMaxSymbolSample < card (table_exports r table names) \<or>
       kMaxSymbolTableEntries < length (cursor_bytes table) div symbol_entry_size r)\<rparr>"
  by (rule read_symbol_table_eq [OF assms])

theorem symbol_sample_exact_witness:
  "exported_symbols (read_symbol_table (new_reader \<lparr>cursor_bytes = [], cursor_order = Little\<rparr> False ''a'')
     \<lparr>cursor_bytes = [], cursor_order = Little\<rparr> \<lparr>cursor_bytes = [], cursor_order = Little\<rparr> no_elf) = []"
proof -
  let ?c = "\<lparr>cursor_bytes = [], cursor_order = Little\<rparr>"
  have "image_ok ?c" "exported_symbols no_elf = []" by (simp_all add: image_ok_def no_elf_def)
  from symbol_sample_exact [OF this, of "new_reader ?c False ''a''" ?c] show ?thesis
    by (simp add: table_exports_def)
qed

text \<open>C6: Whatever bytes a file holds, what the ELF reader reports of it is ordered, bounded and taken from the
  file: the needed libraries and the symbols are strictly ascending and within their caps, and every name,
  the soname included, is a non-empty zero-terminated string of the file shorter than the cap; where a flag
  says that names or symbols were not available, none is reported.\<close>

theorem read_elf_wellformed:
  "(let r = read_elf path f; out = result_value r in
    complete r \<and>
    sorted_wrt (<) (needed out) \<and> length (needed out) \<le> kMaxNeededEntries \<and> list_all (file_name_ok (whole_image f)) (needed out) \<and>
    sorted_wrt (<) (exported_symbols out) \<and> length (exported_symbols out) \<le> kMaxSymbolSample \<and>
    list_all (file_name_ok (whole_image f)) (exported_symbols out) \<and>
    (soname out = [] \<or> file_name_ok (whole_image f) (soname out)) \<and>
    (if names_unavailable out then needed out = [] \<and> soname out = [] else True) \<and>
    (if symbols_unavailable out then exported_symbols out = [] else True))"
proof -
  have c: "complete (new_result no_elf)" "result_value (new_result no_elf) = no_elf" by (simp_all add: new_result_def)
  have "complete (read_elf path f) \<and> elf_image_ok (whole_image f) (result_value (read_elf path f))"
  proof (cases rule: read_elf_cases [of f path])
    case (elf order b)
    have "reader_image (new_reader \<lparr>cursor_bytes = whole_image f, cursor_order = order\<rparr> b path) =
        \<lparr>cursor_bytes = whole_image f, cursor_order = order\<rparr>" by (simp add: new_reader_def)
    with elf_reader_read_ok [of "new_reader \<lparr>cursor_bytes = whole_image f, cursor_order = order\<rparr> b path" "new_result no_elf"]
      whole_image_ok [of f order] c show ?thesis by (simp add: elf(2) Let_def)
  qed (use blank_ok in simp_all)
  then show ?thesis unfolding Let_def elf_image_ok_def .
qed

text \<open>Every file that carries the ELF magic lands in one of the four other shapes and every other file is
  \<open>NotElf\<close>; a malformed image always comes with a warning, and only a dynamic image carries names,
  symbols or flags.\<close>

theorem read_elf_shape:
  "(let r = read_elf path f; out = result_value r in
    (shape out = NotElf) = (\<not> is_elf_file f) \<and>
    (if shape out = Malformed then result_warnings r \<noteq> [] else True) \<and>
    (shape out = Dynamic \<or> out = no_elf\<lparr>shape := shape out\<rparr>))"
proof (cases rule: read_elf_cases [of f path])
  case not_elf
  then show ?thesis by (simp add: Let_def no_elf_def)
next
  case malformed
  then show ?thesis by (simp add: Let_def no_elf_def)
next
  case (elf order b)
  let ?r = "new_reader \<lparr>cursor_bytes = whole_image f, cursor_order = order\<rparr> b path"
  have "image_ok (reader_image ?r)" using whole_image_ok [of f order] by (simp add: new_reader_def)
  moreover have "result_value (new_result no_elf) = no_elf" by (simp add: new_result_def)
  ultimately show ?thesis using elf_reader_read_ok [of ?r "new_result no_elf"] elf(1)
    by (simp add: elf(2) Let_def flip: blank_iff)
qed


definition lost_dynamic_image :: byte_cursor where
  "lost_dynamic_image = \<lparr>cursor_bytes =
     [0x7F, 0x45, 0x4C, 0x46, 1, 1, 1, 0, 0, 0, 0, 0, 0, 0, 0, 0,  3, 0, 3, 0, 1, 0, 0, 0, 0, 0, 0, 0, 0, 0, 0, 0,
      52, 0, 0, 0, 0, 0, 0, 0, 52, 0, 32, 0, 0, 0, 40, 0, 1, 0, 0, 0,
      1, 0, 0, 0, 6, 0, 0, 0, 0, 0, 0, 0, 0, 0, 0, 0, 200, 0, 0, 0, 64, 0, 0, 0, 0, 0, 0, 0, 0, 0, 0, 0, 0, 0, 0, 0, 0, 0, 0, 0],
     cursor_order = Little\<rparr>"

text \<open>An image whose \<open>SHT_DYNAMIC\<close> section lies outside the file, with no \<open>PT_DYNAMIC\<close> to fall back on, comes
  back as \<open>StaticExecutable\<close>, with a warning: the declared but unreadable dynamic section is told apart from
  an absent one only by the warning.\<close>

theorem lost_dynamic_section_reported_static:
  "elf_reader_read (new_reader lost_dynamic_image False ''a.so'') (new_result no_elf) =
     set_shape StaticExecutable (warn kBinaryMalformedHeader ''a.so: dynamic section lies outside the file'' [] [] (new_result no_elf))"
  by code_simp
end
