(* ===== verification/Git_Config.thy ===== *)
theory Git_Config
  imports Text Warnings File_Io
begin

text \<open>
  \<open>core/git_config.hpp\<close> and \<open>core/git_config.cpp\<close>: the bounded parser of \<open>.gitmodules\<close> and \<open>.git/config\<close>.
  \<open>git_config_state\<close> holds the locals of \<open>parse_git_config\<close> its loop changes: the result, the section entries
  go to (\<open>None\<close> is \<open>kNoSection\<close>) and whether the cap was reported. The loop over the lines is
  \<open>parse_config_lines\<close>, a recursion on what is left of the text.
\<close>

section \<open>Code\<close>

record git_config_entry =
  entry_key :: string
  entry_value :: string

record git_config_section =
  section_name :: string
  section_subsection :: string
  section_entries :: "git_config_entry list"

type_synonym git_config = "git_config_section list"

definition kMaxConfigBytes :: nat where "kMaxConfigBytes = 1048576"
definition kMaxLineBytes :: nat where "kMaxLineBytes = 8 * 1024"
definition kMaxSections :: nat where "kMaxSections = 5000"
definition kUtf8Bom :: string where "kUtf8Bom = [CHR 0xEF, CHR 0xBB, CHR 0xBF]"

definition unquoted :: "string \<Rightarrow> string" where
  "unquoted val =
     (if length val \<ge> 2 \<and> hd val = CHR 0x22 \<and> last val = CHR 0x22 then substr val 1 (length val - 2) else val)"

definition parse_section_header :: "string \<Rightarrow> (string \<times> string) option" where
  "parse_section_header line =
     (case find_char CHR '']'' line of
        None \<Rightarrow> None
      | Some close \<Rightarrow>
          let inside = substr line 1 (close - 1) in
          case find_char CHR 0x22 inside of
            None \<Rightarrow> Some (to_lower_ascii (trimmed_view inside), [])
          | Some quote \<Rightarrow>
              Some (to_lower_ascii (trimmed_view (take quote inside)),
                case rfind_char CHR 0x22 inside of
                  Some last_quote \<Rightarrow>
                    if last_quote > quote then substr inside (quote + 1) (last_quote - quote - 1) else []
                | None \<Rightarrow> []))"

fun find_entry :: "git_config_entry list \<Rightarrow> string \<Rightarrow> string option" where
  "find_entry [] wanted = None"
| "find_entry (e # es) wanted = (if entry_key e = wanted then Some (entry_value e) else find_entry es wanted)"

definition git_config_section_find :: "git_config_section \<Rightarrow> string \<Rightarrow> string option" where
  "git_config_section_find s key = find_entry (section_entries s) (to_lower_ascii key)"

fun find_in_sections :: "git_config \<Rightarrow> string \<Rightarrow> string \<Rightarrow> string \<Rightarrow> string option" where
  "find_in_sections [] wanted_name subsection key = None"
| "find_in_sections (s # rest) wanted_name subsection key =
     (if section_name s = wanted_name \<and> section_subsection s = subsection then
        (case git_config_section_find s key of
           Some val \<Rightarrow> Some val
         | None \<Rightarrow> find_in_sections rest wanted_name subsection key)
      else find_in_sections rest wanted_name subsection key)"

definition git_config_find :: "git_config \<Rightarrow> string \<Rightarrow> string \<Rightarrow> string \<Rightarrow> string option" where
  "git_config_find cfg name subsection key = find_in_sections cfg (to_lower_ascii name) subsection key"

record git_config_state =
  gc_result :: "git_config result"
  gc_current :: "nat option"
  gc_capped :: bool

definition gc_warn :: "warning_code \<Rightarrow> string \<Rightarrow> git_config_state \<Rightarrow> git_config_state" where
  "gc_warn code m st = st\<lparr>gc_result := warn code m [] [] (gc_result st)\<rparr>"

definition push_section :: "string \<Rightarrow> string \<Rightarrow> git_config_state \<Rightarrow> git_config_state" where
  "push_section name subsection st =
     (let sections = result_value (gc_result st) @
            [\<lparr>section_name = name, section_subsection = subsection, section_entries = []\<rparr>]
      in st\<lparr>gc_result := (gc_result st)\<lparr>result_value := sections\<rparr>, gc_current := Some (length sections - 1)\<rparr>)"

definition push_entry :: "nat \<Rightarrow> git_config_entry \<Rightarrow> git_config_state \<Rightarrow> git_config_state" where
  "push_entry i e st =
     (let sections = result_value (gc_result st) in
      st\<lparr>gc_result := (gc_result st)\<lparr>result_value :=
        sections[i := (sections ! i)\<lparr>section_entries := section_entries (sections ! i) @ [e]\<rparr>]\<rparr>\<rparr>)"

definition parse_entry :: "string \<Rightarrow> git_config_entry" where
  "parse_entry line =
     (case find_char CHR ''='' line of
        None \<Rightarrow> \<lparr>entry_key = to_lower_ascii line, entry_value = ''true''\<rparr>
      | Some equals \<Rightarrow> \<lparr>entry_key = to_lower_ascii (trimmed_view (take equals line)),
                        entry_value = unquoted (trimmed (drop (equals + 1) line))\<rparr>)"

definition parse_header_line :: "string \<Rightarrow> string \<Rightarrow> git_config_state \<Rightarrow> git_config_state" where
  "parse_header_line label line st =
     (if length (result_value (gc_result st)) \<ge> kMaxSections then
        (let st = (if \<not> gc_capped st
                   then (gc_warn kGitConfigStructureInvalid (label @ '': more than '' @ string_of_nat kMaxSections @
                     '' sections; ignoring the rest'') st)\<lparr>gc_capped := True\<rparr>
                   else st)
         in st\<lparr>gc_current := None\<rparr>)
      else case parse_section_header line of
        None \<Rightarrow> (gc_warn kGitConfigStructureInvalid (label @ '': skipping an unterminated section header'') st)\<lparr>gc_current := None\<rparr>
      | Some (name, subsection) \<Rightarrow> push_section name subsection st)"

definition parse_config_line :: "string \<Rightarrow> git_config_state \<Rightarrow> string \<Rightarrow> git_config_state" where
  "parse_config_line label st raw_line =
     (if length raw_line > kMaxLineBytes then
        gc_warn kMalformedEntrySkipped (label @ '': skipping an overlong line ('' @ string_of_nat (length raw_line) @ '' bytes)'') st
      else
        let line = trimmed raw_line in
        if line = [] \<or> hd line = CHR ''#'' \<or> hd line = CHR '';'' then st
        else if hd line = CHR ''['' then parse_header_line label line st
        else case gc_current st of
          None \<Rightarrow> gc_warn kMalformedEntrySkipped (label @ '': skipping an entry outside any section'') st
        | Some current \<Rightarrow>
            let e = parse_entry line in
            if entry_key e \<noteq> [] then push_entry current e st else st)"

function parse_config_lines :: "string \<Rightarrow> string \<Rightarrow> git_config_state \<Rightarrow> git_config_state" where
  "parse_config_lines label rest st =
     (if rest = [] then st
      else case find_char CHR 0x0A rest of
        None \<Rightarrow> parse_config_line label st rest
      | Some newline \<Rightarrow> parse_config_lines label (drop (newline + 1) rest) (parse_config_line label st (take newline rest)))"
  by pat_completeness auto

termination
  by (relation "measure (\<lambda>(label, rest, st). length rest)") (auto dest: find_pos_less)

declare parse_config_lines.simps [simp del]

definition parse_git_config :: "string \<Rightarrow> string \<Rightarrow> git_config result" where
  "parse_git_config text label =
     (let text = (if take (length kUtf8Bom) text = kUtf8Bom then drop (length kUtf8Bom) text else text);
          r = new_result [];
          r = (if length text > kMaxConfigBytes
               then warn kFileSizeLimitExceeded (label @ '': exceeds '' @ string_of_nat kMaxConfigBytes @
                      '' bytes; parsing the first part only'') [] [] r
               else r);
          text = (if length text > kMaxConfigBytes then take kMaxConfigBytes text else text)
      in gc_result (parse_config_lines label text \<lparr>gc_result = r, gc_current = None, gc_capped = False\<rparr>))"

text \<open>The file at \<open>path\<close>, \<open>None\<close> when \<open>std::filesystem::exists\<close> does not say it is there.\<close>

definition read_git_config :: "string \<Rightarrow> string \<Rightarrow> disk_file option \<Rightarrow> git_config result" where
  "read_git_config path filename found =
     (case found of
        None \<Rightarrow> new_result []
      | Some f \<Rightarrow>
          let file_read = read_file_bounded f (kMaxConfigBytes + 1) in
          if \<not> readable file_read then warn kUnreadableFile (''cannot read '' @ path) [] [] (new_result [])
          else parse_git_config (bytes file_read) filename)"

section \<open>Lemmas\<close>

lemma parse_config_lines_Nil [simp]: "parse_config_lines label [] st = st"
  by (subst parse_config_lines.simps) simp

lemma parse_config_lines_last:
  "rest \<noteq> [] \<Longrightarrow> find_char CHR 0x0A rest = None \<Longrightarrow> parse_config_lines label rest st = parse_config_line label st rest"
  by (subst parse_config_lines.simps) simp

lemma parse_config_lines_next:
  "find_char CHR 0x0A rest = Some n \<Longrightarrow> parse_config_lines label rest st =
    parse_config_lines label (drop (n + 1) rest) (parse_config_line label st (take n rest))"
  by (subst parse_config_lines.simps) auto

lemma parse_config_lines_step:
  assumes "CHR 0x0A \<notin> set line"
  shows "parse_config_lines label (line @ CHR 0x0A # rest) st = parse_config_lines label rest (parse_config_line label st line)"
proof -
  have "find_char CHR 0x0A (line @ CHR 0x0A # rest) = Some (length line)"
    using assms by (subst find_pos_append) auto
  from parse_config_lines_next [OF this] show ?thesis by simp
qed

text \<open>An invariant of the state that every line keeps holds at the end.\<close>

lemma parse_config_lines_invariant:
  assumes step: "\<And>label st line. P st \<Longrightarrow> CHR 0x0A \<notin> set line \<Longrightarrow> P (parse_config_line label st line)"
  shows "P st \<Longrightarrow> P (parse_config_lines label rest st)"
proof (induction label rest st rule: parse_config_lines.induct)
  case (1 label rest st)
  show ?case
  proof (cases "find_char CHR 0x0A rest")
    case None
    then have "CHR 0x0A \<notin> set rest" by (auto simp: find_pos_None)
    note last = step [OF 1(2) this]
    show ?thesis
    proof (cases "rest = []")
      case True
      with 1(2) show ?thesis by simp
    next
      case False
      show ?thesis unfolding parse_config_lines_last [OF False None] by (rule last)
    qed
  next
    case (Some n)
    have ne: "rest \<noteq> []" using find_pos_less [OF Some] by (cases rest) simp_all
    have no: "CHR 0x0A \<notin> set (take n rest)" using find_pos_SomeD [OF Some] by blast
    have "P (parse_config_line label st (take n rest))" by (rule step [OF 1(2) no])
    from 1(1) [OF ne Some this] have "P (parse_config_lines label (drop (n + 1) rest) (parse_config_line label st (take n rest)))" .
    then show ?thesis by (simp only: parse_config_lines_next [OF Some])
  qed
qed

subsection \<open>What is kept\<close>

definition entry_ok :: "git_config_entry \<Rightarrow> bool" where
  "entry_ok e \<longleftrightarrow> entry_key e \<noteq> [] \<and> to_lower_ascii (entry_key e) = entry_key e \<and> CHR 0x0A \<notin> set (entry_key e) \<and>
     CHR 0x0A \<notin> set (entry_value e) \<and> length (entry_key e) \<le> kMaxLineBytes \<and> length (entry_value e) \<le> kMaxLineBytes"

definition section_ok :: "git_config_section \<Rightarrow> bool" where
  "section_ok s \<longleftrightarrow> to_lower_ascii (section_name s) = section_name s \<and> CHR '']'' \<notin> set (section_name s) \<and>
     CHR '']'' \<notin> set (section_subsection s) \<and> length (section_name s) + length (section_subsection s) \<le> kMaxLineBytes \<and>
     list_all entry_ok (section_entries s)"

definition git_config_ok :: "git_config_state \<Rightarrow> bool" where
  "git_config_ok st \<longleftrightarrow>
     (let sections = result_value (gc_result st) in
      complete (gc_result st) \<and> length sections \<le> kMaxSections \<and> list_all section_ok sections \<and>
      (case gc_current st of None \<Rightarrow> True | Some i \<Rightarrow> i < length sections))"

lemma gc_warn_fields [simp]:
  "result_value (gc_result (gc_warn c m st)) = result_value (gc_result st)"
  "complete (gc_result (gc_warn c m st)) = complete (gc_result st)"
  "gc_current (gc_warn c m st) = gc_current st" "gc_capped (gc_warn c m st) = gc_capped st"
  by (simp_all add: gc_warn_def warn_def)

lemma not_in_trimmed: "c \<notin> set s \<Longrightarrow> c \<notin> set (trimmed_view s)"
  using set_trimmed_view [of s] by auto

lemma set_substr_subset: "set (substr s p n) \<subseteq> set s"
  using set_take_subset [of n "drop p s"] set_drop_subset [of p s] by (auto simp: substr_def)

lemma lower_bracket: "CHR '']'' \<in> set (to_lower_ascii s) \<longleftrightarrow> CHR '']'' \<in> set s"
  by (rule in_to_lower_nonletter) simp_all

lemma lower_newline: "CHR 0x0A \<in> set (to_lower_ascii s) \<longleftrightarrow> CHR 0x0A \<in> set s"
  by (rule in_to_lower_nonletter) simp_all

lemma set_unquoted: "set (unquoted v) \<subseteq> set v"
  using set_substr_subset [of v 1 "length v - 2"] by (auto simp: unquoted_def)

lemma length_unquoted: "length (unquoted v) \<le> length v"
  by (simp add: unquoted_def)

lemma parse_section_header_ok:
  assumes "parse_section_header line = Some (name, sub)"
  shows "to_lower_ascii name = name" "CHR '']'' \<notin> set name" "CHR '']'' \<notin> set sub" "length name + length sub \<le> length line"
proof -
  from assms obtain close where close: "find_char CHR '']'' line = Some close"
    by (auto simp: parse_section_header_def split: option.splits)
  define inside where "inside = substr line 1 (close - 1)"
  have no: "CHR '']'' \<notin> set inside"
  proof
    assume "CHR '']'' \<in> set inside"
    moreover have "set inside \<subseteq> set (take close line)"
      by (cases line; cases close) (auto simp: substr_def inside_def)
    ultimately show False using find_pos_SomeD [OF close] by auto
  qed
  have len: "length inside \<le> length line" by (simp add: inside_def)
  consider (bare) "find_char CHR 0x22 inside = None" "name = to_lower_ascii (trimmed_view inside)" "sub = []"
    | (quoted) q n where "find_char CHR 0x22 inside = Some q" "name = to_lower_ascii (trimmed_view (take q inside))"
        "sub = substr inside (q + 1) n"
    | (none) q where "find_char CHR 0x22 inside = Some q" "name = to_lower_ascii (trimmed_view (take q inside))" "sub = []"
    using assms close by (auto simp: parse_section_header_def Let_def inside_def split: option.splits if_splits)
  then have "to_lower_ascii name = name \<and> CHR '']'' \<notin> set name \<and> CHR '']'' \<notin> set sub \<and> length name + length sub \<le> length line"
  proof cases
    case bare
    with no len length_trimmed_view [of inside] show ?thesis by (auto simp: lower_bracket dest: subsetD [OF set_trimmed_view])
  next
    case quoted
    have "length (trimmed_view (take q inside)) \<le> min (length inside) q"
      using length_trimmed_view [of "take q inside"] by simp
    moreover have "length sub \<le> length inside - (q + 1)" by (simp add: quoted(3))
    moreover have "q < length inside" using find_pos_less [OF quoted(1)] .
    ultimately have "length name + length sub \<le> length line" using len quoted(2) by simp
    moreover have "CHR '']'' \<notin> set (take q inside)" using no by (meson in_set_takeD)
    ultimately show ?thesis using no quoted
      by (auto simp: lower_bracket dest: subsetD [OF set_trimmed_view] subsetD [OF set_substr_subset])
  next
    case none
    have "CHR '']'' \<notin> set (take q inside)" using no by (meson in_set_takeD)
    with none len length_trimmed_view [of "take q inside"] show ?thesis
      by (auto simp: lower_bracket dest: subsetD [OF set_trimmed_view])
  qed
  then show "to_lower_ascii name = name" "CHR '']'' \<notin> set name" "CHR '']'' \<notin> set sub" "length name + length sub \<le> length line" by auto
qed

lemma parse_entry_ok:
  assumes "CHR 0x0A \<notin> set line" "5 \<le> kMaxLineBytes" "length line \<le> kMaxLineBytes" "entry_key (parse_entry line) \<noteq> []"
  shows "entry_ok (parse_entry line)"
proof (cases "find_char CHR ''='' line")
  case None
  with assms show ?thesis by (simp add: parse_entry_def entry_ok_def lower_newline)
next
  case (Some q)
  have "length (trimmed_view (take q line)) \<le> length line" "length (unquoted (trimmed (drop (q + 1) line))) \<le> length line"
    using length_trimmed_view [of "take q line"] length_unquoted [of "trimmed (drop (q + 1) line)"]
      length_trimmed_view [of "drop (q + 1) line"] by (simp_all add: trimmed_def)
  moreover have "CHR 0x0A \<notin> set (take q line)" "CHR 0x0A \<notin> set (drop (q + 1) line)"
    using assms(1) by (auto dest: in_set_takeD in_set_dropD)
  ultimately show ?thesis using Some assms(3,4) set_unquoted [of "trimmed (drop (q + 1) line)"]
    by (auto simp: parse_entry_def entry_ok_def lower_newline trimmed_def not_in_trimmed dest: subsetD [OF set_trimmed_view])
qed

lemma list_all_update: "list_all P xs \<Longrightarrow> P x \<Longrightarrow> list_all P (xs[i := x])"
  using set_update_subset_insert [of xs i x] by (auto simp: list_all_iff)

lemma git_config_ok_step:
  assumes "git_config_ok st" "CHR 0x0A \<notin> set raw"
  shows "git_config_ok (parse_config_line label st raw)"
proof (cases "length raw > kMaxLineBytes \<or> trimmed raw = [] \<or> hd (trimmed raw) = CHR ''#'' \<or> hd (trimmed raw) = CHR '';''")
  case True
  then have "parse_config_line label st raw = st \<or> (\<exists>c m. parse_config_line label st raw = gc_warn c m st)"
    unfolding parse_config_line_def Let_def by (simp only: split: if_split) blast
  with assms(1) show ?thesis by (elim disjE exE) (simp_all add: git_config_ok_def Let_def)
next
  case False
  let ?line = "trimmed raw"
  have l: "length ?line \<le> kMaxLineBytes" using False length_trimmed_view [of raw] by (simp add: trimmed_def)
  have nl: "CHR 0x0A \<notin> set ?line" using assms(2) by (simp add: trimmed_def not_in_trimmed)
  show ?thesis
  proof (cases "hd ?line = CHR ''[''")
    case True
    with False have "parse_config_line label st raw = parse_header_line label ?line st"
      by (simp add: parse_config_line_def Let_def)
    moreover have "git_config_ok (parse_header_line label ?line st)"
      using assms(1) l parse_section_header_ok [of ?line]
      by (auto simp: parse_header_line_def git_config_ok_def push_section_def section_ok_def Let_def split: option.splits)
    ultimately show ?thesis by simp
  next
    case entry: False
    have e: "entry_key (parse_entry ?line) \<noteq> [] \<Longrightarrow> entry_ok (parse_entry ?line)"
      using parse_entry_ok [OF nl _ l] by (simp add: kMaxLineBytes_def)
    show ?thesis
    proof (cases "gc_current st")
      case None
      with False entry assms(1) show ?thesis by (auto simp: parse_config_line_def git_config_ok_def Let_def)
    next
      case (Some i)
      let ?ss = "result_value (gc_result st)"
      have i: "i < length ?ss" "list_all section_ok ?ss" using assms(1) Some by (auto simp: git_config_ok_def Let_def)
      then have "section_ok (?ss ! i)" by (simp add: list_all_length)
      with i e have "entry_key (parse_entry ?line) \<noteq> [] \<Longrightarrow>
          list_all section_ok (?ss[i := (?ss ! i)\<lparr>section_entries := section_entries (?ss ! i) @ [parse_entry ?line]\<rparr>])"
        by (intro list_all_update) (simp_all add: section_ok_def)
      with False entry Some assms(1) i show ?thesis
        by (auto simp: parse_config_line_def git_config_ok_def push_entry_def Let_def)
    qed
  qed
qed

lemma parse_git_config_ok:
  "git_config_ok \<lparr>gc_result = parse_git_config text label, gc_current = None, gc_capped = False\<rparr>"
proof -
  obtain rest r where p: "parse_git_config text label =
      gc_result (parse_config_lines label rest \<lparr>gc_result = r, gc_current = None, gc_capped = False\<rparr>)"
    and r: "result_value r = []" "complete r"
    by (auto simp: parse_git_config_def Let_def new_result_def warn_def split: if_splits)
  have "git_config_ok \<lparr>gc_result = r, gc_current = None, gc_capped = False\<rparr>" using r by (simp add: git_config_ok_def)
  from parse_config_lines_invariant [of git_config_ok, OF git_config_ok_step this]
  show ?thesis unfolding p by (auto simp: git_config_ok_def Let_def)
qed

subsection \<open>Writing a configuration\<close>

text \<open>The reference writer: a header with a quoted subsection, then one quoted value a line.\<close>

definition render_header :: "git_config_section \<Rightarrow> string" where
  "render_header s = CHR ''['' # section_name s @ '' '' @ [CHR 0x22] @ section_subsection s @ [CHR 0x22, CHR '']'']"

definition render_entry :: "git_config_entry \<Rightarrow> string" where
  "render_entry e = entry_key e @ '' = '' @ [CHR 0x22] @ entry_value e @ [CHR 0x22]"

definition render_lines :: "git_config \<Rightarrow> string list" where
  "render_lines cfg = concat (map (\<lambda>s. render_header s # map render_entry (section_entries s)) cfg)"

definition render_config :: "git_config \<Rightarrow> string" where
  "render_config cfg = concat (map (\<lambda>l. l @ [CHR 0x0A]) (render_lines cfg))"

definition tidy :: "string \<Rightarrow> bool" where
  "tidy s \<longleftrightarrow> (if s = [] then True else \<not> is_space (hd s) \<and> \<not> is_space (last s))"

definition plain_section :: "git_config_section \<Rightarrow> bool" where
  "plain_section s \<longleftrightarrow> to_lower_ascii (section_name s) = section_name s \<and> tidy (section_name s) \<and>
     list_all (\<lambda>c. c \<notin> {CHR '']'', CHR 0x22, CHR 0x0A}) (section_name s) \<and>
     list_all (\<lambda>c. c \<notin> {CHR '']'', CHR 0x0A}) (section_subsection s) \<and> length (render_header s) \<le> kMaxLineBytes"

definition plain_entry :: "git_config_entry \<Rightarrow> bool" where
  "plain_entry e \<longleftrightarrow> entry_key e \<noteq> [] \<and> to_lower_ascii (entry_key e) = entry_key e \<and> tidy (entry_key e) \<and>
     hd (entry_key e) \<notin> {CHR ''#'', CHR '';'', CHR ''[''} \<and>
     list_all (\<lambda>c. c \<notin> {CHR ''='', CHR 0x0A}) (entry_key e) \<and>
     list_all (\<lambda>c. c \<noteq> CHR 0x0A) (entry_value e) \<and> length (render_entry e) \<le> kMaxLineBytes"

definition plain_config :: "git_config \<Rightarrow> bool" where
  "plain_config cfg \<longleftrightarrow> length cfg \<le> kMaxSections \<and> length (render_config cfg) \<le> kMaxConfigBytes \<and>
     list_all (\<lambda>s. plain_section s \<and> list_all plain_entry (section_entries s)) cfg"

lemma trimmed_pad:
  assumes "tidy m" "\<forall>c \<in> set a. is_space c" "\<forall>c \<in> set b. is_space c"
  shows "trimmed_view (a @ m @ b) = m"
proof (cases "m = []")
  case True
  have "\<forall>c \<in> set (a @ b). is_space c" using assms(2,3) by (auto simp del: insert_iff)
  from trimmed_view_blank [OF this] True show ?thesis by simp
next
  case False
  with assms show ?thesis by (auto simp: tidy_def intro: trimmed_view_core)
qed

lemma parse_section_header_render:
  assumes "plain_section s"
  shows "parse_section_header (render_header s) = Some (section_name s, section_subsection s)"
proof -
  let ?n = "section_name s" and ?b = "section_subsection s"
  have n: "\<forall>c \<in> set ?n. c \<noteq> CHR '']'' \<and> c \<noteq> CHR 0x22" "\<forall>c \<in> set ?b. c \<noteq> CHR '']''" "tidy ?n" "to_lower_ascii ?n = ?n"
    using assms by (auto simp: plain_section_def list_all_iff)
  define inside where "inside = ?n @ '' '' @ CHR 0x22 # ?b @ [CHR 0x22]"
  have h: "render_header s = (CHR ''['' # inside) @ [CHR '']'']" by (simp add: render_header_def inside_def)
  have close: "find_char CHR '']'' (render_header s) = Some (Suc (length inside))"
    unfolding h using n by (subst find_pos_append) (auto simp: inside_def)
  have sub: "substr (render_header s) 1 (Suc (length inside) - 1) = inside" by (simp add: h substr_def)
  have quote: "find_char CHR 0x22 inside = Some (length ?n + 1)"
    unfolding inside_def using n by (subst find_pos_append) auto
  have last: "rfind_char CHR 0x22 inside = Some (length ?n + 2 + length ?b)"
    using rfind_pos_append [of "[]" "\<lambda>x. x = CHR 0x22" "CHR 0x22" "?n @ '' '' @ CHR 0x22 # ?b"] by (simp add: inside_def)
  have "take (length ?n + 1) inside = [] @ ?n @ '' ''" by (simp add: inside_def)
  moreover have "\<forall>c \<in> set '' ''. is_space c" by (simp add: kAsciiWhitespace_def)
  ultimately have name: "trimmed_view (take (length ?n + 1) inside) = ?n" using trimmed_pad [OF n(3), of "[]" "'' ''"] by simp
  have mid: "substr inside (length ?n + 1 + 1) (length ?b) = ?b" by (simp add: inside_def substr_def)
  show ?thesis
    unfolding parse_section_header_def Let_def close option.case sub quote last name n(4) using mid by simp
qed

lemma quote_not_space: "\<not> is_space CHR 0x22"
  by (simp add: kAsciiWhitespace_def)

lemma parse_entry_render:
  assumes "plain_entry e"
  shows "parse_entry (render_entry e) = e"
proof -
  let ?k = "entry_key e" and ?v = "entry_value e"
  have k: "\<forall>c \<in> set ?k. c \<noteq> CHR ''=''" "tidy ?k" "to_lower_ascii ?k = ?k"
    using assms by (auto simp: plain_entry_def list_all_iff)
  have r: "render_entry e = (?k @ '' '') @ CHR ''='' # '' '' @ (CHR 0x22 # ?v @ [CHR 0x22])" by (simp add: render_entry_def)
  have eq: "find_char CHR ''='' (render_entry e) = Some (length ?k + 1)"
    unfolding r using k(1) by (subst find_pos_append) auto
  have sp: "\<forall>c \<in> set '' ''. is_space c" by (simp add: kAsciiWhitespace_def)
  have t: "take (length ?k + 1) (render_entry e) = [] @ ?k @ '' ''"
    and d: "drop (length ?k + 1 + 1) (render_entry e) = '' '' @ (CHR 0x22 # ?v @ [CHR 0x22]) @ []" by (simp_all add: r)
  have "trimmed_view (take (length ?k + 1) (render_entry e)) = ?k"
    unfolding t using sp by (intro trimmed_pad k) simp_all
  moreover have "trimmed_view (drop (length ?k + 1 + 1) (render_entry e)) = CHR 0x22 # ?v @ [CHR 0x22]"
    unfolding d using sp quote_not_space by (intro trimmed_pad) (simp_all add: tidy_def)
  moreover have "unquoted (CHR 0x22 # ?v @ [CHR 0x22]) = ?v" by (simp add: unquoted_def substr_def)
  ultimately show ?thesis by (simp add: parse_entry_def eq k(3) trimmed_def)
qed

definition gc_state :: "git_config \<Rightarrow> nat option \<Rightarrow> git_config_state" where
  "gc_state cfg current = \<lparr>gc_result = new_result cfg, gc_current = current, gc_capped = False\<rparr>"

lemma trimmed_line: "l \<noteq> [] \<Longrightarrow> \<not> is_space (hd l) \<Longrightarrow> \<not> is_space (last l) \<Longrightarrow> trimmed l = l"
  by (simp add: trimmed_def trimmed_view_id)

lemma parse_config_line_header:
  assumes "plain_section s" "length cfg < kMaxSections"
  shows "parse_config_line label (gc_state cfg current) (render_header s) = gc_state (cfg @ [s\<lparr>section_entries := []\<rparr>]) (Some (length cfg))"
proof -
  have len: "\<not> length (render_header s) > kMaxLineBytes" using assms(1) by (simp add: plain_section_def)
  have "last (render_header s) = CHR '']''" "hd (render_header s) = CHR ''[''" "render_header s \<noteq> []"
    by (simp_all add: render_header_def)
  moreover have "\<not> is_space CHR '']''" "\<not> is_space CHR ''[''" by (simp_all add: kAsciiWhitespace_def)
  ultimately have t: "trimmed (render_header s) = render_header s" "hd (render_header s) = CHR ''[''" "render_header s \<noteq> []"
    using trimmed_line by simp_all
  have "parse_config_line label (gc_state cfg current) (render_header s) = parse_header_line label (render_header s) (gc_state cfg current)"
    using len t by (simp add: parse_config_line_def Let_def)
  also have "\<dots> = gc_state (cfg @ [s\<lparr>section_entries := []\<rparr>]) (Some (length cfg))"
    using assms(2) by (simp add: parse_header_line_def parse_section_header_render [OF assms(1)] push_section_def gc_state_def new_result_def)
  finally show ?thesis .
qed

lemma parse_config_line_entry:
  assumes "plain_entry e"
  shows "parse_config_line label (gc_state (cfg @ [s]) (Some (length cfg))) (render_entry e) =
    gc_state (cfg @ [s\<lparr>section_entries := section_entries s @ [e]\<rparr>]) (Some (length cfg))"
proof -
  have len: "\<not> length (render_entry e) > kMaxLineBytes" using assms by (simp add: plain_entry_def)
  have k: "entry_key e \<noteq> []" "\<not> is_space (hd (entry_key e))" "hd (entry_key e) \<notin> {CHR ''#'', CHR '';'', CHR ''[''}"
    using assms by (auto simp: plain_entry_def tidy_def)
  have hd: "hd (render_entry e) = hd (entry_key e)" "last (render_entry e) = CHR 0x22" "render_entry e \<noteq> []"
    using k(1) by (simp_all add: render_entry_def)
  then have t: "trimmed (render_entry e) = render_entry e" using k(2) quote_not_space by (intro trimmed_line) simp_all
  show ?thesis
    using len hd k parse_entry_render [OF assms] by (simp add: parse_config_line_def t Let_def push_entry_def gc_state_def new_result_def)
qed

lemma parse_entries:
  "list_all plain_entry es \<Longrightarrow>
   parse_config_lines label (concat (map (\<lambda>l. l @ [CHR 0x0A]) (map render_entry es)) @ rest) (gc_state (cfg @ [s]) (Some (length cfg))) =
   parse_config_lines label rest (gc_state (cfg @ [s\<lparr>section_entries := section_entries s @ es\<rparr>]) (Some (length cfg)))"
proof (induction es arbitrary: s)
  case Nil
  then show ?case by simp
next
  case (Cons e es)
  then have e: "plain_entry e" by simp
  have nl: "CHR 0x0A \<notin> set (render_entry e)"
    using e by (auto simp: plain_entry_def render_entry_def list_all_iff)
  have "parse_config_lines label (concat (map (\<lambda>l. l @ [CHR 0x0A]) (map render_entry (e # es))) @ rest) (gc_state (cfg @ [s]) (Some (length cfg))) =
      parse_config_lines label (concat (map (\<lambda>l. l @ [CHR 0x0A]) (map render_entry es)) @ rest)
        (parse_config_line label (gc_state (cfg @ [s]) (Some (length cfg))) (render_entry e))"
    using parse_config_lines_step [OF nl] by simp
  with Cons show ?case by (simp add: parse_config_line_entry [OF e])
qed

lemma parse_sections:
  "list_all (\<lambda>s. plain_section s \<and> list_all plain_entry (section_entries s)) cfg \<Longrightarrow> length pre + length cfg \<le> kMaxSections \<Longrightarrow>
   gc_result (parse_config_lines label (render_config cfg) (gc_state pre current)) = new_result (pre @ cfg)"
proof (induction cfg arbitrary: pre current)
  case Nil
  then show ?case by (simp add: render_config_def render_lines_def gc_state_def)
next
  case (Cons s cfg)
  then have s: "plain_section s" "list_all plain_entry (section_entries s)" by simp_all
  have nl: "CHR 0x0A \<notin> set (render_header s)"
    using s(1) by (auto simp: plain_section_def render_header_def list_all_iff)
  have r: "render_config (s # cfg) = render_header s @ CHR 0x0A #
      (concat (map (\<lambda>l. l @ [CHR 0x0A]) (map render_entry (section_entries s))) @ render_config cfg)"
    by (simp add: render_config_def render_lines_def)
  have "parse_config_lines label (render_config (s # cfg)) (gc_state pre current) =
      parse_config_lines label (render_config cfg) (gc_state (pre @ [s]) (Some (length pre)))"
    unfolding r parse_config_lines_step [OF nl]
    using Cons.prems(2) by (simp add: parse_config_line_header [OF s(1)] parse_entries [OF s(2)] del: map_map)
  with Cons show ?case by simp
qed

section \<open>Properties\<close>

text \<open>C13: Parsing inverts writing: a configuration whose sections and entries are written in the canonical form is
  read back exactly, in order and without a warning, whatever characters its values hold, as long as it
  stays within the size, line and section caps.\<close>

theorem git_config_roundtrip:
  assumes "plain_config cfg"
  shows "parse_git_config (render_config cfg) label = new_result cfg"
proof -
  have bom: "\<not> take (length kUtf8Bom) (render_config cfg) = kUtf8Bom"
    by (cases cfg) (simp_all add: render_config_def render_lines_def render_header_def kUtf8Bom_def)
  have "\<not> length (render_config cfg) > kMaxConfigBytes" using assms by (simp add: plain_config_def)
  with bom have "parse_git_config (render_config cfg) label = gc_result (parse_config_lines label (render_config cfg) (gc_state [] None))"
    by (simp add: parse_git_config_def Let_def gc_state_def)
  with parse_sections [of cfg "[]" label None] assms show ?thesis by (simp add: plain_config_def)
qed

theorem git_config_roundtrip_witness:
  "parse_git_config (render_config [\<lparr>section_name = ''submodule'', section_subsection = ''lib/x'',
      section_entries = [\<lparr>entry_key = ''url'', entry_value = ''../x = y''\<rparr>]\<rparr>]) ''f'' =
   new_result [\<lparr>section_name = ''submodule'', section_subsection = ''lib/x'',
      section_entries = [\<lparr>entry_key = ''url'', entry_value = ''../x = y''\<rparr>]\<rparr>]"
proof -
  have l: "to_lower_ascii ''submodule'' = ''submodule''" "to_lower_ascii ''url'' = ''url''" by code_simp+
  show ?thesis
    by (rule git_config_roundtrip)
      (simp add: plain_config_def plain_section_def plain_entry_def tidy_def kAsciiWhitespace_def render_header_def
        render_entry_def render_config_def render_lines_def kMaxSections_def kMaxConfigBytes_def kMaxLineBytes_def l
        del: to_lower_ascii_Cons)
qed

text \<open>Whatever the text is, the parsed configuration stays within its caps: at most 5000 sections, names and
  keys in lower case, keys never empty, and no name, key or value longer than a line or holding a line
  break.\<close>

theorem git_config_bounded:
  "(let sections = result_value (parse_git_config text label) in
    length sections \<le> kMaxSections \<and> list_all section_ok sections)"
  using parse_git_config_ok [of "text" label] by (simp add: git_config_ok_def Let_def)

text \<open>C3: A lookup returns the value of the first entry of the file, in order, whose section, subsection and key
  match, the names without regard to case: later sections of the same name are consulted when the first
  ones lack the key.\<close>

definition flat_entries :: "git_config \<Rightarrow> ((string \<times> string \<times> string) \<times> string) list" where
  "flat_entries cfg = concat (map (\<lambda>s. map (\<lambda>e. ((section_name s, section_subsection s, entry_key e), entry_value e))
     (section_entries s)) cfg)"

theorem git_config_find_first:
  "git_config_find cfg name subsection key =
    map_of (flat_entries cfg) (to_lower_ascii name, subsection, to_lower_ascii key)"
proof -
  have e: "map_of (map (\<lambda>e. ((n, b, entry_key e), entry_value e)) es) (n', b', k) =
      (if n = n' \<and> b = b' then find_entry es k else None)" for n b es n' b' k
    by (induction es) auto
  have "find_in_sections cfg n subsection key = map_of (flat_entries cfg) (n, subsection, to_lower_ascii key)" for n
    by (induction cfg) (auto simp: flat_entries_def e map_add_def git_config_section_find_def split: option.splits)
  then show ?thesis by (simp add: git_config_find_def)
qed

text \<open>A subsection name that holds a closing bracket is read as empty: the header is cut at the first
  bracket, inside the quotes, and its text is dropped without a warning.\<close>

theorem bracketed_subsection_is_lost:
  "parse_section_header (''[submodule '' @ [CHR 0x22] @ ''lib]x'' @ [CHR 0x22] @ '']'') = Some (''submodule'', [])"
  by code_simp

end
