(* ===== verification/Xml_Scan.thy ===== *)
theory Xml_Scan
  imports Text
begin

text \<open>
  \<open>core/xml_scan.hpp\<close> and \<open>core/xml_scan.cpp\<close>: the XML scanner the Maven and MSBuild readers share. Positions
  are indices into the text, as in the code; each loop is a recursion on the position, which only grows.
\<close>

section \<open>Code\<close>

definition kCommentOpen :: string where "kCommentOpen = ''<!--''"
definition kCommentClose :: string where "kCommentClose = ''-->''"
definition kCdataOpen :: string where "kCdataOpen = ''<![CDATA[''"
definition kCdataClose :: string where "kCdataClose = '']]>''"

lemmas xml_marks = kCommentOpen_def kCommentClose_def kCdataOpen_def kCdataClose_def

definition newlines_of :: "string \<Rightarrow> string" where
  "newlines_of removed_text = replicate (count_list removed_text CHR 0x0A) CHR 0x0A"

definition is_xml_whitespace :: "char \<Rightarrow> bool" where
  "is_xml_whitespace c \<longleftrightarrow> c = CHR '' '' \<or> c = CHR 0x09 \<or> c = CHR 0x0D \<or> c = CHR 0x0A"

function strip_comments_and_unwrap_cdata :: "string \<Rightarrow> string" where
  "strip_comments_and_unwrap_cdata xml =
     (if xml = [] then []
      else if starts_with xml kCommentOpen then
        (case find_sub_from kCommentClose xml (length kCommentOpen) of
           None \<Rightarrow> []
         | Some comment_close \<Rightarrow>
             let comment_end = comment_close + length kCommentClose
             in newlines_of (take comment_end xml) @ strip_comments_and_unwrap_cdata (drop comment_end xml))
      else if starts_with xml kCdataOpen then
        (case find_sub_from kCdataClose xml (length kCdataOpen) of
           None \<Rightarrow> []
         | Some cdata_close \<Rightarrow>
             substr xml (length kCdataOpen) (cdata_close - length kCdataOpen)
               @ strip_comments_and_unwrap_cdata (drop (cdata_close + length kCdataClose) xml))
      else hd xml # strip_comments_and_unwrap_cdata (drop 1 xml))"
  by pat_completeness auto

termination
  by (relation "measure length") (auto simp: xml_marks)

declare strip_comments_and_unwrap_cdata.simps [simp del]

record element_match =
  span_start :: nat
  inner_text :: string
  em_resume_position :: nat

text \<open>Whether the tag name at \<open>open + 1\<close> is the wanted one and not only a prefix of a longer name.\<close>

definition tag_at :: "string \<Rightarrow> string \<Rightarrow> nat \<Rightarrow> bool" where
  "tag_at xml tag_name pos =
     (if substr xml (pos + 1) (length tag_name) \<noteq> tag_name then False
      else let after_name = pos + 1 + length tag_name
        in \<not> (after_name \<ge> length xml \<or>
              xml ! after_name \<noteq> CHR ''>'' \<and> xml ! after_name \<noteq> CHR ''/'' \<and> \<not> is_xml_whitespace (xml ! after_name)))"

definition closing_tag :: "string \<Rightarrow> string" where
  "closing_tag tag_name = ''</'' @ tag_name @ ''>''"

definition element_at :: "string \<Rightarrow> string \<Rightarrow> nat \<Rightarrow> element_match option" where
  "element_at xml tag_name pos =
     (case find_char_from CHR ''>'' xml (pos + 1 + length tag_name) of
        None \<Rightarrow> None
      | Some open_end \<Rightarrow>
          if xml ! (open_end - 1) = CHR ''/''
          then Some \<lparr>span_start = pos, inner_text = [], em_resume_position = open_end + 1\<rparr>
          else case find_sub_from (closing_tag tag_name) xml (open_end + 1) of
            None \<Rightarrow> None
          | Some close \<Rightarrow> Some \<lparr>span_start = pos, inner_text = substr xml (open_end + 1) (close - open_end - 1),
              em_resume_position = close + length (closing_tag tag_name)\<rparr>)"

lemma find_char_from_bounds: "find_char_from c s p = Some i \<Longrightarrow> p \<le> i \<and> i < length s"
  by (auto simp: find_char_from_def dest!: find_pos_less)

function find_element :: "string \<Rightarrow> string \<Rightarrow> nat \<Rightarrow> element_match option" where
  "find_element xml tag_name pos =
     (if \<not> pos < length xml then None
      else case find_char_from CHR ''<'' xml pos of
        None \<Rightarrow> None
      | Some opening \<Rightarrow>
          if \<not> tag_at xml tag_name opening then find_element xml tag_name (opening + 1)
          else element_at xml tag_name opening)"
  by pat_completeness auto

termination
  by (relation "measure (\<lambda>(xml, tag_name, pos). length xml - pos)") (auto dest: find_char_from_bounds)

declare find_element.simps [simp del]

record child_element =
  child_name :: string
  child_text :: string

fun name_end_from :: "string \<Rightarrow> nat" where
  "name_end_from [] = 0"
| "name_end_from (c # cs) =
     (if c \<noteq> CHR ''>'' \<and> c \<noteq> CHR ''/'' \<and> \<not> is_xml_whitespace c then Suc (name_end_from cs) else 0)"

lemma element_at_resume: "element_at xml tag pos = Some e \<Longrightarrow> pos < em_resume_position e \<and> span_start e = pos"
  by (auto simp: element_at_def find_sub_from_def split: option.splits if_splits dest!: find_char_from_bounds)

lemma find_element_resume: "find_element xml tag pos = Some e \<Longrightarrow> pos < em_resume_position e"
proof (induction xml tag pos rule: find_element.induct)
  case (1 xml tag pos)
  then show ?case
    by (subst (asm) (2) find_element.simps)
      (auto split: if_splits option.splits dest!: find_char_from_bounds element_at_resume)
qed

function child_elements_from :: "string \<Rightarrow> nat \<Rightarrow> child_element list" where
  "child_elements_from body pos =
     (if \<not> pos < length body then []
      else case find_char_from CHR ''<'' body pos of
        None \<Rightarrow> []
      | Some opening \<Rightarrow>
          if opening + 1 \<ge> length body \<or> body ! (opening + 1) = CHR ''/'' then child_elements_from body (opening + 1)
          else
            let name = take (name_end_from (drop (opening + 1) body)) (drop (opening + 1) body) in
            if name = [] then child_elements_from body (opening + 1)
            else case find_element body name opening of
              None \<Rightarrow> child_elements_from body (opening + 1)
            | Some child \<Rightarrow> \<lparr>child_name = name, child_text = trimmed_view (inner_text child)\<rparr>
                # child_elements_from body (em_resume_position child))"
  by pat_completeness auto

termination
  by (relation "measure (\<lambda>(body, pos). length body - pos)")
    (auto dest!: find_char_from_bounds find_element_resume)

declare child_elements_from.simps [simp del]

definition child_elements :: "string \<Rightarrow> child_element list" where
  "child_elements body = child_elements_from body 0"

record tag_match =
  attribute_text :: string
  tm_resume_position :: nat

function find_next_tag :: "string \<Rightarrow> string \<Rightarrow> nat \<Rightarrow> tag_match option" where
  "find_next_tag xml tag_name pos =
     (if \<not> pos < length xml then None
      else case find_char_from CHR ''<'' xml pos of
        None \<Rightarrow> None
      | Some opening \<Rightarrow>
          if \<not> tag_at xml tag_name opening then find_next_tag xml tag_name (opening + 1)
          else
            let after_name = opening + 1 + length tag_name in
            case find_char_from CHR ''>'' xml after_name of
              None \<Rightarrow> None
            | Some open_end \<Rightarrow>
                let attribute_end = (if xml ! (open_end - 1) = CHR ''/'' then open_end - 1 else open_end)
                in Some \<lparr>attribute_text = substr xml after_name (attribute_end - after_name), tm_resume_position = open_end + 1\<rparr>)"
  by pat_completeness auto

termination
  by (relation "measure (\<lambda>(xml, tag_name, pos). length xml - pos)") (auto dest: find_char_from_bounds)

declare find_next_tag.simps [simp del]

function find_attribute_value_from :: "string \<Rightarrow> string \<Rightarrow> nat \<Rightarrow> string option" where
  "find_attribute_value_from attrs name pos =
     (if \<not> pos < length attrs then None
      else case find_sub_from name attrs pos of
        None \<Rightarrow> None
      | Some name_position \<Rightarrow>
          let has_left_boundary = (name_position = 0 \<or> is_xml_whitespace (attrs ! (name_position - 1)));
              after_name = name_position + length name in
          if \<not> has_left_boundary \<or> after_name \<ge> length attrs \<or> attrs ! after_name \<noteq> CHR ''=''
          then find_attribute_value_from attrs name (name_position + 1)
          else
            let quote_position = after_name + 1 in
            if quote_position \<ge> length attrs \<or> attrs ! quote_position \<noteq> CHR 0x22 \<and> attrs ! quote_position \<noteq> CHR 0x27
            then find_attribute_value_from attrs name (name_position + 1)
            else
              let value_start = quote_position + 1 in
              case find_char_from (attrs ! quote_position) attrs value_start of
                None \<Rightarrow> None
              | Some value_end \<Rightarrow> Some (substr attrs value_start (value_end - value_start)))"
  by pat_completeness auto

termination
  by (relation "measure (\<lambda>(attrs, name, pos). length attrs - pos)") (auto simp: find_sub_from_def)

declare find_attribute_value_from.simps [simp del]

definition find_attribute_value :: "string \<Rightarrow> string \<Rightarrow> string option" where
  "find_attribute_value attrs name = find_attribute_value_from attrs name 0"

definition line_number_at :: "string \<Rightarrow> nat \<Rightarrow> nat" where
  "line_number_at text pos = 1 + count_list (take (min pos (length text)) text) CHR 0x0A"

section \<open>Lemmas\<close>

subsection \<open>Searches as the first index\<close>

lemma find_append: "find P (xs @ ys) = (case find P xs of None \<Rightarrow> find P ys | Some x \<Rightarrow> Some x)"
  by (induction xs) simp_all

lemma find_upt_skip:
  assumes "p \<le> i" "i \<le> n" "\<forall>j. p \<le> j \<and> j < i \<longrightarrow> \<not> P j"
  shows "find P [p..<n] = find P [i..<n]"
proof -
  have "[p..<n] = [p..<i] @ [i..<n]" using assms(1,2) upt_add_eq_append [of p i "n - i"] by simp
  moreover have "find P [p..<i] = None" using assms(3) by (auto simp: find_None_iff)
  ultimately show ?thesis by (simp add: find_append)
qed

lemma find_char_from_SomeD:
  assumes "find_char_from c s p = Some i"
  shows "p \<le> i" "i < length s" "s ! i = c" "\<forall>j. p \<le> j \<and> j < i \<longrightarrow> s ! j \<noteq> c"
proof -
  from assms obtain k where k: "find_char c (drop p s) = Some k" and i: "i = p + k" by (auto simp: find_char_from_def)
  note d = find_pos_SomeD [OF k]
  show "p \<le> i" "i < length s" using d by (auto simp: i)
  show "s ! i = c" using d by (auto simp: i)
  show "\<forall>j. p \<le> j \<and> j < i \<longrightarrow> s ! j \<noteq> c"
  proof (intro allI impI)
    fix j assume j: "p \<le> j \<and> j < i"
    then have "s ! j = take k (drop p s) ! (j - p)" "j - p < length (take k (drop p s))" using d by (auto simp: i)
    then have "s ! j \<in> set (take k (drop p s))" by (metis nth_mem)
    with d show "s ! j \<noteq> c" by auto
  qed
qed

lemma find_char_from_NoneD:
  assumes "find_char_from c s p = None" "p \<le> j" "j < length s"
  shows "s ! j \<noteq> c"
proof -
  have "s ! j = drop p s ! (j - p)" "j - p < length (drop p s)" using assms(2,3) by auto
  then have "s ! j \<in> set (drop p s)" by (metis nth_mem)
  with assms(1) show ?thesis by (auto simp: find_char_from_def find_pos_None)
qed

lemma find_sub_first:
  "find_sub pat s = Some i \<Longrightarrow> starts_with (drop i s) pat \<and> (\<forall>j < i. \<not> starts_with (drop j s) pat)"
proof (induction s arbitrary: i)
  case Nil
  then show ?case by (auto split: if_splits)
next
  case (Cons x xs)
  show ?case
  proof (cases "starts_with (x # xs) pat")
    case True
    with Cons.prems show ?thesis by auto
  next
    case False
    with Cons.prems obtain k where k: "find_sub pat xs = Some k" "i = Suc k" by auto
    have "\<not> starts_with (drop j (x # xs)) pat" if "j < i" for j
      using that False Cons.IH [OF k(1)] k(2) by (cases j) auto
    with Cons.IH [OF k(1)] k(2) show ?thesis by simp
  qed
qed

lemma find_sub_NoneD: "find_sub pat s = None \<Longrightarrow> \<not> starts_with (drop j s) pat"
proof (induction s arbitrary: j)
  case Nil
  then show ?case by (auto split: if_splits)
next
  case (Cons x xs)
  then show ?case by (cases j) (auto split: if_splits)
qed

lemma find_sub_from_SomeD:
  assumes "find_sub_from pat s p = Some i"
  shows "p \<le> i" "starts_with (drop i s) pat" "\<forall>j. p \<le> j \<and> j < i \<longrightarrow> \<not> starts_with (drop j s) pat"
proof -
  from assms obtain k where k: "find_sub pat (drop p s) = Some k" and i: "i = p + k" by (auto simp: find_sub_from_def)
  note d = find_sub_first [OF k]
  show "p \<le> i" "starts_with (drop i s) pat" using d by (simp_all add: i add.commute)
  show "\<forall>j. p \<le> j \<and> j < i \<longrightarrow> \<not> starts_with (drop j s) pat"
  proof (intro allI impI)
    fix j assume j: "p \<le> j \<and> j < i"
    then have "j - p < k" by (simp add: i less_diff_conv2)
    with d have "\<not> starts_with (drop (j - p) (drop p s)) pat" by blast
    with j show "\<not> starts_with (drop j s) pat" by simp
  qed
qed

lemma find_sub_from_NoneD:
  assumes "find_sub_from pat s p = None" "p \<le> j"
  shows "\<not> starts_with (drop j s) pat"
  using find_sub_NoneD [of pat "drop p s" "j - p"] assms by (simp add: find_sub_from_def)

subsection \<open>Elements\<close>

definition opens_tag :: "string \<Rightarrow> string \<Rightarrow> nat \<Rightarrow> bool" where
  "opens_tag xml tag_name i \<longleftrightarrow> xml ! i = CHR ''<'' \<and> tag_at xml tag_name i"

lemma find_element_eq:
  "find_element xml tag_name pos =
    (case find (opens_tag xml tag_name) [pos..<length xml] of None \<Rightarrow> None | Some i \<Rightarrow> element_at xml tag_name i)"
proof (induction xml tag_name pos rule: find_element.induct)
  case (1 xml tag_name pos)
  show ?case
  proof (cases "pos < length xml \<and> find_char_from CHR ''<'' xml pos \<noteq> None")
    case False
    then have "find (opens_tag xml tag_name) [pos..<length xml] = None"
      using find_char_from_NoneD by (force simp: find_None_iff opens_tag_def)
    with False show ?thesis by (subst find_element.simps) auto
  next
    case True
    then obtain i where i: "find_char_from CHR ''<'' xml pos = Some i" by auto
    note d = find_char_from_SomeD [OF i]
    have skip: "find (opens_tag xml tag_name) [pos..<length xml] = find (opens_tag xml tag_name) [i..<length xml]"
      using d by (intro find_upt_skip) (auto simp: opens_tag_def)
    have u: "[i..<length xml] = i # [i + 1..<length xml]" using d(2) by (simp add: upt_rec)
    show ?thesis
    proof (cases "tag_at xml tag_name i")
      case True
      with d i skip u show ?thesis by (subst find_element.simps) (simp add: opens_tag_def)
    next
      case False
      then have not_open: "\<not> opens_tag xml tag_name i" by (simp add: opens_tag_def)
      from False d i have "find_element xml tag_name pos = find_element xml tag_name (i + 1)"
        by (subst find_element.simps) simp
      also have "\<dots> = (case find (opens_tag xml tag_name) [i + 1..<length xml] of None \<Rightarrow> None | Some i \<Rightarrow> element_at xml tag_name i)"
        using "1.IH" [OF _ i False] d by simp
      finally show ?thesis using skip u not_open by simp
    qed
  qed
qed

definition tag_text_at :: "string \<Rightarrow> string \<Rightarrow> nat \<Rightarrow> tag_match option" where
  "tag_text_at xml tag_name i =
     (let after_name = i + 1 + length tag_name in
      case find_char_from CHR ''>'' xml after_name of
        None \<Rightarrow> None
      | Some open_end \<Rightarrow>
          let attribute_end = (if xml ! (open_end - 1) = CHR ''/'' then open_end - 1 else open_end)
          in Some \<lparr>attribute_text = substr xml after_name (attribute_end - after_name), tm_resume_position = open_end + 1\<rparr>)"

lemma find_next_tag_eq:
  "find_next_tag xml tag_name pos =
    (case find (opens_tag xml tag_name) [pos..<length xml] of None \<Rightarrow> None | Some i \<Rightarrow> tag_text_at xml tag_name i)"
proof (induction xml tag_name pos rule: find_next_tag.induct)
  case (1 xml tag_name pos)
  show ?case
  proof (cases "pos < length xml \<and> find_char_from CHR ''<'' xml pos \<noteq> None")
    case False
    then have "find (opens_tag xml tag_name) [pos..<length xml] = None"
      using find_char_from_NoneD by (force simp: find_None_iff opens_tag_def)
    with False show ?thesis by (subst find_next_tag.simps) auto
  next
    case True
    then obtain i where i: "find_char_from CHR ''<'' xml pos = Some i" by auto
    note d = find_char_from_SomeD [OF i]
    have skip: "find (opens_tag xml tag_name) [pos..<length xml] = find (opens_tag xml tag_name) [i..<length xml]"
      using d by (intro find_upt_skip) (auto simp: opens_tag_def)
    have u: "[i..<length xml] = i # [i + 1..<length xml]" using d(2) by (simp add: upt_rec)
    show ?thesis
    proof (cases "tag_at xml tag_name i")
      case True
      with d i skip u show ?thesis by (subst find_next_tag.simps) (simp add: opens_tag_def tag_text_at_def Let_def)
    next
      case False
      then have not_open: "\<not> opens_tag xml tag_name i" by (simp add: opens_tag_def)
      from False d i have "find_next_tag xml tag_name pos = find_next_tag xml tag_name (i + 1)"
        by (subst find_next_tag.simps) simp
      also have "\<dots> = (case find (opens_tag xml tag_name) [i + 1..<length xml] of None \<Rightarrow> None | Some i \<Rightarrow> tag_text_at xml tag_name i)"
        using "1.IH" [OF _ i False] d by simp
      finally show ?thesis using skip u not_open by simp
    qed
  qed
qed

lemma find_char_from_prefix:
  assumes "c \<notin> set s"
  shows "find_char_from c (pre @ s @ c # post) (length pre) = Some (length pre + length s)"
proof -
  have "find_char c (s @ c # post) = Some (length s)" using assms by (subst find_pos_append) auto
  then show ?thesis by (simp add: find_char_from_def)
qed

lemma element_at_exact:
  assumes "tag \<noteq> []" "last tag \<noteq> CHR ''/''" "CHR ''>'' \<notin> set attrs" "attrs = [] \<or> last attrs \<noteq> CHR ''/''"
    and close: "find_sub (closing_tag tag) (body @ closing_tag tag @ post) = Some (length body)"
  shows "element_at (pre @ CHR ''<'' # tag @ attrs @ CHR ''>'' # body @ closing_tag tag @ post) tag (length pre) =
    Some \<lparr>span_start = length pre, inner_text = body,
      em_resume_position = length pre + length tag + length attrs + 2 + length body + length (closing_tag tag)\<rparr>"
proof -
  define before where "before = pre @ CHR ''<'' # tag"
  define xml where "xml = pre @ CHR ''<'' # tag @ attrs @ CHR ''>'' # body @ closing_tag tag @ post"
  have x: "xml = before @ attrs @ CHR ''>'' # body @ closing_tag tag @ post" by (simp add: xml_def before_def)
  have b: "length before = length pre + 1 + length tag" by (simp add: before_def)
  have gt: "find_char_from CHR ''>'' xml (length pre + 1 + length tag) = Some (length before + length attrs)"
    using find_char_from_prefix [OF assms(3), of before] by (simp add: x b)
  define ba where "ba = before @ attrs"
  have ne: "ba \<noteq> []" and lb: "length before + length attrs = length ba" by (simp_all add: before_def ba_def)
  have "xml ! (length ba - 1) = ba ! (length ba - 1)"
    using ne by (simp add: x nth_append flip: ba_def append_assoc)
  also have "\<dots> = last ba" using ne by (simp add: last_conv_nth)
  also have "\<dots> \<noteq> CHR ''/''" using assms(1,2,4) by (cases "attrs = []") (auto simp: before_def ba_def)
  finally have slash: "xml ! (length before + length attrs - 1) \<noteq> CHR ''/''" unfolding lb .
  have d: "drop (length before + length attrs + 1) xml = body @ closing_tag tag @ post" by (simp add: x)
  have c: "find_sub_from (closing_tag tag) xml (length before + length attrs + 1) = Some (length before + length attrs + 1 + length body)"
    unfolding find_sub_from_def d close by simp
  have i: "substr xml (length before + length attrs + 1) (length body) = body" unfolding substr_def d by simp
  show ?thesis
    unfolding xml_def [symmetric] element_at_def gt option.case c if_not_P [OF slash] using i by (simp add: b)
qed

lemma tag_at_exact:
  assumes "c = CHR ''>'' \<or> c = CHR ''/'' \<or> is_xml_whitespace c"
  shows "tag_at (pre @ CHR ''<'' # tag @ c # rest) tag (length pre)"
  using assms by (auto simp: tag_at_def substr_def Let_def nth_append)

text \<open>The first tag of a text that starts at a given place.\<close>

lemma find_element_here:
  assumes "xml ! pos = CHR ''<''" "pos < length xml" "tag_at xml tag pos"
  shows "find_element xml tag pos = element_at xml tag pos"
proof -
  have "[pos..<length xml] = pos # [pos + 1..<length xml]" using assms(2) by (simp add: upt_rec)
  with assms show ?thesis by (simp add: find_element_eq opens_tag_def)
qed

subsection \<open>Blocks of elements\<close>

definition plain_name :: "string \<Rightarrow> bool" where
  "plain_name n \<longleftrightarrow> n \<noteq> [] \<and> list_all (\<lambda>c. c \<noteq> CHR ''>'' \<and> c \<noteq> CHR ''/'' \<and> \<not> is_xml_whitespace c) n"

definition render_element :: "string \<times> string \<Rightarrow> string" where
  "render_element e = CHR ''<'' # fst e @ CHR ''>'' # snd e @ closing_tag (fst e)"

definition render_block :: "(string \<times> string \<times> string) list \<Rightarrow> string" where
  "render_block es = concat (map (\<lambda>(gap, e). gap @ render_element e) es)"

lemma name_end_from_plain:
  "plain_name n \<Longrightarrow> name_end_from (n @ CHR ''>'' # rest) = length n"
proof -
  have "list_all (\<lambda>c. c \<noteq> CHR ''>'' \<and> c \<noteq> CHR ''/'' \<and> \<not> is_xml_whitespace c) n \<Longrightarrow> name_end_from (n @ CHR ''>'' # rest) = length n"
    by (induction n) auto
  then show "plain_name n \<Longrightarrow> ?thesis" by (simp add: plain_name_def)
qed

lemma find_sub_no_start:
  "c \<notin> set s \<Longrightarrow> find_sub (c # pat) (s @ (c # pat) @ post) = Some (length s)"
proof (induction s)
  case Nil
  then show ?case by (simp add: find_sub_append_found)
next
  case (Cons x s)
  then have "\<not> starts_with ((x # s) @ (c # pat) @ post) (c # pat)" by auto
  with Cons show ?case by auto
qed

lemma child_elements_step:
  assumes "plain_name n" "CHR ''<'' \<notin> set gap" "CHR ''<'' \<notin> set t"
  shows "child_elements_from (pre @ gap @ render_element (n, t) @ rest) (length pre) =
    \<lparr>child_name = n, child_text = trimmed_view t\<rparr> #
      child_elements_from (pre @ gap @ render_element (n, t) @ rest) (length (pre @ gap @ render_element (n, t)))"
proof -
  define p where "p = pre @ gap"
  define tail where "tail = t @ closing_tag n @ rest"
  define body where "body = p @ CHR ''<'' # n @ CHR ''>'' # tail"
  have b: "body = pre @ gap @ render_element (n, t) @ rest" by (simp add: body_def p_def tail_def render_element_def)
  have n: "n \<noteq> []" "last n \<noteq> CHR ''/''" "hd n \<noteq> CHR ''/''"
    using assms(1) by (auto simp: plain_name_def list_all_iff)
  have "body = pre @ gap @ CHR ''<'' # n @ CHR ''>'' # tail" by (simp add: body_def p_def)
  then have lt: "find_char_from CHR ''<'' body (length pre) = Some (length p)"
    using find_char_from_prefix [OF assms(2), of pre] by (simp add: p_def)
  have dn: "drop (length p + 1) body = n @ CHR ''>'' # tail" by (simp add: body_def)
  have hdn: "body ! (length p + 1) = hd n" using n(1) by (simp add: body_def nth_append hd_conv_nth)
  have name: "take (name_end_from (drop (length p + 1) body)) (drop (length p + 1) body) = n"
    unfolding dn name_end_from_plain [OF assms(1)] by simp
  have "find_sub (closing_tag n) (t @ closing_tag n @ rest) = Some (length t)"
    unfolding closing_tag_def using find_sub_no_start [OF assms(3), of "CHR ''/'' # n @ ''>''" rest] by simp
  from element_at_exact [OF n(1,2) _ _ this, of "[]" p]
  have "element_at body n (length p) = Some \<lparr>span_start = length p, inner_text = t,
      em_resume_position = length p + length n + 2 + length t + length (closing_tag n)\<rparr>"
    by (simp add: body_def tail_def)
  moreover have "tag_at body n (length p)" unfolding body_def by (rule tag_at_exact) simp
  moreover have "body ! length p = CHR ''<''" "length p < length body" by (simp_all add: body_def)
  ultimately have el: "find_element body n (length p) = Some \<lparr>span_start = length p, inner_text = t,
      em_resume_position = length p + length n + 2 + length t + length (closing_tag n)\<rparr>"
    by (simp add: find_element_here)
  have less: "\<not> \<not> length pre < length body" "\<not> (length p + 1 \<ge> length body \<or> body ! (length p + 1) = CHR ''/'')"
    using n hdn by (simp_all add: body_def p_def)
  have r: "length p + length n + 2 + length t + length (closing_tag n) = length (pre @ gap @ render_element (n, t))"
    by (simp add: p_def render_element_def)
  have "child_elements_from body (length pre) =
      \<lparr>child_name = n, child_text = trimmed_view t\<rparr> # child_elements_from body (length (pre @ gap @ render_element (n, t)))"
    unfolding child_elements_from.simps [of body "length pre"] lt option.case Let_def name el if_not_P [OF less(1)]
      if_not_P [OF less(2)] if_not_P [OF n(1)] by (simp only: r element_match.simps)
  then show ?thesis by (simp only: b)
qed

lemma child_elements_block:
  "list_all (\<lambda>(gap, n, t). plain_name n \<and> CHR ''<'' \<notin> set gap \<and> CHR ''<'' \<notin> set t) es \<Longrightarrow> CHR ''<'' \<notin> set trail \<Longrightarrow>
   child_elements_from (pre @ render_block es @ trail) (length pre) =
     map (\<lambda>(gap, n, t). \<lparr>child_name = n, child_text = trimmed_view t\<rparr>) es"
proof (induction es arbitrary: pre)
  case Nil
  then have "find_char_from CHR ''<'' (pre @ trail) (length pre) = None"
    by (auto simp: find_char_from_def find_pos_None)
  then show ?case by (subst child_elements_from.simps) (simp add: render_block_def)
next
  case (Cons e es)
  obtain gap n t where e: "e = (gap, n, t)" by (cases e)
  from Cons.prems have ok: "plain_name n" "CHR ''<'' \<notin> set gap" "CHR ''<'' \<notin> set t" by (simp_all add: e)
  have r: "render_block (e # es) @ trail = gap @ render_element (n, t) @ render_block es @ trail"
    by (simp add: render_block_def e)
  show ?case
    unfolding r using child_elements_step [OF ok, of pre "render_block es @ trail"]
      Cons.IH [of "pre @ gap @ render_element (n, t)"] Cons.prems
    by (simp add: e)
qed

subsection \<open>Attributes\<close>

text \<open>An attribute of the wanted name: on a word boundary, followed by an equals sign and a quote.\<close>

definition attribute_at :: "string \<Rightarrow> string \<Rightarrow> nat \<Rightarrow> bool" where
  "attribute_at attrs name i \<longleftrightarrow> starts_with (drop i attrs) name \<and>
     (i = 0 \<or> is_xml_whitespace (attrs ! (i - 1))) \<and> i + length name + 1 < length attrs \<and>
     attrs ! (i + length name) = CHR ''='' \<and>
     (attrs ! (i + length name + 1) = CHR 0x22 \<or> attrs ! (i + length name + 1) = CHR 0x27)"

definition attribute_value :: "string \<Rightarrow> string \<Rightarrow> nat \<Rightarrow> string option" where
  "attribute_value attrs name i =
     (let start = i + length name + 2 in
      map_option (\<lambda>e. substr attrs start (e - start)) (find_char_from (attrs ! (start - 1)) attrs start))"

lemma find_attribute_value_from_eq:
  "find_attribute_value_from attrs name pos =
    (case find (attribute_at attrs name) [pos..<length attrs] of None \<Rightarrow> None | Some i \<Rightarrow> attribute_value attrs name i)"
proof (induction "length attrs - pos" arbitrary: pos rule: less_induct)
  case less
  show ?case
  proof (cases "pos < length attrs \<and> find_sub_from name attrs pos \<noteq> None")
    case False
    then have "find (attribute_at attrs name) [pos..<length attrs] = None"
      using find_sub_from_NoneD by (force simp: find_None_iff attribute_at_def)
    with False show ?thesis by (subst find_attribute_value_from.simps) auto
  next
    case True
    then obtain i where i: "find_sub_from name attrs pos = Some i" by auto
    note d = find_sub_from_SomeD [OF i]
    have il: "i \<le> length attrs"
      using i True by (auto simp: find_sub_from_def dest!: find_sub_SomeD)
    have skip: "find (attribute_at attrs name) [pos..<length attrs] = find (attribute_at attrs name) [i..<length attrs]"
      using d il by (intro find_upt_skip) (auto simp: attribute_at_def)
    show ?thesis
    proof (cases "attribute_at attrs name i")
      case True
      then have a: "i + length name + 1 < length attrs" by (simp add: attribute_at_def)
      then have u: "[i..<length attrs] = i # [i + 1..<length attrs]" by (simp add: upt_rec)
      from True i d \<open>pos < length attrs \<and> _\<close> have "find_attribute_value_from attrs name pos = attribute_value attrs name i"
        by (subst find_attribute_value_from.simps)
          (auto simp: attribute_at_def attribute_value_def Let_def split: option.split)
      with True skip u show ?thesis by simp
    next
      case False
      have fail: "\<not> (i = 0 \<or> is_xml_whitespace (attrs ! (i - 1))) \<or> i + length name \<ge> length attrs \<or> attrs ! (i + length name) \<noteq> CHR ''='' \<or>
          i + length name + 1 \<ge> length attrs \<or>
          attrs ! (i + length name + 1) \<noteq> CHR 0x22 \<and> attrs ! (i + length name + 1) \<noteq> CHR 0x27"
        using False d(2) by (auto simp: attribute_at_def)
      have "find_attribute_value_from attrs name pos = find_attribute_value_from attrs name (i + 1)"
        using fail i \<open>pos < length attrs \<and> _\<close> by (subst find_attribute_value_from.simps) (auto simp: Let_def)
      also have "\<dots> = (case find (attribute_at attrs name) [i + 1..<length attrs] of None \<Rightarrow> None | Some i \<Rightarrow> attribute_value attrs name i)"
        using True d(1) by (intro less) auto
      also have "find (attribute_at attrs name) [i + 1..<length attrs] = find (attribute_at attrs name) [i..<length attrs]"
        using False il by (cases "i < length attrs") (simp_all add: upt_rec)
      finally show ?thesis using skip by simp
    qed
  qed
qed

definition render_attribute :: "string \<times> string \<Rightarrow> string" where
  "render_attribute a = '' '' @ fst a @ ''='' @ [CHR 0x22] @ snd a @ [CHR 0x22]"

definition render_attributes :: "(string \<times> string) list \<Rightarrow> string" where
  "render_attributes as = concat (map render_attribute as)"

definition plain_attribute_name :: "string \<Rightarrow> bool" where
  "plain_attribute_name n \<longleftrightarrow> n \<noteq> [] \<and> list_all (\<lambda>c. \<not> is_xml_whitespace c \<and> c \<noteq> CHR ''='') n"

definition plain_attribute :: "string \<times> string \<Rightarrow> bool" where
  "plain_attribute a \<longleftrightarrow> plain_attribute_name (fst a) \<and> list_all (\<lambda>c. \<not> is_xml_whitespace c \<and> c \<noteq> CHR 0x22) (snd a)"

lemma starts_with_name_eq:
  assumes "CHR ''='' \<notin> set n" "CHR ''='' \<notin> set a"
    and s: "starts_with (a @ CHR ''='' # x) n" and e: "length n < length (a @ CHR ''='' # x)" "(a @ CHR ''='' # x) ! length n = CHR ''=''"
  shows "n = a"
proof -
  have "\<not> length n < length a"
  proof
    assume "length n < length a"
    then have "a ! length n \<in> set a" "a ! length n = CHR ''=''" using e(2) nth_mem [of "length n" a] by (simp_all add: nth_append)
    with assms(2) show False by metis
  qed
  moreover have "\<not> length a < length n"
  proof
    assume l: "length a < length n"
    then have "n ! length a = (a @ CHR ''='' # x) ! length a"
      using s by (metis nth_take starts_with_def)
    then have "CHR ''='' \<in> set n" using l nth_mem by fastforce
    with assms(1) show False by simp
  qed
  ultimately have "length n = length a" by simp
  with s show ?thesis by (simp add: starts_with_def)
qed

lemma attribute_at_piece:
  assumes n: "plain_attribute_name n" and a: "plain_attribute (b, v)"
    and j: "length pre \<le> j" "j < length pre + length (render_attribute (b, v))"
  shows "attribute_at (pre @ render_attribute (b, v) @ rest) n j \<longleftrightarrow> j = length pre + 1 \<and> b = n"
proof -
  define tail where "tail = b @ CHR ''='' # CHR 0x22 # v @ [CHR 0x22]"
  define all where "all = pre @ render_attribute (b, v) @ rest"
  have all: "all = (pre @ [CHR '' '']) @ tail @ rest" by (simp add: all_def render_attribute_def tail_def)
  have len: "length (render_attribute (b, v)) = Suc (length tail)" by (simp add: render_attribute_def tail_def)
  have ws: "\<forall>c \<in> set tail. \<not> is_xml_whitespace c"
    using a by (auto simp: tail_def plain_attribute_def plain_attribute_name_def list_all_iff is_xml_whitespace_def)
  consider (space) "j = length pre" | (name) "j = length pre + 1" | (inside) "length pre + 2 \<le> j" using j(1) by linarith
  then have "attribute_at all n j \<longleftrightarrow> j = length pre + 1 \<and> b = n"
  proof cases
    case space
    obtain c n' where "n = c # n'" "\<not> is_xml_whitespace c" using n by (cases n) (auto simp: plain_attribute_name_def)
    with space show ?thesis by (auto simp: attribute_at_def all is_xml_whitespace_def)
  next
    case inside
    then obtain k where k: "j = length pre + 2 + k" "k < length tail" using j(2) len by (auto simp: le_iff_add)
    then have "all ! (j - 1) = tail ! k" by (simp add: all nth_append)
    with ws k(2) have "\<not> is_xml_whitespace (all ! (j - 1))" by simp
    with inside show ?thesis by (auto simp: attribute_at_def)
  next
    case name
    have d: "drop j all = b @ CHR ''='' # CHR 0x22 # v @ CHR 0x22 # rest" by (simp add: name all tail_def)
    have nth: "all ! (j + i) = (b @ CHR ''='' # CHR 0x22 # v @ CHR 0x22 # rest) ! i" if "j + i < length all" for i
      using that d by (metis nth_drop less_imp_le_nat add_leD1)
    have eq: "CHR ''='' \<notin> set n" "CHR ''='' \<notin> set b"
      using n a by (auto simp: plain_attribute_name_def plain_attribute_def list_all_iff)
    have ws0: "all ! (j - 1) = CHR '' ''" by (simp add: name all nth_append)
    show ?thesis
    proof
      assume at: "attribute_at all n j"
      then have l: "j + length n < length all" "starts_with (drop j all) n" "all ! (j + length n) = CHR ''=''"
        by (simp_all add: attribute_at_def)
      then have "(b @ CHR ''='' # CHR 0x22 # v @ CHR 0x22 # rest) ! length n = CHR ''=''" using nth by simp
      moreover have "length n < length (b @ CHR ''='' # CHR 0x22 # v @ CHR 0x22 # rest)"
        using l(1) d by (metis length_drop less_diff_conv add.commute)
      ultimately have "n = b" using starts_with_name_eq [OF eq] l(2) d by simp
      with name show "j = length pre + 1 \<and> b = n" by simp
    next
      assume "j = length pre + 1 \<and> b = n"
      then have b: "b = n" by simp
      have "j + length n + 1 < length all" by (simp add: name all tail_def b)
      then show "attribute_at all n j"
        using d ws0 nth [of "length n"] nth [of "length n + 1"] b by (simp add: attribute_at_def is_xml_whitespace_def nth_append)
    qed
  qed
  then show ?thesis by (simp only: all_def)
qed

lemma attribute_value_piece:
  assumes "plain_attribute (n, v)"
  shows "attribute_value (pre @ render_attribute (n, v) @ rest) n (length pre + 1) = Some v"
proof -
  define before where "before = pre @ '' '' @ n @ ''='' @ [CHR 0x22]"
  define all where "all = pre @ render_attribute (n, v) @ rest"
  have all: "all = before @ v @ CHR 0x22 # rest" by (simp add: all_def before_def render_attribute_def)
  have l: "length pre + 1 + length n + 2 = length before" by (simp add: before_def)
  have q: "all ! (length before - 1) = CHR 0x22" by (simp add: all before_def nth_append)
  have v: "CHR 0x22 \<notin> set v" using assms by (auto simp: plain_attribute_def list_all_iff)
  have "find_char_from CHR 0x22 all (length before) = Some (length before + length v)"
    unfolding all by (rule find_char_from_prefix [OF v])
  then have "attribute_value all n (length pre + 1) = Some (substr all (length before) (length v))"
    by (simp only: attribute_value_def Let_def l q option.map diff_add_inverse)
  also have "substr all (length before) (length v) = v" by (simp add: all substr_def)
  finally show ?thesis by (simp only: all_def)
qed

lemma find_rendered_attribute:
  assumes n: "plain_attribute_name n"
  shows "list_all plain_attribute as \<Longrightarrow>
    (case find (attribute_at (pre @ render_attributes as) n) [length pre..<length (pre @ render_attributes as)] of
       None \<Rightarrow> None | Some i \<Rightarrow> attribute_value (pre @ render_attributes as) n i) = map_of as n"
proof (induction as arbitrary: pre)
  case Nil
  then show ?case by (simp add: render_attributes_def)
next
  case (Cons a as)
  obtain b v where a: "a = (b, v)" by (cases a)
  with Cons.prems have p: "plain_attribute (b, v)" by simp
  define all where "all = pre @ render_attributes (a # as)"
  have all: "all = pre @ render_attribute (b, v) @ render_attributes as" by (simp add: all_def render_attributes_def a)
  note here = attribute_at_piece [OF n p, of pre _ "render_attributes as", folded all]
  have len: "length pre + 2 \<le> length pre + length (render_attribute (b, v))" by (simp add: render_attribute_def)
  have l: "length pre + length (render_attribute (b, v)) \<le> length all" by (simp add: all)
  have ne: "render_attribute (b, v) \<noteq> []" by (simp add: render_attribute_def)
  have "(case find (attribute_at all n) [length pre..<length all] of None \<Rightarrow> None | Some i \<Rightarrow> attribute_value all n i) = map_of (a # as) n"
  proof (cases "b = n")
    case True
    have av: "attribute_value all n (length pre + 1) = Some v"
      using attribute_value_piece [of n v pre "render_attributes as"] p True by (simp add: all)
    have "find (attribute_at all n) [length pre..<length all] = find (attribute_at all n) [length pre + 1..<length all]"
      using here [of "length pre"] l len ne by (intro find_upt_skip) (auto simp: le_less_Suc_eq)
    also have "[length pre + 1..<length all] = (length pre + 1) # [length pre + 2..<length all]"
      using l len by (simp add: upt_rec)
    also have "find (attribute_at all n) \<dots> = Some (length pre + 1)"
      using here [of "length pre + 1"] len True by simp
    finally have "find (attribute_at all n) [length pre..<length all] = Some (length pre + 1)" .
    with av True show ?thesis by (simp add: a)
  next
    case False
    have "find (attribute_at all n) [length pre..<length all] =
        find (attribute_at all n) [length pre + length (render_attribute (b, v))..<length all]"
      using here False l by (intro find_upt_skip) auto
    moreover have "(pre @ render_attribute (b, v)) @ render_attributes as = all" by (simp add: all)
    from Cons.IH [of "pre @ render_attribute (b, v)", unfolded this] Cons.prems
    have "(case find (attribute_at all n) [length pre + length (render_attribute (b, v))..<length all] of
        None \<Rightarrow> None | Some i \<Rightarrow> attribute_value all n i) = map_of as n" by simp
    ultimately show ?thesis using False by (simp only: a map_of.simps fst_conv snd_conv fun_upd_other not_sym simp_thms if_False fun_upd_apply)
  qed
  then show ?case by (simp only: all_def)
qed

subsection \<open>Comments\<close>

definition unterminated :: "string \<Rightarrow> bool" where
  "unterminated xml \<longleftrightarrow>
     starts_with xml kCommentOpen \<and> find_sub_from kCommentClose xml (length kCommentOpen) = None \<or>
     starts_with xml kCdataOpen \<and> find_sub_from kCdataClose xml (length kCdataOpen) = None"

lemma count_newlines_of [simp]: "count_list (newlines_of s) CHR 0x0A = count_list s CHR 0x0A"
proof -
  have "count_list (replicate k c) c = k" for k and c :: char by (induction k) simp_all
  then show ?thesis by (simp add: newlines_of_def)
qed

lemma count_list_append [simp]: "count_list (xs @ ys) c = count_list xs c + count_list ys c"
  by (induction xs) simp_all

lemma marks_differ: "starts_with xml kCommentOpen \<Longrightarrow> \<not> starts_with xml kCdataOpen"
  by (drule starts_withD, erule ssubst) (simp add: xml_marks)

lemma strip_counts:
  "\<exists>done rest. xml = done @ rest \<and> count_list (strip_comments_and_unwrap_cdata xml) CHR 0x0A = count_list done CHR 0x0A \<and>
    (rest = [] \<or> unterminated rest)"
proof (induction xml rule: strip_comments_and_unwrap_cdata.induct)
  case (1 xml)
  let ?s = strip_comments_and_unwrap_cdata
  consider (empty) "xml = []" | (stop) "xml \<noteq> []" "unterminated xml"
    | (comment) i where "xml \<noteq> []" "starts_with xml kCommentOpen" "find_sub_from kCommentClose xml (length kCommentOpen) = Some i"
    | (cdata) i where "xml \<noteq> []" "\<not> starts_with xml kCommentOpen" "starts_with xml kCdataOpen"
        "find_sub_from kCdataClose xml (length kCdataOpen) = Some i"
    | (char) "xml \<noteq> []" "\<not> starts_with xml kCommentOpen" "\<not> starts_with xml kCdataOpen"
    by (fastforce simp: unterminated_def)
  then show ?case
  proof cases
    case empty
    then show ?thesis by (subst strip_comments_and_unwrap_cdata.simps) simp
  next
    case stop
    then have "?s xml = []"
      by (subst strip_comments_and_unwrap_cdata.simps) (auto simp: unterminated_def marks_differ)
    with stop show ?thesis by (intro exI [of _ "[]"] exI [of _ xml]) simp
  next
    case comment
    let ?e = "i + length kCommentClose"
    from "1.IH"(1) [OF comment(1-3) refl] obtain d r where ih: "drop ?e xml = d @ r" "count_list (?s (drop ?e xml)) CHR 0x0A = count_list d CHR 0x0A"
      "r = [] \<or> unterminated r" by blast
    have "?s xml = newlines_of (take ?e xml) @ ?s (drop ?e xml)"
      using comment by (subst strip_comments_and_unwrap_cdata.simps) (simp add: Let_def)
    moreover have "xml = (take ?e xml @ d) @ r" using ih(1) append_take_drop_id [of ?e xml] by simp
    ultimately show ?thesis using ih(2,3) by (intro exI [of _ "take ?e xml @ d"] exI [of _ r]) simp
  next
    case cdata
    let ?e = "i + length kCdataClose" and ?o = "length kCdataOpen"
    from "1.IH"(2) [OF cdata] obtain d r where ih: "drop ?e xml = d @ r" "count_list (?s (drop ?e xml)) CHR 0x0A = count_list d CHR 0x0A"
      "r = [] \<or> unterminated r" by blast
    note b = find_sub_from_SomeD [OF cdata(4)]
    have pieces: "xml = kCdataOpen @ substr xml ?o (i - ?o) @ kCdataClose @ drop ?e xml"
    proof -
      have "xml = kCdataOpen @ drop ?o xml" by (rule starts_withD [OF cdata(3)])
      also have "drop ?o xml = substr xml ?o (i - ?o) @ drop i xml"
        using append_take_drop_id [of "i - ?o" "drop ?o xml"] b(1) by (simp add: substr_def)
      also have "drop i xml = kCdataClose @ drop ?e xml" using starts_withD [OF b(2)] by (simp add: add.commute)
      finally show ?thesis .
    qed
    have "count_list kCdataOpen CHR 0x0A = 0" "count_list kCdataClose CHR 0x0A = 0" by (simp_all add: xml_marks)
    moreover have "?s xml = substr xml ?o (i - ?o) @ ?s (drop ?e xml)"
      using cdata by (subst strip_comments_and_unwrap_cdata.simps) simp
    ultimately show ?thesis using ih
      by (intro exI [of _ "kCdataOpen @ substr xml ?o (i - ?o) @ kCdataClose @ d"] exI [of _ r]) (subst pieces, simp)
  next
    case char
    from "1.IH"(3) [OF char] obtain d r where ih: "drop 1 xml = d @ r" "count_list (?s (drop 1 xml)) CHR 0x0A = count_list d CHR 0x0A"
      "r = [] \<or> unterminated r" by blast
    have "?s xml = hd xml # ?s (drop 1 xml)" using char by (subst strip_comments_and_unwrap_cdata.simps) simp
    moreover have "xml = (hd xml # d) @ r" using char(1) ih(1) by (cases xml) simp_all
    ultimately show ?thesis using ih(2,3) by (intro exI [of _ "hd xml # d"] exI [of _ r]) simp
  qed
qed

section \<open>Properties\<close>

text \<open>Removing comments and unwrapping CDATA keeps every line break of the text it gets through, so a line
  number of the result is that of the file; it stops only at a comment or CDATA section that is never
  closed.\<close>

theorem strip_keeps_lines:
  "\<exists>done rest. xml = done @ rest \<and>
    line_number_at (strip_comments_and_unwrap_cdata xml) (length (strip_comments_and_unwrap_cdata xml)) =
      line_number_at xml (length done) \<and>
    (rest = [] \<or> unterminated rest)"
proof -
  obtain d r where "xml = d @ r" "count_list (strip_comments_and_unwrap_cdata xml) CHR 0x0A = count_list d CHR 0x0A"
    "r = [] \<or> unterminated r" using strip_counts by blast
  then show ?thesis by (intro exI [of _ d] exI [of _ r]) (simp add: line_number_at_def)
qed

text \<open>A block of child elements is read back: for elements with plain names, separated by and holding any
  text without markup, \<open>child_elements\<close> gives their names and trimmed texts in document order.\<close>

theorem child_elements_roundtrip:
  assumes "list_all (\<lambda>(gap, n, t). plain_name n \<and> CHR ''<'' \<notin> set gap \<and> CHR ''<'' \<notin> set t) es" "CHR ''<'' \<notin> set trail"
  shows "child_elements (render_block es @ trail) = map (\<lambda>(gap, n, t). \<lparr>child_name = n, child_text = trimmed_view t\<rparr>) es"
  using child_elements_block [OF assms, of "[]"] by (simp add: child_elements_def)

theorem child_elements_roundtrip_witness:
  "child_elements (render_block [('' '', ''a'', ''1 ''), ([], ''a.b'', [])] @ ''x'') =
    [\<lparr>child_name = ''a'', child_text = trimmed_view ''1 ''\<rparr>, \<lparr>child_name = ''a.b'', child_text = trimmed_view []\<rparr>]"
  using child_elements_roundtrip [of "[('' '', ''a'', ''1 ''), ([], ''a.b'', [])]" "''x''"]
  by (simp add: plain_name_def is_xml_whitespace_def)

text \<open>Attributes are looked up by their whole name: over a tag whose attributes have plain names and values
  without blanks or double quotes, the lookup gives the value of the first attribute of exactly that name,
  never of a longer name that ends or starts with it.\<close>

theorem find_attribute_value_exact:
  assumes "plain_attribute_name n" "list_all plain_attribute as"
  shows "find_attribute_value (render_attributes as) n = map_of as n"
  using find_rendered_attribute [OF assms, of "[]"]
  unfolding append_Nil list.size find_attribute_value_def find_attribute_value_from_eq .

theorem find_attribute_value_exact_witness:
  "find_attribute_value (render_attributes [(''MyVersion'', ''1''), (''VersionOverride'', ''2''), (''Version'', ''3'')]) ''Version'' = Some ''3''"
proof -
  have "plain_attribute_name ''Version''" by code_simp
  moreover have "list_all plain_attribute [(''MyVersion'', ''1''), (''VersionOverride'', ''2''), (''Version'', ''3'')]" by code_simp
  ultimately show ?thesis
    using find_attribute_value_exact [of "''Version''" "[(''MyVersion'', ''1''), (''VersionOverride'', ''2''), (''Version'', ''3'')]"]
    by simp
qed

text \<open>An element is found at the first place where its opening tag stands, and its text is everything up to
  the first closing tag after it.\<close>

theorem find_element_exact:
  assumes "tag \<noteq> []" "last tag \<noteq> CHR ''/''" "CHR ''>'' \<notin> set attrs" "attrs = [] \<or> last attrs \<noteq> CHR ''/'' \<and> is_xml_whitespace (hd attrs)"
    and "CHR ''<'' \<notin> set pre" "find_sub (closing_tag tag) (body @ closing_tag tag @ post) = Some (length body)"
  shows "map_option inner_text (find_element (pre @ CHR ''<'' # tag @ attrs @ CHR ''>'' # body @ closing_tag tag @ post) tag 0) = Some body"
proof -
  define xml where "xml = pre @ CHR ''<'' # tag @ attrs @ CHR ''>'' # body @ closing_tag tag @ post"
  have e: "element_at xml tag (length pre) = Some \<lparr>span_start = length pre, inner_text = body,
      em_resume_position = length pre + length tag + length attrs + 2 + length body + length (closing_tag tag)\<rparr>"
    unfolding xml_def using assms(4) by (intro element_at_exact assms(1-3,6)) auto
  have t: "tag_at xml tag (length pre)"
    using assms(4) tag_at_exact [of "CHR ''>''" pre tag] tag_at_exact [of "hd attrs" pre tag] by (cases attrs) (auto simp: xml_def)
  have "find (opens_tag xml tag) [0..<length xml] = find (opens_tag xml tag) [length pre..<length xml]"
    using assms(5) by (intro find_upt_skip) (auto simp: opens_tag_def xml_def nth_append in_set_conv_nth)
  also have "\<dots> = Some (length pre)" using t by (simp add: upt_rec opens_tag_def xml_def)
  finally have "find_element xml tag 0 = element_at xml tag (length pre)" by (simp add: find_element_eq)
  with e show ?thesis by (simp add: xml_def)
qed

theorem find_element_exact_witness:
  "map_option inner_text (find_element (''x'' @ CHR ''<'' # ''b'' @ '' c'' @ CHR ''>'' # ''1'' @ closing_tag ''b'' @ []) ''b'' 0) = Some ''1''"
  by (rule find_element_exact) (simp_all add: is_xml_whitespace_def closing_tag_def starts_with_def)

end
