(* ===== verification/Yaml_Subset.thy ===== *)
theory Yaml_Subset
  imports Text
begin

text \<open>
  \<open>core/yaml_subset.hpp\<close> and \<open>core/yaml_subset.cpp\<close>: the pull reader of the slice of YAML that lockfiles use.
  A \<open>reader\<close> is a \<open>Reader\<close>; \<open>reader_next\<close> and \<open>read_line\<close> return it updated together with the node, which is
  \<open>None\<close> where the code returns \<open>false\<close>. The two quote-aware scans recur on the text with the open quote as
  their state. \<open>read_all\<close> is the loop callers write around \<open>next\<close>.
\<close>

section \<open>Scans\<close>

definition kQuoteCharacters :: string where "kQuoteCharacters = [CHR 0x22, CHR 0x27]"
definition kBlockScalarIndicators :: string where "kBlockScalarIndicators = ''|>''"
definition kAnchorAliasTagIndicators :: string where "kAnchorAliasTagIndicators = ''&*!''"
definition kDelimiterPairLength :: nat where "kDelimiterPairLength = 2"

text \<open>The loop of \<open>without_comment\<close>: the open quote, whether a comment may start here, what is left.\<close>

fun without_comment_from :: "char option \<Rightarrow> bool \<Rightarrow> string \<Rightarrow> string" where
  "without_comment_from open_quote follows [] = []"
| "without_comment_from (Some q) follows [c] = [c]"
| "without_comment_from (Some q) follows (c # d # cs) =
     (if c = CHR 0x5C \<and> q = CHR 0x22 then c # d # without_comment_from (Some q) (d = CHR '' '' \<or> d = CHR 0x09) cs
      else c # without_comment_from (if c = q then None else Some q) (c = CHR '' '' \<or> c = CHR 0x09) (d # cs))"
| "without_comment_from None follows (c # cs) =
     (if c \<in> set kQuoteCharacters then c # without_comment_from (Some c) (c = CHR '' '' \<or> c = CHR 0x09) cs
      else if c = CHR ''#'' \<and> follows then []
      else c # without_comment_from None (c = CHR '' '' \<or> c = CHR 0x09) cs)"

definition without_comment :: "string \<Rightarrow> string" where
  "without_comment content = without_comment_from None True content"

fun key_separator_from :: "char option \<Rightarrow> nat \<Rightarrow> string \<Rightarrow> nat option" where
  "key_separator_from open_quote index [] = None"
| "key_separator_from (Some q) index [c] = None"
| "key_separator_from (Some q) index (c # d # cs) =
     (if c = CHR 0x5C \<and> q = CHR 0x22 then key_separator_from (Some q) (index + 2) cs
      else key_separator_from (if c = q then None else Some q) (index + 1) (d # cs))"
| "key_separator_from None index (c # cs) =
     (if c \<in> set kQuoteCharacters then key_separator_from (Some c) (index + 1) cs
      else if c = CHR '':'' \<and> (cs = [] \<or> hd cs = CHR '' '') then Some index
      else key_separator_from None (index + 1) cs)"

definition key_separator_offset :: "string \<Rightarrow> nat option" where
  "key_separator_offset content = key_separator_from None 0 content"

definition yaml_unquoted :: "string \<Rightarrow> string" where
  "yaml_unquoted s =
     (if length s < kDelimiterPairLength then s
      else if hd s \<notin> set kQuoteCharacters \<or> last s \<noteq> hd s then s
      else substr s 1 (length s - kDelimiterPairLength))"

definition is_sequence_marker :: "string \<Rightarrow> bool" where
  "is_sequence_marker s \<longleftrightarrow> s = ''-'' \<or> starts_with s ''- ''"

definition is_unsupported_start :: "string \<Rightarrow> bool" where
  "is_unsupported_start s =
     (if is_sequence_marker s then True
      else if starts_with s ''---'' \<or> starts_with s ''...'' then True
      else if hd s = CHR ''['' then True
      else hd s \<in> set kAnchorAliasTagIndicators)"

definition opens_block_scalar :: "string \<Rightarrow> bool" where
  "opens_block_scalar s \<longleftrightarrow> s \<noteq> [] \<and> hd s \<in> set kBlockScalarIndicators"

definition is_flow_sequence_text :: "string \<Rightarrow> bool" where
  "is_flow_sequence_text s \<longleftrightarrow> length s \<ge> kDelimiterPairLength \<and> hd s = CHR ''['' \<and> last s = CHR '']''"

definition is_unsupported_value :: "string \<Rightarrow> bool \<Rightarrow> bool" where
  "is_unsupported_value s with_items =
     (if s = [] then False
      else if hd s = CHR ''['' then \<not> (with_items \<and> is_flow_sequence_text s)
      else hd s \<in> set kAnchorAliasTagIndicators)"

section \<open>The reader\<close>

record yaml_node =
  indentation :: nat
  node_key :: string
  node_value :: string
  opens_block :: bool
  is_flow_mapping :: bool
  starts_sequence_item :: bool
  is_flow_sequence :: bool

definition empty_node :: yaml_node where
  "empty_node = \<lparr>indentation = 0, node_key = [], node_value = [], opens_block = False, is_flow_mapping = False,
     starts_sequence_item = False, is_flow_sequence = False\<rparr>"

record yaml_reader =
  yr_bytes :: string
  sequence_items :: bool
  yr_position :: nat
  unsupported_line_count :: nat
  block_scalar_indentation :: "nat option"

definition new_yaml_reader :: "string \<Rightarrow> bool \<Rightarrow> yaml_reader" where
  "new_yaml_reader text items = \<lparr>yr_bytes = text, sequence_items = items, yr_position = 0,
     unsupported_line_count = 0, block_scalar_indentation = None\<rparr>"

definition count_unsupported :: "yaml_reader \<Rightarrow> yaml_reader" where
  "count_unsupported r = r\<lparr>unsupported_line_count := unsupported_line_count r + 1\<rparr>"

text \<open>The lambda \<open>skip_line\<close> with what it captures.\<close>

definition skip_line :: "bool \<Rightarrow> nat \<Rightarrow> yaml_reader \<Rightarrow> yaml_node option \<times> yaml_reader" where
  "skip_line item key_indentation r =
     (if \<not> item then (None, count_unsupported r)
      else (Some (empty_node\<lparr>indentation := key_indentation, starts_sequence_item := True\<rparr>), count_unsupported r))"

text \<open>The part of \<open>read_line\<close> after the sequence marker: one \<open>key: value\<close> line.\<close>

definition read_mapping :: "bool \<Rightarrow> nat \<Rightarrow> string \<Rightarrow> yaml_reader \<Rightarrow> yaml_node option \<times> yaml_reader" where
  "read_mapping item key_indentation content r =
     (if is_unsupported_start content then skip_line item key_indentation r
      else case key_separator_offset content of
        None \<Rightarrow> skip_line item key_indentation r
      | Some separator \<Rightarrow>
          let key = yaml_unquoted (trimmed_view (take separator content)) in
          if key = [] then skip_line item key_indentation r
          else
            let val = trimmed_view (drop (separator + 1) content) in
            if opens_block_scalar val
            then skip_line item key_indentation (r\<lparr>block_scalar_indentation := Some key_indentation\<rparr>)
            else if is_unsupported_value val (sequence_items r) then skip_line item key_indentation r
            else
              let flow_mapping = (length val \<ge> kDelimiterPairLength \<and> hd val = CHR ''{'' \<and> last val = CHR ''}'');
                  flow_sequence = (sequence_items r \<and> is_flow_sequence_text val)
              in (Some \<lparr>indentation = key_indentation, node_key = key,
                    node_value = (if flow_mapping \<or> flow_sequence then trimmed_view (substr val 1 (length val - 2))
                                  else yaml_unquoted val),
                    opens_block = (val = []), is_flow_mapping = flow_mapping, starts_sequence_item = item,
                    is_flow_sequence = flow_sequence\<rparr>, r))"

definition read_item :: "nat \<Rightarrow> string \<Rightarrow> yaml_reader \<Rightarrow> yaml_node option \<times> yaml_reader" where
  "read_item indent content r =
     (let after_marker = drop 1 content;
          key_indentation = indent + 1 + leading_space_count after_marker;
          content = trimmed_view after_marker;
          item_node = empty_node\<lparr>indentation := key_indentation, starts_sequence_item := True\<rparr>
      in if content = [] then (Some (item_node\<lparr>opens_block := True\<rparr>), r)
         else if hd content = CHR ''{'' then skip_line True key_indentation r
         else if key_separator_offset content = None then
           (if opens_block_scalar content
            then skip_line True key_indentation (r\<lparr>block_scalar_indentation := Some indent\<rparr>)
            else if is_unsupported_start content then skip_line True key_indentation r
            else (Some (item_node\<lparr>node_value := yaml_unquoted content\<rparr>), r))
         else read_mapping True key_indentation content r)"

definition read_content :: "string \<Rightarrow> nat \<Rightarrow> yaml_reader \<Rightarrow> yaml_node option \<times> yaml_reader" where
  "read_content raw_line indent r =
     (if raw_line ! indent = CHR 0x09 then (None, count_unsupported r)
      else
        let content = trimmed_view (without_comment (drop indent raw_line)) in
        if content = [] then (None, r)
        else if sequence_items r \<and> is_sequence_marker content then read_item indent content r
        else read_mapping False indent content r)"

definition read_line :: "string \<Rightarrow> yaml_reader \<Rightarrow> yaml_node option \<times> yaml_reader" where
  "read_line raw_line r =
     (if trimmed_view raw_line = [] then (None, r)
      else
        let indent = leading_space_count raw_line in
        case block_scalar_indentation r of
          Some b \<Rightarrow>
            if indent > b then (None, count_unsupported r)
            else read_content raw_line indent (r\<lparr>block_scalar_indentation := None\<rparr>)
        | None \<Rightarrow> read_content raw_line indent r)"

text \<open>Reading a line changes only the counter and the open block scalar.\<close>

definition same_source :: "yaml_reader \<Rightarrow> yaml_reader \<Rightarrow> bool" where
  "same_source r r' \<longleftrightarrow> yr_bytes r' = yr_bytes r \<and> yr_position r' = yr_position r \<and> sequence_items r' = sequence_items r"

lemma same_source_refl [simp]: "same_source r r"
  by (simp add: same_source_def)

lemma same_source_count [simp]: "same_source r (count_unsupported r)"
  by (simp add: same_source_def count_unsupported_def)

lemma same_source_skip_line [simp]: "same_source r (snd (skip_line item k r))"
  "same_source r (snd (skip_line item k (r\<lparr>block_scalar_indentation := b\<rparr>)))"
  by (simp_all add: same_source_def skip_line_def count_unsupported_def)

lemma same_source_read_mapping [simp]: "same_source r (snd (read_mapping item k content r))"
  unfolding read_mapping_def Let_def by (simp split: option.split)

lemma same_source_read_item [simp]: "same_source r (snd (read_item k content r))"
  unfolding read_item_def Let_def by simp

lemma same_source_read_content [simp]: "same_source r (snd (read_content raw k r))"
  unfolding read_content_def Let_def by simp

lemma same_source_read_line [simp]: "same_source r (snd (read_line raw r))"
proof -
  have "same_source r (snd (read_content raw k (r\<lparr>block_scalar_indentation := b\<rparr>)))" for k b
    using same_source_read_content [of "r\<lparr>block_scalar_indentation := b\<rparr>" raw k] by (simp add: same_source_def)
  then show ?thesis
    unfolding read_line_def Let_def by (simp split: option.split)
qed

lemma find_char_from_le: "find_char_from c s p = Some e \<Longrightarrow> p \<le> e"
  by (auto simp: find_char_from_def)

function reader_next :: "yaml_reader \<Rightarrow> yaml_node option \<times> yaml_reader" where
  "reader_next r =
     (if \<not> yr_position r \<le> length (yr_bytes r) then (None, r)
      else
        let line_end = find_char_from CHR 0x0A (yr_bytes r) (yr_position r);
            raw_line = (case line_end of None \<Rightarrow> drop (yr_position r) (yr_bytes r)
              | Some e \<Rightarrow> substr (yr_bytes r) (yr_position r) (e - yr_position r));
            r1 = r\<lparr>yr_position := (case line_end of None \<Rightarrow> length (yr_bytes r) + 1 | Some e \<Rightarrow> e + 1)\<rparr>
        in case read_line raw_line r1 of
             (Some n, r2) \<Rightarrow> (Some n, r2)
           | (None, r2) \<Rightarrow> reader_next r2)"
  by pat_completeness auto
termination
proof (relation "measure (\<lambda>r. Suc (length (yr_bytes r)) - yr_position r)", goal_cases)
  case 1
  then show ?case by simp
next
  case (2 r line_end raw_line r1 a r2)
  then have "same_source r1 r2" using same_source_read_line [of r1 raw_line] by (metis snd_conv)
  with 2 show ?case by (auto simp: same_source_def split: option.splits dest: find_char_from_le)
qed

declare reader_next.simps [simp del]

text \<open>The loop around \<open>next\<close>: every node up to the end, and the reader with its final counters.\<close>

lemma reader_next_progress:
  "reader_next r = (Some n, r') \<Longrightarrow> yr_bytes r' = yr_bytes r \<and> yr_position r < yr_position r' \<and> yr_position r \<le> length (yr_bytes r)"
proof (induction r rule: reader_next.induct)
  case (1 r)
  define line_end where "line_end = find_char_from CHR 0x0A (yr_bytes r) (yr_position r)"
  define raw where "raw = (case line_end of None \<Rightarrow> drop (yr_position r) (yr_bytes r)
    | Some e \<Rightarrow> substr (yr_bytes r) (yr_position r) (e - yr_position r))"
  define r1 where "r1 = r\<lparr>yr_position := (case line_end of None \<Rightarrow> length (yr_bytes r) + 1 | Some e \<Rightarrow> e + 1)\<rparr>"
  have le: "yr_position r \<le> length (yr_bytes r)"
    using "1.prems" by (subst (asm) reader_next.simps) (auto split: if_splits)
  have next_eq: "reader_next r = (case read_line raw r1 of (Some n, r2) \<Rightarrow> (Some n, r2) | (None, r2) \<Rightarrow> reader_next r2)"
    using le by (subst reader_next.simps) (simp add: Let_def flip: line_end_def raw_def r1_def)
  have pos: "yr_position r < yr_position r1" "yr_bytes r1 = yr_bytes r"
    using le by (auto simp: r1_def line_end_def split: option.split dest: find_char_from_le)
  obtain a r2 where rl: "read_line raw r1 = (a, r2)" by fastforce
  then have same: "yr_bytes r2 = yr_bytes r1" "yr_position r2 = yr_position r1"
    using same_source_read_line [of r1 raw] by (simp_all add: same_source_def)
  show ?case
  proof (cases a)
    case None
    from "1.IH" [OF _ line_end_def raw_def r1_def rl [symmetric] None] le next_eq rl None "1.prems"
    have "yr_bytes r' = yr_bytes r2 \<and> yr_position r2 < yr_position r'" by simp
    with same pos le show ?thesis by simp
  next
    case (Some m)
    with next_eq rl "1.prems" same pos le show ?thesis by simp
  qed
qed

function read_all :: "yaml_reader \<Rightarrow> yaml_node list \<times> yaml_reader" where
  "read_all r =
     (case reader_next r of
        (None, r') \<Rightarrow> ([], r')
      | (Some n, r') \<Rightarrow> (let (ns, r'') = read_all r' in (n # ns, r'')))"
  by pat_completeness auto

termination
  by (relation "measure (\<lambda>r. Suc (length (yr_bytes r)) - yr_position r)")
    (auto dest!: sym [of "(Some _, _)"] reader_next_progress)

declare read_all.simps [simp del]

section \<open>Lemmas\<close>

subsection \<open>The text as a list of lines\<close>

fun scan_lines :: "string list \<Rightarrow> yaml_reader \<Rightarrow> yaml_node list \<times> yaml_reader" where
  "scan_lines [] r = ([], r)"
| "scan_lines (l # ls) r =
     (let (n, r1) = read_line l r; (ns, r2) = scan_lines ls r1
      in ((case n of None \<Rightarrow> ns | Some x \<Rightarrow> x # ns), r2))"

definition at_pos :: "nat \<Rightarrow> yaml_reader \<Rightarrow> yaml_reader" where
  "at_pos p r = r\<lparr>yr_position := p\<rparr>"

lemma skip_line_at_pos: "skip_line item k (at_pos p r) = apsnd (at_pos p) (skip_line item k r)"
  by (simp add: skip_line_def count_unsupported_def at_pos_def)

lemma block_at_pos: "(at_pos p r)\<lparr>block_scalar_indentation := b\<rparr> = at_pos p (r\<lparr>block_scalar_indentation := b\<rparr>)"
  by (simp add: at_pos_def)

lemma fields_at_pos [simp]:
  "sequence_items (at_pos p r) = sequence_items r" "block_scalar_indentation (at_pos p r) = block_scalar_indentation r"
  "yr_bytes (at_pos p r) = yr_bytes r" "yr_position (at_pos p r) = p"
  "unsupported_line_count (at_pos p r) = unsupported_line_count r" "at_pos p (at_pos q r) = at_pos p r"
  by (simp_all add: at_pos_def)

lemma read_mapping_at_pos: "read_mapping item k c (at_pos p r) = apsnd (at_pos p) (read_mapping item k c r)"
  unfolding read_mapping_def Let_def by (simp add: skip_line_at_pos block_at_pos split: option.split)

lemma read_item_at_pos: "read_item k c (at_pos p r) = apsnd (at_pos p) (read_item k c r)"
  unfolding read_item_def Let_def by (simp add: skip_line_at_pos block_at_pos read_mapping_at_pos)

lemma read_content_at_pos: "read_content raw k (at_pos p r) = apsnd (at_pos p) (read_content raw k r)"
  unfolding read_content_def Let_def
  by (simp add: read_item_at_pos read_mapping_at_pos) (simp add: count_unsupported_def at_pos_def)

lemma read_line_at_pos: "read_line raw (at_pos p r) = apsnd (at_pos p) (read_line raw r)"
  unfolding read_line_def Let_def
  by (simp add: read_content_at_pos block_at_pos split: option.split) (simp add: count_unsupported_def at_pos_def)

lemma scan_lines_at_pos: "scan_lines ls (at_pos p r) = apsnd (at_pos p) (scan_lines ls r)"
proof (induction ls arbitrary: r)
  case (Cons l ls)
  then show ?case by (cases "read_line l r") (auto simp: read_line_at_pos split: prod.splits)
qed simp

lemma reader_next_line:
  assumes "yr_position r \<le> length (yr_bytes r)" "split_on CHR 0x0A (drop (yr_position r) (yr_bytes r)) = l # ls"
  obtains q where "reader_next r = (case read_line l (at_pos q r) of (Some n, r2) \<Rightarrow> (Some n, r2) | (None, r2) \<Rightarrow> reader_next r2)"
    "(ls = [] \<and> q = Suc (length (yr_bytes r))) \<or> (q \<le> length (yr_bytes r) \<and> yr_position r < q \<and> ls = split_on CHR 0x0A (drop q (yr_bytes r)))"
proof (cases "find_char CHR 0x0A (drop (yr_position r) (yr_bytes r))")
  case None
  then have l: "l = drop (yr_position r) (yr_bytes r)" "ls = []" using assms(2) by (simp_all add: split_on_find)
  have "find_char_from CHR 0x0A (yr_bytes r) (yr_position r) = None" using None by (simp add: find_char_from_def)
  then have "reader_next r = (case read_line l (at_pos (length (yr_bytes r) + 1) r) of (Some n, r2) \<Rightarrow> (Some n, r2) | (None, r2) \<Rightarrow> reader_next r2)"
    using assms(1) l by (subst reader_next.simps) (simp add: Let_def at_pos_def)
  with l show thesis by (intro that [of "length (yr_bytes r) + 1"]) simp_all
next
  case (Some i)
  let ?q = "yr_position r + i + 1"
  have i: "i < length (drop (yr_position r) (yr_bytes r))" using find_pos_less [OF Some] .
  have l: "l = take i (drop (yr_position r) (yr_bytes r))" "ls = split_on CHR 0x0A (drop (Suc i) (drop (yr_position r) (yr_bytes r)))"
    using Some assms(2) by (simp_all add: split_on_find [of _ "drop (yr_position r) (yr_bytes r)"])
  have "find_char_from CHR 0x0A (yr_bytes r) (yr_position r) = Some (yr_position r + i)" using Some by (simp add: find_char_from_def)
  then have "reader_next r = (case read_line l (at_pos ?q r) of (Some n, r2) \<Rightarrow> (Some n, r2) | (None, r2) \<Rightarrow> reader_next r2)"
    using assms(1) l(1) by (subst reader_next.simps) (simp add: Let_def at_pos_def substr_def)
  moreover have "ls = split_on CHR 0x0A (drop ?q (yr_bytes r))" using l(2) by (simp add: add.commute)
  ultimately show thesis using i by (intro that [of ?q]) simp_all
qed

lemma reader_next_end: "\<not> yr_position r \<le> length (yr_bytes r) \<Longrightarrow> reader_next r = (None, r)"
  by (subst reader_next.simps) simp

lemma read_all_end: "\<not> yr_position r \<le> length (yr_bytes r) \<Longrightarrow> read_all r = ([], r)"
  by (subst read_all.simps) (simp add: reader_next_end)

lemma read_all_lines:
  "yr_position r \<le> length (yr_bytes r) \<Longrightarrow> split_on CHR 0x0A (drop (yr_position r) (yr_bytes r)) = ls \<Longrightarrow>
   read_all r = apsnd (at_pos (Suc (length (yr_bytes r)))) (scan_lines ls r)"
proof (induction ls arbitrary: r)
  case Nil
  then show ?case by simp
next
  case (Cons l ls)
  let ?stop = "Suc (length (yr_bytes r))"
  obtain q where next_eq: "reader_next r = (case read_line l (at_pos q r) of (Some n, r2) \<Rightarrow> (Some n, r2) | (None, r2) \<Rightarrow> reader_next r2)"
    and q: "(ls = [] \<and> q = ?stop) \<or> (q \<le> length (yr_bytes r) \<and> yr_position r < q \<and> ls = split_on CHR 0x0A (drop q (yr_bytes r)))"
    by (rule reader_next_line [OF Cons.prems])
  obtain a r1 where rl: "read_line l r = (a, r1)" by fastforce
  then have rlq: "read_line l (at_pos q r) = (a, at_pos q r1)" by (simp add: read_line_at_pos)
  have same: "yr_bytes r1 = yr_bytes r" using same_source_read_line [of r l] rl by (simp add: same_source_def)
  have rest: "read_all (at_pos q r1) = apsnd (at_pos ?stop) (scan_lines ls r1)"
  proof (cases "ls = []")
    case True
    with q have "q = ?stop \<or> q \<le> length (yr_bytes r) \<and> ls = split_on CHR 0x0A (drop q (yr_bytes r))" by auto
    with True have "q = ?stop" using split_on_not_Nil by metis
    with True same show ?thesis by (simp add: read_all_end)
  next
    case False
    with q same have "read_all (at_pos q r1) = apsnd (at_pos (Suc (length (yr_bytes (at_pos q r1))))) (scan_lines ls (at_pos q r1))"
      by (intro Cons.IH) auto
    then show ?thesis by (cases "scan_lines ls r1") (simp add: scan_lines_at_pos same)
  qed
  obtain ns r2 where sl: "scan_lines ls r1 = (ns, r2)" by fastforce
  show ?case
  proof (cases a)
    case None
    have "read_all r = read_all (at_pos q r1)"
      using next_eq rlq None by (subst (1 2) read_all.simps) simp
    with rest sl rl None show ?thesis by simp
  next
    case (Some n)
    have "reader_next r = (Some n, at_pos q r1)" using next_eq rlq Some by simp
    then have "read_all r = (let (ns, r'') = read_all (at_pos q r1) in (n # ns, r''))" by (subst read_all.simps) simp
    with rest sl rl Some show ?thesis by simp
  qed
qed

subsection \<open>Accounting\<close>

text \<open>A line that carries nothing: blank, or only a comment.\<close>

definition only_comment :: "string \<Rightarrow> bool" where
  "only_comment l \<longleftrightarrow> trimmed_view l = [] \<or> trimmed_view (without_comment (drop (leading_space_count l) l)) = []"

definition counted :: "yaml_node option \<times> yaml_reader \<Rightarrow> nat" where
  "counted a = (case fst a of None \<Rightarrow> 0 | Some _ \<Rightarrow> 1) + unsupported_line_count (snd a)"

lemma skip_line_counted [simp]:
  "unsupported_line_count (snd (skip_line item k r)) = Suc (unsupported_line_count r)"
  by (simp add: skip_line_def count_unsupported_def)

lemma read_mapping_counted:
  "unsupported_line_count r \<le> unsupported_line_count (snd (read_mapping item k c r)) \<and>
   unsupported_line_count (snd (read_mapping item k c r)) \<le> Suc (unsupported_line_count r) \<and>
   counted (read_mapping False k c r) = Suc (unsupported_line_count r)"
  unfolding read_mapping_def Let_def
  by (simp add: counted_def skip_line_def count_unsupported_def split: option.split)

lemma read_line_counted:
  assumes "\<not> sequence_items r"
  shows "counted (read_line l r) \<le> Suc (unsupported_line_count r)"
    and "\<not> only_comment l \<Longrightarrow> counted (read_line l r) = Suc (unsupported_line_count r)"
    and "unsupported_line_count r \<le> unsupported_line_count (snd (read_line l r))"
proof -
  have c: "counted (read_content l k r') \<le> Suc (unsupported_line_count r')"
    "trimmed_view (without_comment (drop k l)) \<noteq> [] \<Longrightarrow> counted (read_content l k r') = Suc (unsupported_line_count r')"
    if "\<not> sequence_items r'" for k and r'
    using that read_mapping_counted [of r' False k "trimmed_view (without_comment (drop k l))"]
    by (auto simp: read_content_def Let_def counted_def count_unsupported_def)
  have m: "unsupported_line_count r' \<le> unsupported_line_count (snd (read_content l k r'))" if "\<not> sequence_items r'" for k and r'
    using that read_mapping_counted [of r' False k "trimmed_view (without_comment (drop k l))"]
    by (simp add: read_content_def Let_def count_unsupported_def)
  have b: "counted (None, count_unsupported r) = Suc (unsupported_line_count r)" "counted (None, r) = unsupported_line_count r"
    by (simp_all add: counted_def count_unsupported_def)
  show "counted (read_line l r) \<le> Suc (unsupported_line_count r)"
    using assms c(1) [of r] c(1) [of "r\<lparr>block_scalar_indentation := None\<rparr>"] b
    by (simp add: read_line_def Let_def split: option.split)
  show "unsupported_line_count r \<le> unsupported_line_count (snd (read_line l r))"
    using assms m [of r] m [of "r\<lparr>block_scalar_indentation := None\<rparr>"]
    by (simp add: read_line_def Let_def count_unsupported_def split: option.split)
  show "counted (read_line l r) = Suc (unsupported_line_count r)" if "\<not> only_comment l"
    using that assms c(2) [of r] c(2) [of "r\<lparr>block_scalar_indentation := None\<rparr>"] b
    by (simp add: read_line_def only_comment_def Let_def split: option.split)
qed

lemma scan_lines_counted:
  "\<not> sequence_items r \<Longrightarrow> scan_lines ls r = (ns, r') \<Longrightarrow>
   length ns + unsupported_line_count r' \<le> unsupported_line_count r + length ls \<and>
   unsupported_line_count r + length (filter (\<lambda>l. \<not> only_comment l) ls) \<le> length ns + unsupported_line_count r'"
proof (induction ls arbitrary: r ns r')
  case (Cons l ls)
  obtain a r1 where rl: "read_line l r = (a, r1)" by fastforce
  obtain ns1 r2 where sl: "scan_lines ls r1 = (ns1, r2)" by fastforce
  have items: "\<not> sequence_items r1" using same_source_read_line [of r l] rl Cons.prems(1) by (simp add: same_source_def)
  have out: "r' = r2" "ns = (case a of None \<Rightarrow> ns1 | Some x \<Rightarrow> x # ns1)" using Cons.prems(2) rl sl by simp_all
  from Cons.IH [OF items sl] read_line_counted [OF Cons.prems(1), of l] rl show ?case
    by (auto simp: out counted_def split: option.splits)
qed simp

subsection \<open>Block scalars\<close>

lemma scan_lines_block:
  "block_scalar_indentation r = Some b \<Longrightarrow> list_all (\<lambda>l. trimmed_view l = [] \<or> b < leading_space_count l) ls \<Longrightarrow>
   scan_lines ls r = ([], r\<lparr>unsupported_line_count := unsupported_line_count r + length (filter (\<lambda>l. trimmed_view l \<noteq> []) ls)\<rparr>)"
proof (induction ls arbitrary: r)
  case (Cons l ls)
  show ?case
  proof (cases "trimmed_view l = []")
    case True
    with Cons show ?thesis by (simp add: read_line_def)
  next
    case False
    with Cons.prems have "read_line l r = (None, count_unsupported r)" by (simp add: read_line_def Let_def)
    moreover have "block_scalar_indentation (count_unsupported r) = Some b" using Cons.prems(1) by (simp add: count_unsupported_def)
    ultimately show ?thesis using Cons.IH [of "count_unsupported r"] Cons.prems(2) False
      by (simp add: count_unsupported_def)
  qed
qed simp

subsection \<open>Written lines\<close>

text \<open>The scalars a writer of the subset produces, bare words and quoted texts, and the lines made of them.\<close>

datatype yaml_scalar = Bare string | Quoted string

fun scalar_text :: "yaml_scalar \<Rightarrow> string" where
  "scalar_text (Bare s) = s"
| "scalar_text (Quoted s) = s"

fun written :: "yaml_scalar \<Rightarrow> string" where
  "written (Bare s) = s"
| "written (Quoted s) = CHR 0x22 # s @ [CHR 0x22]"

definition bare_char :: "char \<Rightarrow> bool" where
  "bare_char c \<longleftrightarrow> \<not> is_space c \<and> c \<notin> set kQuoteCharacters \<and> c \<noteq> CHR ''#'' \<and> c \<noteq> CHR '':''"

definition plain_quoted :: "string \<Rightarrow> bool" where
  "plain_quoted s \<longleftrightarrow> list_all (\<lambda>c. c \<noteq> CHR 0x22 \<and> c \<noteq> CHR 0x5C \<and> c \<noteq> CHR 0x0A) s"

fun good_scalar :: "yaml_scalar \<Rightarrow> bool" where
  "good_scalar (Bare s) \<longleftrightarrow> s \<noteq> [] \<and> list_all bare_char s \<and> hd s \<notin> set ''-.[{|>&*!''"
| "good_scalar (Quoted s) \<longleftrightarrow> plain_quoted s"

definition render_yaml_line :: "nat \<times> yaml_scalar \<times> yaml_scalar option \<Rightarrow> string" where
  "render_yaml_line e = (case e of (n, k, v) \<Rightarrow> replicate n CHR '' '' @ written k @ '':'' @
     (case v of None \<Rightarrow> [] | Some v \<Rightarrow> '' '' @ written v))"

definition rendered_node :: "nat \<times> yaml_scalar \<times> yaml_scalar option \<Rightarrow> yaml_node" where
  "rendered_node e = (case e of (n, k, v) \<Rightarrow> empty_node\<lparr>indentation := n, node_key := scalar_text k,
     node_value := (case v of None \<Rightarrow> [] | Some v \<Rightarrow> scalar_text v), opens_block := (v = None)\<rparr>)"

definition plain_yaml_entry :: "nat \<times> yaml_scalar \<times> yaml_scalar option \<Rightarrow> bool" where
  "plain_yaml_entry e = (case e of (n, k, v) \<Rightarrow> scalar_text k \<noteq> [] \<and> good_scalar k \<and> (case v of None \<Rightarrow> True | Some v \<Rightarrow> good_scalar v))"

lemma without_comment_inside:
  "plain_quoted k \<Longrightarrow> without_comment_from (Some CHR 0x22) f (k @ CHR 0x22 # rest) = k @ CHR 0x22 # without_comment_from None False rest"
proof (induction k arbitrary: f)
  case Nil
  then show ?case by (cases rest) simp_all
next
  case (Cons c k)
  then have c: "c \<noteq> CHR 0x22" "c \<noteq> CHR 0x5C" "plain_quoted k" by (simp_all add: plain_quoted_def)
  obtain d cs where d: "k @ CHR 0x22 # rest = d # cs" by (cases "k @ CHR 0x22 # rest") auto
  show ?case using c Cons.IH [OF c(3)] by (simp add: d)
qed

lemma key_separator_inside:
  "plain_quoted k \<Longrightarrow> key_separator_from (Some CHR 0x22) i (k @ CHR 0x22 # rest) = key_separator_from None (i + length k + 1) rest"
proof (induction k arbitrary: i)
  case Nil
  then show ?case by (cases rest) simp_all
next
  case (Cons c k)
  then have c: "c \<noteq> CHR 0x22" "c \<noteq> CHR 0x5C" "plain_quoted k" by (simp_all add: plain_quoted_def)
  obtain d cs where d: "k @ CHR 0x22 # rest = d # cs" by (cases "k @ CHR 0x22 # rest") auto
  show ?case using c Cons.IH [OF c(3), of "i + 1"] by (simp add: d)
qed

lemma bare_charD: "bare_char c \<Longrightarrow> c \<noteq> CHR '' '' \<and> c \<noteq> CHR 0x09 \<and> c \<noteq> CHR 0x0A \<and> c \<notin> set kQuoteCharacters \<and> c \<noteq> CHR ''#'' \<and> c \<noteq> CHR '':'' \<and> \<not> is_space c"
  by (auto simp: bare_char_def kAsciiWhitespace_def)

lemma without_comment_bare:
  "list_all bare_char k \<Longrightarrow> without_comment_from None f (k @ rest) = k @ without_comment_from None (f \<and> k = []) rest"
  by (induction k arbitrary: f) (auto dest: bare_charD)

lemma key_separator_bare:
  "list_all bare_char k \<Longrightarrow> key_separator_from None i (k @ rest) = key_separator_from None (i + length k) rest"
  by (induction k arbitrary: i) (auto dest: bare_charD)

lemma without_comment_written:
  "good_scalar k \<Longrightarrow> without_comment_from None f (written k @ rest) = written k @ without_comment_from None False rest"
  by (cases k) (simp_all add: without_comment_bare without_comment_inside kQuoteCharacters_def)

lemma key_separator_written:
  "good_scalar k \<Longrightarrow> key_separator_from None i (written k @ rest) = key_separator_from None (i + length (written k)) rest"
  by (cases k) (simp_all add: key_separator_bare key_separator_inside kQuoteCharacters_def)

lemma yaml_marks_not_space: "\<not> is_space CHR 0x22" "\<not> is_space CHR '':''"
  by (simp_all add: kAsciiWhitespace_def)

lemma written_ends:
  assumes "good_scalar k"
  shows "written k \<noteq> []" "\<not> is_space (hd (written k))" "\<not> is_space (last (written k))" "hd (written k) \<notin> set ''-.[{|>&*!''"
proof -
  have "written k \<noteq> [] \<and> \<not> is_space (hd (written k)) \<and> \<not> is_space (last (written k)) \<and> hd (written k) \<notin> set ''-.[{|>&*!''"
  proof (cases k)
    case (Bare s)
    with assms have s: "s \<noteq> []" "list_all bare_char s" "hd s \<notin> set ''-.[{|>&*!''" by simp_all
    then have "bare_char (hd s)" "bare_char (last s)" by (simp_all add: list_all_iff)
    with s Bare show ?thesis by (simp add: bare_charD)
  next
    case (Quoted s)
    with yaml_marks_not_space show ?thesis by simp
  qed
  then show "written k \<noteq> []" "\<not> is_space (hd (written k))" "\<not> is_space (last (written k))" "hd (written k) \<notin> set ''-.[{|>&*!''"
    by blast+
qed

lemma trimmed_written: "good_scalar k \<Longrightarrow> trimmed_view (written k) = written k"
  by (rule trimmed_view_id) (rule written_ends; assumption)+

lemma unquoted_written: "good_scalar k \<Longrightarrow> yaml_unquoted (written k) = scalar_text k"
proof (cases k)
  case (Bare s)
  assume "good_scalar k"
  with Bare have "s \<noteq> []" "list_all bare_char s" by simp_all
  then have "hd s \<notin> set kQuoteCharacters" by (cases s) (simp_all add: bare_char_def)
  with Bare show ?thesis by (simp add: yaml_unquoted_def)
next
  case (Quoted s)
  then show ?thesis by (simp add: yaml_unquoted_def kDelimiterPairLength_def kQuoteCharacters_def substr_def)
qed

lemma starts_with_hd: "starts_with s (c # p) \<Longrightarrow> s \<noteq> [] \<and> hd s = c"
  by (cases s) simp_all

lemma start_supported:
  assumes "s \<noteq> []" "hd s \<notin> set ''-.[{|>&*!''"
  shows "\<not> is_unsupported_start s" "\<not> is_sequence_marker s" "\<not> opens_block_scalar s" "\<not> is_unsupported_value s items"
    "\<not> is_flow_sequence_text s" "hd s \<noteq> CHR ''{''"
proof -
  show seq: "\<not> is_sequence_marker s" using assms by (auto simp: is_sequence_marker_def dest: starts_with_hd)
  show "\<not> is_unsupported_start s" using assms seq by (auto simp: is_unsupported_start_def kAnchorAliasTagIndicators_def dest: starts_with_hd)
  show "\<not> opens_block_scalar s" "\<not> is_unsupported_value s items" "\<not> is_flow_sequence_text s" "hd s \<noteq> CHR ''{''"
    using assms by (auto simp: opens_block_scalar_def kBlockScalarIndicators_def is_unsupported_value_def
      kAnchorAliasTagIndicators_def is_flow_sequence_text_def)
qed

lemma leading_space_count_replicate: "s \<noteq> [] \<Longrightarrow> hd s \<noteq> CHR '' '' \<Longrightarrow> leading_space_count (replicate n CHR '' '' @ s) = n"
  by (induction n) (cases s, simp_all)

definition written_value :: "yaml_scalar option \<Rightarrow> string" where
  "written_value v = (case v of None \<Rightarrow> [] | Some v \<Rightarrow> '' '' @ written v)"

lemma trimmed_value:
  "(case v of None \<Rightarrow> True | Some v \<Rightarrow> good_scalar v) \<Longrightarrow> trimmed_view (written_value v) = (case v of None \<Rightarrow> [] | Some v \<Rightarrow> written v)"
  using trimmed_view_core [of "'' ''" "[]"] written_ends [of "the v"]
  by (cases v) (simp_all add: written_value_def kAsciiWhitespace_def)

lemma read_mapping_written:
  assumes k: "scalar_text k \<noteq> []" "good_scalar k" and v: "case v of None \<Rightarrow> True | Some v \<Rightarrow> good_scalar v"
  shows "read_mapping False n (written k @ CHR '':'' # written_value v) r = (Some (rendered_node (n, k, v)), r)"
proof -
  let ?content = "written k @ CHR '':'' # written_value v"
  have sep: "key_separator_offset ?content = Some (length (written k))"
    unfolding key_separator_offset_def key_separator_written [OF k(2)]
    by (cases v) (simp_all add: written_value_def kQuoteCharacters_def)
  note key_start = start_supported [of ?content] and ends = written_ends [OF k(2)]
  have start: "\<not> is_unsupported_start ?content" using key_start(1) ends by simp
  show ?thesis
  proof (cases v)
    case None
    then show ?thesis
      using start sep k trimmed_value [OF v]
      by (simp add: read_mapping_def Let_def trimmed_written unquoted_written written_value_def opens_block_scalar_def is_unsupported_value_def
        is_flow_sequence_text_def kDelimiterPairLength_def rendered_node_def empty_node_def yaml_unquoted_def [of "[]"])
  next
    case (Some w)
    with v have w: "good_scalar w" by simp
    note value_start = start_supported [OF written_ends(1) [OF w] written_ends(4) [OF w]]
    show ?thesis
      using start sep k trimmed_value [OF v] value_start w written_ends(1) [OF w]
      by (simp add: Some read_mapping_def Let_def trimmed_written unquoted_written rendered_node_def empty_node_def)
  qed
qed

lemma read_rendered_line:
  assumes "plain_yaml_entry e" "block_scalar_indentation r = None"
  shows "read_line (render_yaml_line e) r = (Some (rendered_node e), r)"
proof -
  obtain n k v where e: "e = (n, k, v)" by (cases e)
  have k: "scalar_text k \<noteq> []" "good_scalar k" and v: "case v of None \<Rightarrow> True | Some v \<Rightarrow> good_scalar v"
    using assms(1) by (simp_all add: plain_yaml_entry_def e)
  define content where "content = written k @ CHR '':'' # written_value v"
  note ends = written_ends [OF k(2)]
  have line: "render_yaml_line e = replicate n CHR '' '' @ content"
    by (simp add: render_yaml_line_def e content_def written_value_def)
  have ne: "content \<noteq> []" and hd: "hd content = hd (written k)" using ends by (simp_all add: content_def)
  have last: "\<not> is_space (last content)"
    using yaml_marks_not_space v written_ends(1,3) [of "the v"] by (cases v) (simp_all add: content_def written_value_def)
  have t: "trimmed_view content = content" using ne hd last ends by (intro trimmed_view_id) simp_all
  have in_line: "hd content \<in> set (render_yaml_line e)" using ne by (simp add: line)
  then have blank: "trimmed_view (render_yaml_line e) \<noteq> []" using hd ends(2) by (auto simp: trimmed_view_eq_Nil)
  have tab: "hd content \<noteq> CHR 0x09" "hd content \<noteq> CHR '' ''" using hd ends(2) by (auto simp: kAsciiWhitespace_def)
  have ind: "leading_space_count (render_yaml_line e) = n" using ne tab by (simp add: line leading_space_count_replicate)
  have dr: "drop n (render_yaml_line e) = content" "render_yaml_line e ! n = hd content" using ne by (simp_all add: line nth_append hd_conv_nth)
  have "without_comment_from None False (CHR '':'' # written_value v) = CHR '':'' # written_value v"
    using v without_comment_written [of "the v" _ "[]"] by (cases v) (simp_all add: written_value_def kQuoteCharacters_def)
  then have wc: "without_comment content = content"
    using without_comment_written [OF k(2)] by (simp add: without_comment_def content_def)
  have "\<not> is_sequence_marker content" using ne hd ends(4) start_supported(2) by simp
  moreover have "read_mapping False n content r = (Some (rendered_node e), r)" by (simp add: content_def e read_mapping_written [OF k v])
  ultimately show ?thesis
    using blank tab assms(2) ne by (simp add: read_line_def Let_def ind read_content_def dr wc t)
qed

lemma scan_rendered_lines:
  "list_all plain_yaml_entry es \<Longrightarrow> block_scalar_indentation r = None \<Longrightarrow>
   scan_lines (map render_yaml_line es) r = (map rendered_node es, r)"
  by (induction es) (simp_all add: read_rendered_line)

lemma rendered_no_newline: "plain_yaml_entry e \<Longrightarrow> CHR 0x0A \<notin> set (render_yaml_line e)"
proof -
  have q: "CHR 0x0A \<notin> set (written k)" if "good_scalar k" for k
    using that by (cases k) (auto simp: plain_quoted_def list_all_iff bare_char_def kAsciiWhitespace_def)
  assume "plain_yaml_entry e"
  then show ?thesis using q by (auto simp: plain_yaml_entry_def render_yaml_line_def split: option.splits prod.splits)
qed

section \<open>Properties\<close>

text \<open>The pull reader is the line-by-line reading of the text: calling \<open>next\<close> until it says no yields, in order,
  the nodes of the lines between the line breaks, each line read once with the state the lines before it
  left, and the counter of unsupported lines is that of the same scan.\<close>

theorem yaml_reader_is_line_scan:
  "(let (nodes, r) = read_all (new_yaml_reader text items);
        (nodes', r') = scan_lines (split_on CHR 0x0A text) (new_yaml_reader text items)
    in nodes = nodes' \<and> unsupported_line_count r = unsupported_line_count r' \<and>
       block_scalar_indentation r = block_scalar_indentation r')"
  using read_all_lines [of "new_yaml_reader text items" "split_on CHR 0x0A text"]
  by (cases "scan_lines (split_on CHR 0x0A text) (new_yaml_reader text items)") (simp add: new_yaml_reader_def)

text \<open>C14: No line is lost silently: without the sequence extension the nodes and the lines counted as unsupported
  together account for every line that is not blank or a comment, and for no more than the lines there are.\<close>

theorem yaml_lines_accounted:
  "(let (nodes, r) = read_all (new_yaml_reader text False); lines = split_on CHR 0x0A text
    in length nodes + unsupported_line_count r \<le> length lines \<and>
       length (filter (\<lambda>l. \<not> only_comment l) lines) \<le> length nodes + unsupported_line_count r)"
proof -
  obtain ns r' where s: "scan_lines (split_on CHR 0x0A text) (new_yaml_reader text False) = (ns, r')" by fastforce
  have "read_all (new_yaml_reader text False) = (ns, at_pos (Suc (length text)) r')"
    using read_all_lines [of "new_yaml_reader text False" "split_on CHR 0x0A text"] s by (simp add: new_yaml_reader_def)
  moreover have "length ns + unsupported_line_count r' \<le> length (split_on CHR 0x0A text) \<and>
      length (filter (\<lambda>l. \<not> only_comment l) (split_on CHR 0x0A text)) \<le> length ns + unsupported_line_count r'"
    using scan_lines_counted [OF _ s] by (simp add: new_yaml_reader_def)
  ultimately show ?thesis by (simp add: Let_def)
qed

text \<open>C15: Reading inverts writing: a document of keys and values, bare words or quoted texts at any indentation, is read back
  exactly and completely, whatever the quoted texts hold: colons, hash signs, brackets and markers in them are
  text.\<close>

theorem yaml_roundtrip:
  assumes "list_all plain_yaml_entry es" "es \<noteq> []"
  shows "fst (read_all (new_yaml_reader (join_with CHR 0x0A (map render_yaml_line es)) items)) = map rendered_node es \<and>
    unsupported_line_count (snd (read_all (new_yaml_reader (join_with CHR 0x0A (map render_yaml_line es)) items))) = 0"
proof -
  let ?text = "join_with CHR 0x0A (map render_yaml_line es)" and ?r = "new_yaml_reader (join_with CHR 0x0A (map render_yaml_line es)) items"
  have "split_on CHR 0x0A ?text = map render_yaml_line es"
    using assms rendered_no_newline by (intro split_on_join) (auto simp: list_all_iff)
  then have "read_all ?r = apsnd (at_pos (Suc (length ?text))) (scan_lines (map render_yaml_line es) ?r)"
    by (subst read_all_lines) (simp_all add: new_yaml_reader_def)
  also have "scan_lines (map render_yaml_line es) ?r = (map rendered_node es, ?r)"
    by (rule scan_rendered_lines [OF assms(1)]) (simp add: new_yaml_reader_def)
  finally show ?thesis by (simp add: new_yaml_reader_def)
qed

theorem yaml_roundtrip_witness:
  "map node_key (fst (read_all (new_yaml_reader (join_with CHR 0x0A (map render_yaml_line
      [(0, Quoted ''a@npm:^1'', None), (2, Bare ''resolution'', Some (Quoted ''b#c: [d]''))])) False))) = [''a@npm:^1'', ''resolution'']"
  using yaml_roundtrip [of "[(0, Quoted ''a@npm:^1'', None), (2, Bare ''resolution'', Some (Quoted ''b#c: [d]''))]" False]
  by (simp add: plain_yaml_entry_def plain_quoted_def rendered_node_def bare_char_def kAsciiWhitespace_def kQuoteCharacters_def)

text \<open>The body of a block scalar is skipped as a unit: while one is open, every line that is blank or indented
  deeper than its key yields no node, the blank ones are free and the others are counted, and the scalar
  stays open.\<close>

theorem yaml_block_scalar_skipped:
  assumes "block_scalar_indentation r = Some b" "list_all (\<lambda>l. trimmed_view l = [] \<or> b < leading_space_count l) body"
  shows "scan_lines body r = ([], r\<lparr>unsupported_line_count := unsupported_line_count r + length (filter (\<lambda>l. trimmed_view l \<noteq> []) body)\<rparr>)"
  by (rule scan_lines_block [OF assms])

theorem yaml_block_scalar_skipped_witness:
  "fst (scan_lines [''    a: b'', [], ''   c''] ((new_yaml_reader [] False)\<lparr>block_scalar_indentation := Some 2\<rparr>)) = []"
  using yaml_block_scalar_skipped [of "(new_yaml_reader [] False)\<lparr>block_scalar_indentation := Some 2\<rparr>" 2 "[''    a: b'', [], ''   c'']"]
  by simp

end
