(* ===== verification/Cmake_Scanner.thy ===== *)
theory Cmake_Scanner
  imports Text Warnings
begin

text \<open>
  \<open>parsers/cpp/cmake_scanner.hpp\<close> and \<open>parsers/cpp/cmake_scanner.cpp\<close>: the single-pass lexer of CMake files.
  \<open>cmake_lexer\<close> is a \<open>CmakeLexer\<close>: what is left of the text from \<open>position_\<close> on, the line, and the result with
  the commands so far. Every operation that moves the position returns the lexer updated; the loops are
  recursions on what is left, and the bounds that make them terminate are proved with them.
\<close>

section \<open>Characters\<close>

definition kMaxCommandsPerFile :: nat where "kMaxCommandsPerFile = 20000"
definition kMaxArgumentsPerCommand :: nat where "kMaxArgumentsPerCommand = 4000"
definition kMaxParenDepth :: nat where "kMaxParenDepth = 64"
definition kMaxArgumentBytes :: nat where "kMaxArgumentBytes = 64 * 1024"

definition is_cmake_space :: "char \<Rightarrow> bool" where
  "is_cmake_space c \<longleftrightarrow> c = CHR '' '' \<or> c = CHR 0x09 \<or> c = CHR 0x0D \<or> c = CHR 0x0A"

definition is_identifier_start :: "char \<Rightarrow> bool" where
  "is_identifier_start c \<longleftrightarrow> CHR ''A'' \<le> c \<and> c \<le> CHR ''Z'' \<or> CHR ''a'' \<le> c \<and> c \<le> CHR ''z'' \<or> c = CHR ''_''"

definition is_identifier_char :: "char \<Rightarrow> bool" where
  "is_identifier_char c \<longleftrightarrow> is_identifier_start c \<or> CHR ''0'' \<le> c \<and> c \<le> CHR ''9''"

section \<open>The lexer\<close>

record cmake_command =
  command_name :: string
  arguments :: "string list"
  command_line :: nat
  well_formed :: bool

record cmake_lexer =
  lex_rest :: string
  lex_line :: nat
  lex_result :: "cmake_command list result"

definition has_input :: "cmake_lexer \<Rightarrow> bool" where
  "has_input l \<longleftrightarrow> lex_rest l \<noteq> []"

definition current :: "cmake_lexer \<Rightarrow> char" where
  "current l = hd (lex_rest l)"

definition advance :: "cmake_lexer \<Rightarrow> cmake_lexer" where
  "advance l =
     (case lex_rest l of
        [] \<Rightarrow> l
      | c # rest \<Rightarrow> l\<lparr>lex_rest := rest, lex_line := (if c = CHR 0x0A then lex_line l + 1 else lex_line l)\<rparr>)"

definition cmake_warn :: "warning_code \<Rightarrow> string \<Rightarrow> cmake_lexer \<Rightarrow> cmake_lexer" where
  "cmake_warn code m l = l\<lparr>lex_result := warn code (''cmake: '' @ m) ''cmake'' [] (lex_result l)\<rparr>"

definition push_command :: "cmake_command \<Rightarrow> cmake_lexer \<Rightarrow> cmake_lexer" where
  "push_command c l = l\<lparr>lex_result := (lex_result l)\<lparr>result_value := result_value (lex_result l) @ [c]\<rparr>\<rparr>"

lemma advance_rest [simp]: "lex_rest (advance l) = tl (lex_rest l)"
  by (simp add: advance_def split: list.split)

lemma advances_rest [simp]: "lex_rest ((advance ^^ n) l) = drop n (lex_rest l)"
  by (induction n) (simp_all add: drop_Suc tl_drop)

lemma cmake_warn_rest [simp]: "lex_rest (cmake_warn c m l) = lex_rest l"
  by (simp add: cmake_warn_def)

lemma push_command_rest [simp]: "lex_rest (push_command c l) = lex_rest l"
  by (simp add: push_command_def)

definition match_bracket_open :: "cmake_lexer \<Rightarrow> (nat \<times> cmake_lexer) option" where
  "match_bracket_open l =
     (if current l \<noteq> CHR ''['' then None
      else
        let equals = length (takeWhile (\<lambda>c. c = CHR ''='') (tl (lex_rest l)));
            after = drop equals (tl (lex_rest l))
        in if after = [] \<or> hd after \<noteq> CHR ''['' then None
           else Some (equals, (advance ^^ (equals + 2)) l))"

definition match_bracket_close :: "nat \<Rightarrow> cmake_lexer \<Rightarrow> cmake_lexer option" where
  "match_bracket_close equals_count l =
     (if current l \<noteq> CHR '']'' then None
      else
        let equals = length (takeWhile (\<lambda>c. c = CHR ''='') (take equals_count (tl (lex_rest l))));
            after = drop equals (tl (lex_rest l))
        in if equals \<noteq> equals_count \<or> after = [] \<or> hd after \<noteq> CHR '']'' then None
           else Some ((advance ^^ (equals_count + 2)) l))"

definition append_bounded :: "string \<Rightarrow> char \<Rightarrow> string" where
  "append_bounded val c = (if length val < kMaxArgumentBytes then val @ [c] else val)"

function skip_bracket_comment :: "nat \<Rightarrow> cmake_lexer \<Rightarrow> cmake_lexer" where
  "skip_bracket_comment equals_count l =
     (if \<not> has_input l then cmake_warn kMalformedEntrySkipped ''unterminated bracket comment'' l
      else case (if current l = CHR '']'' then match_bracket_close equals_count l else None) of
        Some l' \<Rightarrow> l'
      | None \<Rightarrow> skip_bracket_comment equals_count (advance l))"
  by pat_completeness auto
termination
  by (relation "measure (\<lambda>(k, l). length (lex_rest l))") (auto simp: has_input_def)

function skip_line_comment :: "cmake_lexer \<Rightarrow> cmake_lexer" where
  "skip_line_comment l = (if has_input l \<and> current l \<noteq> CHR 0x0A then skip_line_comment (advance l) else l)"
  by pat_completeness auto
termination
  by (relation "measure (\<lambda>l. length (lex_rest l))") (auto simp: has_input_def)

declare skip_bracket_comment.simps [simp del] skip_line_comment.simps [simp del]

definition skip_comment :: "cmake_lexer \<Rightarrow> cmake_lexer" where
  "skip_comment l =
     (let l = advance l in
      case (if has_input l \<and> current l = CHR ''['' then match_bracket_open l else None) of
        Some (equals_count, l') \<Rightarrow> skip_bracket_comment equals_count l'
      | None \<Rightarrow> skip_line_comment l)"

lemma match_bracket_open_rest: "match_bracket_open l = Some (k, l') \<Longrightarrow> l' = (advance ^^ (k + 2)) l"
  by (auto simp: match_bracket_open_def Let_def split: if_splits)

lemma match_bracket_close_rest: "match_bracket_close k l = Some l' \<Longrightarrow> l' = (advance ^^ (k + 2)) l"
  by (auto simp: match_bracket_close_def Let_def split: if_splits)

lemma le_pred: "a \<le> n - Suc 0 \<Longrightarrow> a \<le> (n :: nat)"
  by simp

lemma skip_bracket_comment_length: "length (lex_rest (skip_bracket_comment k l)) \<le> length (lex_rest l)"
proof (induction k l rule: skip_bracket_comment.induct)
  case (1 k l)
  show ?case
  proof (cases "if current l = CHR '']'' then match_bracket_close k l else None")
    case None
    with 1 show ?thesis by (subst skip_bracket_comment.simps) (auto dest: le_pred)
  next
    case (Some l')
    then have "l' = (advance ^^ (k + 2)) l" using match_bracket_close_rest by (auto split: if_splits)
    with Some show ?thesis by (subst skip_bracket_comment.simps) simp
  qed
qed

lemma skip_line_comment_length: "length (lex_rest (skip_line_comment l)) \<le> length (lex_rest l)"
proof (induction l rule: skip_line_comment.induct)
  case (1 l)
  then show ?case by (subst skip_line_comment.simps) (auto dest: le_pred)
qed

lemma skip_comment_length: "has_input l \<Longrightarrow> length (lex_rest (skip_comment l)) < length (lex_rest l)"
proof -
  assume h: "has_input l"
  have less: "length (lex_rest (advance l)) < length (lex_rest l)" using h by (simp add: has_input_def)
  show ?thesis
  proof (cases "if has_input (advance l) \<and> current (advance l) = CHR ''['' then match_bracket_open (advance l) else None")
    case None
    then have "skip_comment l = skip_line_comment (advance l)" by (simp add: skip_comment_def Let_def)
    with skip_line_comment_length [of "advance l"] less show ?thesis by simp
  next
    case (Some a)
    obtain k l' where a: "a = (k, l')" by (cases a)
    with Some have m: "match_bracket_open (advance l) = Some (k, l')" by (auto split: if_splits)
    have "skip_comment l = skip_bracket_comment k l'" using Some a by (simp add: skip_comment_def Let_def)
    moreover have "length (lex_rest l') \<le> length (lex_rest (advance l))"
      using match_bracket_open_rest [OF m] by simp
    ultimately show ?thesis using skip_bracket_comment_length [of k l'] less by simp
  qed
qed

function skip_ignorable :: "cmake_lexer \<Rightarrow> cmake_lexer" where
  "skip_ignorable l =
     (if \<not> has_input l then l
      else if is_cmake_space (current l) then skip_ignorable (advance l)
      else if current l = CHR ''#'' then skip_ignorable (skip_comment l)
      else l)"
  by pat_completeness auto
termination
  by (relation "measure (\<lambda>l. length (lex_rest l))") (auto simp: skip_comment_length, simp add: has_input_def)

declare skip_ignorable.simps [simp del]

lemma skip_ignorable_length: "length (lex_rest (skip_ignorable l)) \<le> length (lex_rest l)"
proof (induction l rule: skip_ignorable.induct)
  case (1 l)
  then show ?case
    using skip_comment_length [of l] by (subst skip_ignorable.simps) (auto dest: le_pred)
qed

section \<open>Arguments\<close>

function read_quoted :: "string \<Rightarrow> cmake_lexer \<Rightarrow> string \<times> cmake_lexer" where
  "read_quoted val l =
     (if \<not> has_input l then (val, cmake_warn kMalformedEntrySkipped ''unterminated quoted argument'' l)
      else if current l = CHR 0x22 then (val, advance l)
      else if current l = CHR 0x5C then
        (let l = advance l in
         if \<not> has_input l then (val, cmake_warn kMalformedEntrySkipped ''unterminated quoted argument'' l)
         else read_quoted (append_bounded val (current l)) (advance l))
      else read_quoted (append_bounded val (current l)) (advance l))"
  by pat_completeness auto
termination
  by (relation "measure (\<lambda>(v, l). length (lex_rest l))") (auto simp: has_input_def)

definition read_quoted_argument :: "cmake_lexer \<Rightarrow> string \<times> cmake_lexer" where
  "read_quoted_argument l = read_quoted [] (advance l)"

function read_bracket :: "nat \<Rightarrow> string \<Rightarrow> cmake_lexer \<Rightarrow> string \<times> cmake_lexer" where
  "read_bracket equals_count val l =
     (if \<not> has_input l then (val, cmake_warn kMalformedEntrySkipped ''unterminated bracket argument'' l)
      else case (if current l = CHR '']'' then match_bracket_close equals_count l else None) of
        Some l' \<Rightarrow> (val, l')
      | None \<Rightarrow> read_bracket equals_count (append_bounded val (current l)) (advance l))"
  by pat_completeness auto
termination
  by (relation "measure (\<lambda>(k, v, l). length (lex_rest l))") (auto simp: has_input_def)

definition read_bracket_argument :: "nat \<Rightarrow> cmake_lexer \<Rightarrow> string \<times> cmake_lexer" where
  "read_bracket_argument equals_count l = read_bracket equals_count [] l"

function read_bare :: "string \<Rightarrow> cmake_lexer \<Rightarrow> string \<times> cmake_lexer" where
  "read_bare val l =
     (if \<not> has_input l then (val, l)
      else if current l = CHR 0x5C then
        (let l = advance l in
         if \<not> has_input l then (val, l) else read_bare (append_bounded val (current l)) (advance l))
      else if is_cmake_space (current l) \<or> current l = CHR ''('' \<or> current l = CHR '')'' \<or> current l = CHR 0x22 then (val, l)
      else read_bare (append_bounded val (current l)) (advance l))"
  by pat_completeness auto
termination
  by (relation "measure (\<lambda>(v, l). length (lex_rest l))") (auto simp: has_input_def)

definition read_bare_argument :: "cmake_lexer \<Rightarrow> string \<times> cmake_lexer" where
  "read_bare_argument l = read_bare [] l"

declare read_quoted.simps [simp del] read_bracket.simps [simp del] read_bare.simps [simp del]

text \<open>The three forms of an argument, in the order \<open>read_arguments\<close> tries them.\<close>

definition read_argument :: "cmake_lexer \<Rightarrow> string \<times> cmake_lexer" where
  "read_argument l =
     (if current l = CHR 0x22 then read_quoted_argument l
      else case (if current l = CHR ''['' then match_bracket_open l else None) of
        Some (equals_count, l') \<Rightarrow> read_bracket_argument equals_count l'
      | None \<Rightarrow> read_bare_argument l)"

lemma read_quoted_length: "length (lex_rest (snd (read_quoted v l))) \<le> length (lex_rest l)"
proof (induction v l rule: read_quoted.induct)
  case (1 v l)
  consider (empty) "\<not> has_input l" | (close) "has_input l" "current l = CHR 0x22"
    | (slash) "has_input l" "current l \<noteq> CHR 0x22" "current l = CHR 0x5C" "\<not> has_input (advance l)"
    | (escape) "has_input l" "current l \<noteq> CHR 0x22" "current l = CHR 0x5C" "has_input (advance l)"
    | (char) "has_input l" "current l \<noteq> CHR 0x22" "current l \<noteq> CHR 0x5C" by blast
  then show ?case
    by cases (use 1 in \<open>subst read_quoted.simps, force simp: Let_def\<close>)+
qed

lemma read_bracket_length: "length (lex_rest (snd (read_bracket k v l))) \<le> length (lex_rest l)"
proof (induction k v l rule: read_bracket.induct)
  case (1 k v l)
  show ?case
  proof (cases "if current l = CHR '']'' then match_bracket_close k l else None")
    case None
    with 1 show ?thesis by (subst read_bracket.simps) (auto dest: le_pred)
  next
    case (Some l')
    then have "l' = (advance ^^ (k + 2)) l" using match_bracket_close_rest by (auto split: if_splits)
    with Some show ?thesis by (subst read_bracket.simps) simp
  qed
qed

lemma read_bare_length: "length (lex_rest (snd (read_bare v l))) \<le> length (lex_rest l)"
proof (induction v l rule: read_bare.induct)
  case (1 v l)
  consider (empty) "\<not> has_input l"
    | (slash) "has_input l" "current l = CHR 0x5C" "\<not> has_input (advance l)"
    | (escape) "has_input l" "current l = CHR 0x5C" "has_input (advance l)"
    | (other) "has_input l" "current l \<noteq> CHR 0x5C" by blast
  then show ?case
    by cases (use 1 in \<open>subst read_bare.simps, force simp: Let_def\<close>)+
qed

lemma read_argument_length:
  assumes "has_input l" "\<not> is_cmake_space (current l)" "current l \<noteq> CHR ''(''" "current l \<noteq> CHR '')''"
  shows "length (lex_rest (snd (read_argument l))) < length (lex_rest l)"
proof -
  have less: "length (lex_rest (advance l)) < length (lex_rest l)" using assms(1) by (simp add: has_input_def)
  have bare: "length (lex_rest (snd (read_bare_argument l))) < length (lex_rest l)" if "current l \<noteq> CHR 0x22"
  proof -
    have "length (lex_rest (snd (read_bare [] l))) \<le> length (lex_rest (advance l))"
    proof (cases "current l = CHR 0x5C")
      case True
      then show ?thesis
        using assms(1) read_bare_length [of "append_bounded [] (current (advance l))" "advance (advance l)"]
        by (subst read_bare.simps) (auto simp: Let_def)
    next
      case False
      with assms that read_bare_length [of "append_bounded [] (current l)" "advance l"]
      show ?thesis by (subst read_bare.simps) simp
    qed
    with less show ?thesis by (simp add: read_bare_argument_def)
  qed
  have bracket: "length (lex_rest (snd (read_bracket_argument k l'))) < length (lex_rest l)" if "match_bracket_open l = Some (k, l')" for k l'
    using read_bracket_length [of k "[]" l'] less match_bracket_open_rest [OF that] by (simp add: read_bracket_argument_def)
  show ?thesis
    using bare bracket read_quoted_length [of "[]" "advance l"] less
    by (auto simp: read_argument_def read_quoted_argument_def split: option.split)
qed

section \<open>Commands\<close>

lemma skip_ignorable_end: "\<not> has_input l \<Longrightarrow> skip_ignorable l = l"
  by (subst skip_ignorable.simps) simp

lemma skip_ignorable_space: "has_input l \<Longrightarrow> is_cmake_space (current l) \<Longrightarrow> skip_ignorable l = skip_ignorable (advance l)"
  by (subst skip_ignorable.simps) simp

lemma skip_ignorable_hash: "has_input l \<Longrightarrow> current l = CHR ''#'' \<Longrightarrow> skip_ignorable l = skip_ignorable (skip_comment l)"
  by (subst skip_ignorable.simps) (simp add: is_cmake_space_def)

lemma skip_ignorable_id:
  "has_input l \<Longrightarrow> \<not> is_cmake_space (current l) \<Longrightarrow> current l \<noteq> CHR ''#'' \<Longrightarrow> skip_ignorable l = l"
  by (subst skip_ignorable.simps) simp

lemma skip_ignorable_stop:
  "has_input (skip_ignorable l) \<Longrightarrow> \<not> is_cmake_space (current (skip_ignorable l)) \<and> current (skip_ignorable l) \<noteq> CHR ''#''"
proof (induction l rule: skip_ignorable.induct)
  case (1 l)
  consider (none) "\<not> has_input l" | (space) "has_input l" "is_cmake_space (current l)"
    | (hash) "has_input l" "\<not> is_cmake_space (current l)" "current l = CHR ''#''"
    | (id) "has_input l" "\<not> is_cmake_space (current l)" "current l \<noteq> CHR ''#''" by blast
  then show ?case
  proof cases
    case none
    with 1 show ?thesis by (simp add: skip_ignorable_end)
  next
    case space
    with 1 show ?thesis by (simp add: skip_ignorable_space)
  next
    case hash
    with 1 show ?thesis by (simp add: skip_ignorable_hash)
  next
    case id
    then show ?thesis by (simp add: skip_ignorable_id)
  qed
qed

function read_arguments :: "string \<Rightarrow> nat \<Rightarrow> string list \<Rightarrow> nat \<Rightarrow> cmake_lexer \<Rightarrow> cmake_lexer" where
  "read_arguments name start_line args paren_depth l0 =
     (let l = skip_ignorable l0;
          push = (\<lambda>wf. push_command \<lparr>command_name = name, arguments = args, command_line = start_line, well_formed = wf\<rparr>) in
      if \<not> has_input l then
        push False (cmake_warn kMalformedEntrySkipped
          (''unterminated command '' @ name @ '' starting at line '' @ string_of_nat start_line) l)
      else if current l = CHR '')'' then
        (if paren_depth - 1 = 0 then push True (advance l)
         else read_arguments name start_line args (paren_depth - 1) (advance l))
      else if current l = CHR ''('' then
        (let l = advance l in
         if paren_depth + 1 > kMaxParenDepth
         then push False (cmake_warn kEntryLimitReached
           (''parenthesis nesting too deep near line '' @ string_of_nat (lex_line l)) l)
         else read_arguments name start_line args (paren_depth + 1) l)
      else if length args \<ge> kMaxArgumentsPerCommand then
        push False (cmake_warn kEntryLimitReached
          (''too many arguments to '' @ name @ '' near line '' @ string_of_nat start_line) l)
      else case read_argument l of
        (arg, l') \<Rightarrow> read_arguments name start_line (args @ [arg]) paren_depth l')"
  by pat_completeness auto
termination
proof (relation "measure (\<lambda>(n, s, a, d, l). length (lex_rest l))", goal_cases)
  case 1
  then show ?case by simp
next
  case (2 n s a d l0 l)
  then show ?case using skip_ignorable_length [of l0] by (cases "lex_rest l") (auto simp: has_input_def)
next
  case (3 n s a d l0 l)
  then show ?case using skip_ignorable_length [of l0] by (cases "lex_rest l") (auto simp: has_input_def)
next
  case (4 n s a d l0 l push arg l')
  then have "length (lex_rest l') < length (lex_rest l)"
    using read_argument_length [of l] skip_ignorable_stop [of l0] by (metis snd_conv)
  with 4 skip_ignorable_length [of l0] show ?case by simp
qed

declare read_arguments.simps [simp del]

function read_name :: "cmake_lexer \<Rightarrow> string \<times> cmake_lexer" where
  "read_name l =
     (if has_input l \<and> is_identifier_char (current l)
      then (let (name, l') = read_name (advance l) in (current l # name, l'))
      else ([], l))"
  by pat_completeness auto
termination
  by (relation "measure (\<lambda>l. length (lex_rest l))") (auto simp: has_input_def)

declare read_name.simps [simp del]

definition read_command :: "cmake_lexer \<Rightarrow> cmake_lexer" where
  "read_command l =
     (let start_line = lex_line l;
          (name, l) = read_name l;
          l = skip_ignorable l
      in if \<not> has_input l \<or> current l \<noteq> CHR ''('' then l
         else read_arguments name start_line [] 1 (advance l))"

lemma read_arguments_end:
  "\<not> has_input (skip_ignorable l) \<Longrightarrow> read_arguments name line args depth l =
    push_command \<lparr>command_name = name, arguments = args, command_line = line, well_formed = False\<rparr>
      (cmake_warn kMalformedEntrySkipped (''unterminated command '' @ name @ '' starting at line '' @ string_of_nat line)
        (skip_ignorable l))"
  by (subst read_arguments.simps) (simp add: Let_def)

lemma read_arguments_length: "length (lex_rest (read_arguments name line args depth l)) \<le> length (lex_rest l)"
proof (induction name line args depth l rule: read_arguments.induct)
  case (1 name line args depth l0)
  define l where "l = skip_ignorable l0"
  have l0: "length (lex_rest l) \<le> length (lex_rest l0)" using skip_ignorable_length [of l0] by (simp add: l_def)
  show ?case
  proof (cases "has_input l")
    case False
    then show ?thesis using l0 by (simp add: read_arguments_end flip: l_def)
  next
    case input: True
    consider (close) "current l = CHR '')''" | (opened) "current l = CHR ''(''"
      | (full) "current l \<noteq> CHR '')''" "current l \<noteq> CHR ''(''" "length args \<ge> kMaxArgumentsPerCommand"
      | (arg) "current l \<noteq> CHR '')''" "current l \<noteq> CHR ''(''" "length args < kMaxArgumentsPerCommand" by linarith
    then show ?thesis
    proof cases
      case close
      with "1.IH"(1) [OF l_def refl] input l0 show ?thesis
        by (subst read_arguments.simps) (auto simp: Let_def simp flip: l_def)
    next
      case opened
      with "1.IH"(2) [OF l_def refl] input l0 show ?thesis
        by (subst read_arguments.simps) (auto simp: Let_def simp flip: l_def)
    next
      case full
      with input l0 show ?thesis by (subst read_arguments.simps) (simp add: Let_def flip: l_def)
    next
      case arg
      obtain v l' where ra: "read_argument l = (v, l')" by fastforce
      have "length (lex_rest l') < length (lex_rest l)"
        using read_argument_length [OF input] skip_ignorable_stop [of l0] input arg ra by (simp flip: l_def)
      moreover have "length (lex_rest (read_arguments name line (args @ [v]) depth l')) \<le> length (lex_rest l')"
        using "1.IH"(3) [OF l_def refl] input arg ra by auto
      moreover have "read_arguments name line args depth l0 = read_arguments name line (args @ [v]) depth l'"
        using input arg ra by (subst read_arguments.simps) (simp add: Let_def flip: l_def)
      ultimately show ?thesis using l0 by simp
    qed
  qed
qed

lemma read_name_length: "read_name l = (n, l') \<Longrightarrow> length n + length (lex_rest l') = length (lex_rest l)"
proof (induction l arbitrary: n l' rule: read_name.induct)
  case (1 l)
  show ?case
  proof (cases "has_input l \<and> is_identifier_char (current l)")
    case True
    obtain m l2 where m: "read_name (advance l) = (m, l2)" by fastforce
    with 1(1) [OF True m] 1(2) True show ?thesis
      by (cases "lex_rest l") (auto simp: has_input_def read_name.simps [of l])
  next
    case False
    with 1(2) show ?thesis by (simp add: read_name.simps [of l])
  qed
qed

lemma read_command_length:
  assumes "has_input l" "is_identifier_start (current l)"
  shows "length (lex_rest (read_command l)) < length (lex_rest l)"
proof -
  obtain n l1 where n: "read_name l = (n, l1)" by fastforce
  have "n \<noteq> []" using n assms by (subst (asm) read_name.simps) (auto simp: is_identifier_char_def split: prod.splits)
  then have "length (lex_rest l1) < length (lex_rest l)" using read_name_length [OF n] by (cases n) auto
  moreover have "length (lex_rest (read_command l)) \<le> length (lex_rest l1)"
    using skip_ignorable_length [of l1] read_arguments_length [of n "lex_line l" "[]" 1 "advance (skip_ignorable l1)"] n
    by (auto simp: read_command_def Let_def)
  ultimately show ?thesis by simp
qed

function scan_commands :: "cmake_lexer \<Rightarrow> cmake_lexer" where
  "scan_commands l0 =
     (if \<not> has_input l0 then l0
      else
        let l = skip_ignorable l0 in
        if \<not> has_input l then l
        else if length (result_value (lex_result l)) \<ge> kMaxCommandsPerFile then
          cmake_warn kEntryLimitReached (''more than '' @ string_of_nat kMaxCommandsPerFile @
            '' commands in one file; remaining commands ignored'') l
        else if is_identifier_start (current l) then scan_commands (read_command l)
        else scan_commands (advance l))"
  by pat_completeness auto
termination
proof (relation "measure (\<lambda>l. length (lex_rest l))", goal_cases)
  case 1
  then show ?case by simp
next
  case (2 l0 l)
  then show ?case using skip_ignorable_length [of l0] read_command_length [of l] by simp
next
  case (3 l0 l)
  then show ?case using skip_ignorable_length [of l0] by (cases "lex_rest l") (auto simp: has_input_def)
qed

declare scan_commands.simps [simp del]

definition scan_cmake_commands :: "string \<Rightarrow> cmake_command list result" where
  "scan_cmake_commands text = lex_result (scan_commands \<lparr>lex_rest = text, lex_line = 1, lex_result = new_result []\<rparr>)"

section \<open>Lemmas\<close>

subsection \<open>What the lexer keeps\<close>

text \<open>An operation between commands adds warnings and nothing else to the result.\<close>

definition grows :: "cmake_lexer \<Rightarrow> cmake_lexer \<Rightarrow> bool" where
  "grows l l' \<longleftrightarrow> result_value (lex_result l') = result_value (lex_result l) \<and> complete (lex_result l') = complete (lex_result l) \<and>
     (\<exists>ws. result_warnings (lex_result l') = result_warnings (lex_result l) @ ws)"

lemma grows_refl [simp]: "grows l l"
  by (simp add: grows_def)

lemma grows_trans [trans]: "grows a b \<Longrightarrow> grows b c \<Longrightarrow> grows a c"
  by (auto simp: grows_def)

lemma advance_result [simp]: "lex_result (advance l) = lex_result l"
  by (simp add: advance_def split: list.split)

lemma advances_result [simp]: "lex_result ((advance ^^ n) l) = lex_result l"
  by (induction n) simp_all

lemma grows_advance [simp]: "grows l (advance l') = grows l l'" "grows (advance l) l' = grows l l'"
  by (simp_all add: grows_def)

lemma grows_advances [simp]: "grows l ((advance ^^ n) l') = grows l l'" "grows ((advance ^^ n) l) l' = grows l l'"
  by (simp_all only: grows_def advances_result)

lemma grows_warn [simp]: "grows l (cmake_warn c m l)" "result_warnings (lex_result (cmake_warn c m l)) \<noteq> []"
  by (simp_all add: grows_def cmake_warn_def warn_def)

lemma grows_warnI [simp]: "grows l l' \<Longrightarrow> grows l (cmake_warn c m l')"
  by (rule grows_trans [OF _ grows_warn(1)])

lemma grows_skip_bracket_comment: "grows l (skip_bracket_comment k l)"
proof (induction k l rule: skip_bracket_comment.induct)
  case (1 k l)
  show ?case
  proof (cases "if current l = CHR '']'' then match_bracket_close k l else None")
    case None
    with 1 show ?thesis by (subst skip_bracket_comment.simps) auto
  next
    case (Some l')
    then have "l' = (advance ^^ (k + 2)) l" using match_bracket_close_rest by (auto split: if_splits)
    with Some show ?thesis by (subst skip_bracket_comment.simps) (simp del: funpow.simps add_2_eq_Suc')
  qed
qed

lemma grows_skip_line_comment: "grows l (skip_line_comment l)"
proof (induction l rule: skip_line_comment.induct)
  case (1 l)
  then show ?case by (subst skip_line_comment.simps) auto
qed

lemma grows_skip_comment: "grows l (skip_comment l)"
proof (cases "if has_input (advance l) \<and> current (advance l) = CHR ''['' then match_bracket_open (advance l) else None")
  case None
  then show ?thesis using grows_skip_line_comment [of "advance l"] by (simp add: skip_comment_def Let_def)
next
  case (Some a)
  obtain k l' where a: "a = (k, l')" by (cases a)
  with Some have m: "match_bracket_open (advance l) = Some (k, l')" by (auto split: if_splits)
  from Some a have "skip_comment l = skip_bracket_comment k l'" by (simp add: skip_comment_def Let_def)
  moreover have "grows l l'" using match_bracket_open_rest [OF m] by (simp del: funpow.simps add_2_eq_Suc')
  ultimately show ?thesis using grows_skip_bracket_comment grows_trans by metis
qed

lemma grows_skip_ignorable: "grows l (skip_ignorable l)"
proof (induction l rule: skip_ignorable.induct)
  case (1 l)
  consider (none) "\<not> has_input l" | (space) "has_input l" "is_cmake_space (current l)"
    | (hash) "has_input l" "\<not> is_cmake_space (current l)" "current l = CHR ''#''"
    | (id) "has_input l" "\<not> is_cmake_space (current l)" "current l \<noteq> CHR ''#''" by blast
  then show ?case
  proof cases
    case hash
    from grows_trans [OF grows_skip_comment 1(2)] hash show ?thesis by (simp add: skip_ignorable_hash)
  qed (use 1 in \<open>simp_all add: skip_ignorable_end skip_ignorable_space skip_ignorable_id\<close>)
qed

lemma append_bounded_length: "length v \<le> kMaxArgumentBytes \<Longrightarrow> length (append_bounded v c) \<le> kMaxArgumentBytes"
  by (simp add: append_bounded_def)

definition reads :: "cmake_lexer \<Rightarrow> string \<times> cmake_lexer \<Rightarrow> bool" where
  "reads l a \<longleftrightarrow> grows l (snd a) \<and> length (fst a) \<le> kMaxArgumentBytes"

lemma reads_quoted: "length v \<le> kMaxArgumentBytes \<Longrightarrow> reads l (read_quoted v l)"
proof (induction v l rule: read_quoted.induct)
  case (1 v l)
  consider (empty) "\<not> has_input l" | (close) "has_input l" "current l = CHR 0x22"
    | (slash) "has_input l" "current l \<noteq> CHR 0x22" "current l = CHR 0x5C" "\<not> has_input (advance l)"
    | (escape) "has_input l" "current l \<noteq> CHR 0x22" "current l = CHR 0x5C" "has_input (advance l)"
    | (char) "has_input l" "current l \<noteq> CHR 0x22" "current l \<noteq> CHR 0x5C" by blast
  then show ?case
  proof cases
    case slash
    with 1 show ?thesis by (subst read_quoted.simps) (simp add: reads_def Let_def)
  qed (use 1 in \<open>subst read_quoted.simps, simp add: reads_def Let_def append_bounded_length\<close>)+
qed

lemma reads_bracket: "length v \<le> kMaxArgumentBytes \<Longrightarrow> reads l (read_bracket k v l)"
proof (induction k v l rule: read_bracket.induct)
  case (1 k v l)
  show ?case
  proof (cases "if current l = CHR '']'' then match_bracket_close k l else None")
    case None
    with 1 show ?thesis by (subst read_bracket.simps) (auto simp: reads_def append_bounded_length)
  next
    case (Some l')
    then have "l' = (advance ^^ (k + 2)) l" using match_bracket_close_rest by (auto split: if_splits)
    with Some 1 show ?thesis by (subst read_bracket.simps) (simp add: reads_def del: funpow.simps add_2_eq_Suc')
  qed
qed

lemma reads_bare: "length v \<le> kMaxArgumentBytes \<Longrightarrow> reads l (read_bare v l)"
proof (induction v l rule: read_bare.induct)
  case (1 v l)
  consider (empty) "\<not> has_input l"
    | (slash) "has_input l" "current l = CHR 0x5C" "\<not> has_input (advance l)"
    | (escape) "has_input l" "current l = CHR 0x5C" "has_input (advance l)"
    | (other) "has_input l" "current l \<noteq> CHR 0x5C" by blast
  then show ?case
    by cases (use 1 in \<open>subst read_bare.simps, simp add: reads_def Let_def append_bounded_length\<close>)+
qed

lemma reads_argument: "reads l (read_argument l)"
proof -
  have "reads l (read_bracket_argument k l')" if "match_bracket_open l = Some (k, l')" for k l'
  proof -
    have "grows l l'" using match_bracket_open_rest [OF that] by (simp del: funpow.simps add_2_eq_Suc')
    with reads_bracket [of "[]" l' k] show ?thesis using grows_trans by (auto simp: reads_def read_bracket_argument_def)
  qed
  moreover have "reads l (read_quoted_argument l)"
    using reads_quoted [of "[]" "advance l"] by (simp add: reads_def read_quoted_argument_def)
  ultimately show ?thesis using reads_bare [of "[]" l]
    by (auto simp: read_argument_def read_bare_argument_def split: option.split)
qed

lemma grows_read_name: "grows l (snd (read_name l))"
proof (induction l rule: read_name.induct)
  case (1 l)
  then show ?case by (subst read_name.simps) (auto simp: split_beta Let_def)
qed

subsection \<open>Bounds\<close>

definition command_ok :: "cmake_command \<Rightarrow> bool" where
  "command_ok c \<longleftrightarrow> length (arguments c) \<le> kMaxArgumentsPerCommand \<and> list_all (\<lambda>a. length a \<le> kMaxArgumentBytes) (arguments c)"

text \<open>A warning about one command: it was not closed, it has too many arguments (both name the command and
  its line), or its parentheses are nested too deep.\<close>

definition reports :: "cmake_command \<Rightarrow> warning \<Rightarrow> bool" where
  "reports c w \<longleftrightarrow>
     warning_code w = kMalformedEntrySkipped \<and>
       message w = ''cmake: unterminated command '' @ command_name c @ '' starting at line '' @ string_of_nat (command_line c) \<or>
     warning_code w = kEntryLimitReached \<and>
       message w = ''cmake: too many arguments to '' @ command_name c @ '' near line '' @ string_of_nat (command_line c) \<and>
       length (arguments c) = kMaxArgumentsPerCommand \<or>
     warning_code w = kEntryLimitReached \<and> starts_with (message w) ''cmake: parenthesis nesting too deep near line ''"

text \<open>Each of the commands has a warning of its own among the warnings, in the order of the commands.\<close>

fun all_reported :: "cmake_command list \<Rightarrow> warning list \<Rightarrow> bool" where
  "all_reported [] ws = True"
| "all_reported (c # cs) [] = False"
| "all_reported (c # cs) (w # ws) = (if reports c w then all_reported cs ws else all_reported (c # cs) ws)"

lemma all_reported_more: "all_reported cs ws \<Longrightarrow> all_reported cs (ws @ vs)"
  by (induction cs ws rule: all_reported.induct) (auto split: if_splits)

lemma all_reported_last:
  assumes "v \<in> set vs" "reports c v"
  shows "all_reported cs ws \<Longrightarrow> all_reported (cs @ [c]) (ws @ vs)"
proof (induction cs ws rule: all_reported.induct)
  case (1 ws)
  show ?case
  proof (induction ws)
    case Nil
    from assms show ?case by (induction vs) auto
  qed simp
qed (auto split: if_splits)

text \<open>What reading the arguments of one command adds: that command, which is well formed or warned about.\<close>

definition adds_command :: "cmake_lexer \<Rightarrow> cmake_lexer \<Rightarrow> bool" where
  "adds_command l l' \<longleftrightarrow>
     (\<exists>c ws. result_value (lex_result l') = result_value (lex_result l) @ [c] \<and> complete (lex_result l') = complete (lex_result l) \<and>
        result_warnings (lex_result l') = result_warnings (lex_result l) @ ws \<and> command_ok c \<and>
        (well_formed c \<or> (\<exists>w \<in> set ws. reports c w)))"

lemma adds_push:
  assumes "grows l l'" "command_ok c" "well_formed c"
  shows "adds_command l (push_command c l')"
  using assms by (auto simp: adds_command_def grows_def push_command_def)

lemma adds_push_warned:
  assumes "grows l l'" "command_ok c" "\<And>p e. reports c \<lparr>warning_code = w, message = ''cmake: '' @ m, ecosystem = ''cmake'', affected_path = p, external_code = e\<rparr>"
  shows "adds_command l (push_command c (cmake_warn w m l'))"
  using assms(1,2) assms(3) [of "[]" no_external_code]
  by (auto simp: adds_command_def grows_def push_command_def cmake_warn_def warn_def simp del: append.simps)

lemma adds_grows:
  assumes "grows l l'" "adds_command l' l''"
  shows "adds_command l l''"
proof -
  from assms(1) obtain us where us: "result_value (lex_result l') = result_value (lex_result l)"
      "complete (lex_result l') = complete (lex_result l)"
      "result_warnings (lex_result l') = result_warnings (lex_result l) @ us"
    unfolding grows_def by blast
  from assms(2) obtain c ws where c: "result_value (lex_result l'') = result_value (lex_result l') @ [c]"
      "complete (lex_result l'') = complete (lex_result l')"
      "result_warnings (lex_result l'') = result_warnings (lex_result l') @ ws" "command_ok c"
      "well_formed c \<or> (\<exists>w \<in> set ws. reports c w)"
    unfolding adds_command_def by blast
  show ?thesis
    unfolding adds_command_def by (rule exI [of _ c], rule exI [of _ "us @ ws"]) (use us c in auto)
qed

lemma adds_read_arguments:
  "length args \<le> kMaxArgumentsPerCommand \<Longrightarrow> list_all (\<lambda>a. length a \<le> kMaxArgumentBytes) args \<Longrightarrow>
   adds_command l (read_arguments name line args depth l)"
proof (induction name line args depth l rule: read_arguments.induct)
  case (1 name line args depth l0)
  define l where "l = skip_ignorable l0"
  have g: "grows l0 l" using grows_skip_ignorable [of l0] by (simp add: l_def)
  have ok: "command_ok \<lparr>command_name = name, arguments = args, command_line = line, well_formed = wf\<rparr>" for wf
    using "1.prems" by (simp add: command_ok_def)
  show ?case
  proof (cases "has_input l")
    case False
    then have "read_arguments name line args depth l0 = push_command
        \<lparr>command_name = name, arguments = args, command_line = line, well_formed = False\<rparr>
        (cmake_warn kMalformedEntrySkipped (''unterminated command '' @ name @ '' starting at line '' @ string_of_nat line) l)"
      by (simp add: read_arguments_end l_def)
    moreover have "adds_command l0 \<dots>" by (rule adds_push_warned [OF g ok]) (simp add: reports_def)
    ultimately show ?thesis by simp
  next
    case input: True
    consider (close) "current l = CHR '')''" | (opened) "current l = CHR ''(''"
      | (full) "current l \<noteq> CHR '')''" "current l \<noteq> CHR ''(''" "length args \<ge> kMaxArgumentsPerCommand"
      | (arg) "current l \<noteq> CHR '')''" "current l \<noteq> CHR ''(''" "length args < kMaxArgumentsPerCommand" by linarith
    then show ?thesis
    proof cases
      case close
      have ga: "grows l0 (advance l)" using g by simp
      show ?thesis
      proof (cases "depth - 1 = 0")
        case True
        then have "read_arguments name line args depth l0 = push_command
            \<lparr>command_name = name, arguments = args, command_line = line, well_formed = True\<rparr> (advance l)"
          using input close by (subst read_arguments.simps) (simp add: Let_def flip: l_def)
        with adds_push [OF ga ok] show ?thesis by simp
      next
        case False
        then have "read_arguments name line args depth l0 = read_arguments name line args (depth - 1) (advance l)"
          using input close by (subst read_arguments.simps) (simp add: Let_def flip: l_def)
        moreover have "adds_command (advance l) (read_arguments name line args (depth - 1) (advance l))"
          using "1.IH"(1) [OF l_def refl] input close False "1.prems" by simp
        ultimately show ?thesis using adds_grows [OF ga] by simp
      qed
    next
      case opened
      have ga: "grows l0 (advance l)" using g by simp
      show ?thesis
      proof (cases "depth + 1 > kMaxParenDepth")
        case True
        then have "read_arguments name line args depth l0 = push_command
            \<lparr>command_name = name, arguments = args, command_line = line, well_formed = False\<rparr>
            (cmake_warn kEntryLimitReached (''parenthesis nesting too deep near line '' @ string_of_nat (lex_line (advance l))) (advance l))"
          using input opened by (subst read_arguments.simps) (simp add: Let_def flip: l_def)
        moreover have "adds_command l0 \<dots>" by (rule adds_push_warned [OF ga ok]) (simp add: reports_def starts_with_def)
        ultimately show ?thesis by simp
      next
        case False
        then have "read_arguments name line args depth l0 = read_arguments name line args (depth + 1) (advance l)"
          using input opened by (subst read_arguments.simps) (simp add: Let_def flip: l_def)
        moreover have "adds_command (advance l) (read_arguments name line args (depth + 1) (advance l))"
          using "1.IH"(2) [OF l_def refl] input opened False "1.prems" by simp
        ultimately show ?thesis using adds_grows [OF ga] by simp
      qed
    next
      case full
      then have "read_arguments name line args depth l0 = push_command
          \<lparr>command_name = name, arguments = args, command_line = line, well_formed = False\<rparr>
          (cmake_warn kEntryLimitReached (''too many arguments to '' @ name @ '' near line '' @ string_of_nat line) l)"
        using input by (subst read_arguments.simps) (simp add: Let_def flip: l_def)
      moreover have "adds_command l0 \<dots>" using full(3) "1.prems"(1) by (intro adds_push_warned [OF g ok]) (simp add: reports_def)
      ultimately show ?thesis by simp
    next
      case arg
      obtain v l' where ra: "read_argument l = (v, l')" by fastforce
      with reads_argument [of l] have v: "grows l l'" "length v \<le> kMaxArgumentBytes" by (simp_all add: reads_def)
      have "read_arguments name line args depth l0 = read_arguments name line (args @ [v]) depth l'"
        using input arg ra by (subst read_arguments.simps) (simp add: Let_def flip: l_def)
      moreover have "adds_command l' (read_arguments name line (args @ [v]) depth l')"
        using "1.IH"(3) [OF l_def refl] input arg ra "1.prems" v(2) by simp
      ultimately show ?thesis using adds_grows [OF grows_trans [OF g v(1)]] by simp
    qed
  qed
qed

definition commands_ok :: "cmake_lexer \<Rightarrow> bool" where
  "commands_ok l \<longleftrightarrow>
     (let r = lex_result l in
      complete r \<and> length (result_value r) \<le> kMaxCommandsPerFile \<and> list_all command_ok (result_value r) \<and>
      all_reported (filter (\<lambda>c. \<not> well_formed c) (result_value r)) (result_warnings r))"

lemma commands_ok_grows: "commands_ok l \<Longrightarrow> grows l l' \<Longrightarrow> commands_ok l'"
  by (auto simp: commands_ok_def grows_def Let_def all_reported_more)

lemma commands_ok_adds:
  "commands_ok l \<Longrightarrow> adds_command l l' \<Longrightarrow> length (result_value (lex_result l)) < kMaxCommandsPerFile \<Longrightarrow> commands_ok l'"
  by (auto simp: commands_ok_def adds_command_def Let_def all_reported_more all_reported_last)

lemma commands_ok_read_command:
  assumes "commands_ok l" "length (result_value (lex_result l)) < kMaxCommandsPerFile"
  shows "commands_ok (read_command l)"
proof -
  obtain n l1 where n: "read_name l = (n, l1)" by fastforce
  define l2 where "l2 = skip_ignorable l1"
  have g: "grows l l2" using grows_read_name [of l] grows_skip_ignorable [of l1] n grows_trans by (auto simp: l2_def)
  show ?thesis
  proof (cases "\<not> has_input l2 \<or> current l2 \<noteq> CHR ''(''")
    case True
    then have "read_command l = l2" using n by (auto simp: read_command_def Let_def l2_def)
    with commands_ok_grows [OF assms(1) g] show ?thesis by simp
  next
    case False
    then have "read_command l = read_arguments n (lex_line l) [] 1 (advance l2)" using n by (simp add: read_command_def Let_def l2_def)
    moreover have "adds_command (advance l2) (read_arguments n (lex_line l) [] 1 (advance l2))"
      by (rule adds_read_arguments) simp_all
    moreover have "grows l (advance l2)" using g by simp
    ultimately show ?thesis using commands_ok_adds [OF assms(1) adds_grows assms(2)] by metis
  qed
qed

lemma commands_ok_scan: "commands_ok l \<Longrightarrow> commands_ok (scan_commands l)"
proof (induction l rule: scan_commands.induct)
  case (1 l0)
  define l where "l = skip_ignorable l0"
  have ok: "commands_ok l" using commands_ok_grows [OF "1.prems" grows_skip_ignorable] by (simp add: l_def)
  consider (none) "\<not> has_input l0" | (skipped) "has_input l0" "\<not> has_input l"
    | (full) "has_input l0" "has_input l" "length (result_value (lex_result l)) \<ge> kMaxCommandsPerFile"
    | (command) "has_input l0" "has_input l" "length (result_value (lex_result l)) < kMaxCommandsPerFile" "is_identifier_start (current l)"
    | (stray) "has_input l0" "has_input l" "length (result_value (lex_result l)) < kMaxCommandsPerFile" "\<not> is_identifier_start (current l)"
    by linarith
  then show ?case
  proof cases
    case none
    with "1.prems" show ?thesis by (subst scan_commands.simps) simp
  next
    case skipped
    with ok show ?thesis by (subst scan_commands.simps) (simp add: Let_def flip: l_def)
  next
    case full
    with ok commands_ok_grows [OF ok] show ?thesis by (subst scan_commands.simps) (simp add: Let_def flip: l_def)
  next
    case command
    with "1.IH"(1) [OF _ l_def] commands_ok_read_command [OF ok] show ?thesis
      by (subst scan_commands.simps) (simp add: Let_def flip: l_def)
  next
    case stray
    with "1.IH"(2) [OF _ l_def] commands_ok_grows [OF ok, of "advance l"] show ?thesis
      by (subst scan_commands.simps) (simp add: Let_def flip: l_def)
  qed
qed

subsection \<open>Writing commands\<close>

text \<open>The three spellings of an argument, with the escapes of the quoted one.\<close>

datatype cmake_argument = Quoted string | Bracketed nat string | Bare string

definition escape_quoted :: "string \<Rightarrow> string" where
  "escape_quoted s = concat (map (\<lambda>c. if c = CHR 0x22 \<or> c = CHR 0x5C then [CHR 0x5C, c] else [c]) s)"

definition bracket_close :: "nat \<Rightarrow> string" where
  "bracket_close k = CHR '']'' # replicate k CHR ''='' @ [CHR '']'']"

primrec render_argument :: "cmake_argument \<Rightarrow> string" where
  "render_argument (Quoted s) = CHR 0x22 # escape_quoted s @ [CHR 0x22]"
| "render_argument (Bracketed k s) = CHR ''['' # replicate k CHR ''='' @ CHR ''['' # s @ bracket_close k"
| "render_argument (Bare s) = s"

primrec argument_text :: "cmake_argument \<Rightarrow> string" where
  "argument_text (Quoted s) = s"
| "argument_text (Bracketed k s) = s"
| "argument_text (Bare s) = s"

definition bare_char :: "char \<Rightarrow> bool" where
  "bare_char c \<longleftrightarrow> \<not> is_cmake_space c \<and> c \<noteq> CHR ''('' \<and> c \<noteq> CHR '')'' \<and> c \<noteq> CHR 0x22 \<and> c \<noteq> CHR 0x5C"

primrec plain_argument :: "cmake_argument \<Rightarrow> bool" where
  "plain_argument (Quoted s) = True"
| "plain_argument (Bracketed k s) = (find_sub (bracket_close k) (s @ bracket_close k) = Some (length s))"
| "plain_argument (Bare s) = (s \<noteq> [] \<and> hd s \<noteq> CHR ''['' \<and> hd s \<noteq> CHR ''#'' \<and> list_all bare_char s)"

definition render_arguments :: "cmake_argument list \<Rightarrow> string" where
  "render_arguments as = concat (map (\<lambda>a. CHR '' '' # render_argument a) as)"

definition render_command :: "string \<times> cmake_argument list \<Rightarrow> string" where
  "render_command c = fst c @ CHR ''('' # render_arguments (snd c) @ [CHR '')'', CHR 0x0A]"

definition plain_command :: "string \<times> cmake_argument list \<Rightarrow> bool" where
  "plain_command c \<longleftrightarrow> fst c \<noteq> [] \<and> is_identifier_start (hd (fst c)) \<and> list_all is_identifier_char (fst c) \<and>
     length (snd c) \<le> kMaxArgumentsPerCommand \<and> list_all plain_argument (snd c)"

abbreviation breaks :: "string \<Rightarrow> nat" where
  "breaks s \<equiv> count_list s CHR 0x0A"

fun read_commands :: "nat \<Rightarrow> (string \<times> cmake_argument list) list \<Rightarrow> cmake_command list" where
  "read_commands line [] = []"
| "read_commands line (c # cs) =
     \<lparr>command_name = fst c, arguments = map (\<lambda>a. take kMaxArgumentBytes (argument_text a)) (snd c),
        command_line = line, well_formed = True\<rparr> # read_commands (line + breaks (render_command c)) cs"

abbreviation lexer_at :: "string \<Rightarrow> nat \<Rightarrow> cmake_command list result \<Rightarrow> cmake_lexer" where
  "lexer_at rest line r \<equiv> \<lparr>lex_rest = rest, lex_line = line, lex_result = r\<rparr>"

lemma breaks_append [simp]: "breaks (s @ t) = breaks s + breaks t"
  by (induction s) simp_all

lemma advance_at [simp]: "advance (lexer_at (c # rest) line r) = lexer_at rest (if c = CHR 0x0A then line + 1 else line) r"
  by (simp add: advance_def)

lemma current_at [simp]: "current (lexer_at (c # rest) line r) = c"
  by (simp add: current_def)

lemma has_input_at [simp]: "has_input (lexer_at rest line r) \<longleftrightarrow> rest \<noteq> []"
  by (simp add: has_input_def)

lemma advances_at: "(advance ^^ length p) (lexer_at (p @ rest) line r) = lexer_at rest (line + breaks p) r"
  by (induction p arbitrary: line) (auto simp: funpow_swap1 simp del: funpow.simps(2) simp: funpow_Suc_right)

lemma append_bounded_take:
  "length v \<le> kMaxArgumentBytes \<Longrightarrow> append_bounded v c = take kMaxArgumentBytes (v @ [c])"
  by (simp add: append_bounded_def)

lemma take_append_bounded:
  "length v \<le> kMaxArgumentBytes \<Longrightarrow> take kMaxArgumentBytes (append_bounded v c @ s) = take kMaxArgumentBytes (v @ c # s)"
proof (cases "length v < kMaxArgumentBytes")
  case True
  then have "append_bounded v c = v @ [c]" by (simp add: append_bounded_def)
  then show ?thesis by (simp only: append_assoc append_Cons append_Nil)
next
  case False
  moreover assume "length v \<le> kMaxArgumentBytes"
  ultimately show ?thesis by (simp add: append_bounded_def)
qed

lemma read_quoted_at:
  "length v \<le> kMaxArgumentBytes \<Longrightarrow> read_quoted v (lexer_at (escape_quoted s @ CHR 0x22 # rest) line r) =
    (take kMaxArgumentBytes (v @ s), lexer_at rest (line + breaks (escape_quoted s)) r)"
proof (induction s arbitrary: v line)
  case Nil
  then show ?case by (subst read_quoted.simps) (simp add: escape_quoted_def)
next
  case (Cons c s)
  have e: "escape_quoted (c # s) = (if c = CHR 0x22 \<or> c = CHR 0x5C then [CHR 0x5C, c] else [c]) @ escape_quoted s"
    by (simp add: escape_quoted_def)
  have "read_quoted v (lexer_at (escape_quoted (c # s) @ CHR 0x22 # rest) line r) =
      read_quoted (append_bounded v c) (lexer_at (escape_quoted s @ CHR 0x22 # rest) (if c = CHR 0x0A then line + 1 else line) r)"
    by (subst read_quoted.simps) (simp add: e Let_def)
  also have "\<dots> = (take kMaxArgumentBytes (append_bounded v c @ s),
      lexer_at rest ((if c = CHR 0x0A then line + 1 else line) + breaks (escape_quoted s)) r)"
    by (rule Cons.IH [OF append_bounded_length [OF Cons.prems]])
  finally show ?case unfolding take_append_bounded [OF Cons.prems] by (simp add: e)
qed

lemma starts_with_replicate:
  "length (takeWhile (\<lambda>c. c = x) (take k xs)) = k \<and> drop k xs \<noteq> [] \<and> hd (drop k xs) = y \<longleftrightarrow>
   starts_with xs (replicate k x @ [y])"
proof (induction k arbitrary: xs)
  case 0
  then show ?case by (cases xs) auto
next
  case (Suc k)
  then show ?case by (cases xs) auto
qed

lemma match_bracket_close_at:
  assumes "rest \<noteq> []"
  shows "(if current (lexer_at rest line r) = CHR '']'' then match_bracket_close k (lexer_at rest line r) else None) =
    (if starts_with rest (bracket_close k) then Some ((advance ^^ (k + 2)) (lexer_at rest line r)) else None)"
proof -
  obtain c xs where c: "rest = c # xs" using assms by (cases rest) auto
  have "starts_with rest (bracket_close k) \<longleftrightarrow> c = CHR '']'' \<and> length (takeWhile (\<lambda>c. c = CHR ''='') (take k xs)) = k \<and>
      drop k xs \<noteq> [] \<and> hd (drop k xs) = CHR '']''"
    by (simp only: c bracket_close_def starts_with_Cons starts_with_replicate)
  then show ?thesis by (auto simp: c match_bracket_close_def Let_def)
qed

lemma breaks_brackets: "breaks (replicate k CHR ''='') = 0" "breaks (bracket_close k) = 0"
proof -
  show "breaks (replicate k CHR ''='') = 0" by (induction k) simp_all
  then show "breaks (bracket_close k) = 0" by (simp add: bracket_close_def)
qed

lemma bracket_close_advances:
  "(advance ^^ (k + 2)) (lexer_at (bracket_close k @ rest) line r) = lexer_at rest line r"
proof -
  have "length (bracket_close k) = k + 2" by (simp add: bracket_close_def)
  then show ?thesis using advances_at [of "bracket_close k" rest line r] breaks_brackets(2) [of k] by (metis add.right_neutral)
qed

lemma starts_with_append_long: "length p \<le> length s \<Longrightarrow> starts_with (s @ t) p = starts_with s p"
  by (simp add: starts_with_def)

lemma read_bracket_at:
  "length v \<le> kMaxArgumentBytes \<Longrightarrow> find_sub (bracket_close k) (s @ bracket_close k) = Some (length s) \<Longrightarrow>
   read_bracket k v (lexer_at (s @ bracket_close k @ rest) line r) =
     (take kMaxArgumentBytes (v @ s), lexer_at rest (line + breaks s) r)"
proof (induction s arbitrary: v line)
  case Nil
  have ne: "bracket_close k @ rest \<noteq> []" by (simp add: bracket_close_def)
  show ?case
    unfolding read_bracket.simps [of k v] append_Nil match_bracket_close_at [OF ne] using Nil ne
    by (simp add: bracket_close_advances del: funpow.simps add_2_eq_Suc')
next
  case (Cons c s)
  have long: "length (bracket_close k) \<le> length ((c # s) @ bracket_close k)" by simp
  have no: "\<not> starts_with ((c # s) @ bracket_close k) (bracket_close k)"
    and later: "find_sub (bracket_close k) (s @ bracket_close k) = Some (length s)"
    using Cons.prems(2) by (auto split: if_splits)
  from no have no': "\<not> starts_with ((c # s) @ bracket_close k @ rest) (bracket_close k)"
    using starts_with_append_long [OF long, of rest] by simp
  have ne: "(c # s) @ bracket_close k @ rest \<noteq> []" by simp
  have "read_bracket k v (lexer_at ((c # s) @ bracket_close k @ rest) line r) =
      read_bracket k (append_bounded v c) (lexer_at (s @ bracket_close k @ rest) (if c = CHR 0x0A then line + 1 else line) r)"
    unfolding read_bracket.simps [of k v "lexer_at ((c # s) @ bracket_close k @ rest) line r"] match_bracket_close_at [OF ne]
    using no' by simp
  also have "\<dots> = (take kMaxArgumentBytes (append_bounded v c @ s), lexer_at rest ((if c = CHR 0x0A then line + 1 else line) + breaks s) r)"
    by (rule Cons.IH [OF append_bounded_length [OF Cons.prems(1)] later])
  finally show ?case unfolding take_append_bounded [OF Cons.prems(1)] by simp
qed

lemma match_bracket_open_at:
  "match_bracket_open (lexer_at (CHR ''['' # replicate k CHR ''='' @ CHR ''['' # rest) line r) = Some (k, lexer_at rest line r)"
proof -
  let ?p = "CHR ''['' # replicate k CHR ''='' @ [CHR ''['']"
  have b: "breaks ?p = 0" "length ?p = k + 2" by (induction k) auto
  have tw: "takeWhile (\<lambda>c. c = CHR ''='') (replicate k CHR ''='' @ CHR ''['' # rest) = replicate k CHR ''=''"
    by (induction k) simp_all
  have "(advance ^^ (k + 2)) (lexer_at (?p @ rest) line r) = lexer_at rest line r"
    using advances_at [of ?p rest line r] b by (metis add.right_neutral)
  then show ?thesis by (simp add: match_bracket_open_def tw del: funpow.simps add_2_eq_Suc')
qed

lemma read_bare_at:
  "length v \<le> kMaxArgumentBytes \<Longrightarrow> list_all bare_char s \<Longrightarrow> d = CHR '' '' \<or> d = CHR '')'' \<Longrightarrow>
   read_bare v (lexer_at (s @ d # rest) line r) = (take kMaxArgumentBytes (v @ s), lexer_at (d # rest) line r)"
proof (induction s arbitrary: v)
  case Nil
  then show ?case by (subst read_bare.simps) (auto simp: is_cmake_space_def)
next
  case (Cons c s)
  then have c: "bare_char c" by simp
  then have "c \<noteq> CHR 0x0A" by (auto simp: bare_char_def is_cmake_space_def)
  with c have "read_bare v (lexer_at ((c # s) @ d # rest) line r) = read_bare (append_bounded v c) (lexer_at (s @ d # rest) line r)"
    by (subst read_bare.simps) (simp add: bare_char_def)
  also have "\<dots> = (take kMaxArgumentBytes (append_bounded v c @ s), lexer_at (d # rest) line r)"
    using Cons by (simp add: append_bounded_length)
  finally show ?case unfolding take_append_bounded [OF Cons.prems(1)] by simp
qed

lemma bare_no_breaks: "list_all bare_char s \<Longrightarrow> breaks s = 0"
  by (induction s) (auto simp: bare_char_def is_cmake_space_def)

lemma read_argument_at:
  assumes "plain_argument a" "d = CHR '' '' \<or> d = CHR '')''"
  shows "read_argument (lexer_at (render_argument a @ d # rest) line r) =
    (take kMaxArgumentBytes (argument_text a), lexer_at (d # rest) (line + breaks (render_argument a)) r)"
proof (cases a)
  case (Quoted s)
  then show ?thesis using read_quoted_at [of "[]" s "d # rest" line r] by (simp add: read_argument_def read_quoted_argument_def)
next
  case (Bracketed k s)
  then show ?thesis
    using assms(1) read_bracket_at [of "[]" k s "d # rest" line r] match_bracket_open_at [of k "s @ bracket_close k @ d # rest" line r]
    by (simp add: read_argument_def read_bracket_argument_def breaks_brackets)
next
  case (Bare s)
  then obtain c s' where s: "s = c # s'" "c \<noteq> CHR ''[''" "bare_char c" using assms(1) by (cases s) auto
  then show ?thesis
    using assms read_bare_at [of "[]" s d rest line r] bare_no_breaks [of s] Bare
    by (simp add: read_argument_def read_bare_argument_def bare_char_def)
qed

lemma skip_to_argument:
  assumes "plain_argument a"
  shows "skip_ignorable (lexer_at (CHR '' '' # render_argument a @ rest) line r) = lexer_at (render_argument a @ rest) line r"
    "current (lexer_at (render_argument a @ rest) line r) \<noteq> CHR '')''"
    "current (lexer_at (render_argument a @ rest) line r) \<noteq> CHR ''(''"
    "has_input (lexer_at (render_argument a @ rest) line r)"
proof -
  obtain c s where c: "render_argument a = c # s" "\<not> is_cmake_space c" "c \<noteq> CHR ''#''" "c \<noteq> CHR '')''" "c \<noteq> CHR ''(''"
  proof (cases a)
    case (Bare s)
    with assms show thesis by (intro that [of "hd s" "tl s"]) (auto simp: bare_char_def list_all_iff)
  qed (auto simp: is_cmake_space_def intro: that)
  have "skip_ignorable (lexer_at (CHR '' '' # c # s @ rest) line r) = skip_ignorable (lexer_at (c # s @ rest) line r)"
    by (subst skip_ignorable_space) (simp_all add: is_cmake_space_def)
  also have "\<dots> = lexer_at (c # s @ rest) line r" by (rule skip_ignorable_id) (use c in simp_all)
  finally show "skip_ignorable (lexer_at (CHR '' '' # render_argument a @ rest) line r) = lexer_at (render_argument a @ rest) line r"
    by (simp add: c(1))
  show "current (lexer_at (render_argument a @ rest) line r) \<noteq> CHR '')''" "current (lexer_at (render_argument a @ rest) line r) \<noteq> CHR ''(''"
    "has_input (lexer_at (render_argument a @ rest) line r)" using c by simp_all
qed

lemma read_arguments_at:
  "list_all plain_argument as \<Longrightarrow> length args + length as \<le> kMaxArgumentsPerCommand \<Longrightarrow>
   read_arguments name start args 1 (lexer_at (render_arguments as @ CHR '')'' # rest) line r) =
     push_command \<lparr>command_name = name, arguments = args @ map (\<lambda>a. take kMaxArgumentBytes (argument_text a)) as,
        command_line = start, well_formed = True\<rparr> (lexer_at rest (line + breaks (render_arguments as)) r)"
proof (induction "as" arbitrary: args line)
  case Nil
  have "skip_ignorable (lexer_at (CHR '')'' # rest) line r) = lexer_at (CHR '')'' # rest) line r"
    by (rule skip_ignorable_id) (simp_all add: is_cmake_space_def)
  then show ?case by (subst read_arguments.simps) (simp add: Let_def render_arguments_def)
next
  case (Cons a bs)
  then have a: "plain_argument a" by simp
  define tail where "tail = render_arguments bs @ CHR '')'' # rest"
  obtain d tail' where d: "tail = d # tail'" "d = CHR '' '' \<or> d = CHR '')''"
    by (cases bs) (auto simp: tail_def render_arguments_def)
  have shown: "render_arguments (a # bs) @ CHR '')'' # rest = CHR '' '' # render_argument a @ tail"
    by (simp add: render_arguments_def tail_def)
  note skip = skip_to_argument [OF a, of tail line r]
  have "\<not> length args \<ge> kMaxArgumentsPerCommand" using Cons.prems(2) by simp
  then have "read_arguments name start args 1 (lexer_at (render_arguments (a # bs) @ CHR '')'' # rest) line r) =
      read_arguments name start (args @ [take kMaxArgumentBytes (argument_text a)]) 1 (lexer_at tail (line + breaks (render_argument a)) r)"
    using skip read_argument_at [OF a d(2), of tail' line r]
    unfolding shown read_arguments.simps [of name start args 1 "lexer_at (CHR '' '' # render_argument a @ tail) line r"] Let_def skip(1)
    by (simp add: d(1))
  with Cons show ?case by (simp add: tail_def render_arguments_def add.assoc)
qed

lemma read_name_at:
  "list_all is_identifier_char n \<Longrightarrow> \<not> is_identifier_char d \<Longrightarrow>
   read_name (lexer_at (n @ d # rest) line r) = (n, lexer_at (d # rest) line r)"
proof (induction n)
  case Nil
  then show ?case by (subst read_name.simps) simp
next
  case (Cons c n)
  then have "c \<noteq> CHR 0x0A" by (auto simp: is_identifier_char_def is_identifier_start_def less_eq_char_def)
  with Cons show ?case by (subst read_name.simps) simp
qed

lemma identifier_chars:
  "\<not> is_identifier_char CHR ''(''" "is_identifier_start c \<Longrightarrow> \<not> is_cmake_space c \<and> c \<noteq> CHR ''#''"
  "is_identifier_char c \<Longrightarrow> c \<noteq> CHR 0x0A"
  by (auto simp: is_identifier_char_def is_identifier_start_def is_cmake_space_def less_eq_char_def)

lemma read_command_at:
  assumes "plain_command c"
  shows "read_command (lexer_at (render_command c @ rest) line r) =
    push_command \<lparr>command_name = fst c, arguments = map (\<lambda>a. take kMaxArgumentBytes (argument_text a)) (snd c),
        command_line = line, well_formed = True\<rparr> (lexer_at (CHR 0x0A # rest) (line + breaks (render_arguments (snd c))) r)"
proof -
  have c: "list_all is_identifier_char (fst c)" "list_all plain_argument (snd c)" "length (snd c) \<le> kMaxArgumentsPerCommand"
    using assms by (simp_all add: plain_command_def)
  have n: "read_name (lexer_at (render_command c @ rest) line r) =
      (fst c, lexer_at (CHR ''('' # render_arguments (snd c) @ CHR '')'' # CHR 0x0A # rest) line r)"
    using read_name_at [OF c(1) identifier_chars(1)] by (simp add: render_command_def)
  have "skip_ignorable (lexer_at (CHR ''('' # render_arguments (snd c) @ CHR '')'' # CHR 0x0A # rest) line r) =
      lexer_at (CHR ''('' # render_arguments (snd c) @ CHR '')'' # CHR 0x0A # rest) line r"
    by (rule skip_ignorable_id) (simp_all add: is_cmake_space_def)
  then show ?thesis
    using read_arguments_at [OF c(2), of "[]" "fst c" line "CHR 0x0A # rest" line r] c(3) by (simp add: read_command_def n Let_def)
qed

lemma scan_commands_break: "scan_commands (lexer_at (CHR 0x0A # rest) line r) = scan_commands (lexer_at rest (line + 1) r)"
proof -
  have skip: "skip_ignorable (lexer_at (CHR 0x0A # rest) line r) = skip_ignorable (lexer_at rest (line + 1) r)"
    by (subst skip_ignorable_space) (simp_all add: is_cmake_space_def)
  show ?thesis
  proof (cases "rest = []")
    case True
    with skip show ?thesis by (simp add: scan_commands.simps skip_ignorable_end)
  next
    case False
    then show ?thesis
      by (subst (1 2) scan_commands.simps) (simp add: skip del: One_nat_def)
  qed
qed

lemma scan_rendered_commands:
  "list_all plain_command cs \<Longrightarrow> length (result_value r) + length cs \<le> kMaxCommandsPerFile \<Longrightarrow>
   lex_result (scan_commands (lexer_at (concat (map render_command cs)) line r)) =
     r\<lparr>result_value := result_value r @ read_commands line cs\<rparr>"
proof (induction cs arbitrary: line r)
  case Nil
  then show ?case by (simp add: scan_commands.simps)
next
  case (Cons c cs)
  then have c: "plain_command c" by simp
  define rest where "rest = concat (map render_command cs)"
  obtain x xs where x: "fst c = x # xs" "is_identifier_start x" using c by (cases "fst c") (auto simp: plain_command_def)
  have ne: "render_command c @ rest = x # (xs @ CHR ''('' # render_arguments (snd c) @ [CHR '')'', CHR 0x0A] @ rest)"
    by (simp add: render_command_def x)
  have skip: "skip_ignorable (lexer_at (render_command c @ rest) line r) = lexer_at (render_command c @ rest) line r"
    using identifier_chars(2) [OF x(2)] by (intro skip_ignorable_id) (simp_all add: ne)
  have start: "has_input (lexer_at (render_command c @ rest) line r)" "is_identifier_start (current (lexer_at (render_command c @ rest) line r))"
    using x(2) by (simp_all add: ne)
  define cmd where "cmd = \<lparr>command_name = fst c, arguments = map (\<lambda>a. take kMaxArgumentBytes (argument_text a)) (snd c),
    command_line = line, well_formed = True\<rparr>"
  define r1 where "r1 = r\<lparr>result_value := result_value r @ [cmd]\<rparr>"
  have "scan_commands (lexer_at (render_command c @ rest) line r) = scan_commands (read_command (lexer_at (render_command c @ rest) line r))"
    using start Cons.prems(2) unfolding scan_commands.simps [of "lexer_at (render_command c @ rest) line r"] Let_def skip by simp
  also have "\<dots> = scan_commands (lexer_at rest (line + breaks (render_arguments (snd c)) + 1) r1)"
    by (simp add: read_command_at [OF c] push_command_def scan_commands_break r1_def cmd_def)
  also have "line + breaks (render_arguments (snd c)) + 1 = line + breaks (render_command c)"
  proof -
    have "breaks (fst c) = 0"
      using c identifier_chars(3) unfolding plain_command_def
      by (metis count_list_0_iff list_all_iff)
    then show ?thesis by (simp add: render_command_def)
  qed
  also have "lex_result (scan_commands (lexer_at rest (line + breaks (render_command c)) r1)) =
      r1\<lparr>result_value := result_value r1 @ read_commands (line + breaks (render_command c)) cs\<rparr>"
    unfolding rest_def using Cons.prems by (intro Cons.IH) (simp_all add: r1_def)
  finally show ?case by (simp add: rest_def r1_def cmd_def)
qed

lemma scan_written:
  assumes "list_all plain_command cs" "length cs \<le> kMaxCommandsPerFile"
  shows "scan_cmake_commands (concat (map render_command cs)) = new_result (read_commands 1 cs)"
proof -
  have "length (result_value (new_result [] :: cmake_command list result)) + length cs \<le> kMaxCommandsPerFile"
    using assms(2) by (simp add: new_result_def)
  from scan_rendered_commands [OF assms(1) this, of 1] show ?thesis
    by (simp add: scan_cmake_commands_def new_result_def)
qed

text \<open>The commands as they were written.\<close>

fun written_commands :: "nat \<Rightarrow> (string \<times> cmake_argument list) list \<Rightarrow> cmake_command list" where
  "written_commands line [] = []"
| "written_commands line (c # cs) =
     \<lparr>command_name = fst c, arguments = map argument_text (snd c), command_line = line, well_formed = True\<rparr>
       # written_commands (line + breaks (render_command c)) cs"

lemma read_commands_written:
  "list_all (\<lambda>c. list_all (\<lambda>a. length (argument_text a) \<le> kMaxArgumentBytes) (snd c)) cs \<Longrightarrow>
   read_commands line cs = written_commands line cs"
  by (induction cs arbitrary: line) (auto simp: list_all_iff)

section \<open>Properties\<close>

text \<open>C12: The scanner is total and its output is bounded on every text, hostile ones included: at most
  \<open>kMaxCommandsPerFile\<close> commands with at most \<open>kMaxArgumentsPerCommand\<close> arguments of at most
  \<open>kMaxArgumentBytes\<close> bytes each; the result stays complete, and every command marked as not well formed has a
  warning of its own, in the order of the commands, that says what was wrong with it.\<close>

theorem cmake_scan_bounded:
  "let r = scan_cmake_commands s in
     complete r \<and> length (result_value r) \<le> kMaxCommandsPerFile \<and> list_all command_ok (result_value r) \<and>
     all_reported (filter (\<lambda>c. \<not> well_formed c) (result_value r)) (result_warnings r)"
proof -
  have "commands_ok \<lparr>lex_rest = s, lex_line = 1, lex_result = new_result []\<rparr>"
    by (simp add: commands_ok_def new_result_def)
  from commands_ok_scan [OF this] show ?thesis by (simp add: scan_cmake_commands_def commands_ok_def)
qed

text \<open>C11: Writing commands and scanning them is the identity: every command comes back with its name, its line
  and its arguments exactly as they were before quoting, whichever of the three spellings was chosen, parentheses,
  quotes, hashes and line breaks inside an argument included, and without a warning. The arguments are those of
  at most \<open>kMaxArgumentBytes\<close> bytes; \<open>cmake_long_argument_cut\<close> says what happens to a longer one.\<close>

theorem cmake_roundtrip:
  assumes "list_all plain_command cs" "length cs \<le> kMaxCommandsPerFile"
    and "list_all (\<lambda>c. list_all (\<lambda>a. length (argument_text a) \<le> kMaxArgumentBytes) (snd c)) cs"
  shows "scan_cmake_commands (concat (map render_command cs)) = new_result (written_commands 1 cs)"
  using scan_written [OF assms(1,2)] read_commands_written [OF assms(3)] by simp

lemma cmake_roundtrip_witness:
  "scan_cmake_commands (concat (map render_command
      [(''find_package'', [Bare ''fmt'', Quoted ''a b)\"'']), (''set'', [Bracketed 1 ''#x]]'', Bare ''v''])])) =
   new_result [\<lparr>command_name = ''find_package'', arguments = [''fmt'', ''a b)\"''], command_line = 1, well_formed = True\<rparr>,
     \<lparr>command_name = ''set'', arguments = [''#x]]'', ''v''], command_line = 2, well_formed = True\<rparr>]"
proof -
  have plain: "list_all plain_command [(''find_package'', [Bare ''fmt'', Quoted ''a b)\"'']), (''set'', [Bracketed 1 ''#x]]'', Bare ''v''])]"
    by (simp add: plain_command_def kMaxArgumentsPerCommand_def is_identifier_char_def is_identifier_start_def less_eq_char_def
      bracket_close_def bare_char_def is_cmake_space_def)
  show ?thesis
    by (subst cmake_roundtrip [OF plain])
      (simp_all add: kMaxCommandsPerFile_def kMaxArgumentBytes_def render_command_def render_arguments_def escape_quoted_def
        bracket_close_def numeral_2_eq_2)
qed

text \<open>An argument longer than \<open>kMaxArgumentBytes\<close> is cut to that length; the command still counts as well formed
  and there is no warning, where \<open>cmake_scanner.hpp\<close> says that a size cap tripped inside a command does both.\<close>

theorem cmake_long_argument_cut:
  assumes "is_identifier_start x" "list_all bare_char s" "kMaxArgumentBytes < length s" "hd s \<noteq> CHR ''[''" "hd s \<noteq> CHR ''#''"
  shows "scan_cmake_commands (render_command ([x], [Bare s])) =
    new_result [\<lparr>command_name = [x], arguments = [take kMaxArgumentBytes s], command_line = 1, well_formed = True\<rparr>]"
proof -
  have "plain_command ([x], [Bare s])"
    using assms by (auto simp: plain_command_def is_identifier_char_def kMaxArgumentsPerCommand_def)
  then show ?thesis using scan_written [of "[([x], [Bare s])]"] by (simp add: kMaxCommandsPerFile_def)
qed

lemma cmake_long_argument_cut_witness:
  "scan_cmake_commands (render_command (''f'', [Bare (replicate (Suc kMaxArgumentBytes) CHR ''a'')])) =
    new_result [\<lparr>command_name = ''f'', arguments = [replicate kMaxArgumentBytes CHR ''a''], command_line = 1, well_formed = True\<rparr>]"
proof -
  have "take kMaxArgumentBytes (replicate (Suc kMaxArgumentBytes) CHR ''a'') = replicate kMaxArgumentBytes CHR ''a''"
    by (simp del: replicate_Suc)
  moreover have "list_all bare_char (replicate (Suc kMaxArgumentBytes) CHR ''a'')"
    by (simp add: list_all_iff bare_char_def is_cmake_space_def del: replicate_Suc)
  ultimately show ?thesis
    using cmake_long_argument_cut [of "CHR ''f''" "replicate (Suc kMaxArgumentBytes) CHR ''a''"]
    by (simp add: is_identifier_start_def less_eq_char_def)
qed

end
