(* ===== verification/Paths.thy ===== *)
theory Paths
  imports Text "HOL-Library.Product_Lexorder" "HOL-Library.Sublist"
begin

text \<open>
  \<open>std::filesystem::path\<close> on POSIX, as far as the sources use it. A path is its native text; what iteration
  over it yields is the root directory, if the text starts with a slash, and \<open>path_names\<close>: the names between runs
  of slashes, with an empty last name when the text ends in a slash. Paths are compared, hashed into
  \<open>std::set\<close> and \<open>std::map\<close>, and ordered by these elements: \<open>path_key\<close>.
  On top of it: the two lexical guards of \<open>core/git_dir.cpp\<close> and \<open>core/file_index.cpp\<close> against paths that
  leave a directory.
\<close>

section \<open>Elements\<close>

type_synonym path = string

definition path_absolute :: "path \<Rightarrow> bool" where
  "path_absolute p \<longleftrightarrow> starts_with p ''/''"

definition path_names :: "path \<Rightarrow> string list" where
  "path_names p =
     (let relative = dropWhile (\<lambda>c. c = CHR ''/'') p in
      if relative = [] then []
      else let fields = split_on CHR ''/'' relative
           in filter (\<lambda>f. f \<noteq> []) (butlast fields) @ [last fields])"

type_synonym path_key = "bool \<times> string list"

definition path_key :: "path \<Rightarrow> path_key" where
  "path_key p = (path_absolute p, path_names p)"

definition path_equal :: "path \<Rightarrow> path \<Rightarrow> bool" where
  "path_equal p q \<longleftrightarrow> path_key p = path_key q"

definition path_less :: "path \<Rightarrow> path \<Rightarrow> bool" where
  "path_less p q \<longleftrightarrow> path_key p < path_key q"

definition path_of_key :: "path_key \<Rightarrow> path" where
  "path_of_key k = (if fst k then ''/'' else []) @ join_with CHR ''/'' (snd k)"

section \<open>Decomposition\<close>

definition path_filename :: "path \<Rightarrow> string" where
  "path_filename p = last (split_on CHR ''/'' p)"

definition path_parent :: "path \<Rightarrow> path" where
  "path_parent p =
     (if path_names p = [] then p
      else
        let before = take (length p - length (path_filename p)) p;
            stripped = rev (dropWhile (\<lambda>c. c = CHR ''/'') (rev before))
        in if stripped = [] \<and> path_absolute p then ''/'' else stripped)"

definition path_append :: "path \<Rightarrow> path \<Rightarrow> path" where
  "path_append p q =
     (if path_absolute q then q
      else if path_filename p = [] then p @ q
      else p @ CHR ''/'' # q)"

definition extension_position :: "string \<Rightarrow> nat option" where
  "extension_position name =
     (if name = ''.'' \<or> name = ''..'' then None
      else case rfind_char CHR ''.'' name of
        None \<Rightarrow> None
      | Some i \<Rightarrow> if i = 0 then None else Some i)"

definition path_extension :: "path \<Rightarrow> string" where
  "path_extension p = (case extension_position (path_filename p) of None \<Rightarrow> [] | Some i \<Rightarrow> drop i (path_filename p))"

definition path_stem :: "path \<Rightarrow> string" where
  "path_stem p = (case extension_position (path_filename p) of None \<Rightarrow> path_filename p | Some i \<Rightarrow> take i (path_filename p))"

section \<open>Lexical operations\<close>

text \<open>One element of \<open>lexically_normal\<close>: the names kept so far, and whether the path seen so far ends in a separator.\<close>

definition normal_step :: "bool \<Rightarrow> string list \<times> bool \<Rightarrow> string \<Rightarrow> string list \<times> bool" where
  "normal_step rooted st name =
     (let (kept, trailing) = st in
      if name = ''..'' then
        (if kept \<noteq> [] \<and> last kept \<noteq> ''..'' then (butlast kept, True)
         else if rooted then (kept, trailing)
         else (kept @ [''..''], False))
      else if name = ''.'' \<or> name = [] then (kept, True)
      else (kept @ [name], False))"

definition normal_names :: "bool \<Rightarrow> string list \<Rightarrow> string list \<times> bool" where
  "normal_names rooted names = foldl (normal_step rooted) ([], False) names"

definition lexically_normal :: "path \<Rightarrow> path" where
  "lexically_normal p =
     (if p = [] then []
      else
        let (kept, trailing) = normal_names (path_absolute p) (path_names p) in
        if kept = [] then (if path_absolute p then ''/'' else ''.'')
        else path_of_key (path_absolute p, kept @ (if trailing \<and> last kept \<noteq> ''..'' then [[]] else [])))"

fun mismatch :: "'a list \<Rightarrow> 'a list \<Rightarrow> 'a list \<times> 'a list" where
  "mismatch (x # xs) (y # ys) = (if x = y then mismatch xs ys else (x # xs, y # ys))"
| "mismatch xs ys = (xs, ys)"

definition name_climb :: "string \<Rightarrow> int" where
  "name_climb n = (if n = ''..'' then - 1 else if n = ''.'' \<or> n = [] then 0 else 1)"

definition climb :: "string list \<Rightarrow> int" where
  "climb names = (\<Sum>n\<leftarrow>names. name_climb n)"

definition lexically_relative :: "path \<Rightarrow> path \<Rightarrow> path" where
  "lexically_relative p base =
     (if path_absolute p \<noteq> path_absolute base then []
      else
        let (a, b) = mismatch (path_names p) (path_names base); n = climb b in
        if a = [] \<and> b = [] then ''.''
        else if n = 0 \<and> (a = [] \<or> hd a = []) then ''.''
        else if n \<ge> 0 then foldl path_append [] (replicate (nat n) ''..'' @ a)
        else [])"

section \<open>The guards\<close>

definition is_contained_relative_path :: "path \<Rightarrow> bool" where
  "is_contained_relative_path relative_path =
     (if relative_path = [] \<or> path_absolute relative_path then False
      else \<not> list_ex (\<lambda>part. part = ''..'') (path_names (lexically_normal relative_path)))"

text \<open>\<open>*relative.begin()\<close>: the first element of a path that is not empty.\<close>

definition first_element :: "path \<Rightarrow> string" where
  "first_element p = (if path_absolute p then ''/'' else hd (path_names p))"

definition is_within_root :: "path \<Rightarrow> path \<Rightarrow> bool" where
  "is_within_root candidate containment_root =
     (let relative = lexically_relative candidate containment_root in
      if relative = [] then False else first_element relative \<noteq> ''..'')"

section \<open>Elements and texts\<close>

text \<open>The lists of names a path can have.\<close>

definition names_ok :: "string list \<Rightarrow> bool" where
  "names_ok ns \<longleftrightarrow> list_all (\<lambda>n. CHR ''/'' \<notin> set n) ns \<and> list_all (\<lambda>n. n \<noteq> []) (butlast ns) \<and> ns \<noteq> [[]]"

lemma names_ok_path_names [simp]: "names_ok (path_names p)"
proof -
  define rel where "rel = dropWhile (\<lambda>c. c = CHR ''/'') p"
  show ?thesis
  proof (cases "rel = []")
    case True
    then show ?thesis by (simp add: path_names_def flip: rel_def) (simp add: names_ok_def)
  next
    case False
    then have h: "hd rel \<noteq> CHR ''/''" using hd_dropWhile [of "\<lambda>c. c = CHR ''/''" p] by (auto simp: rel_def)
    define fs where "fs = split_on CHR ''/'' rel"
    have names: "path_names p = filter (\<lambda>f. f \<noteq> []) (butlast fs) @ [last fs]"
      using False by (simp add: path_names_def Let_def fs_def flip: rel_def)
    have sep: "list_all (\<lambda>n. CHR ''/'' \<notin> set n) fs"
      using split_on_no_sep [of _ "CHR ''/''" rel] by (auto simp: fs_def list_all_iff)
    have ne: "fs \<noteq> []" by (simp add: fs_def)
    have "hd fs \<noteq> []"
      using False h by (cases rel) (auto simp: fs_def split: list.split)
    then have "path_names p \<noteq> [[]]"
      unfolding names using ne by (cases fs) (auto simp: filter_empty_conv split: if_splits)
    moreover have "list_all (\<lambda>n. CHR ''/'' \<notin> set n) (path_names p)"
      unfolding names using sep ne by (auto simp: list_all_iff dest: in_set_butlastD last_in_set)
    moreover have "list_all (\<lambda>n. n \<noteq> []) (butlast (path_names p))"
      by (simp add: names list_all_iff)
    ultimately show ?thesis by (simp add: names_ok_def)
  qed
qed

lemma join_hd:
  assumes "ns \<noteq> []" "names_ok ns"
  shows "join_with CHR ''/'' ns \<noteq> [] \<and> hd (join_with CHR ''/'' ns) \<noteq> CHR ''/''"
proof -
  obtain n ns' where ns: "ns = n # ns'" using assms(1) by (cases ns) auto
  have "n \<noteq> []" "CHR ''/'' \<notin> set n" using assms(2) by (cases ns'; simp add: ns names_ok_def)+
  then show ?thesis by (cases n; cases "ns' = []") (auto simp: ns join_with_Cons)
qed

lemma drop_slashes_join:
  assumes "names_ok ns"
  shows "dropWhile (\<lambda>c. c = CHR ''/'') (path_of_key (a, ns)) = join_with CHR ''/'' ns"
proof (cases "ns = []")
  case True
  then show ?thesis by (simp add: path_of_key_def)
next
  case False
  from join_hd [OF this assms] show ?thesis
    by (cases "join_with CHR ''/'' ns") (simp_all add: path_of_key_def)
qed

lemma path_names_of_key [simp]: "names_ok ns \<Longrightarrow> path_names (path_of_key (a, ns)) = ns"
proof (cases "ns = []")
  case False
  assume ok: "names_ok ns"
  have "list_all (\<lambda>n. n \<noteq> []) (butlast ns)" using ok by (simp add: names_ok_def)
  then have "filter (\<lambda>f. f \<noteq> []) (butlast ns) = butlast ns" by (simp add: list_all_iff)
  then show ?thesis
    using False ok join_hd [OF False ok] split_on_join [OF False, of "CHR ''/''"]
    by (simp add: path_names_def drop_slashes_join [OF ok] Let_def names_ok_def)
qed (simp add: path_names_def path_of_key_def)

lemma path_absolute_of_key [simp]: "names_ok ns \<Longrightarrow> path_absolute (path_of_key (a, ns)) = a"
  using join_hd [of ns] by (cases a; cases "ns = []"; cases "join_with CHR ''/'' ns")
    (auto simp: path_absolute_def path_of_key_def)

lemma path_key_of_key: "names_ok (snd k) \<Longrightarrow> path_key (path_of_key k) = k"
  by (cases k) (simp add: path_key_def)

lemma path_names_Nil [simp]: "path_names [] = []"
  by (simp add: path_names_def)

lemma path_absolute_Nil [simp]: "\<not> path_absolute []"
  by (simp add: path_absolute_def)

lemma path_names_eq_Nil: "path_names p = [] \<longleftrightarrow> list_all (\<lambda>c. c = CHR ''/'') p"
  by (auto simp: path_names_def Let_def list_all_iff dropWhile_eq_Nil_conv)

lemma path_absolute_iff: "path_absolute p \<longleftrightarrow> p \<noteq> [] \<and> hd p = CHR ''/''"
  by (cases p) (auto simp: path_absolute_def)

section \<open>File names and parents\<close>

lemma path_filename_Nil [simp]: "path_filename [] = []"
  by (simp add: path_filename_def)

lemma path_filename_slash [simp]: "path_filename (p @ [CHR ''/'']) = []"
  using split_on_snoc_sep [of "CHR ''/''" "[]" p] by (simp add: path_filename_def)

lemma path_filename_eq_Nil: "path_filename p = [] \<longleftrightarrow> p = [] \<or> last p = CHR ''/''"
proof
  assume f: "path_filename p = []"
  show "p = [] \<or> last p = CHR ''/''"
  proof (rule ccontr)
    assume "\<not> (p = [] \<or> last p = CHR ''/'')"
    then obtain q c where p: "p = q @ [c]" "c \<noteq> CHR ''/''" by (cases p rule: rev_cases) auto
    have "last (split_on CHR ''/'' (q @ [c])) \<noteq> []"
      using p(2) by (induction q) (auto split: list.split)
    with f show False by (simp add: path_filename_def p)
  qed
next
  assume "p = [] \<or> last p = CHR ''/''"
  then show "path_filename p = []"
  proof
    assume "last p = CHR ''/''"
    then show ?thesis by (cases p rule: rev_cases) (simp_all del: append_Cons)
  qed simp
qed

lemma path_parent_trailing:
  assumes "path_filename p = []" "path_names p \<noteq> []"
  shows "length (path_parent p) < length p"
proof -
  from assms obtain q where p: "p = q @ [CHR ''/'']"
    unfolding path_filename_eq_Nil by (cases p rule: rev_cases) auto
  have "\<not> list_all (\<lambda>c. c = CHR ''/'') q" using assms(2) by (simp add: path_names_eq_Nil p)
  then have "rev (dropWhile (\<lambda>c. c = CHR ''/'') (rev q)) \<noteq> []" by (auto simp: list_all_iff dropWhile_eq_Nil_conv)
  moreover have "length (dropWhile (\<lambda>c. c = CHR ''/'') (rev q)) \<le> length q"
    using length_dropWhile_le [of "\<lambda>c. c = CHR ''/''" "rev q"] by simp
  moreover have "q \<noteq> []" using assms(2) p by (auto simp: path_names_def)
  ultimately show ?thesis using assms by (auto simp: path_parent_def Let_def p list_all_iff dropWhile_eq_Nil_conv)
qed

section \<open>Stripping trailing separators\<close>

text \<open>\<open>normalized_subtree_path\<close> strips trailing separators; its loop compares with the previous value because the
  root directory is its own parent.\<close>

function strip_trailing :: "path \<Rightarrow> path" where
  "strip_trailing p =
     (if p \<noteq> [] \<and> path_filename p = [] then
        let parent = path_parent p in
        if path_equal parent p then p else strip_trailing parent
      else p)"
  by pat_completeness auto
termination
proof (relation "measure length", goal_cases)
  case (2 p parent)
  moreover have "path_names p \<noteq> []" using 2 by (auto simp: path_parent_def path_equal_def)
  ultimately show ?case using path_parent_trailing [of p] by simp
qed simp

declare strip_trailing.simps [simp del]

definition normalized_subtree_path :: "path \<Rightarrow> path" where
  "normalized_subtree_path raw_path = strip_trailing (lexically_normal raw_path)"

section \<open>Normal names\<close>

definition plain_name :: "string \<Rightarrow> bool" where
  "plain_name n \<longleftrightarrow> n \<noteq> [] \<and> n \<noteq> ''.'' \<and> n \<noteq> ''..'' \<and> CHR ''/'' \<notin> set n"

text \<open>What \<open>lexically_normal\<close> keeps: some \<open>..\<close>, none below a root directory, and then plain names.\<close>

definition normal_kept :: "bool \<Rightarrow> string list \<Rightarrow> bool" where
  "normal_kept rooted kept \<longleftrightarrow>
     (\<exists>k ns. kept = replicate k ''..'' @ ns \<and> list_all plain_name ns \<and> (rooted \<longrightarrow> k = 0))"

lemma normal_kept_Nil [simp]: "normal_kept rooted []"
  by (auto simp: normal_kept_def)

lemma normal_kept_step:
  assumes "normal_kept rooted (fst st)" "CHR ''/'' \<notin> set name"
  shows "normal_kept rooted (fst (normal_step rooted st name))"
proof -
  obtain kept tr where st: "st = (kept, tr)" by fastforce
  from assms st obtain k ns where k: "kept = replicate k ''..'' @ ns" "list_all plain_name ns" "rooted \<longrightarrow> k = 0"
    by (auto simp: normal_kept_def)
  consider (up) "name = ''..''" | (stay) "name \<noteq> ''..''" "name = ''.'' \<or> name = []" | (down) "plain_name name"
    using assms(2) by (auto simp: plain_name_def)
  then show ?thesis
  proof cases
    case up
    show ?thesis
    proof (cases ns rule: rev_cases)
      case Nil
      then have l: "kept \<noteq> [] \<Longrightarrow> last kept = ''..''" using k(1) by (cases k) (auto simp: replicate_append_same [symmetric])
      have "replicate k ''..'' @ [''..''] = replicate (Suc k) ''..''" by (simp add: replicate_append_same)
      then have "\<not> rooted \<Longrightarrow> normal_kept rooted (kept @ [''..''])"
        using k Nil unfolding normal_kept_def by (metis append_Nil2)
      then show ?thesis using assms st l up by (auto simp: normal_step_def)
    next
      case (snoc ns' n)
      with k have "plain_name n" "kept = replicate k ''..'' @ ns' @ [n]" "list_all plain_name ns'" by auto
      then have "fst (normal_step rooted st name) = replicate k ''..'' @ ns'"
        using up st by (simp add: normal_step_def plain_name_def butlast_append)
      with k(3) \<open>list_all plain_name ns'\<close> show ?thesis unfolding normal_kept_def by blast
    qed
  next
    case stay
    then show ?thesis using assms st by (auto simp: normal_step_def)
  next
    case down
    then have "fst (normal_step rooted st name) = replicate k ''..'' @ ns @ [name]" "list_all plain_name (ns @ [name])"
      using k st by (auto simp: normal_step_def plain_name_def)
    with k(3) show ?thesis unfolding normal_kept_def by blast
  qed
qed

lemma normal_kept_foldl:
  "normal_kept rooted (fst st) \<Longrightarrow> list_all (\<lambda>n. CHR ''/'' \<notin> set n) ns \<Longrightarrow> normal_kept rooted (fst (foldl (normal_step rooted) st ns))"
proof (induction ns arbitrary: st)
  case Nil
  then show ?case by simp
next
  case (Cons n ns)
  then show ?case using normal_kept_step [of rooted st n] by simp
qed

lemma normal_kept_names: "list_all (\<lambda>n. CHR ''/'' \<notin> set n) ns \<Longrightarrow> normal_kept rooted (fst (normal_names rooted ns))"
  unfolding normal_names_def by (rule normal_kept_foldl) simp_all

lemma normal_kept_ok:
  assumes "normal_kept rooted kept"
  shows "names_ok kept" "kept \<noteq> [] \<Longrightarrow> names_ok (kept @ [[]])"
proof -
  have kept: "n \<noteq> [] \<and> CHR ''/'' \<notin> set n" if "n \<in> set kept" for n
  proof -
    obtain k ns where k: "kept = replicate k ''..'' @ ns" "list_all plain_name ns" using assms by (auto simp: normal_kept_def)
    have "n = ''..'' \<or> n \<in> set ns" using that k(1) by auto
    then show ?thesis
    proof
      assume "n \<in> set ns"
      with k(2) have "plain_name n" unfolding list_all_iff by blast
      then show ?thesis unfolding plain_name_def by blast
    qed simp
  qed
  have sep: "list_all (\<lambda>n. CHR ''/'' \<notin> set n) kept" "list_all (\<lambda>n. n \<noteq> []) kept"
    unfolding list_all_iff using kept by blast+
  have "list_all (\<lambda>n. n \<noteq> []) (butlast kept)" unfolding list_all_iff using kept by (blast dest: in_set_butlastD)
  moreover have "kept \<noteq> [[]]" using kept [of "[]"] by (metis list.set_intros(1))
  ultimately show "names_ok kept" unfolding names_ok_def using sep(1) by blast
  have "list_all (\<lambda>n. CHR ''/'' \<notin> set n) (kept @ [[]])" using sep(1) unfolding list_all_append by simp
  then show "names_ok (kept @ [[]])" if "kept \<noteq> []" unfolding names_ok_def using sep(2) that by simp
qed

lemma path_names_no_slash: "list_all (\<lambda>n. CHR ''/'' \<notin> set n) (path_names p)"
  using names_ok_path_names [of p] by (simp add: names_ok_def)

lemma lexically_normal_key:
  assumes "p \<noteq> []" "normal_names (path_absolute p) (path_names p) = (kept, trailing)"
  shows "path_names (lexically_normal p) =
      (if kept = [] then (if path_absolute p then [] else [''.''])
       else kept @ (if trailing \<and> last kept \<noteq> ''..'' then [[]] else []))"
    "path_absolute (lexically_normal p) = path_absolute p" "normal_kept (path_absolute p) kept"
proof -
  show kept: "normal_kept (path_absolute p) kept"
    using normal_kept_names [OF path_names_no_slash, of "path_absolute p" p] assms(2) by simp
  have "names_ok (kept @ (if trailing \<and> last kept \<noteq> ''..'' then [[]] else []))" if "kept \<noteq> []"
    using normal_kept_ok [OF kept] that by simp
  moreover have "path_names ''.'' = [''.'']" "path_names ''/'' = []" "\<not> path_absolute ''.''" "path_absolute ''/''"
    by (simp_all add: path_names_def path_absolute_def)
  ultimately show "path_names (lexically_normal p) =
      (if kept = [] then (if path_absolute p then [] else [''.''])
       else kept @ (if trailing \<and> last kept \<noteq> ''..'' then [[]] else []))"
    "path_absolute (lexically_normal p) = path_absolute p"
    using assms by (simp_all add: lexically_normal_def)
qed

lemma normal_kept_dotdot:
  assumes "normal_kept rooted kept"
  shows "''..'' \<in> set kept \<longleftrightarrow> kept \<noteq> [] \<and> hd kept = ''..''"
proof -
  obtain k ns where k: "kept = replicate k ''..'' @ ns" "list_all plain_name ns" using assms by (auto simp: normal_kept_def)
  have ns: "''..'' \<notin> set ns" using k(2) by (auto simp: list_all_iff plain_name_def)
  show ?thesis
  proof (cases k)
    case 0
    with k(1) ns show ?thesis by (cases ns) auto
  next
    case (Suc m)
    with k(1) show ?thesis by simp
  qed
qed

section \<open>Climbing\<close>

text \<open>A path never climbs above its start iff no prefix of it holds more \<open>..\<close> than names to go down.\<close>

fun never_above :: "int \<Rightarrow> string list \<Rightarrow> bool" where
  "never_above depth [] \<longleftrightarrow> True"
| "never_above depth (n # ns) \<longleftrightarrow> 0 \<le> depth + name_climb n \<and> never_above (depth + name_climb n) ns"

lemma climb_simps [simp]: "climb [] = 0" "climb (n # ns) = name_climb n + climb ns" "climb (xs @ ys) = climb xs + climb ys"
  by (simp_all add: climb_def)

lemma never_above_prefixes: "0 \<le> depth \<Longrightarrow> never_above depth ns \<longleftrightarrow> (\<forall>k \<le> length ns. 0 \<le> depth + climb (take k ns))"
proof (induction ns arbitrary: depth)
  case Nil
  then show ?case by simp
next
  case (Cons n ns)
  have "(\<forall>k \<le> length (n # ns). 0 \<le> depth + climb (take k (n # ns))) \<longleftrightarrow>
      (\<forall>k \<le> length ns. 0 \<le> depth + name_climb n + climb (take k ns))" (is "?l \<longleftrightarrow> ?r")
  proof
    assume l: ?l
    show ?r
    proof (intro allI impI)
      fix k assume "k \<le> length ns"
      then show "0 \<le> depth + name_climb n + climb (take k ns)" using l [rule_format, of "Suc k"] by simp
    qed
  next
    assume r: ?r
    show ?l
    proof (intro allI impI)
      fix k assume "k \<le> length (n # ns)"
      then show "0 \<le> depth + climb (take k (n # ns))" using r [rule_format, of "k - 1"] Cons.prems by (cases k) auto
    qed
  qed
  moreover have "0 \<le> depth + name_climb n" if "\<forall>k \<le> length ns. 0 \<le> depth + name_climb n + climb (take k ns)"
    using that by (auto dest: spec [of _ 0])
  ultimately show ?case using Cons.IH [of "depth + name_climb n"] by auto
qed

text \<open>Below a path that keeps the names \<open>ds\<close> and no \<open>..\<close>, such a path only adds and removes names of its own.\<close>

lemma normal_step_below:
  assumes "''..'' \<notin> set kept" "0 \<le> int (length kept) + name_climb n"
  obtains kept' tr' where "normal_step rooted (ds @ kept, tr) n = (ds @ kept', tr')" "''..'' \<notin> set kept'"
    "int (length kept') = int (length kept) + name_climb n"
proof -
  consider (up) "n = ''..''" | (stay) "n \<noteq> ''..''" "n = ''.'' \<or> n = []" | (down) "n \<noteq> ''..''" "n \<noteq> ''.''" "n \<noteq> []" by blast
  then show thesis
  proof cases
    case up
    then have "kept \<noteq> []" using assms(2) by (auto simp: name_climb_def)
    then obtain k n' where "kept = k @ [n']" by (cases kept rule: rev_cases) auto
    with up assms(1) that [of k True] show thesis
      by (auto simp: normal_step_def name_climb_def butlast_append)
  next
    case stay
    with assms(1) that [of kept True] show thesis by (auto simp: normal_step_def name_climb_def)
  next
    case down
    with assms(1) that [of "kept @ [n]" False] show thesis by (auto simp: normal_step_def name_climb_def)
  qed
qed

lemma normal_fold_below:
  "''..'' \<notin> set kept \<Longrightarrow> never_above (int (length kept)) ns \<Longrightarrow>
   \<exists>kept' tr'. foldl (normal_step rooted) (ds @ kept, tr) ns = (ds @ kept', tr') \<and> ''..'' \<notin> set kept' \<and>
     int (length kept') = int (length kept) + climb ns"
proof (induction ns arbitrary: kept tr)
  case Nil
  then show ?case by simp
next
  case (Cons n ns)
  then have "0 \<le> int (length kept) + name_climb n" by simp
  from normal_step_below [OF Cons.prems(1) this, of rooted ds tr]
  obtain kept1 tr1 where s: "normal_step rooted (ds @ kept, tr) n = (ds @ kept1, tr1)" "''..'' \<notin> set kept1"
      "int (length kept1) = int (length kept) + name_climb n" by metis
  moreover have "never_above (int (length kept1)) ns" using Cons.prems s(3) by simp
  ultimately show ?case using Cons.IH [of kept1 tr1] by (simp add: add.assoc)
qed

text \<open>A path that does climb above its start keeps a \<open>..\<close> for good.\<close>

lemma normal_step_dotdot: "''..'' \<in> set (fst st) \<Longrightarrow> ''..'' \<in> set (fst (normal_step False st n))"
  by (cases "fst st" rule: rev_cases) (auto simp: normal_step_def split: prod.split)

lemma normal_fold_dotdot: "''..'' \<in> set (fst st) \<Longrightarrow> ''..'' \<in> set (fst (foldl (normal_step False) st ns))"
  by (induction ns arbitrary: st) (simp_all add: normal_step_dotdot)

lemma normal_fold_above:
  "''..'' \<notin> set kept \<Longrightarrow> \<not> never_above (int (length kept)) ns \<Longrightarrow> ''..'' \<in> set (fst (foldl (normal_step False) (kept, tr) ns))"
proof (induction ns arbitrary: kept tr)
  case Nil
  then show ?case by simp
next
  case (Cons n ns)
  show ?case
  proof (cases "0 \<le> int (length kept) + name_climb n")
    case True
    from normal_step_below [OF Cons.prems(1) this, of False "[]" tr]
    obtain kept1 tr1 where s: "normal_step False (kept, tr) n = (kept1, tr1)" "''..'' \<notin> set kept1"
      "int (length kept1) = int (length kept) + name_climb n" by auto
    with Cons True show ?thesis by simp
  next
    case False
    then have "n = ''..''" "kept = []" by (auto simp: name_climb_def split: if_splits)
    then have "''..'' \<in> set (fst (normal_step False (kept, tr) n))" by (simp add: normal_step_def)
    then show ?thesis using normal_fold_dotdot by simp
  qed
qed

section \<open>Joining and comparing\<close>

text \<open>The names a path goes through, without the empty one a trailing separator stands for.\<close>

definition path_dirs :: "path \<Rightarrow> string list" where
  "path_dirs p = filter (\<lambda>n. n \<noteq> []) (path_names p)"

lemma split_on_sep: "split_on c (s @ c # t) = split_on c s @ split_on c t"
proof (induction s)
  case Nil
  then show ?case by simp
next
  case (Cons x s)
  then show ?case by (simp split: list.split)
qed

lemma path_names_split:
  "\<not> list_all (\<lambda>c. c = CHR ''/'') p \<Longrightarrow>
   path_names p = filter (\<lambda>n. n \<noteq> []) (butlast (split_on CHR ''/'' p)) @ [last (split_on CHR ''/'' p)]"
proof (induction p)
  case Nil
  then show ?case by simp
next
  case (Cons c p)
  show ?case
  proof (cases "c = CHR ''/''")
    case True
    with Cons show ?thesis by (simp add: path_names_def)
  next
    case False
    then show ?thesis by (simp add: path_names_def Let_def)
  qed
qed

lemma path_dirs_split: "path_dirs p = filter (\<lambda>n. n \<noteq> []) (split_on CHR ''/'' p)"
proof (cases "list_all (\<lambda>c. c = CHR ''/'') p")
  case True
  then have "set (split_on CHR ''/'' p) \<subseteq> {[]}" by (induction p) auto
  then have "filter (\<lambda>n. n \<noteq> []) (split_on CHR ''/'' p) = []" by (auto simp: filter_empty_conv)
  with True show ?thesis by (simp add: path_dirs_def path_names_eq_Nil [THEN iffD2])
next
  case False
  have "filter (\<lambda>n. n \<noteq> []) (split_on CHR ''/'' p) =
      filter (\<lambda>n. n \<noteq> []) (butlast (split_on CHR ''/'' p) @ [last (split_on CHR ''/'' p)])" by simp
  then show ?thesis unfolding path_dirs_def path_names_split [OF False] by (simp only: filter_append filter_filter conj_absorb)
qed

lemma path_names_join:
  assumes "q \<noteq> []" "\<not> path_absolute q"
  shows "path_names (p @ CHR ''/'' # q) = path_dirs p @ path_names q"
proof -
  have q: "\<not> list_all (\<lambda>c. c = CHR ''/'') q" using assms by (cases q) (auto simp: path_absolute_iff)
  then have "\<not> list_all (\<lambda>c. c = CHR ''/'') (p @ CHR ''/'' # q)" by simp
  then show ?thesis using q by (simp add: path_names_split split_on_sep path_dirs_split butlast_append)
qed

lemma path_names_append:
  assumes "q \<noteq> []" "\<not> path_absolute q"
  shows "path_names (path_append p q) = path_dirs p @ path_names q"
proof -
  consider (here) "p = []" | (slash) p' where "p = p' @ [CHR ''/'']" | (name) "path_filename p \<noteq> []"
    using path_filename_eq_Nil [of p] by (cases p rule: rev_cases) auto
  then show ?thesis
  proof cases
    case here
    then show ?thesis using assms by (simp add: path_append_def path_dirs_def)
  next
    case slash
    then show ?thesis
      using assms path_names_join [OF assms, of p'] split_on_sep [of "CHR ''/''" p' "[]"]
      by (simp add: path_append_def path_dirs_split)
  next
    case name
    then show ?thesis using assms by (simp add: path_append_def path_names_join)
  qed
qed

lemma path_absolute_append: "\<not> path_absolute q \<Longrightarrow> p \<noteq> [] \<Longrightarrow> path_absolute (path_append p q) = path_absolute p"
  by (auto simp: path_append_def path_absolute_iff)

lemma foldl_path_append:
  "names_ok (ks @ ns) \<Longrightarrow> ks \<noteq> [] \<Longrightarrow> foldl path_append (join_with CHR ''/'' ks) ns = join_with CHR ''/'' (ks @ ns)"
proof (induction ns arbitrary: ks)
  case Nil
  then show ?case by simp
next
  case (Cons n ns)
  then have n: "CHR ''/'' \<notin> set n" by (simp add: names_ok_def)
  have ks: "last ks \<noteq> []" "CHR ''/'' \<notin> set (last ks)"
    using Cons.prems by (auto simp: names_ok_def list_all_iff butlast_append)
  then have "last (join_with CHR ''/'' ks) \<noteq> CHR ''/''" "join_with CHR ''/'' ks \<noteq> []"
    using Cons.prems(2) by (induction ks rule: induct_list012) (auto simp: join_with_Cons dest: last_in_set split: if_splits)
  then have f: "path_filename (join_with CHR ''/'' ks) \<noteq> []" by (simp add: path_filename_eq_Nil)
  have "\<not> path_absolute n" using n by (cases n) (auto simp: path_absolute_iff)
  then have "path_append (join_with CHR ''/'' ks) n = join_with CHR ''/'' ks @ CHR ''/'' # n" using f by (simp add: path_append_def)
  also have "\<dots> = join_with CHR ''/'' (ks @ [n])"
    using Cons.prems(2) by (induction ks rule: induct_list012) auto
  finally show ?case using Cons.IH [of "ks @ [n]"] Cons.prems by simp
qed

lemma path_names_of_appends:
  assumes "names_ok ns" "ns \<noteq> []"
  shows "path_names (foldl path_append [] ns) = ns \<and> \<not> path_absolute (foldl path_append [] ns) \<and> foldl path_append [] ns \<noteq> []"
proof -
  obtain n ns' where ns: "ns = n # ns'" using assms(2) by (cases ns) auto
  have n: "n \<noteq> []" "CHR ''/'' \<notin> set n" using assms(1) by (cases ns'; simp add: ns names_ok_def)+
  then have "path_append [] n = n" by (cases n) (auto simp: path_append_def path_absolute_iff)
  then have "foldl path_append [] ns = join_with CHR ''/'' ns"
    using foldl_path_append [of "[n]" ns'] assms(1) by (simp add: ns)
  then have eq: "foldl path_append [] ns = path_of_key (False, ns)" by (simp add: path_of_key_def)
  moreover have "path_of_key (False, ns) \<noteq> []" using join_hd [OF assms(2,1)] by (simp add: path_of_key_def)
  ultimately show ?thesis using assms(1) by simp
qed

lemma mismatch_split:
  "mismatch xs ys = (a, b) \<Longrightarrow> \<exists>c. xs = c @ a \<and> ys = c @ b \<and> (a = [] \<or> b = [] \<or> hd a \<noteq> hd b)"
proof (induction xs ys arbitrary: a b rule: mismatch.induct)
  case (1 x xs y ys)
  show ?case
  proof (cases "x = y")
    case True
    with 1 obtain c where "xs = c @ a \<and> ys = c @ b \<and> (a = [] \<or> b = [] \<or> hd a \<noteq> hd b)" by auto
    with True have "x # xs = (x # c) @ a \<and> y # ys = (x # c) @ b \<and> (a = [] \<or> b = [] \<or> hd a \<noteq> hd b)" by simp
    then show ?thesis by blast
  next
    case False
    with 1 show ?thesis by auto
  qed
qed auto

section \<open>Lying within a directory\<close>

text \<open>An absolute path in normal form: what \<open>fs::absolute(...).lexically_normal()\<close> gives.\<close>

definition normal_absolute :: "path \<Rightarrow> bool" where
  "normal_absolute p \<longleftrightarrow> path_absolute p \<and> (\<exists>ns. list_all plain_name ns \<and> (path_names p = ns \<or> path_names p = ns @ [[]]))"

lemma plain_filter: "list_all plain_name ns \<Longrightarrow> filter (\<lambda>n. n \<noteq> []) ns = ns"
  by (induction ns) (simp_all add: plain_name_def)

lemma plain_climb: "list_all plain_name ns \<Longrightarrow> climb ns = int (length ns)"
  by (induction ns) (simp_all add: plain_name_def name_climb_def)

lemma normal_absolute_dirs:
  "normal_absolute p \<longleftrightarrow> path_absolute p \<and> list_all plain_name (path_dirs p) \<and>
     (path_names p = path_dirs p \<or> path_names p = path_dirs p @ [[]])"
proof
  assume "normal_absolute p"
  then obtain ns where ns: "path_absolute p" "list_all plain_name ns" "path_names p = ns \<or> path_names p = ns @ [[]]"
    by (auto simp: normal_absolute_def)
  then have "path_dirs p = ns" using plain_filter [of ns] by (auto simp: path_dirs_def)
  with ns show "path_absolute p \<and> list_all plain_name (path_dirs p) \<and>
     (path_names p = path_dirs p \<or> path_names p = path_dirs p @ [[]])" by simp
qed (auto simp: normal_absolute_def)

lemma lexically_normal_absolute: "path_absolute p \<Longrightarrow> normal_absolute (lexically_normal p)"
proof -
  assume abs: "path_absolute p"
  then have ne: "p \<noteq> []" by auto
  obtain kept tr where kt: "normal_names (path_absolute p) (path_names p) = (kept, tr)" by fastforce
  note key = lexically_normal_key [OF ne kt]
  have "list_all plain_name kept" using key(3) abs by (auto simp: normal_kept_def)
  then show ?thesis unfolding normal_absolute_def using key(1,2) abs
    by (cases "kept = []"; cases "tr \<and> last kept \<noteq> ''..''") auto
qed

lemma is_within_root_iff:
  assumes c: "normal_absolute candidate" and r: "normal_absolute root"
  shows "is_within_root candidate root \<longleftrightarrow> prefix (path_dirs root) (path_dirs candidate)"
proof -
  obtain a b where ab: "mismatch (path_names candidate) (path_names root) = (a, b)" by fastforce
  from mismatch_split [OF ab] obtain s where s: "path_names candidate = s @ a" "path_names root = s @ b"
    "a = [] \<or> b = [] \<or> hd a \<noteq> hd b" by auto
  have plain: "n \<in> set (butlast (path_names p)) \<Longrightarrow> plain_name n" "n \<in> set (path_names p) \<Longrightarrow> n = [] \<or> plain_name n"
    if "normal_absolute p" for p n
    using that by (auto simp: normal_absolute_def list_all_iff dest: in_set_butlastD)
  have rel: "is_within_root candidate root \<longleftrightarrow>
      (let relative = (if a = [] \<and> b = [] then ''.''
         else if climb b = 0 \<and> (a = [] \<or> hd a = []) then ''.''
         else if climb b \<ge> 0 then foldl path_append [] (replicate (nat (climb b)) ''..'' @ a) else []) in
       if relative = [] then False else first_element relative \<noteq> ''..'')"
    using c r by (simp add: is_within_root_def lexically_relative_def ab normal_absolute_def Let_def)
  have dot: "first_element ''.'' \<noteq> ''..''" by (simp add: first_element_def path_absolute_def path_names_def)
  have ok: "names_ok (s @ a)" "names_ok (s @ b)" using names_ok_path_names [of candidate] names_ok_path_names [of root] s by simp_all
  show ?thesis
  proof (cases "filter (\<lambda>n. n \<noteq> []) b = []")
    case True
    then have b: "b = [] \<or> (\<exists>k. b = replicate (Suc k) [])" by (induction b) (auto split: if_splits, metis replicate_Suc)
    then have "climb b = 0" by (auto simp: climb_def name_climb_def sum_list_replicate)
    have "prefix (path_dirs root) (path_dirs candidate)" using True by (simp add: path_dirs_def s)
    moreover have "is_within_root candidate root"
    proof (cases "a = [] \<or> hd a = []")
      case True
      then show ?thesis using rel dot \<open>climb b = 0\<close> by (auto simp: Let_def)
    next
      case False
      then have "a \<noteq> []" "names_ok a" using ok(1) by (auto simp: names_ok_def butlast_append split: if_splits)
      from path_names_of_appends [OF this(2,1)] have names: "path_names (foldl path_append [] a) = a"
        "\<not> path_absolute (foldl path_append [] a)" "foldl path_append [] a \<noteq> []" by auto
      have "hd a \<in> set (path_names candidate)" using False s(1) by simp
      with plain(2) [OF c] False have "hd a \<noteq> ''..''" by (auto simp: plain_name_def)
      then show ?thesis using rel False \<open>climb b = 0\<close> names by (simp add: Let_def first_element_def)
    qed
    ultimately show ?thesis by simp
  next
    case False
    obtain ds where ds: "list_all plain_name ds" "s @ b = ds \<or> s @ b = ds @ [[]]" using r s(2) by (auto simp: normal_absolute_def)
    obtain b0 e where b: "b = b0 @ e" "e = [] \<or> e = [[]]" "list_all plain_name s" "list_all plain_name b0" "b0 \<noteq> []"
    proof (cases "s @ b = ds")
      case True
      with ds(1) False show thesis by (intro that [of b "[]"]) auto
    next
      case no: False
      then have "s @ b = ds @ [[]]" using ds(2) by simp
      with False obtain b0 where "b = b0 @ [[]]" "ds = s @ b0" by (cases b rule: rev_cases) auto
      with ds(1) False show thesis by (intro that [of b0 "[[]]"]) auto
    qed
    have "climb e = 0" using b(2) by (auto simp: name_climb_def)
    then obtain k where k: "climb b = int (Suc k)" using b plain_climb [OF b(4)] by (cases b0) auto
    have "names_ok (replicate (Suc k) ''..'' @ a)"
      using ok(1) by (cases "a = []") (auto simp: names_ok_def butlast_append list_all_iff dest: in_set_butlastD)
    from path_names_of_appends [OF this] have "path_names (foldl path_append [] (replicate (Suc k) ''..'' @ a)) = replicate (Suc k) ''..'' @ a"
      "\<not> path_absolute (foldl path_append [] (replicate (Suc k) ''..'' @ a))" "foldl path_append [] (replicate (Suc k) ''..'' @ a) \<noteq> []"
      by (auto simp del: foldl_append)
    then have "first_element (foldl path_append [] (replicate (Suc k) ''..'' @ a)) = ''..''" by (simp add: first_element_def)
    moreover have "nat (climb b) = Suc k" using k by simp
    ultimately have "\<not> is_within_root candidate root"
      unfolding rel using b(1,5) k by (auto simp: Let_def simp del: foldl_append replicate_Suc climb_simps)
    moreover have "\<not> prefix (path_dirs root) (path_dirs candidate)"
    proof
      assume p: "prefix (path_dirs root) (path_dirs candidate)"
      have "filter (\<lambda>n. n \<noteq> []) e = []" using b(2) by auto
      then have "path_dirs root = s @ b0" by (simp add: path_dirs_def s b(1) plain_filter [OF b(3)] plain_filter [OF b(4)])
      moreover have "path_dirs candidate = s @ filter (\<lambda>n. n \<noteq> []) a" by (simp add: path_dirs_def s plain_filter [OF b(3)])
      ultimately have p': "prefix b0 (filter (\<lambda>n. n \<noteq> []) a)" using p by simp
      then obtain x a' where a: "a = x # a'" using b(5) by (cases a) auto
      show False
      proof (cases "x = []")
        case True
        then have "a' = []" using ok(1) by (cases a' rule: rev_cases) (auto simp: a names_ok_def butlast_append)
        with p' b(5) show ?thesis by (simp add: a True)
      next
        case False
        then have "hd b0 = x" using p' b(5) by (cases b0) (auto simp: a)
        with s(3) a b show ?thesis by simp
      qed
    qed
    ultimately show ?thesis by simp
  qed
qed

section \<open>Normal forms are fixed\<close>

lemma normal_names_plain: "list_all plain_name ns \<Longrightarrow> foldl (normal_step rooted) (kept, tr) ns = (kept @ ns, if ns = [] then tr else False)"
  by (induction ns arbitrary: kept tr) (auto simp: normal_step_def plain_name_def)

lemma normal_names_up: "foldl (normal_step False) (replicate j ''..'', False) (replicate k ''..'') = (replicate (j + k) ''..'', False)"
proof (induction k arbitrary: j)
  case 0
  then show ?case by simp
next
  case (Suc k)
  have "normal_step False (replicate j ''..'', False) ''..'' = (replicate (Suc j) ''..'', False)"
    by (cases j) (simp_all add: normal_step_def replicate_append_same)
  with Suc [of "Suc j"] show ?case by simp
qed

lemma normal_names_kept: "normal_kept rooted kept \<Longrightarrow> normal_names rooted kept = (kept, False)"
proof -
  assume "normal_kept rooted kept"
  then obtain k ns where k: "kept = replicate k ''..'' @ ns" "list_all plain_name ns" "rooted \<longrightarrow> k = 0"
    by (auto simp: normal_kept_def)
  have "foldl (normal_step rooted) ([], False) (replicate k ''..'') = (replicate k ''..'', False)"
    using k(3) normal_names_up [of 0 k] by (cases rooted) simp_all
  then show ?thesis by (simp add: normal_names_def k(1) normal_names_plain [OF k(2)])
qed

lemma normal_names_kept_slash: "normal_kept rooted kept \<Longrightarrow> normal_names rooted (kept @ [[]]) = (kept, True)"
  using normal_names_kept [of rooted kept] by (simp add: normal_names_def normal_step_def)

lemma lexically_normal_dot: "lexically_normal ''.'' = ''.''" "lexically_normal ''/'' = ''/''"
  by (simp_all add: lexically_normal_def path_names_def path_absolute_def normal_names_def normal_step_def)

lemma lexically_normal_Nil [simp]: "lexically_normal [] = []"
  by (simp add: lexically_normal_def)

lemma lexically_normal_not_Nil: "p \<noteq> [] \<Longrightarrow> lexically_normal p \<noteq> []"
proof -
  assume ne: "p \<noteq> []"
  obtain kept tr where kt: "normal_names (path_absolute p) (path_names p) = (kept, tr)" by fastforce
  note key = lexically_normal_key [OF ne kt]
  show ?thesis
  proof
    assume "lexically_normal p = []"
    with key(1,2) show False by (auto split: if_splits)
  qed
qed

lemma lexically_normal_idem [simp]: "lexically_normal (lexically_normal p) = lexically_normal p"
proof (cases "p = []")
  case False
  obtain kept tr where kt: "normal_names (path_absolute p) (path_names p) = (kept, tr)" by fastforce
  note key = lexically_normal_key [OF False kt]
  define n where "n = lexically_normal p"
  have n: "n \<noteq> []" using lexically_normal_not_Nil [OF False] by (simp add: n_def)
  show ?thesis
  proof (cases "kept = []")
    case True
    then have "n = (if path_absolute p then ''/'' else ''.'')" using kt False by (simp add: n_def lexically_normal_def)
    then show ?thesis by (simp add: n_def [symmetric] lexically_normal_dot)
  next
    case kne: False
    have "normal_names (path_absolute n) (path_names n) = (kept, tr \<and> last kept \<noteq> ''..'')"
      using key kne normal_names_kept [OF key(3)] normal_names_kept_slash [OF key(3)] by (simp add: n_def)
    then have "lexically_normal n = path_of_key (path_absolute p, kept @ (if tr \<and> last kept \<noteq> ''..'' then [[]] else []))"
      using n kne key(2) by (auto simp: lexically_normal_def n_def)
    also have "\<dots> = n" using kt False kne by (simp add: n_def lexically_normal_def)
    finally show ?thesis by (simp add: n_def)
  qed
qed simp

section \<open>Subtree paths\<close>

lemma join_with_snoc: "fs \<noteq> [] \<Longrightarrow> join_with c (fs @ [f]) = join_with c fs @ c # f"
  by (induction fs rule: induct_list012) auto

lemma strip_trailing_kept:
  assumes "normal_kept rooted kept" "kept \<noteq> []"
  shows "strip_trailing (path_of_key (rooted, kept)) = path_of_key (rooted, kept)"
    "strip_trailing (path_of_key (rooted, kept @ [[]])) = path_of_key (rooted, kept)"
proof -
  let ?p = "path_of_key (rooted, kept)"
  have "list_all (\<lambda>n. CHR ''/'' \<notin> set n) kept \<and> list_all (\<lambda>n. n \<noteq> []) kept"
    using normal_kept_ok(2) [OF assms] by (simp only: names_ok_def butlast_snoc list_all_append)
  then have "\<forall>n \<in> set kept. n \<noteq> [] \<and> CHR ''/'' \<notin> set n" unfolding list_all_iff by blast
  from bspec [OF this last_in_set [OF assms(2)]] have l: "last kept \<noteq> []" "CHR ''/'' \<notin> set (last kept)" by blast+
  obtain pre where pre: "join_with CHR ''/'' kept = pre @ last kept"
  proof (cases kept rule: rev_cases)
    case Nil
    with assms(2) show thesis by simp
  next
    case (snoc ks k)
    with that show thesis by (cases "ks = []") (simp_all add: join_with_snoc)
  qed
  obtain n c where n: "last kept = n @ [c]" using l(1) by (cases "last kept" rule: rev_cases) auto
  have "c \<noteq> CHR ''/''" using l(2) by (auto simp: n)
  then have last: "?p \<noteq> []" "last ?p \<noteq> CHR ''/''" using pre by (simp_all add: path_of_key_def n)
  then have f: "path_filename ?p \<noteq> []" by (simp add: path_filename_eq_Nil)
  then show s: "strip_trailing ?p = ?p" by (subst strip_trailing.simps) simp
  have j: "path_of_key (rooted, kept @ [[]]) = ?p @ [CHR ''/'']"
    using assms(2) by (simp add: path_of_key_def join_with_snoc)
  have names: "path_names (?p @ [CHR ''/'']) = kept @ [[]]"
    using path_names_of_key [OF normal_kept_ok(2) [OF assms], of rooted] by (simp add: j)
  obtain q c where q: "?p = q @ [c]" "c \<noteq> CHR ''/''" using last by (cases ?p rule: rev_cases) auto
  have parent: "path_parent (?p @ [CHR ''/'']) = ?p"
    unfolding path_parent_def path_filename_slash Let_def names by (simp add: q)
  have "\<not> path_equal ?p (?p @ [CHR ''/''])"
    using names path_names_of_key [OF normal_kept_ok(1) [OF assms(1)], of rooted] by (auto simp: path_equal_def path_key_def)
  then show "strip_trailing (path_of_key (rooted, kept @ [[]])) = ?p"
    unfolding j by (subst strip_trailing.simps) (simp add: parent s)
qed

text \<open>Reference for \<open>normalized_subtree_path\<close>: the kept names, and no separator after them.\<close>

definition subtree_reference :: "path \<Rightarrow> path" where
  "subtree_reference p =
     (let kept = fst (normal_names (path_absolute p) (path_names p)) in
      if p = [] then [] else if kept = [] then (if path_absolute p then ''/'' else ''.'')
      else path_of_key (path_absolute p, kept))"

lemma normalized_subtree_path_eq: "normalized_subtree_path p = subtree_reference p"
proof (cases "p = []")
  case True
  then show ?thesis by (simp add: normalized_subtree_path_def subtree_reference_def strip_trailing.simps [of "[]"])
next
  case False
  obtain kept tr where kt: "normal_names (path_absolute p) (path_names p) = (kept, tr)" by fastforce
  note key = lexically_normal_key [OF False kt]
  show ?thesis
  proof (cases "kept = []")
    case True
    have "strip_trailing ''.'' = ''.''" by (subst strip_trailing.simps) (simp add: path_filename_eq_Nil)
    moreover have "strip_trailing ''/'' = ''/''"
      by (subst strip_trailing.simps) (simp add: path_parent_def path_names_def path_equal_def)
    ultimately show ?thesis
      using True kt False by (simp add: normalized_subtree_path_def subtree_reference_def lexically_normal_def)
  next
    case kne: False
    then show ?thesis
      using kt False strip_trailing_kept [OF key(3) kne]
      by (simp add: normalized_subtree_path_def subtree_reference_def lexically_normal_def)
  qed
qed

section \<open>Properties\<close>

lemma contained_prefixes:
  "is_contained_relative_path p \<longleftrightarrow> p \<noteq> [] \<and> \<not> path_absolute p \<and> never_above 0 (path_names p)"
proof (cases "p = [] \<or> path_absolute p")
  case True
  then show ?thesis by (auto simp: is_contained_relative_path_def)
next
  case False
  then have p: "p \<noteq> []" "path_absolute p = False" by auto
  obtain kept tr where kt: "normal_names (path_absolute p) (path_names p) = (kept, tr)" by fastforce
  note key = lexically_normal_key [OF p(1) kt]
  have "is_contained_relative_path p \<longleftrightarrow> ''..'' \<notin> set kept"
    using p key(1) by (auto simp: is_contained_relative_path_def list_ex_iff)
  also have "\<dots> \<longleftrightarrow> never_above 0 (path_names p)"
  proof
    assume n: "''..'' \<notin> set kept"
    show "never_above 0 (path_names p)"
      using normal_fold_above [of "[]" "path_names p" False] n kt p(2) by (auto simp: normal_names_def)
  next
    assume "never_above 0 (path_names p)"
    then show "''..'' \<notin> set kept"
      using normal_fold_below [of "[]" "path_names p" False "[]" False] kt p(2) by (auto simp: normal_names_def)
  qed
  finally show ?thesis using p by simp
qed

lemma normal_names_dirs: "fst (normal_names True (path_dirs p)) = fst (normal_names True (path_names p))"
proof -
  have step: "fst (foldl (normal_step True) (k, t) ns) = fst (foldl (normal_step True) (k, t') (filter (\<lambda>n. n \<noteq> []) ns))" for k t t' ns
  proof (induction ns arbitrary: k t t')
    case Nil
    then show ?case by simp
  next
    case (Cons n ns)
    obtain k1 t1 where s: "normal_step True (k, t) n = (k1, t1)" by fastforce
    show ?case
    proof (cases "n = []")
      case True
      then have "k1 = k" using s by (simp add: normal_step_def)
      with True s Cons.IH [of k t1 t'] show ?thesis by simp
    next
      case False
      obtain k2 t2 where s2: "normal_step True (k, t') n = (k2, t2)" by fastforce
      have "k2 = k1" using s s2 by (auto simp: normal_step_def split: if_splits)
      with False s s2 Cons.IH [of k1 t1 t2] show ?thesis by simp
    qed
  qed
  show ?thesis unfolding normal_names_def path_dirs_def by (rule step [symmetric])
qed

lemma normalized_subtree_path_idem: "normalized_subtree_path (normalized_subtree_path p) = normalized_subtree_path p"
proof (cases "p = []")
  case True
  then show ?thesis by (simp add: normalized_subtree_path_eq subtree_reference_def)
next
  case False
  obtain kept tr where kt: "normal_names (path_absolute p) (path_names p) = (kept, tr)" by fastforce
  note key = lexically_normal_key [OF False kt]
  show ?thesis
  proof (cases "kept = []")
    case True
    then show ?thesis
      using kt False by (auto simp: normalized_subtree_path_eq subtree_reference_def path_names_def path_absolute_def
        normal_names_def normal_step_def)
  next
    case kne: False
    then have n: "normalized_subtree_path p = path_of_key (path_absolute p, kept)"
      using kt False by (simp add: normalized_subtree_path_eq subtree_reference_def)
    moreover have "path_of_key (path_absolute p, kept) \<noteq> []"
      using path_names_of_key [OF normal_kept_ok(1) [OF key(3)], of "path_absolute p"] kne by auto
    ultimately show ?thesis
      using normal_names_kept [OF key(3)] normal_kept_ok(1) [OF key(3)] kne
      by (simp add: normalized_subtree_path_eq [of "path_of_key (path_absolute p, kept)"] subtree_reference_def)
  qed
qed

text \<open>The guard on caller-declared relative paths is exact: it accepts a path iff it is relative, not empty, and never
  climbs above the directory it starts in, at no point of its way, however the climbing is interleaved with
  names, dots and repeated separators.\<close>

theorem contained_relative_path_exact:
  "is_contained_relative_path p \<longleftrightarrow> p \<noteq> [] \<and> \<not> path_absolute p \<and>
     list_all (\<lambda>k. 0 \<le> climb (take k (path_names p))) [0..<Suc (length (path_names p))]"
  unfolding contained_prefixes never_above_prefixes [of 0, simplified] by (auto simp: list_all_iff less_Suc_eq_le)

text \<open>C16: What the guard is for: a path it accepts, joined onto any absolute directory and brought to normal form,
  lies in that directory, as \<open>is_within_root\<close> decides it and in the sense that the names of the directory are the
  first names of the result.\<close>

theorem contained_path_stays_within:
  assumes "is_contained_relative_path p" "path_absolute root"
  shows "is_within_root (lexically_normal (path_append root p)) (lexically_normal root) \<and>
    prefix (path_dirs (lexically_normal root)) (path_dirs (lexically_normal (path_append root p)))"
proof -
  have p: "p \<noteq> []" "\<not> path_absolute p" "never_above 0 (path_names p)" using assms(1) by (simp_all add: contained_prefixes)
  have ne: "root \<noteq> []" "path_append root p \<noteq> []" using assms(2) p by (auto simp: path_append_def)
  have abs: "path_absolute (path_append root p)" using assms(2) p(2) ne(1) by (simp add: path_absolute_append)
  obtain kr tr where r: "normal_names True (path_names root) = (kr, tr)" by fastforce
  note keyr = lexically_normal_key [OF ne(1), unfolded eqTrueI [OF assms(2)], OF r]
  have dirs: "fst (normal_names True (path_dirs root)) = kr" using r by (simp add: normal_names_dirs)
  then obtain t0 where d: "normal_names True (path_dirs root) = (kr, t0)" by (metis prod.collapse)
  obtain kp tp where f: "foldl (normal_step True) (kr, t0) (path_names p) = (kr @ kp, tp)"
    using normal_fold_below [of "[]" "path_names p" True kr t0] p(3) by auto
  have "normal_names True (path_names (path_append root p)) = (kr @ kp, tp)"
    using f d unfolding path_names_append [OF p(1,2)] by (simp add: normal_names_def)
  note keyp = lexically_normal_key [OF ne(2), unfolded eqTrueI [OF abs], OF this]
  have plain: "list_all plain_name kr" "list_all plain_name (kr @ kp)" using keyr(3) keyp(3) by (auto simp: normal_kept_def)
  have "path_dirs (lexically_normal root) = kr" using keyr(1) plain_filter [OF plain(1)] by (auto simp: path_dirs_def)
  moreover have "path_dirs (lexically_normal (path_append root p)) = kr @ kp"
    using keyp(1) plain_filter [OF plain(2)] by (cases "kr @ kp = []") (auto simp: path_dirs_def)
  ultimately show ?thesis
    using is_within_root_iff [OF lexically_normal_absolute [OF abs] lexically_normal_absolute [OF assms(2)]] by simp
qed

lemma contained_path_stays_within_witness:
  "is_within_root (lexically_normal (path_append ''/src/app'' ''third_party/./x/../zlib'')) (lexically_normal ''/src/app'')"
proof -
  have "is_contained_relative_path ''third_party/./x/../zlib''"
    by (simp add: contained_prefixes path_names_def path_absolute_def name_climb_def)
  then show ?thesis using contained_path_stays_within [of "''third_party/./x/../zlib''" "''/src/app''"] by (simp add: path_absolute_def)
qed

text \<open>The form in which component directories are compared is a normal form: it is computed without its loop as the
  kept names with no trailing separator, it is a fixed point, and the loop ends also at the root directory.\<close>

theorem normalized_subtree_path_normal_form:
  "normalized_subtree_path p = subtree_reference p \<and>
   normalized_subtree_path (normalized_subtree_path p) = normalized_subtree_path p \<and>
   normalized_subtree_path (lexically_normal p) = normalized_subtree_path p"
proof (intro conjI)
  show "normalized_subtree_path p = subtree_reference p" by (rule normalized_subtree_path_eq)
  show "normalized_subtree_path (lexically_normal p) = normalized_subtree_path p" by (simp add: normalized_subtree_path_def)
  show "normalized_subtree_path (normalized_subtree_path p) = normalized_subtree_path p" by (rule normalized_subtree_path_idem)
qed

end
