(* ===== verification/File_System.thy ===== *)
theory File_System
  imports Paths File_Io
begin

text \<open>
  What the sources ask of the file system, as the answers it gives while the program runs: \<open>symlink_status\<close>,
  \<open>exists\<close>, opening and reading a file, and \<open>fs::absolute\<close> and \<open>fs::weakly_canonical\<close>, which may fail. The answers
  are those of the operating system and not code under \<open>src/\<close>, so the record is a parameter of every definition
  that uses it; \<open>files\<close> is an instance with a few files.
\<close>

section \<open>The file system\<close>

datatype file_kind = Status_Error | Not_Found | Symlink | Directory | Regular_File | Other_Kind

record file_system =
  symlink_status :: "path \<Rightarrow> file_kind"
  fs_exists :: "path \<Rightarrow> bool"
  fs_file :: "path \<Rightarrow> disk_file"
  fs_absolute :: "path \<Rightarrow> path option"
  fs_weakly_canonical :: "path \<Rightarrow> path option"

text \<open>A file that is there, with its size, and one that is not.\<close>

definition text_file :: "string \<Rightarrow> disk_file" where
  "text_file s = \<lparr>declared_size = Some (length s), opens = True, content = s, fails = False\<rparr>"

definition missing_file :: disk_file where
  "missing_file = \<lparr>declared_size = None, opens = False, content = [], fails = False\<rparr>"

lemma read_first_line_text:
  assumes "CHR 0x0A \<notin> set s" "Suc (length s) \<le> limit"
  shows "read_first_line_bounded (text_file (s @ CHR 0x0A # rest)) limit = trimmed s"
proof -
  define n where "n = (if length (s @ CHR 0x0A # rest) < limit then length (s @ CHR 0x0A # rest) else limit)"
  have "Suc (length s) \<le> n" using assms(2) by (auto simp: n_def)
  then have "take n (s @ CHR 0x0A # rest) = s @ CHR 0x0A # take (n - Suc (length s)) rest"
    by (simp add: Suc_diff_Suc [symmetric] Suc_le_eq)
  moreover have "read_file_bounded (text_file x) limit =
      \<lparr>bytes = take (if length x < limit then length x else limit) x, readable = True,
       truncated = ((if length x < limit then length x else limit) < length x)\<rparr>" for x
    by (simp add: read_file_bounded_def text_file_def)
  ultimately obtain t where "read_file_bounded (text_file (s @ CHR 0x0A # rest)) limit =
      \<lparr>bytes = s @ CHR 0x0A # t, readable = True, truncated = (n < length (s @ CHR 0x0A # rest))\<rparr>"
    unfolding n_def by metis
  moreover have "find_char CHR 0x0A (s @ CHR 0x0A # t) = Some (length s)"
    using find_pos_append [of s "\<lambda>x. x = CHR 0x0A" "CHR 0x0A # t"] assms(1) by auto
  ultimately show ?thesis by (simp add: read_first_line_bounded_def)
qed

text \<open>A file system of a few files, for the witnesses.\<close>

definition files :: "(path \<times> disk_file) list \<Rightarrow> file_system" where
  "files fs = \<lparr>symlink_status = (\<lambda>q. if map_of fs q \<noteq> None then Regular_File else Not_Found),
     fs_exists = (\<lambda>q. map_of fs q \<noteq> None),
     fs_file = (\<lambda>q. case map_of fs q of None \<Rightarrow> missing_file | Some f \<Rightarrow> f),
     fs_absolute = (\<lambda>q. if path_absolute q then Some q else None),
     fs_weakly_canonical = (\<lambda>q. if path_absolute q then Some (lexically_normal q) else None)\<rparr>"

end
