(* ===== verification/Git_Dir.thy ===== *)
theory Git_Dir
  imports File_System
begin

text \<open>
  \<open>core/git_dir.hpp\<close> and \<open>core/git_dir.cpp\<close>: finding the git directory of a working tree and the commit checked out
  in it, from files only. The two lexical guards are \<open>is_contained_relative_path\<close> and \<open>is_within_root\<close> of the theory \<open>Paths\<close>.
\<close>

section \<open>The git directory\<close>

definition kMaxRefFileBytes :: nat where "kMaxRefFileBytes = 4 * 1024"
definition kMaxPackedRefsBytes :: nat where "kMaxPackedRefsBytes = 4 * 1024 * 1024"

text \<open>The loop over the lines of \<open>packed-refs\<close>.\<close>

fun find_packed_ref :: "string list \<Rightarrow> string \<Rightarrow> string" where
  "find_packed_ref [] ref = []"
| "find_packed_ref (line # lines) ref =
     (let entry = trimmed line in
      if entry = [] \<or> hd entry = CHR ''#'' \<or> hd entry = CHR ''^'' then find_packed_ref lines ref
      else case find_char CHR '' '' entry of
        None \<Rightarrow> find_packed_ref lines ref
      | Some space \<Rightarrow>
          let object_id = take space entry; ref_name = trimmed (drop (space + 1) entry) in
          if ref_name = ref \<and> is_hex_object_id object_id then object_id else find_packed_ref lines ref)"

definition commit_from_packed_refs :: "file_system \<Rightarrow> path \<Rightarrow> string \<Rightarrow> string" where
  "commit_from_packed_refs fsys git_dir ref =
     (let packed_refs = fs_file fsys (path_append git_dir ''packed-refs'') in
      case declared_size packed_refs of
        None \<Rightarrow> []
      | Some sz \<Rightarrow>
          if sz > kMaxPackedRefsBytes then []
          else if \<not> opens packed_refs then []
          else find_packed_ref (split_on CHR 0x0A (content packed_refs)) ref)"

definition resolve_pointer :: "file_system \<Rightarrow> path \<Rightarrow> path \<Rightarrow> string \<Rightarrow> path" where
  "resolve_pointer fsys work_dir containment_root pointer =
     (if \<not> starts_with pointer ''gitdir:'' then []
      else
        let target = trimmed (drop (length ''gitdir:'') pointer) in
        if target = [] then []
        else
          let candidate = (if path_absolute target then target else path_append work_dir target);
              resolved = lexically_normal candidate
          in case fs_absolute fsys resolved of
               None \<Rightarrow> []
             | Some absolute \<Rightarrow>
                 if \<not> is_within_root (lexically_normal absolute) containment_root then [] else resolved)"

definition resolve_git_dir :: "file_system \<Rightarrow> path \<Rightarrow> path \<Rightarrow> path" where
  "resolve_git_dir fsys work_dir containment_root =
     (let git_entry = path_append work_dir ''.git'' in
      case symlink_status fsys git_entry of
        Status_Error \<Rightarrow> []
      | Symlink \<Rightarrow> []
      | Directory \<Rightarrow> git_entry
      | Regular_File \<Rightarrow>
          resolve_pointer fsys work_dir containment_root (read_first_line_bounded (fs_file fsys git_entry) kMaxRefFileBytes)
      | Not_Found \<Rightarrow> []
      | Other_Kind \<Rightarrow> [])"

definition read_head_commit :: "file_system \<Rightarrow> path \<Rightarrow> string" where
  "read_head_commit fsys git_dir =
     (let head = read_first_line_bounded (fs_file fsys (path_append git_dir ''HEAD'')) kMaxRefFileBytes in
      if head = [] then []
      else if \<not> starts_with head ''ref:'' then (if is_hex_object_id head then head else [])
      else
        let ref = trimmed (drop (length ''ref:'') head) in
        if ref = [] \<or> \<not> is_contained_relative_path ref then []
        else
          let loose = read_first_line_bounded (fs_file fsys (path_append git_dir ref)) kMaxRefFileBytes in
          if is_hex_object_id loose then loose else commit_from_packed_refs fsys git_dir ref)"

section \<open>Lemmas\<close>

lemma find_packed_ref_id: "find_packed_ref lines ref = [] \<or> is_hex_object_id (find_packed_ref lines ref)"
  by (induction lines) (auto simp: Let_def split: option.split)

lemma plain_name_contained:
  assumes "plain_name n"
  shows "is_contained_relative_path n"
proof -
  have n: "n \<noteq> []" "CHR ''/'' \<notin> set n" "n \<noteq> ''..''" "n \<noteq> ''.''" using assms unfolding plain_name_def by blast+
  then have "\<not> path_absolute n" by (cases n) (auto simp: path_absolute_iff)
  moreover have "\<not> list_all (\<lambda>c. c = CHR ''/'') n" using n(1,2) by (cases n) auto
  then have "path_names n = [n]" using split_on_simple [OF n(2)] by (simp add: path_names_split)
  ultimately show ?thesis using n by (simp add: contained_prefixes name_climb_def)
qed

text \<open>One line of \<open>packed-refs\<close>, and the file git writes: a header, and an id and a name per line.\<close>

definition render_packed_ref :: "string \<times> string \<Rightarrow> string" where
  "render_packed_ref e = fst e @ CHR '' '' # snd e"

definition plain_packed_ref :: "string \<times> string \<Rightarrow> bool" where
  "plain_packed_ref e \<longleftrightarrow> is_hex_object_id (fst e) \<and> snd e \<noteq> [] \<and> list_all (\<lambda>c. \<not> is_space c) (snd e)"

definition render_packed_refs :: "(string \<times> string) list \<Rightarrow> string" where
  "render_packed_refs es = join_with CHR 0x0A (''# pack-refs with: peeled fully-peeled sorted'' # map render_packed_ref es @ [[]])"

lemma trimmed_no_space: "m \<noteq> [] \<Longrightarrow> list_all (\<lambda>c. \<not> is_space c) m \<Longrightarrow> trimmed m = m"
  unfolding trimmed_def list_all_iff using trimmed_view_id [of m] last_in_set [of m] list.set_sel(1) [of m] by blast

lemma hex_id_chars:
  assumes "is_hex_object_id i"
  shows "i \<noteq> []" "c \<in> set i \<Longrightarrow> \<not> is_space c \<and> c \<noteq> CHR ''#'' \<and> c \<noteq> CHR ''^''"
proof -
  show "i \<noteq> []" using assms by (auto simp: is_hex_object_id_def)
  have "\<forall>c. is_hex_digit c \<longrightarrow> \<not> is_space c \<and> c \<noteq> CHR ''#'' \<and> c \<noteq> CHR ''^''" by code_simp
  then show "\<not> is_space c \<and> c \<noteq> CHR ''#'' \<and> c \<noteq> CHR ''^''" if "c \<in> set i"
    using assms that by (auto simp: is_hex_object_id_def is_hex_digits_def list_all_iff split: if_splits)
qed

lemma find_packed_ref_line:
  assumes "plain_packed_ref e"
  shows "find_packed_ref (render_packed_ref e # lines) ref = (if snd e = ref then fst e else find_packed_ref lines ref)"
proof -
  obtain i n where e: "e = (i, n)" by fastforce
  have i: "is_hex_object_id i" and n: "n \<noteq> []" "list_all (\<lambda>c. \<not> is_space c) n"
    using assms unfolding e plain_packed_ref_def fst_conv snd_conv by blast+
  have ne: "i \<noteq> []" and hd: "\<not> is_space (hd i)" "hd i \<noteq> CHR ''#''" "hd i \<noteq> CHR ''^''"
    using hex_id_chars [OF i] list.set_sel(1) [of i] by blast+
  have last: "\<not> is_space (last n)" using n last_in_set unfolding list_all_iff by blast
  have t: "trimmed (i @ CHR '' '' # n) = i @ CHR '' '' # n"
    unfolding trimmed_def using ne hd last n(1) by (intro trimmed_view_id) simp_all
  have "is_space CHR '' ''" by (simp add: kAsciiWhitespace_def)
  then have "CHR '' '' \<notin> set i" using hex_id_chars(2) [OF i] by blast
  then have f: "find_char CHR '' '' (i @ CHR '' '' # n) = Some (length i)"
    using find_pos_append [of i "\<lambda>x. x = CHR '' ''" "CHR '' '' # n"] by auto
  show ?thesis using ne hd i trimmed_no_space [OF n] by (simp add: e render_packed_ref_def t f Let_def)
qed

lemma find_packed_refs:
  "list_all plain_packed_ref es \<Longrightarrow>
   find_packed_ref (map render_packed_ref es @ [[]]) ref = (case map_of (map prod.swap es) ref of None \<Rightarrow> [] | Some i \<Rightarrow> i)"
proof (induction es)
  case Nil
  then show ?case by (simp add: trimmed_def)
next
  case (Cons e es)
  then show ?case by (cases e) (auto simp: find_packed_ref_line simp del: find_packed_ref.simps)
qed

lemma render_packed_refs_lines:
  assumes "list_all plain_packed_ref es"
  shows "split_on CHR 0x0A (render_packed_refs es) = ''# pack-refs with: peeled fully-peeled sorted'' # map render_packed_ref es @ [[]]"
proof -
  have "is_space CHR 0x0A" by (simp add: kAsciiWhitespace_def)
  then have "CHR 0x0A \<notin> set (render_packed_ref e)" if "e \<in> set es" for e
    using assms that hex_id_chars(2) [of "fst e" "CHR 0x0A"]
    by (auto simp: list_all_iff plain_packed_ref_def render_packed_ref_def)
  then show ?thesis unfolding render_packed_refs_def by (intro split_on_join) (auto simp: list_all_iff)
qed

section \<open>Properties\<close>

text \<open>C17: Whatever \<open>HEAD\<close> holds, resolving it gives nothing or an object id, and it only depends on files inside the
  git directory: two file systems that agree on every path that lies lexically within it give the same answer.
  A \<open>ref:\<close> value cannot make it read a file elsewhere.\<close>

theorem read_head_commit_reads_inside:
  assumes "path_absolute git_dir"
    and "\<forall>q. is_within_root (lexically_normal q) (lexically_normal git_dir) \<longrightarrow> fs_file f1 q = fs_file f2 q"
  shows "read_head_commit f1 git_dir = read_head_commit f2 git_dir \<and>
    (read_head_commit f1 git_dir = [] \<or> is_hex_object_id (read_head_commit f1 git_dir))"
proof -
  have inside: "fs_file f1 (path_append git_dir r) = fs_file f2 (path_append git_dir r)" if "is_contained_relative_path r" for r
    using assms(2) contained_path_stays_within [OF that assms(1)] by blast
  have names: "is_contained_relative_path ''HEAD''" "is_contained_relative_path ''packed-refs''"
    by (auto intro!: plain_name_contained simp: plain_name_def)
  have "read_head_commit f1 git_dir = read_head_commit f2 git_dir"
    using inside inside [OF names(1)] inside [OF names(2)]
    by (simp add: read_head_commit_def commit_from_packed_refs_def Let_def)
  moreover have "commit_from_packed_refs f1 git_dir r = [] \<or> is_hex_object_id (commit_from_packed_refs f1 git_dir r)" for r
    using find_packed_ref_id by (auto simp: commit_from_packed_refs_def Let_def split: option.split)
  then have "read_head_commit f1 git_dir = [] \<or> is_hex_object_id (read_head_commit f1 git_dir)"
    by (simp add: read_head_commit_def Let_def)
  ultimately show ?thesis by blast
qed

theorem read_head_commit_reads_inside_witness:
  "read_head_commit (files [(''/r/.git/HEAD'', text_file (''ref: ../../x'' @ [CHR 0x0A])), (''/r/.git/../../x'', text_file (replicate 40 CHR ''a''))]) ''/r/.git'' =
   read_head_commit (files [(''/r/.git/HEAD'', text_file (''ref: ../../x'' @ [CHR 0x0A]))]) ''/r/.git''"
proof -
  have "\<not> is_within_root (lexically_normal ''/r/.git/../../x'') (lexically_normal ''/r/.git'')"
    by (simp add: is_within_root_def lexically_normal_def lexically_relative_def path_names_def path_absolute_def normal_names_def
      normal_step_def path_of_key_def name_climb_def Let_def path_append_def path_filename_def first_element_def numeral_2_eq_2)
  moreover have "path_absolute ''/r/.git''" by (simp add: path_absolute_def)
  ultimately show ?thesis
    using read_head_commit_reads_inside [of "''/r/.git''"
        "files [(''/r/.git/HEAD'', text_file (''ref: ../../x'' @ [CHR 0x0A])), (''/r/.git/../../x'', text_file (replicate 40 CHR ''a''))]"
        "files [(''/r/.git/HEAD'', text_file (''ref: ../../x'' @ [CHR 0x0A]))]"]
    by (auto simp: files_def)
qed

text \<open>A git directory that is reported is the \<open>.git\<close> directory of the working tree itself, or the target of a
  \<open>gitdir:\<close> pointer whose absolute form lies in the scanned tree: its names start with those of the containment
  root. A symbolic link is never followed, and a pointer that leaves the tree is reported as absent.\<close>

theorem resolve_git_dir_contained:
  assumes "normal_absolute containment_root" "\<forall>q a. fs_absolute fsys q = Some a \<longrightarrow> path_absolute a"
  shows "resolve_git_dir fsys work_dir containment_root = [] \<or>
    symlink_status fsys (path_append work_dir ''.git'') = Directory \<and>
      resolve_git_dir fsys work_dir containment_root = path_append work_dir ''.git'' \<or>
    symlink_status fsys (path_append work_dir ''.git'') = Regular_File \<and>
      (\<exists>a. fs_absolute fsys (resolve_git_dir fsys work_dir containment_root) = Some a \<and>
         prefix (path_dirs containment_root) (path_dirs (lexically_normal a)))"
proof (cases "symlink_status fsys (path_append work_dir ''.git'')")
  case Regular_File
  show ?thesis
  proof (cases "resolve_git_dir fsys work_dir containment_root = []")
    case False
    define r where "r = resolve_git_dir fsys work_dir containment_root"
    obtain p where p: "r = resolve_pointer fsys work_dir containment_root p" "r \<noteq> []"
      using Regular_File False by (auto simp: r_def resolve_git_dir_def)
    then obtain a where a: "fs_absolute fsys r = Some a" "is_within_root (lexically_normal a) containment_root"
      by (auto simp: resolve_pointer_def Let_def split: if_splits option.splits)
    then have "normal_absolute (lexically_normal a)" using assms(2) lexically_normal_absolute by blast
    then show ?thesis using a is_within_root_iff [OF _ assms(1)] Regular_File by (auto simp: r_def)
  qed simp
qed (simp_all add: resolve_git_dir_def)

theorem resolve_git_dir_contained_witness:
  "let fsys = files [(''/src/lib/.git'', text_file (''gitdir: ../.git/modules/lib'' @ [CHR 0x0A]))] in
   resolve_git_dir fsys ''/src/lib'' ''/src'' = ''/src/.git/modules/lib'' \<and>
   prefix (path_dirs ''/src'') (path_dirs (lexically_normal ''/src/.git/modules/lib''))"
proof -
  define fsys where "fsys = files [(''/src/lib/.git'', text_file (''gitdir: ../.git/modules/lib'' @ [CHR 0x0A]))]"
  have root: "normal_absolute ''/src''"
    unfolding normal_absolute_def by (rule conjI, simp add: path_absolute_def, rule exI [of _ "[''src'']"], simp add: path_names_def plain_name_def)
  have line: "read_first_line_bounded (text_file (''gitdir: ../.git/modules/lib'' @ CHR 0x0A # [])) kMaxRefFileBytes =
      trimmed ''gitdir: ../.git/modules/lib''"
    by (rule read_first_line_text) (simp_all add: kMaxRefFileBytes_def)
  have trims: "trimmed ''gitdir: ../.git/modules/lib'' = ''gitdir: ../.git/modules/lib''" "trimmed '' ../.git/modules/lib'' = ''../.git/modules/lib''"
    by code_simp+
  have within: "is_within_root ''/src/.git/modules/lib'' ''/src''" "lexically_normal ''/src/lib/../.git/modules/lib'' = ''/src/.git/modules/lib''"
    "path_append ''/src/lib'' ''.git'' = ''/src/lib/.git''" "path_append ''/src/lib'' ''../.git/modules/lib'' = ''/src/lib/../.git/modules/lib''"
    "lexically_normal ''/src/.git/modules/lib'' = ''/src/.git/modules/lib''" "path_absolute ''/src/.git/modules/lib''"
    "\<not> path_absolute ''../.git/modules/lib''"
    by code_simp+
  have r: "resolve_git_dir fsys ''/src/lib'' ''/src'' = ''/src/.git/modules/lib''"
    using line by (simp add: fsys_def resolve_git_dir_def resolve_pointer_def files_def within trims Let_def)
  have abs: "\<forall>q a. fs_absolute fsys q = Some a \<longrightarrow> path_absolute a" by (auto simp: fsys_def files_def split: if_splits)
  have st: "symlink_status fsys (path_append ''/src/lib'' ''.git'') = Regular_File"
    "fs_absolute fsys ''/src/.git/modules/lib'' = Some ''/src/.git/modules/lib''"
    by (simp_all add: fsys_def files_def within)
  have "prefix (path_dirs ''/src'') (path_dirs (lexically_normal ''/src/.git/modules/lib''))"
    using resolve_git_dir_contained [OF root abs, of "''/src/lib''"] unfolding r st by simp
  with r show ?thesis by (simp add: fsys_def Let_def)
qed

text \<open>The commit of a checked-out branch is the one git would name: the loose ref if it holds an object id, else the
  first entry of \<open>packed-refs\<close> for that ref, else nothing.\<close>

theorem head_commit_of_branch:
  assumes "fs_file fsys (path_append git_dir ''HEAD'') = text_file (''ref: '' @ ref @ [CHR 0x0A])"
    and "fs_file fsys (path_append git_dir ''packed-refs'') = text_file (render_packed_refs es)"
    and "list_all plain_packed_ref es" "length (render_packed_refs es) \<le> kMaxPackedRefsBytes"
    and "list_all (\<lambda>c. \<not> is_space c) ref" "is_contained_relative_path ref" "length ref + 6 \<le> kMaxRefFileBytes"
  shows "read_head_commit fsys git_dir =
    (let loose = read_first_line_bounded (fs_file fsys (path_append git_dir ref)) kMaxRefFileBytes in
     if is_hex_object_id loose then loose
     else case map_of (map prod.swap es) ref of None \<Rightarrow> [] | Some object_id \<Rightarrow> object_id)"
proof -
  have ne: "ref \<noteq> []" using assms(6) by (auto simp: is_contained_relative_path_def)
  have "is_space CHR 0x0A" by (simp add: kAsciiWhitespace_def)
  then have nl: "CHR 0x0A \<notin> set (''ref: '' @ ref)" using assms(5) by (auto simp: list_all_iff)
  have last: "\<not> is_space (last ref)" using assms(5) last_in_set [OF ne] unfolding list_all_iff by blast
  have "read_first_line_bounded (text_file ((''ref: '' @ ref) @ CHR 0x0A # [])) kMaxRefFileBytes = trimmed (''ref: '' @ ref)"
    using assms(7) by (intro read_first_line_text [OF nl]) simp
  also have "\<dots> = ''ref: '' @ ref"
    unfolding trimmed_def using last ne by (intro trimmed_view_id) (simp_all add: kAsciiWhitespace_def)
  finally have head: "read_first_line_bounded (fs_file fsys (path_append git_dir ''HEAD'')) kMaxRefFileBytes = ''ref: '' @ ref"
    by (simp add: assms(1))
  have "\<forall>c \<in> set [CHR '' '']. is_space c" by (simp add: kAsciiWhitespace_def)
  then have t: "trimmed (CHR '' '' # ref) = ref"
    unfolding trimmed_def using trimmed_view_core [of "[CHR '' '']" "[]" ref] ne last assms(5) by (auto simp: list_all_iff)
  have "find_packed_ref (split_on CHR 0x0A (render_packed_refs es)) ref =
      (case map_of (map prod.swap es) ref of None \<Rightarrow> [] | Some i \<Rightarrow> i)"
    using find_packed_refs [OF assms(3)]
    by (simp add: render_packed_refs_lines [OF assms(3)] trimmed_def trimmed_view_id kAsciiWhitespace_def)
  then have "commit_from_packed_refs fsys git_dir ref = (case map_of (map prod.swap es) ref of None \<Rightarrow> [] | Some i \<Rightarrow> i)"
    using assms(4) by (simp add: commit_from_packed_refs_def assms(2) text_file_def)
  then show ?thesis using ne assms(6) by (simp add: read_head_commit_def head t Let_def)
qed

theorem head_commit_of_branch_witness:
  "read_head_commit (files [(''g/HEAD'', text_file (''ref: refs/heads/main'' @ [CHR 0x0A])),
       (''g/packed-refs'', text_file (render_packed_refs [(replicate 40 CHR ''1'', ''refs/heads/dev''), (replicate 40 CHR ''a'', ''refs/heads/main'')]))]) ''g'' =
   replicate 40 CHR ''a''"
proof -
  let ?es = "[(replicate 40 CHR ''1'', ''refs/heads/dev''), (replicate 40 CHR ''a'', ''refs/heads/main'')]"
  let ?f = "files [(''g/HEAD'', text_file (''ref: refs/heads/main'' @ [CHR 0x0A])), (''g/packed-refs'', text_file (render_packed_refs ?es))]"
  have appends: "path_append ''g'' ''HEAD'' = ''g/HEAD''" "path_append ''g'' ''packed-refs'' = ''g/packed-refs''"
    "path_append ''g'' ''refs/heads/main'' = ''g/refs/heads/main''" "is_contained_relative_path ''refs/heads/main''"
    by code_simp+
  have "list_all plain_packed_ref ?es" "list_all (\<lambda>c. \<not> is_space c) ''refs/heads/main''" by code_simp+
  moreover have "length (render_packed_refs ?es) \<le> kMaxPackedRefsBytes"
    by (simp add: render_packed_refs_def render_packed_ref_def kMaxPackedRefsBytes_def)
  moreover have "fs_file ?f (path_append ''g'' ''HEAD'') = text_file (''ref: '' @ ''refs/heads/main'' @ [CHR 0x0A])"
    "fs_file ?f (path_append ''g'' ''packed-refs'') = text_file (render_packed_refs ?es)"
    unfolding appends by (simp_all add: files_def)
  ultimately have "read_head_commit ?f ''g'' =
      (let loose = read_first_line_bounded (fs_file ?f (path_append ''g'' ''refs/heads/main'')) kMaxRefFileBytes in
       if is_hex_object_id loose then loose
       else case map_of (map prod.swap ?es) ''refs/heads/main'' of None \<Rightarrow> [] | Some object_id \<Rightarrow> object_id)"
    using appends(4) by (intro head_commit_of_branch) (simp_all add: kMaxRefFileBytes_def)
  then show ?thesis
    by (simp add: appends(3) files_def missing_file_def read_first_line_bounded_def read_file_bounded_def is_hex_object_id_def)
qed

end
