(* ===== verification/Submodules.thy ===== *)
theory Submodules
  imports Git_Dir Git_Config Git_Url Model
begin

text \<open>
  The two readers of \<open>.gitmodules\<close>: \<open>core/submodule_paths.cpp\<close>, which gives the walk of the tree the subtrees to
  leave out, and the producer \<open>parsers/cpp/submodules.cpp\<close>, which reports each submodule as a component with the
  commit checked out in it. Both rest on the git configuration parser, the git directory and the remotes.
  Debug logging is left out. \<open>std::sort\<close> by purl is the stable sort: the order of components with one purl is not
  specified by the code.
\<close>

section \<open>Subtrees to leave out\<close>

definition gitmodules_path :: "path \<Rightarrow> path" where
  "gitmodules_path root = path_append root ''.gitmodules''"

definition read_config_file :: "file_system \<Rightarrow> path \<Rightarrow> git_config result" where
  "read_config_file fsys p =
     read_git_config p (path_filename p) (if fs_exists fsys p then Some (fs_file fsys p) else None)"

definition collect_subtree :: "path set \<Rightarrow> git_config_section \<Rightarrow> path set" where
  "collect_subtree subtrees s =
     (if section_name s \<noteq> ''submodule'' then subtrees
      else case git_config_section_find s ''path'' of
        None \<Rightarrow> subtrees
      | Some path_value \<Rightarrow>
          if path_value = [] then subtrees
          else if \<not> is_contained_relative_path path_value then subtrees
          else insert (lexically_normal path_value) subtrees)"

definition submodule_subtrees :: "file_system \<Rightarrow> path \<Rightarrow> path set" where
  "submodule_subtrees fsys root =
     (if \<not> fs_exists fsys (gitmodules_path root) then {}
      else foldl collect_subtree {} (result_value (read_config_file fsys (gitmodules_path root))))"

definition with_submodule_subtrees :: "file_system \<Rightarrow> path \<Rightarrow> path set \<Rightarrow> path set" where
  "with_submodule_subtrees fsys root caller_excluded = caller_excluded \<union> submodule_subtrees fsys root"

section \<open>The producer\<close>

definition origin_resolution_base :: "string \<Rightarrow> string" where
  "origin_resolution_base origin_url =
     (let remote = parse_git_remote origin_url in
      if remote_host remote = [] then origin_url
      else
        let base = ''https://'' @ remote_host remote @ ''/'';
            base = (if remote_owner remote \<noteq> [] then base @ remote_owner remote @ ''/'' else base)
        in base @ remote_repo remote)"

definition generic_purl_from_path :: "path \<Rightarrow> string \<Rightarrow> string" where
  "generic_purl_from_path relative_path commit =
     (let name = (if path_filename relative_path = [] then ''unknown'' else path_filename relative_path);
          version = normalized_object_id commit;
          purl = ''pkg:generic/'' @ percent_encode name
      in if version \<noteq> [] then purl @ ''@'' @ percent_encode version else purl)"

text \<open>\<open>containment\<close> is the absolute form of the root, unless \<open>fs::absolute\<close> failed.\<close>

definition checked_out_commit :: "file_system \<Rightarrow> path option \<Rightarrow> path \<Rightarrow> string" where
  "checked_out_commit fsys containment work_dir =
     (let git_dir = (case containment of None \<Rightarrow> [] | Some containment_root \<Rightarrow> resolve_git_dir fsys work_dir containment_root)
      in if git_dir \<noteq> [] then read_head_commit fsys git_dir else [])"

definition superproject_origin :: "file_system \<Rightarrow> path option \<Rightarrow> path \<Rightarrow> string" where
  "superproject_origin fsys containment root =
     (let git_dir = (case containment of None \<Rightarrow> [] | Some containment_root \<Rightarrow> resolve_git_dir fsys root containment_root) in
      if git_dir = [] then []
      else case git_config_find (result_value (read_config_file fsys (path_append git_dir ''config''))) ''remote'' ''origin'' ''url'' of
        None \<Rightarrow> []
      | Some origin_url \<Rightarrow> origin_resolution_base origin_url)"

definition declared_name :: "git_config_section \<Rightarrow> string" where
  "declared_name s = (if section_subsection s = [] then ''<unnamed>'' else section_subsection s)"

text \<open>The name, purl and supplier, from the resolved URL or from the path.\<close>

definition identify_submodule :: "string \<Rightarrow> path \<Rightarrow> string \<Rightarrow> component \<Rightarrow> component" where
  "identify_submodule resolved_url relative_path commit c =
     (if resolved_url \<noteq> [] then
        let remote = parse_git_remote resolved_url;
            name = (if remote_repo remote = [] then path_filename relative_path else remote_repo remote)
        in c\<lparr>comp_name := name, comp_purl := build_git_purl resolved_url commit name, comp_supplier := remote_owner remote\<rparr>
      else c\<lparr>comp_name := path_filename relative_path, comp_purl := generic_purl_from_path relative_path commit\<rparr>)"

definition submodule_evidence :: "git_config_section \<Rightarrow> path \<Rightarrow> bool \<Rightarrow> evidence list" where
  "submodule_evidence s relative_path resolved =
     (let declared_confidence = (if resolved then High else Low) in
      [Evidence Manifest (''.gitmodules -> '' @ declared_name s) declared_confidence] @
      (if resolved then [Evidence Manifest (relative_path @ ''/.git -> HEAD'') High] else []) @
      (case git_config_section_find s ''branch'' of
         None \<Rightarrow> []
       | Some branch \<Rightarrow>
           if branch = [] then []
           else [Evidence Manifest (''.gitmodules -> '' @ declared_name s @ '' branch='' @ branch) declared_confidence]))"

definition report_submodule ::
  "file_system \<Rightarrow> path \<Rightarrow> path option \<Rightarrow> string \<Rightarrow> git_config_section \<Rightarrow> path \<Rightarrow> component list result \<Rightarrow> component list result" where
  "report_submodule fsys root containment origin_base s relative_path r =
     (let commit = checked_out_commit fsys containment (path_append root relative_path);
          resolved = (commit \<noteq> []);
          url = (case git_config_section_find s ''url'' of None \<Rightarrow> [] | Some u \<Rightarrow> u);
          resolved_url = (if url \<noteq> [] then resolve_relative_url origin_base url else []);
          still_relative = (starts_with resolved_url ''./'' \<or> starts_with resolved_url ''../'');
          c = identify_submodule resolved_url relative_path commit (new_component\<lparr>comp_version := commit, comp_root := relative_path\<rparr>);
          r = (if resolved then r
               else warn kSubmoduleNotInitialized (''submodule '' @ CHR 0x27 # relative_path @ CHR 0x27 #
                 '' not initialized (no checked-out commit); run `git submodule update --init` to include it'') [] [] r);
          r = (if url \<noteq> [] then
                 (if still_relative
                  then warn kSubmoduleNoUrl (''submodule '' @ CHR 0x27 # relative_path @ CHR 0x27 # '' has a relative url '' @ CHR 0x27 #
                    url @ CHR 0x27 # '' but the superproject origin is unknown; purl may be imprecise'') [] [] r
                  else r)
               else warn kSubmoduleNoUrl (''submodule '' @ CHR 0x27 # relative_path @ CHR 0x27 #
                 '' declares no url; reported as a generic component'') [] [] r);
          r = (if complete (purl_parse (comp_purl c)) then r
               else warn kPurlValidationFailed (''submodule '' @ CHR 0x27 # relative_path @ CHR 0x27 #
                 '' produced an unparsable purl '' @ CHR 0x27 # comp_purl c @ [CHR 0x27]) [] [] r)
      in r\<lparr>result_value := result_value r @ [c\<lparr>comp_evidence := submodule_evidence s relative_path resolved\<rparr>]\<rparr>)"

definition parse_submodule ::
  "file_system \<Rightarrow> path \<Rightarrow> path option \<Rightarrow> string \<Rightarrow> component list result \<Rightarrow> git_config_section \<Rightarrow> component list result" where
  "parse_submodule fsys root containment origin_base r s =
     (if section_name s \<noteq> ''submodule'' then r
      else
        let no_path = warn kSubmoduleMissingPath (''submodule '' @ CHR 0x27 # declared_name s @ CHR 0x27 # '' has no path; skipping'') [] [] r in
        case git_config_section_find s ''path'' of
          None \<Rightarrow> no_path
        | Some path_value \<Rightarrow>
            if path_value = [] then no_path
            else if \<not> is_contained_relative_path path_value
            then warn kSubmoduleUnsafePath (''submodule '' @ CHR 0x27 # declared_name s @ CHR 0x27 # '' has an unsafe path '' @
              CHR 0x27 # path_value @ CHR 0x27 # ''; skipping'') [] [] r
            else report_submodule fsys root containment origin_base s path_value r)"

definition parse_submodules :: "file_system \<Rightarrow> path \<Rightarrow> component list result" where
  "parse_submodules fsys root =
     (if \<not> fs_exists fsys (gitmodules_path root) then new_result []
      else
        let modules = read_config_file fsys (gitmodules_path root);
            result = (new_result [])\<lparr>result_warnings := result_warnings modules\<rparr>;
            containment = map_option lexically_normal (fs_absolute fsys root);
            origin_base = superproject_origin fsys containment root;
            result = foldl (parse_submodule fsys root containment origin_base) result (result_value modules)
        in result\<lparr>result_value := sort_key comp_purl (result_value result)\<rparr>)"

section \<open>Lemmas\<close>

lemma result_warn [simp]: "result_value (warn k m e p r) = result_value r" "complete (warn k m e p r) = complete r"
  "result_warnings (warn k m e p r) = result_warnings r @
     [\<lparr>warning_code = k, message = m, ecosystem = e, affected_path = p, external_code = no_external_code\<rparr>]"
  by (simp_all add: warn_def)

text \<open>The path a section declares, when the readers accept it.\<close>

definition safe_submodule_path :: "git_config_section \<Rightarrow> path option" where
  "safe_submodule_path s =
     (if section_name s \<noteq> ''submodule'' then None
      else case git_config_section_find s ''path'' of
        None \<Rightarrow> None
      | Some p \<Rightarrow> if is_contained_relative_path p then Some p else None)"

lemma contained_not_Nil: "is_contained_relative_path p \<Longrightarrow> p \<noteq> []"
  by (auto simp: is_contained_relative_path_def)

lemma generic_purl_canonical: "purl_parse (generic_purl_from_path p commit) = new_result (generic_purl_from_path p commit)"
proof -
  define n where "n = (if path_filename p = [] then ''unknown'' else path_filename p)"
  define rest where "rest = percent_encode n @ (if normalized_object_id commit \<noteq> [] then ''@'' @ percent_encode (normalized_object_id commit) else [])"
  have "n \<noteq> []" by (simp add: n_def)
  then have "rest \<noteq> []" "no_whitespace rest" by (simp_all add: rest_def del: percent_encode.simps)
  moreover have "no_whitespace ''generic''" "CHR ''/'' \<notin> set ''generic''" "to_lower_ascii ''generic'' = ''generic''" by code_simp+
  ultimately have "purl_parse (''pkg:'' @ ''generic'' @ ''/'' @ rest) = new_result (''pkg:'' @ ''generic'' @ ''/'' @ rest)"
    by (intro purl_parse_canonical) simp_all
  moreover have "generic_purl_from_path p commit = ''pkg:'' @ ''generic'' @ ''/'' @ rest"
    by (simp add: generic_purl_from_path_def Let_def rest_def n_def del: percent_encode.simps)
  ultimately show ?thesis by simp
qed

lemma identify_submodule_purl:
  "purl_parse (comp_purl (identify_submodule url p commit c)) = new_result (comp_purl (identify_submodule url p commit c))"
  by (simp add: identify_submodule_def Let_def build_git_purl_canonical generic_purl_canonical)

lemma checked_out_commit_id: "checked_out_commit fsys containment w = [] \<or> is_hex_object_id (checked_out_commit fsys containment w)"
proof -
  have "read_head_commit fsys g = [] \<or> is_hex_object_id (read_head_commit fsys g)" for g
    using find_packed_ref_id by (auto simp: read_head_commit_def commit_from_packed_refs_def Let_def split: option.split)
  then show ?thesis by (simp add: checked_out_commit_def Let_def)
qed

text \<open>What is reported of one submodule: where it is, an object id and what it is worth, and a purl in canonical form.\<close>

definition submodule_ok :: "component \<Rightarrow> bool" where
  "submodule_ok c \<longleftrightarrow>
     is_contained_relative_path (comp_root c) \<and> purl_parse (comp_purl c) = new_result (comp_purl c) \<and>
     (comp_version c = [] \<or> is_hex_object_id (comp_version c)) \<and>
     comp_evidence c \<noteq> [] \<and>
     list_all (\<lambda>e. ev_source e = Manifest \<and> ev_confidence e = (if comp_version c = [] then Low else High)) (comp_evidence c)"

lemma identify_submodule_keeps [simp]:
  "comp_root (identify_submodule url p commit c) = comp_root c"
  "comp_version (identify_submodule url p commit c) = comp_version c"
  by (simp_all add: identify_submodule_def Let_def)

definition skipped_code :: "warning \<Rightarrow> bool" where
  "skipped_code w \<longleftrightarrow> warning_code w = kSubmoduleMissingPath \<or> warning_code w = kSubmoduleUnsafePath"

lemma report_submodule_adds:
  assumes "is_contained_relative_path p"
  obtains c ws where "report_submodule fsys root containment origin s p r =
      r\<lparr>result_value := result_value r @ [c], result_warnings := result_warnings r @ ws\<rparr>"
    "comp_root c = p" "submodule_ok c" "list_all (\<lambda>w. \<not> skipped_code w) ws"
proof -
  define commit where "commit = checked_out_commit fsys containment (path_append root p)"
  define url where "url = (case git_config_section_find s ''url'' of None \<Rightarrow> [] | Some u \<Rightarrow> u)"
  define resolved_url where "resolved_url = (if url \<noteq> [] then resolve_relative_url origin url else [])"
  define c0 where "c0 = identify_submodule resolved_url p commit (new_component\<lparr>comp_version := commit, comp_root := p\<rparr>)"
  define c where "c = c0\<lparr>comp_evidence := submodule_evidence s p (commit \<noteq> [])\<rparr>"
  have valid: "purl_parse (comp_purl c0) = new_result (comp_purl c0)" by (simp add: c0_def identify_submodule_purl)
  then have "complete (purl_parse (comp_purl c0))" by (simp add: new_result_def)
  then obtain ws where eq: "report_submodule fsys root containment origin s p r =
      r\<lparr>result_value := result_value r @ [c], result_warnings := result_warnings r @ ws\<rparr>" "list_all (\<lambda>w. \<not> skipped_code w) ws"
    unfolding report_submodule_def Let_def commit_def [symmetric] url_def [symmetric] resolved_url_def [symmetric] c0_def [symmetric]
      c_def [symmetric]
    by (intro that [of "drop (length (result_warnings r)) (result_warnings
         (report_submodule fsys root containment origin s p r))"])
      (auto simp: warn_def skipped_code_def report_submodule_def Let_def simp flip: commit_def url_def resolved_url_def c0_def c_def)
  moreover have "submodule_ok c"
    using assms valid checked_out_commit_id [of fsys containment "path_append root p"]
    by (auto simp: submodule_ok_def c_def c0_def submodule_evidence_def Let_def simp flip: commit_def split: option.split)
  moreover have "comp_root c = p" by (simp add: c_def c0_def)
  ultimately show thesis using that by blast
qed

text \<open>One section, whatever it declares.\<close>

lemma parse_submodule_adds:
  obtains cs ws where "parse_submodule fsys root containment origin r s =
      r\<lparr>result_value := result_value r @ cs, result_warnings := result_warnings r @ ws\<rparr>"
    "map comp_root cs = (case safe_submodule_path s of None \<Rightarrow> [] | Some p \<Rightarrow> [p])" "list_all submodule_ok cs"
    "length (filter skipped_code ws) + length cs = (if section_name s = ''submodule'' then 1 else 0)"
proof -
  consider (other) "section_name s \<noteq> ''submodule''"
    | (skip) w where "section_name s = ''submodule''" "safe_submodule_path s = None" "skipped_code w"
      "parse_submodule fsys root containment origin r s = r\<lparr>result_warnings := result_warnings r @ [w]\<rparr>"
    | (report) p where "section_name s = ''submodule''" "safe_submodule_path s = Some p" "is_contained_relative_path p"
      "parse_submodule fsys root containment origin r s = report_submodule fsys root containment origin s p r"
  proof (cases "section_name s = ''submodule''")
    case True
    show thesis
    proof (cases "git_config_section_find s ''path''")
      case None
      with True show thesis by (intro skip) (simp_all add: safe_submodule_path_def parse_submodule_def warn_def skipped_code_def)
    next
      case (Some p)
      show thesis
      proof (cases "is_contained_relative_path p")
        case contained: True
        with True Some contained_not_Nil [OF contained] show thesis
          by (intro report [of p]) (simp_all add: safe_submodule_path_def parse_submodule_def)
      next
        case False
        with True Some show thesis
          by (cases "p = []"; intro skip) (simp_all add: safe_submodule_path_def parse_submodule_def warn_def skipped_code_def)
      qed
    qed
  qed (rule other)
  then show thesis
  proof cases
    case other
    then show thesis by (intro that [of "[]" "[]"]) (simp_all add: parse_submodule_def safe_submodule_path_def)
  next
    case (skip w)
    then show thesis by (intro that [where cs = "[]" and ws = "[w]"]) simp_all
  next
    case (report p)
    from report_submodule_adds [OF report(3), of fsys root containment origin s r]
    obtain c ws where "report_submodule fsys root containment origin s p r =
        r\<lparr>result_value := result_value r @ [c], result_warnings := result_warnings r @ ws\<rparr>"
      "comp_root c = p" "submodule_ok c" "list_all (\<lambda>w. \<not> skipped_code w) ws" by metis
    moreover from this(4) have "filter skipped_code ws = []" by (simp add: filter_empty_conv list_all_iff)
    ultimately show thesis using report by (intro that [where cs = "[c]" and ws = ws]) simp_all
  qed
qed

lemma parse_sections_add:
  "\<exists>cs ws. foldl (parse_submodule fsys root containment origin) r ss =
      r\<lparr>result_value := result_value r @ cs, result_warnings := result_warnings r @ ws\<rparr> \<and>
    map comp_root cs = List.map_filter safe_submodule_path ss \<and> list_all submodule_ok cs \<and>
    length (filter skipped_code ws) + length cs = length (filter (\<lambda>s. section_name s = ''submodule'') ss)"
proof (induction ss arbitrary: r)
  case Nil
  show ?case by (rule exI [of _ "[]"], rule exI [of _ "[]"]) (simp add: List.map_filter_simps)
next
  case (Cons s ss)
  obtain cs ws where s: "parse_submodule fsys root containment origin r s =
      r\<lparr>result_value := result_value r @ cs, result_warnings := result_warnings r @ ws\<rparr>"
    "map comp_root cs = (case safe_submodule_path s of None \<Rightarrow> [] | Some p \<Rightarrow> [p])" "list_all submodule_ok cs"
    "length (filter skipped_code ws) + length cs = (if section_name s = ''submodule'' then 1 else 0)"
    by (rule parse_submodule_adds [of fsys root containment origin r s])
  define r1 where "r1 = r\<lparr>result_value := result_value r @ cs, result_warnings := result_warnings r @ ws\<rparr>"
  from Cons.IH [of r1] obtain cs1 ws1 where t: "foldl (parse_submodule fsys root containment origin) r1 ss =
      r1\<lparr>result_value := result_value r1 @ cs1, result_warnings := result_warnings r1 @ ws1\<rparr>"
    "map comp_root cs1 = List.map_filter safe_submodule_path ss" "list_all submodule_ok cs1"
    "length (filter skipped_code ws1) + length cs1 = length (filter (\<lambda>s. section_name s = ''submodule'') ss)" by auto
  show ?case
    by (rule exI [of _ "cs @ cs1"], rule exI [of _ "ws @ ws1"])
      (use s t in \<open>simp add: r1_def List.map_filter_simps split: option.splits if_splits\<close>)
qed


text \<open>The sections of \<open>.gitmodules\<close> that name a submodule.\<close>

definition declared_submodules :: "file_system \<Rightarrow> path \<Rightarrow> git_config_section list" where
  "declared_submodules fsys root =
     (if fs_exists fsys (gitmodules_path root)
      then filter (\<lambda>s. section_name s = ''submodule'') (result_value (read_config_file fsys (gitmodules_path root))) else [])"

lemma map_filter_declared: "List.map_filter safe_submodule_path (filter (\<lambda>s. section_name s = ''submodule'') ss) = List.map_filter safe_submodule_path ss"
  by (induction ss) (auto simp: List.map_filter_simps safe_submodule_path_def split: option.split)

lemma parse_submodules_shape:
  obtains cs ws where "parse_submodules fsys root = \<lparr>result_value = sort_key comp_purl cs,
      result_warnings = (if fs_exists fsys (gitmodules_path root) then result_warnings (read_config_file fsys (gitmodules_path root)) else []) @ ws,
      complete = True\<rparr>"
    "map comp_root cs = List.map_filter safe_submodule_path (declared_submodules fsys root)" "list_all submodule_ok cs"
    "length (filter skipped_code ws) + length cs = length (declared_submodules fsys root)"
proof (cases "fs_exists fsys (gitmodules_path root)")
  case False
  then show thesis
    by (intro that [of "[]" "[]"]) (simp_all add: parse_submodules_def new_result_def declared_submodules_def List.map_filter_simps)
next
  case True
  define modules where "modules = read_config_file fsys (gitmodules_path root)"
  define containment where "containment = map_option lexically_normal (fs_absolute fsys root)"
  define r where "r = (new_result [] :: component list result)\<lparr>result_warnings := result_warnings modules\<rparr>"
  from parse_sections_add [of fsys root containment "superproject_origin fsys containment root" r "result_value modules"]
  obtain cs ws where "foldl (parse_submodule fsys root containment (superproject_origin fsys containment root)) r (result_value modules) =
      r\<lparr>result_value := result_value r @ cs, result_warnings := result_warnings r @ ws\<rparr>"
    "map comp_root cs = List.map_filter safe_submodule_path (result_value modules)" "list_all submodule_ok cs"
    "length (filter skipped_code ws) + length cs = length (filter (\<lambda>s. section_name s = ''submodule'') (result_value modules))" by auto
  with True show thesis
    by (intro that [of cs ws])
      (simp_all add: parse_submodules_def declared_submodules_def map_filter_declared r_def new_result_def Let_def
        flip: modules_def containment_def)
qed

section \<open>Properties\<close>

text \<open>C18: Every component the producer reports is sound, whatever \<open>.gitmodules\<close> and the git directories hold: its
  directory is a contained relative path, so that joined onto an absolute root it stays within it; its version is
  empty or an object id, and its evidence is of high confidence exactly when a commit was found; its purl is valid
  and canonical, so the check of the purl that the producer makes on its own output never fires. The list is
  ordered by purl and the result is complete.\<close>

theorem submodules_sound:
  "complete (parse_submodules fsys root) \<and> sorted (map comp_purl (result_value (parse_submodules fsys root))) \<and>
   list_all submodule_ok (result_value (parse_submodules fsys root)) \<and>
   list_all (\<lambda>c. if path_absolute root then is_within_root (lexically_normal (path_append root (comp_root c))) (lexically_normal root) else True)
     (result_value (parse_submodules fsys root))"
proof -
  obtain cs ws where p: "parse_submodules fsys root = \<lparr>result_value = sort_key comp_purl cs,
      result_warnings = (if fs_exists fsys (gitmodules_path root) then result_warnings (read_config_file fsys (gitmodules_path root)) else []) @ ws,
      complete = True\<rparr>" "list_all submodule_ok cs"
    by (rule parse_submodules_shape [of fsys root])
  have "is_within_root (lexically_normal (path_append root (comp_root c))) (lexically_normal root)" if "submodule_ok c" "path_absolute root" for c
    using contained_path_stays_within [of "comp_root c" root] that by (simp add: submodule_ok_def)
  with p show ?thesis by (auto simp: list_all_iff)
qed


end
