(* ===== verification/Name_Lists.thy ===== *)
theory Name_Lists
  imports File_System Warnings
begin

text \<open>
  \<open>core/name_list.cpp\<close>, \<open>core/exclusions.cpp\<close> and the name tables of \<open>core/manifest_names.cpp\<close>: files with one name per
  line, the directories a scan leaves out and the manifest files it looks for.
\<close>

section \<open>Lists of names\<close>

text \<open>The loop over the lines; a set of names is only asked for membership and emptiness.\<close>

fun names_of_lines :: "string list \<Rightarrow> string set" where
  "names_of_lines [] = {}"
| "names_of_lines (line # lines) =
     (let name = trimmed line in
      if name = [] \<or> hd name = CHR ''#'' then names_of_lines lines
      else insert name (names_of_lines lines))"

definition unreadable_list_warning :: "string \<Rightarrow> path \<Rightarrow> string" where
  "unreadable_list_warning subject list_path = ''cannot read '' @ subject @ '' '' @ CHR 0x27 # list_path @ CHR 0x27 # ''; using built-in list''"

definition empty_list_warning :: "string \<Rightarrow> path \<Rightarrow> string" where
  "empty_list_warning subject list_path = subject @ '' '' @ CHR 0x27 # list_path @ CHR 0x27 # '' contains no entries; using built-in list''"

definition load_name_list :: "file_system \<Rightarrow> path \<Rightarrow> string \<Rightarrow> string set \<Rightarrow> string set result" where
  "load_name_list fsys list_path subject fallback =
     (let list_file = fs_file fsys list_path in
      if \<not> opens list_file
      then warn kNameListUnreadable (unreadable_list_warning subject list_path) [] [] (new_result fallback)
      else
        let names = names_of_lines (split_on CHR 0x0A (content list_file)) in
        if names = {} then warn kNameListEmpty (empty_list_warning subject list_path) [] [] (new_result fallback)
        else new_result names)"

section \<open>Excluded directories\<close>

definition default_excluded_dir_names :: "string set" where
  "default_excluded_dir_names = set [''.git'', ''.svn'', ''.hg'', ''.idea'', ''.vscode'', ''build'', ''cmake-build-debug'',
     ''cmake-build-release'', ''out'', ''.cache'', ''vcpkg_installed'', ''buildtrees'', ''downloads'', ''_deps'']"

definition collision_prone_excluded_dir_names :: "string set" where
  "collision_prone_excluded_dir_names = set [''build'', ''cmake-build-debug'', ''cmake-build-release'', ''out'']"

definition load_excluded_dir_names :: "file_system \<Rightarrow> path \<Rightarrow> string set result" where
  "load_excluded_dir_names fsys list_path = load_name_list fsys list_path ''exclude list'' default_excluded_dir_names"

section \<open>Manifest names\<close>

definition default_manifest_names :: "string set" where
  "default_manifest_names = set [''.gitmodules'', ''CMakeLists.txt'', ''conanfile.txt'', ''conanfile.py'', ''conan.lock'', ''vcpkg.json'',
     ''package-lock.json'', ''go.sum'', ''Cargo.lock'', ''requirements.txt'', ''pom.xml'', ''uv.lock'', ''poetry.lock'', ''gradle.lockfile'',
     ''packages.lock.json'', ''composer.lock'', ''composer.json'', ''Gemfile.lock'', ''yarn.lock'', ''pnpm-lock.yaml'', ''pubspec.lock'',
     ''packages.config'', ''.csproj'', ''Directory.Packages.props'', ''west.yml'', ''west.yaml'']"

definition load_manifest_names :: "file_system \<Rightarrow> path \<Rightarrow> string set result" where
  "load_manifest_names fsys list_path = load_name_list fsys list_path ''manifest list'' default_manifest_names"

definition kRequirementsPrefixFamilyMarkers :: "string list" where
  "kRequirementsPrefixFamilyMarkers = [''requirements-'', ''requirements_'', ''requirements.'']"

definition kRequirementsSuffixFamilyMarkers :: "string list" where
  "kRequirementsSuffixFamilyMarkers = [''.requirements.txt'']"

definition matches_manifest_name :: "string \<Rightarrow> string \<Rightarrow> bool" where
  "matches_manifest_name actual_filename manifest_name =
     (if actual_filename = manifest_name then True
      else if manifest_name = ''.csproj''
      then length actual_filename > length ''.csproj'' \<and> ends_with actual_filename ''.csproj''
      else if manifest_name \<noteq> ''requirements.txt'' then False
      else if list_ex (\<lambda>marker. starts_with actual_filename marker \<and> length actual_filename > length marker + length ''.txt'' \<and>
          ends_with actual_filename ''.txt'') kRequirementsPrefixFamilyMarkers then True
      else list_ex (\<lambda>marker. ends_with actual_filename marker \<and> length actual_filename > length marker) kRequirementsSuffixFamilyMarkers)"

definition kInstalledDependencyDirNames :: "string list" where
  "kInstalledDependencyDirNames = [''node_modules'', ''vendor'', ''venv'', ''.venv'', ''bower_components'']"

definition is_inside_installed_dependencies :: "path \<Rightarrow> bool" where
  "is_inside_installed_dependencies relative_path =
     (path_absolute relative_path \<and> ''/'' \<in> set kInstalledDependencyDirNames \<or>
      list_ex (\<lambda>name. name \<in> set kInstalledDependencyDirNames) (path_names relative_path))"

end
