(* ===== verification/Path_Sets.thy ===== *)
theory Path_Sets
  imports Paths Ordered_Map "HOL-Library.Multiset"
begin

text \<open>
  \<open>std::set<fs::path>\<close> and \<open>std::map<fs::path, ...>\<close>: the ordered maps of the theory \<open>Ordered_Map\<close>, keyed by the elements
  of a path. A set keeps the first spelling of a path it is given. A path is canonical when its text is determined
  by its elements; a set of canonical paths depends only on which paths were inserted, not on their order.
  Also here: the search for the directory a path lies in, which the compile, link and binary passes share.
\<close>

section \<open>Sets\<close>

type_synonym path_set = "(path_key \<times> path) list"

definition path_set_insert :: "path \<Rightarrow> path_set \<Rightarrow> path_set" where
  "path_set_insert p s = (case omap_find s (path_key p) of Some _ \<Rightarrow> s | None \<Rightarrow> omap_put (path_key p) p s)"

definition path_set_of :: "path list \<Rightarrow> path_set" where
  "path_set_of ps = foldl (\<lambda>s p. path_set_insert p s) [] ps"

definition path_set_paths :: "path_set \<Rightarrow> path list" where
  "path_set_paths s = map snd s"

text \<open>\<open>keep_lowest\<close> of \<open>observe/compile_map.cpp\<close>.\<close>

definition keep_lowest :: "path \<Rightarrow> path \<Rightarrow> path" where
  "keep_lowest kept candidate = (if kept = [] \<or> path_less candidate kept then candidate else kept)"

definition canonical_path :: "path \<Rightarrow> bool" where
  "canonical_path p \<longleftrightarrow> p = path_of_key (path_key p)"

lemma canonical_eq: "canonical_path p \<Longrightarrow> canonical_path q \<Longrightarrow> path_key p = path_key q \<longleftrightarrow> p = q"
  unfolding canonical_path_def by metis

lemma path_set_insert_ok: "omap_ok s \<Longrightarrow> omap_ok (path_set_insert p s)"
  by (simp add: path_set_insert_def omap.ok_put split: option.split)

lemma path_set_insert_find:
  "omap_ok s \<Longrightarrow> omap_find (path_set_insert p s) k =
    (case omap_find s k of Some q \<Rightarrow> Some q | None \<Rightarrow> if k = path_key p then Some p else None)"
  by (auto simp: path_set_insert_def omap.lookup_put split: option.split)

lemma path_set_of_snoc: "path_set_of (ps @ [p]) = path_set_insert p (path_set_of ps)"
  by (simp add: path_set_of_def)

lemma path_set_of_ok [simp]: "omap_ok (path_set_of ps)"
  by (induction ps rule: rev_induct) (simp_all add: path_set_of_snoc path_set_insert_ok, simp add: path_set_of_def omap.ok_empty)

lemma path_set_of_find:
  "list_all canonical_path ps \<Longrightarrow>
   omap_find (path_set_of ps) k = (if k \<in> path_key ` set ps then Some (path_of_key k) else None)"
proof (induction ps rule: rev_induct)
  case Nil
  then show ?case by (simp add: path_set_of_def)
next
  case (snoc p ps)
  then have "p = path_of_key (path_key p)" by (simp add: canonical_path_def)
  with snoc show ?case by (auto simp: path_set_of_snoc path_set_insert_find)
qed

lemma path_set_of_cong:
  assumes "list_all canonical_path ps" "list_all canonical_path qs" "set ps = set qs"
  shows "path_set_of ps = path_set_of qs"
  by (rule omap.entries_cong) (use assms in \<open>auto simp: path_set_of_find fun_eq_iff\<close>)

lemma path_set_of_paths:
  assumes "list_all canonical_path ps"
  shows "set (path_set_paths (path_set_of ps)) = set ps"
    "sorted_wrt path_less (path_set_paths (path_set_of ps))" "length (path_set_of ps) = card (set ps)"
proof -
  let ?s = "path_set_of ps"
  have e: "?s = map (\<lambda>k. (k, the (omap_find ?s k))) (sorted_list_of_set {k. omap_find ?s k \<noteq> None})"
    using omap.entries_eq [OF path_set_of_ok, of ps] by simp
  have ks: "{k. omap_find ?s k \<noteq> None} = path_key ` set ps" using assms by (auto simp: path_set_of_find)
  have s: "?s = map (\<lambda>k. (k, path_of_key k)) (sorted_list_of_set (path_key ` set ps))"
    by (subst e, unfold ks) (auto simp: path_set_of_find [OF assms])
  have c: "path_of_key (path_key p) = p" if "p \<in> set ps" for p using assms that by (auto simp: list_all_iff canonical_path_def)
  then have img: "path_of_key ` path_key ` set ps = set ps" by (force simp: image_image)
  then show "set (path_set_paths ?s) = set ps" by (subst s) (simp add: path_set_paths_def image_image)
  have inj: "inj_on path_key (set ps)" by (rule inj_onI) (metis c)
  then show "length ?s = card (set ps)" by (subst s) (simp add: card_image)
  have k: "path_key (path_of_key k) = k" if "k \<in> path_key ` set ps" for k using that c by auto
  have "sorted_wrt (<) (sorted_list_of_set (path_key ` set ps))" by (rule strict_sorted_list_of_set)
  then have "sorted_wrt (\<lambda>a b. path_less (path_of_key a) (path_of_key b)) (sorted_list_of_set (path_key ` set ps))"
    by (rule sorted_wrt_mono_rel [rotated]) (use k in \<open>simp add: path_less_def\<close>)
  then show "sorted_wrt path_less (path_set_paths ?s)" by (subst s) (simp add: path_set_paths_def sorted_wrt_map comp_def)
qed

section \<open>The directory a path lies in\<close>

lemma path_parent_less: "path_names p \<noteq> [] \<Longrightarrow> length (path_parent p) < length p"
proof -
  assume ne: "path_names p \<noteq> []"
  show ?thesis
  proof (cases "path_filename p = []")
    case True
    then show ?thesis by (rule path_parent_trailing [OF _ ne])
  next
    case False
    define before where "before = take (length p - length (path_filename p)) p"
    have p: "p \<noteq> []" using ne by auto
    with False have b: "length before < length p" by (simp add: before_def)
    have l: "length (rev (dropWhile (\<lambda>c. c = CHR ''/'') (rev before))) \<le> length before"
      using length_dropWhile_le [of "\<lambda>c. c = CHR ''/''" "rev before"] by simp
    have "length p \<noteq> 1" if "path_absolute p"
    proof
      assume "length p = 1"
      then have "p = ''/''" using that by (cases p) (auto simp: path_absolute_iff)
      with ne show False by (simp add: path_names_def)
    qed
    moreover have "length p \<noteq> 0" using p by simp
    ultimately have "path_absolute p \<Longrightarrow> 1 < length p" by linarith
    with ne b l show ?thesis by (auto simp: path_parent_def Let_def simp flip: before_def)
  qed
qed

function enclosing_root :: "path \<Rightarrow> path_set \<Rightarrow> path option" where
  "enclosing_root candidate roots =
     (if candidate = [] then None
      else case omap_find roots (path_key candidate) of
        Some root \<Rightarrow> Some root
      | None \<Rightarrow>
          let parent = path_parent candidate in
          if path_equal parent candidate then None else enclosing_root parent roots)"
  by pat_completeness auto
termination
proof (relation "measure (\<lambda>(c, r). length c)", goal_cases)
  case (2 candidate roots parent)
  then have "path_names candidate \<noteq> []" by (auto simp: path_parent_def path_equal_def)
  with 2 show ?case using path_parent_less [of candidate] by simp
qed simp

declare enclosing_root.simps [simp del]

text \<open>Root-relative paths as the passes handle them: relative, in normal form without a trailing separator.\<close>

definition tidy_path :: "string list \<Rightarrow> path" where
  "tidy_path ns = path_of_key (False, ns)"

lemma plain_names_ok: "list_all plain_name ns \<Longrightarrow> names_ok ns"
proof -
  assume "list_all plain_name ns"
  then have "normal_kept False ns" unfolding normal_kept_def by (intro exI [of _ 0] exI [of _ ns]) simp
  then show ?thesis by (rule normal_kept_ok(1))
qed

lemma tidy_path_names [simp]: "list_all plain_name ns \<Longrightarrow> path_names (tidy_path ns) = ns"
  "list_all plain_name ns \<Longrightarrow> path_key (tidy_path ns) = (False, ns)"
  by (simp_all add: tidy_path_def plain_names_ok path_key_def)

lemma tidy_path_Nil [simp]: "tidy_path [] = []"
  by (simp add: tidy_path_def path_of_key_def)

lemma tidy_path_eq_Nil: "list_all plain_name ns \<Longrightarrow> tidy_path ns = [] \<longleftrightarrow> ns = []"
  using tidy_path_names(1) [of ns] by (metis path_names_Nil tidy_path_Nil)

lemma tidy_path_snoc: "ns \<noteq> [] \<Longrightarrow> tidy_path (ns @ [n]) = tidy_path ns @ CHR ''/'' # n"
  by (simp add: tidy_path_def path_of_key_def join_with_snoc)

lemma tidy_path_last: "list_all plain_name ns \<Longrightarrow> ns \<noteq> [] \<Longrightarrow> tidy_path ns \<noteq> [] \<and> last (tidy_path ns) \<noteq> CHR ''/''"
proof (induction ns rule: rev_induct)
  case Nil
  then show ?case by simp
next
  case (snoc n ns)
  then have n: "n \<noteq> []" "CHR ''/'' \<notin> set n" by (simp_all add: plain_name_def)
  then have "last n \<noteq> CHR ''/''" using last_in_set by metis
  with n show ?case by (cases "ns = []") (simp_all add: tidy_path_snoc, simp add: tidy_path_def path_of_key_def)
qed

lemma path_filename_tidy: "list_all plain_name (ns @ [n]) \<Longrightarrow> path_filename (tidy_path (ns @ [n])) = n"
proof -
  assume "list_all plain_name (ns @ [n])"
  then have n: "CHR ''/'' \<notin> set n" by (simp add: plain_name_def)
  show ?thesis
  proof (cases "ns = []")
    case True
    then show ?thesis using split_on_simple [OF n] by (simp add: path_filename_def tidy_path_def path_of_key_def)
  next
    case False
    then show ?thesis using split_on_snoc_sep [OF n] by (simp add: path_filename_def tidy_path_snoc)
  qed
qed

lemma path_parent_tidy: "list_all plain_name (ns @ [n]) \<Longrightarrow> path_parent (tidy_path (ns @ [n])) = tidy_path ns"
proof -
  assume plain: "list_all plain_name (ns @ [n])"
  then have ns: "list_all plain_name ns" by simp
  have names: "path_names (tidy_path (ns @ [n])) \<noteq> []" using tidy_path_names(1) [OF plain] by simp
  have abs: "\<not> path_absolute (tidy_path (ns @ [n]))" using plain_names_ok [OF plain] by (simp add: tidy_path_def)
  show ?thesis
  proof (cases "ns = []")
    case True
    with names abs path_filename_tidy [OF plain] show ?thesis
      by (simp add: path_parent_def) (simp add: tidy_path_def path_of_key_def)
  next
    case False
    obtain q c where "tidy_path ns = q @ [c]" "c \<noteq> CHR ''/''"
      using tidy_path_last [OF ns False] by (cases "tidy_path ns" rule: rev_cases) auto
    with names abs path_filename_tidy [OF plain] False show ?thesis by (simp add: path_parent_def tidy_path_snoc)
  qed
qed

text \<open>A set of component directories: canonical relative paths of plain names, none empty.\<close>

definition roots_ok :: "path_set \<Rightarrow> bool" where
  "roots_ok roots \<longleftrightarrow> omap_ok roots \<and>
     list_all (\<lambda>(k, r). r = path_of_key k \<and> \<not> fst k \<and> list_all plain_name (snd k) \<and> snd k \<noteq> []) roots"

lemma roots_ok_find:
  assumes "roots_ok roots" "omap_find roots k = Some r"
  shows "r = path_of_key k \<and> \<not> fst k \<and> list_all plain_name (snd k) \<and> snd k \<noteq> []"
proof -
  have "omap_find roots k = map_of roots k" using assms(1) by (simp add: roots_ok_def omap_find_map_of)
  with assms(2) have "(k, r) \<in> set roots" by (simp add: map_of_SomeD)
  with assms(1) show ?thesis by (auto simp: roots_ok_def list_all_iff)
qed

text \<open>The search goes up name by name.\<close>

lemma enclosing_root_tidy:
  assumes "roots_ok roots" "list_all plain_name ns"
  shows "enclosing_root (tidy_path ns) roots =
    map_option tidy_path (find (\<lambda>ms. omap_find roots (False, ms) \<noteq> None) (rev (prefixes ns)))"
  using assms(2)
proof (induction ns rule: rev_induct)
  case Nil
  have "omap_find roots (False, []) = None" using roots_ok_find [OF assms(1), of "(False, [])"] by (cases "omap_find roots (False, [])") auto
  then show ?case by (simp add: enclosing_root.simps [of "[]"])
next
  case (snoc n ns)
  have ne: "tidy_path (ns @ [n]) \<noteq> []" using tidy_path_last [OF snoc.prems] by simp
  have key: "path_key (tidy_path (ns @ [n])) = (False, ns @ [n])" using snoc.prems by simp
  have ns: "list_all plain_name ns" using snoc.prems by simp
  show ?case
  proof (cases "omap_find roots (False, ns @ [n])")
    case (Some r)
    then have "r = tidy_path (ns @ [n])" using roots_ok_find [OF assms(1) Some] by (simp add: tidy_path_def)
    with Some ne key show ?thesis by (simp add: enclosing_root.simps [of "tidy_path (ns @ [n])"])
  next
    case None
    have "\<not> path_equal (tidy_path ns) (tidy_path (ns @ [n]))" using key ns by (simp add: path_equal_def)
    with None ne key have "enclosing_root (tidy_path (ns @ [n])) roots = enclosing_root (tidy_path ns) roots"
      by (simp add: enclosing_root.simps [of "tidy_path (ns @ [n])"] path_parent_tidy [OF snoc.prems])
    with None snoc.IH [OF ns] show ?thesis by simp
  qed
qed

text \<open>A path is attributed to the longest component directory it lies in: the search from the path upwards finds a
  directory iff some given one is a prefix of the path name by name, and then the one with the most names.\<close>

lemma enclosing_root_longest:
  assumes "roots_ok roots" "list_all plain_name ns"
  shows "(enclosing_root (tidy_path ns) roots = Some r \<longleftrightarrow>
      (\<exists>ms. r = tidy_path ms \<and> prefix ms ns \<and> omap_find roots (False, ms) \<noteq> None \<and>
         (\<forall>ms'. prefix ms' ns \<and> omap_find roots (False, ms') \<noteq> None \<longrightarrow> length ms' \<le> length ms))) \<and>
    (enclosing_root (tidy_path ns) roots = None \<longleftrightarrow> (\<forall>ms. prefix ms ns \<longrightarrow> omap_find roots (False, ms) = None))"
proof -
  define found where "found = (\<lambda>ms. omap_find roots (False, ms) \<noteq> None)"
  have longest: "find found (rev (prefixes ns)) = Some ms \<longleftrightarrow>
      prefix ms ns \<and> found ms \<and> (\<forall>ms'. prefix ms' ns \<and> found ms' \<longrightarrow> length ms' \<le> length ms)" for ms
  proof (induction ns rule: rev_induct)
    case Nil
    then show ?case by auto
  next
    case (snoc n ns)
    show ?case
    proof (cases "found (ns @ [n])")
      case True
      then have "(prefix ms (ns @ [n]) \<and> found ms \<and> (\<forall>ms'. prefix ms' (ns @ [n]) \<and> found ms' \<longrightarrow> length ms' \<le> length ms)) \<longleftrightarrow> ms = ns @ [n]"
        by (auto dest: prefix_length_le) (metis length_append_singleton not_less_eq_eq order_refl prefix_length_le)
      with True show ?thesis by auto
    next
      case False
      then have "(prefix ms' (ns @ [n]) \<and> found ms') \<longleftrightarrow> (prefix ms' ns \<and> found ms')" for ms' by auto
      with False snoc show ?thesis by auto
    qed
  qed
  have none: "find found (rev (prefixes ns)) = None \<longleftrightarrow> (\<forall>ms. prefix ms ns \<longrightarrow> \<not> found ms)"
    by (auto simp: find_None_iff)
  show ?thesis
    unfolding enclosing_root_tidy [OF assms, folded found_def] using longest none by (auto simp: found_def)
qed

section \<open>Relative paths and least paths\<close>

lemma foldl_path_append_key:
  assumes "names_ok ns" "ns \<noteq> []"
  shows "foldl path_append [] ns = path_of_key (False, ns)"
proof -
  obtain n ns' where ns: "ns = n # ns'" using assms(2) by (cases ns) auto
  have n: "n \<noteq> []" "CHR ''/'' \<notin> set n" using assms(1) by (cases ns'; simp add: ns names_ok_def)+
  then have "path_append [] n = n" by (cases n) (auto simp: path_append_def path_absolute_iff)
  then show ?thesis using foldl_path_append [of "[n]" ns'] assms(1) by (simp add: ns path_of_key_def)
qed

lemma canonical_of_key: "names_ok ns \<Longrightarrow> canonical_path (path_of_key (a, ns))"
  by (simp add: canonical_path_def path_key_of_key)

lemma lexically_relative_canonical:
  assumes "lexically_relative p base \<noteq> []"
  shows "canonical_path (lexically_relative p base) \<and> \<not> path_absolute (lexically_relative p base)"
proof -
  obtain a b where ab: "mismatch (path_names p) (path_names base) = (a, b)" by fastforce
  from mismatch_split [OF ab] obtain s where s: "path_names p = s @ a" by auto
  have dot: "canonical_path ''.'' \<and> \<not> path_absolute ''.''"
    by (simp add: canonical_path_def path_key_def path_of_key_def path_names_def path_absolute_def)
  consider "lexically_relative p base = ''.''"
    | "lexically_relative p base = foldl path_append [] (replicate (nat (climb b)) ''..'' @ a)" "replicate (nat (climb b)) ''..'' @ a \<noteq> []"
      "climb b > 0 \<or> a \<noteq> [] \<and> hd a \<noteq> []"
    using assms by (auto simp: lexically_relative_def ab Let_def simp del: foldl_append split: if_splits)
  then show ?thesis
  proof cases
    case 2
    have "names_ok (s @ a)" using names_ok_path_names [of p] s by simp
    then have a: "list_all (\<lambda>n. CHR ''/'' \<notin> set n) a" "list_all (\<lambda>n. n \<noteq> []) (butlast a)"
      by (auto simp: names_ok_def butlast_append split: if_splits)
    have "names_ok (replicate (nat (climb b)) ''..'' @ a)"
    proof (cases "nat (climb b)")
      case 0
      with 2(2,3) have "a \<noteq> []" "hd a \<noteq> []" by auto
      then have "a \<noteq> [[]]" by auto
      with a 0 show ?thesis by (simp add: names_ok_def)
    next
      case (Suc k)
      have up: "list_all P (replicate (Suc k) ''..'') = P ''..''" for P by (induction k) auto
      have "replicate (Suc k) ''..'' = replicate k ''..'' @ [''..'']" by (simp add: replicate_append_same)
      then have "butlast (replicate (Suc k) ''..'' @ a) = (if a = [] then replicate k ''..'' else replicate (Suc k) ''..'' @ butlast a)"
        by (simp add: butlast_append del: replicate_Suc)
      moreover have "list_all (\<lambda>n. n \<noteq> []) (replicate k ''..'')" by (induction k) auto
      ultimately show ?thesis using a up [of "\<lambda>n. n \<noteq> []"] up [of "\<lambda>n. CHR ''/'' \<notin> set n"]
        unfolding names_ok_def Suc by (simp del: replicate_Suc butlast.simps) simp
    qed
    with 2(1) foldl_path_append_key [OF this 2(2)] show ?thesis by (simp add: canonical_of_key del: foldl_append)
  qed (simp add: dot)
qed

definition least_path :: "path list \<Rightarrow> path" where
  "least_path ps = (if ps = [] then [] else path_of_key (Min (path_key ` set ps)))"

lemma least_path_in:
  assumes "list_all canonical_path ps" "ps \<noteq> []"
  shows "least_path ps \<in> set ps" "path_key (least_path ps) = Min (path_key ` set ps)"
proof -
  have "Min (path_key ` set ps) \<in> path_key ` set ps" using assms(2) by (intro Min_in) auto
  then obtain p where "p \<in> set ps" "Min (path_key ` set ps) = path_key p" by auto
  moreover from this(1) have "p = path_of_key (path_key p)" using assms(1) by (simp add: list_all_iff canonical_path_def)
  ultimately show "least_path ps \<in> set ps" "path_key (least_path ps) = Min (path_key ` set ps)"
    using assms(2) by (simp_all add: least_path_def)
qed

lemma least_path_eq: "p \<in> set ps \<Longrightarrow> canonical_path p \<Longrightarrow> (\<And>q. q \<in> set ps \<Longrightarrow> path_key p \<le> path_key q) \<Longrightarrow> least_path ps = p"
proof -
  assume p: "p \<in> set ps" "canonical_path p" "\<And>q. q \<in> set ps \<Longrightarrow> path_key p \<le> path_key q"
  then have "Min (path_key ` set ps) = path_key p" by (intro Min_eqI) auto
  with p show ?thesis unfolding canonical_path_def by (auto simp: least_path_def)
qed

lemma keep_lowest_least:
  "list_all (\<lambda>p. canonical_path p \<and> p \<noteq> []) ps \<Longrightarrow> foldl keep_lowest [] ps = least_path ps"
proof (induction ps rule: rev_induct)
  case Nil
  then show ?case by (simp add: least_path_def)
next
  case (snoc p ps)
  then have c: "canonical_path p" "list_all canonical_path ps" "list_all (\<lambda>p. p \<noteq> []) ps" by (auto simp: list_all_iff)
  show ?case
  proof (cases "ps = []")
    case True
    with c(1) show ?thesis by (simp add: keep_lowest_def least_path_def canonical_path_def)
  next
    case False
    note l = least_path_in [OF c(2) False]
    have "least_path ps \<noteq> []" using l(1) c(3) by (auto simp: list_all_iff)
    moreover have "path_key (least_path ps) \<le> path_key q" if "q \<in> set ps" for q using l(2) that by simp
    moreover have "canonical_path (least_path ps)" using l(1) c(2) by (auto simp: list_all_iff)
    ultimately have "least_path (ps @ [p]) = (if path_less p (least_path ps) then p else least_path ps)"
      using l(1) c(1) by (intro least_path_eq) (auto simp: path_less_def intro: order.trans less_imp_le dest: le_less_trans)
    with snoc c False \<open>least_path ps \<noteq> []\<close> show ?thesis by (simp add: keep_lowest_def list_all_iff)
  qed
qed

lemma path_set_first:
  assumes "list_all canonical_path ps" "ps \<noteq> []"
  obtains k s where "path_set_of ps = (k, least_path ps) # s"
proof -
  note ps = path_set_of_paths [OF assms(1)]
  have "path_set_of ps \<noteq> []" using ps(3) assms(2) by auto
  then obtain k p s where s: "path_set_of ps = (k, p) # s" by (cases "path_set_of ps") auto
  have set: "set (p # map snd s) = set ps" using ps(1) by (simp add: path_set_paths_def s)
  have less: "path_less p q" if "q \<in> set (map snd s)" for q using ps(2) that by (auto simp: path_set_paths_def s)
  have "path_key p \<le> path_key q" if "q \<in> set ps" for q
    using that less [of q] unfolding set [symmetric] by (cases "q = p") (auto simp: path_less_def less_imp_le)
  moreover have "p \<in> set ps" unfolding set [symmetric] by simp
  ultimately have "least_path ps = p" using assms(1) by (intro least_path_eq) (auto simp: list_all_iff)
  with s that show thesis by simp
qed

lemma path_set_of_dom: "omap_find (path_set_of ps) k \<noteq> None \<longleftrightarrow> k \<in> path_key ` set ps"
proof (induction ps rule: rev_induct)
  case Nil
  then show ?case by (simp add: path_set_of_def)
next
  case (snoc p ps)
  then show ?case by (auto simp: path_set_of_snoc path_set_insert_find split: option.split)
qed

lemma length_path_set_of: "length (path_set_of ps) = card (path_key ` set ps)"
proof -
  have "{k. omap_find (path_set_of ps) k \<noteq> None} = path_key ` set ps" using path_set_of_dom by blast
  with omap.entries_eq [OF path_set_of_ok, of ps]
  have "path_set_of ps = map (\<lambda>k. (k, the (omap_find (path_set_of ps) k))) (sorted_list_of_set (path_key ` set ps))" by simp
  then have "length (path_set_of ps) = length (map (\<lambda>k. (k, the (omap_find (path_set_of ps) k))) (sorted_list_of_set (path_key ` set ps)))"
    by (rule arg_cong)
  then show ?thesis by (simp only: length_map length_sorted_list_of_set)
qed

lemma least_path_mset: "mset ps = mset qs \<Longrightarrow> least_path ps = least_path qs"
  by (auto simp: least_path_def dest: mset_eq_setD)

lemma enclosing_root_member:
  assumes "roots_ok roots" "enclosing_root p roots = Some r"
  shows "omap_find roots (path_key r) = Some r"
  using assms
proof (induction p roots rule: enclosing_root.induct)
  case (1 c rs)
  show ?case
  proof (cases "omap_find rs (path_key c)")
    case None
    with "1.prems"(2) have "c \<noteq> []" "\<not> path_equal (path_parent c) c" "enclosing_root (path_parent c) rs = Some r"
      by (auto simp: enclosing_root.simps [of c] Let_def split: if_splits)
    with "1.IH" [OF _ None] "1.prems"(1) show ?thesis by simp
  next
    case (Some r0)
    with "1.prems"(2) have "r0 = r" by (auto simp: enclosing_root.simps [of c] split: if_splits)
    moreover have "path_key r0 = path_key c"
      using roots_ok_find [OF "1.prems"(1) Some] plain_names_ok path_key_of_key by metis
    ultimately show ?thesis using Some by simp
  qed
qed

text \<open>A union over a list does not depend on its order.\<close>

lemma concat_map_mset:
  assumes "mset rs = mset rs'"
  shows "mset (concat (map f rs)) = mset (concat (map f rs'))" "set (concat (map f rs)) = set (concat (map f rs'))"
proof -
  have "mset (concat (map f xs)) = \<Sum>\<^sub># (image_mset (\<lambda>r. mset (f r)) (mset xs))" for xs by (induction xs) simp_all
  with assms show "mset (concat (map f rs)) = mset (concat (map f rs'))" by simp
  then show "set (concat (map f rs)) = set (concat (map f rs'))" by (rule mset_eq_setD)
qed

end
