(* ===== verification/Manifest_Names.thy ===== *)
theory Manifest_Names
  imports Name_Lists Path_Sets
begin

text \<open>
  \<open>core/manifest_names.hpp\<close> and \<open>core/manifest_names.cpp\<close>: the table of dependency manifests by ecosystem and the report of
  those a scan found but does not parse. The walk up the directories (\<open>has_covered_ancestor\<close>) has no fixed-point test, so
  it is a partial function: \<open>None\<close> stands for not returning, which happens for absolute paths only.
\<close>

section \<open>The table\<close>

record ecosystem_manifest =
  em_ecosystem :: string
  supported_locks :: "string list"
  unsupported_locks :: "string list"
  loose_manifests :: "string list"

definition eco :: "string \<Rightarrow> string list \<Rightarrow> string list \<Rightarrow> string list \<Rightarrow> ecosystem_manifest" where
  "eco e supported unsupported loose =
     \<lparr>em_ecosystem = e, supported_locks = supported, unsupported_locks = unsupported, loose_manifests = loose\<rparr>"

definition ecosystem_manifests :: "ecosystem_manifest list" where
  "ecosystem_manifests =
     [eco ''cargo'' [''Cargo.lock''] [] [''Cargo.toml''],
      eco ''composer'' [''composer.lock'', ''composer.json''] [] [],
      eco ''go'' [''go.sum''] [] [''go.mod''],
      eco ''maven'' [''pom.xml'', ''gradle.lockfile''] [] [''build.gradle'', ''build.gradle.kts''],
      eco ''npm'' [''package-lock.json'', ''yarn.lock'', ''pnpm-lock.yaml''] [''bun.lock'', ''bun.lockb'', ''npm-shrinkwrap.json''] [''package.json''],
      eco ''nuget'' [''packages.lock.json'', ''packages.config'', ''.csproj'', ''Directory.Packages.props''] [] [],
      eco ''pub'' [''pubspec.lock''] [] [''pubspec.yaml''],
      eco ''python'' [''poetry.lock'', ''requirements.txt'', ''uv.lock''] [''Pipfile.lock''] [''Pipfile'', ''pyproject.toml''],
      eco ''rubygems'' [''Gemfile.lock''] [] [''Gemfile'']]"

record unparsed_report =
  um_ecosystem :: string
  um_filename :: string
  um_paths :: "path list"
  um_is_lockfile :: bool

section \<open>Reporting\<close>

partial_function (option) has_covered_ancestor :: "path \<Rightarrow> path_set \<Rightarrow> bool option" where
  "has_covered_ancestor candidate_directory covered_directories =
     (if omap_find covered_directories (path_key candidate_directory) \<noteq> None then Some True
      else if candidate_directory = [] then Some False
      else has_covered_ancestor (path_parent candidate_directory) covered_directories)"

definition matching_paths :: "path list \<Rightarrow> string list \<Rightarrow> path list" where
  "matching_paths listing names =
     filter (\<lambda>relative_path. list_ex (matches_manifest_name (path_filename relative_path)) names \<and>
       \<not> is_inside_installed_dependencies relative_path) listing"

text \<open>The loop over the candidates: the paths of every file name that no directory above covers.\<close>

fun paths_by_filename :: "path list \<Rightarrow> path_set \<Rightarrow> (string \<times> path list) list \<Rightarrow> (string \<times> path list) list option" where
  "paths_by_filename [] covered_directories found = Some found"
| "paths_by_filename (candidate_path # rest) covered_directories found =
     (case has_covered_ancestor (path_parent candidate_path) covered_directories of
        None \<Rightarrow> None
      | Some True \<Rightarrow> paths_by_filename rest covered_directories found
      | Some False \<Rightarrow>
          let name = path_filename candidate_path;
              paths = (case omap_find found name of None \<Rightarrow> [] | Some ps \<Rightarrow> ps)
          in paths_by_filename rest covered_directories (omap_put name (paths @ [candidate_path]) found))"

fun winning_entry :: "string \<times> path list \<Rightarrow> (string \<times> path list) list \<Rightarrow> string \<times> path list" where
  "winning_entry winner [] = winner"
| "winning_entry winner (entry # entries) =
     winning_entry (if length (snd entry) > length (snd winner) then entry else winner) entries"

definition report_for_tier :: "path list \<Rightarrow> ecosystem_manifest \<Rightarrow> string list \<Rightarrow> path_set \<Rightarrow> bool \<Rightarrow> unparsed_report option option" where
  "report_for_tier listing em tier_names covered_directories is_lockfile =
     (case paths_by_filename (matching_paths listing tier_names) covered_directories [] of
        None \<Rightarrow> None
      | Some [] \<Rightarrow> Some None
      | Some (e # es) \<Rightarrow>
          let winner = winning_entry e (e # es) in
          Some (Some \<lparr>um_ecosystem = em_ecosystem em, um_filename = fst winner, um_paths = snd winner, um_is_lockfile = is_lockfile\<rparr>))"

definition covered_directories_of :: "path list \<Rightarrow> ecosystem_manifest \<Rightarrow> path_set" where
  "covered_directories_of listing em =
     foldl (\<lambda>covered p. path_set_insert (path_parent p) covered) [] (matching_paths listing (supported_locks em))"

definition ecosystem_report :: "path list \<Rightarrow> ecosystem_manifest \<Rightarrow> unparsed_report option option" where
  "ecosystem_report listing em =
     (let covered = covered_directories_of listing em in
      case report_for_tier listing em (unsupported_locks em) covered True of
        None \<Rightarrow> None
      | Some (Some report) \<Rightarrow> Some (Some report)
      | Some None \<Rightarrow> report_for_tier listing em (loose_manifests em) covered False)"

fun collect_reports :: "path list \<Rightarrow> ecosystem_manifest list \<Rightarrow> unparsed_report list option" where
  "collect_reports listing [] = Some []"
| "collect_reports listing (em # rest) =
     (case ecosystem_report listing em of
        None \<Rightarrow> None
      | Some report \<Rightarrow> (case collect_reports listing rest of
          None \<Rightarrow> None
        | Some reports \<Rightarrow> Some ((case report of None \<Rightarrow> [] | Some r \<Rightarrow> [r]) @ reports)))"

definition find_unparsed_manifests :: "path list \<Rightarrow> unparsed_report list option" where
  "find_unparsed_manifests listing = map_option (sort_key um_ecosystem) (collect_reports listing ecosystem_manifests)"

section \<open>Lemmas\<close>

text \<open>The directories above a path of plain names.\<close>

definition covers :: "path_set \<Rightarrow> string list \<Rightarrow> bool" where
  "covers covered ns \<longleftrightarrow> list_ex (\<lambda>ms. omap_find covered (False, ms) \<noteq> None) (prefixes ns)"

lemma has_covered_ancestor_tidy:
  "list_all plain_name ns \<Longrightarrow> has_covered_ancestor (tidy_path ns) covered = Some (covers covered ns)"
proof (induction ns rule: rev_induct)
  case Nil
  show ?case by (subst has_covered_ancestor.simps) (simp add: covers_def path_key_def)
next
  case (snoc n ns)
  have "tidy_path (ns @ [n]) \<noteq> []" using tidy_path_last [OF snoc.prems] by simp
  moreover have "path_key (tidy_path (ns @ [n])) = (False, ns @ [n])" using snoc.prems by simp
  ultimately show ?case using snoc path_parent_tidy [OF snoc.prems]
    by (subst has_covered_ancestor.simps) (auto simp: covers_def)
qed

text \<open>At the root the walk never ends, unless the root itself is covered.\<close>

lemma has_covered_ancestor_fixed:
  assumes "path_parent c = c" "c \<noteq> []" "omap_find covered (path_key c) = None"
  shows "has_covered_ancestor c covered = None"
proof (cases "has_covered_ancestor c covered")
  case (Some b)
  have "c = c \<longrightarrow> covered = covered \<longrightarrow> False"
  proof (rule has_covered_ancestor.raw_induct [where P = "\<lambda>c' cov b. c' = c \<longrightarrow> cov = covered \<longrightarrow> False", OF _ Some])
    fix f c' cov b
    assume IH: "\<And>c' cov b. f c' cov = Some b \<Longrightarrow> c' = c \<longrightarrow> cov = covered \<longrightarrow> False"
      and eq: "(if omap_find cov (path_key c') \<noteq> None then Some True else if c' = [] then Some False else f (path_parent c') cov) = Some b"
    show "c' = c \<longrightarrow> cov = covered \<longrightarrow> False" using eq IH [of c covered b] assms by auto
  qed
  then show ?thesis by simp
qed

lemma path_parent_absolute: "path_absolute (path_parent p) = path_absolute p"
proof -
  define before where "before = take (length p - length (path_filename p)) p"
  define stripped where "stripped = rev (dropWhile (\<lambda>c. c = CHR ''/'') (rev before))"
  have "\<exists>t. before = stripped @ t"
    using takeWhile_dropWhile_id [of "\<lambda>c. c = CHR ''/''" "rev before"] by (metis rev_append rev_rev_ident stripped_def)
  moreover have "\<exists>t. p = before @ t" by (metis append_take_drop_id before_def)
  ultimately obtain t where p: "p = stripped @ t" by auto
  have parent: "path_parent p = (if path_names p = [] then p else if stripped = [] \<and> path_absolute p then ''/'' else stripped)"
    by (simp only: path_parent_def before_def stripped_def Let_def)
  have "path_absolute stripped = path_absolute p" if "stripped \<noteq> []" using that p by (simp add: path_absolute_iff)
  moreover have "path_absolute ''/''" by (simp add: path_absolute_iff)
  ultimately show ?thesis unfolding parent by (cases "stripped = []") simp_all
qed

text \<open>C30: The walk up the directories returns on every relative path; on an absolute one it returns only when it meets a
  covered directory, and otherwise goes on at the root forever.\<close>

theorem cover_walk_returns:
  "has_covered_ancestor p covered = None \<longleftrightarrow>
    path_absolute p \<and> (\<forall>k. omap_find covered (path_key ((path_parent ^^ k) p)) = None)"
proof (induction p rule: length_induct)
  case (1 p)
  have split: "(\<forall>k. Q ((path_parent ^^ k) p)) \<longleftrightarrow> Q p \<and> (\<forall>k. Q ((path_parent ^^ k) (path_parent p)))" for Q
  proof -
    have "(\<forall>k. Q ((path_parent ^^ k) p)) \<longleftrightarrow> Q ((path_parent ^^ 0) p) \<and> (\<forall>k. Q ((path_parent ^^ Suc k) p))"
      by (metis nat.exhaust)
    then show ?thesis by (simp add: funpow_Suc_right del: funpow.simps(2))
  qed
  show ?case
  proof (cases "omap_find covered (path_key p)")
    case (Some r)
    then have "has_covered_ancestor p covered = Some True" by (subst has_covered_ancestor.simps) simp
    with Some show ?thesis by (simp add: split [of "\<lambda>q. omap_find covered (path_key q) = None"])
  next
    case none: None
    show ?thesis
    proof (cases "path_names p = []")
      case True
      then have fixed: "path_parent p = p" by (simp add: path_parent_def)
      then have iter: "(path_parent ^^ k) p = p" for k by (induction k) simp_all
      show ?thesis
      proof (cases "p = []")
        case True
        with none have "has_covered_ancestor p covered = Some False" by (subst has_covered_ancestor.simps) simp
        with True show ?thesis by simp
      next
        case False
        with True have "path_absolute p" by (cases p) (auto simp: path_names_eq_Nil path_absolute_iff)
        with has_covered_ancestor_fixed [OF fixed False none] none iter show ?thesis by simp
      qed
    next
      case False
      then have "p \<noteq> []" by auto
      with none have "has_covered_ancestor p covered = has_covered_ancestor (path_parent p) covered"
        by (subst has_covered_ancestor.simps) simp
      moreover have "length (path_parent p) < length p" by (rule path_parent_less [OF False])
      ultimately show ?thesis
        using "1.IH" none by (simp add: path_parent_absolute split [of "\<lambda>q. omap_find covered (path_key q) = None"])
    qed
  qed
qed

section \<open>The report of one tier\<close>

text \<open>The candidates of a tier that no supported lockfile at or above their directory covers.\<close>

definition uncovered :: "path list \<Rightarrow> ecosystem_manifest \<Rightarrow> string list \<Rightarrow> path list" where
  "uncovered listing em names =
     filter (\<lambda>p. \<not> list_ex (\<lambda>lock. prefix (path_names (path_parent lock)) (path_names (path_parent p)))
       (matching_paths listing (supported_locks em))) (matching_paths listing names)"

definition count_name :: "path list \<Rightarrow> string \<Rightarrow> nat" where
  "count_name ps f = length (filter (\<lambda>p. path_filename p = f) ps)"

text \<open>The most frequent file name, the least of them on a tie.\<close>

definition dominant_name :: "path list \<Rightarrow> string" where
  "dominant_name ps = (let names = path_filename ` set ps in Min {f \<in> names. count_name ps f = Max (count_name ps ` names)})"

definition tier_report :: "ecosystem_manifest \<Rightarrow> path list \<Rightarrow> bool \<Rightarrow> unparsed_report option" where
  "tier_report em ps is_lockfile =
     (if ps = [] then None
      else Some \<lparr>um_ecosystem = em_ecosystem em, um_filename = dominant_name ps,
        um_paths = filter (\<lambda>p. path_filename p = dominant_name ps) ps, um_is_lockfile = is_lockfile\<rparr>)"

definition add_path :: "path \<Rightarrow> (string \<times> path list) list \<Rightarrow> (string \<times> path list) list" where
  "add_path p = omap.group_step path_filename (\<lambda>p. [p]) (\<lambda>ps p. ps @ [p]) p"

lemma paths_by_filename_filter:
  "list_all (\<lambda>p. has_covered_ancestor (path_parent p) covered = Some (c p)) ps \<Longrightarrow>
   paths_by_filename ps covered found = Some (foldl (\<lambda>m p. add_path p m) found (filter (\<lambda>p. \<not> c p) ps))"
proof (induction ps arbitrary: found)
  case (Cons p ps)
  have "omap_put (path_filename p) ((case omap_find found (path_filename p) of None \<Rightarrow> [] | Some ps \<Rightarrow> ps) @ [p]) found = add_path p found"
    by (simp add: add_path_def omap.group_step_def split: option.split)
  with Cons show ?case by (cases "c p") (simp_all add: Let_def)
qed simp

lemma foldl_snoc: "foldl (\<lambda>qs p. qs @ [p]) qs ps = qs @ ps"
  by (induction ps arbitrary: qs) simp_all

lemma snoc_group: "omap.group_value (\<lambda>p. [p]) (\<lambda>ps p. ps @ [p]) ps = (if ps = [] then None else Some ps)"
  by (cases ps) (simp_all add: omap.group_value_def foldl_snoc)

lemma grouped_entries:
  "foldl (\<lambda>m p. add_path p m) [] ps = map (\<lambda>f. (f, filter (\<lambda>p. path_filename p = f) ps)) (sorted_list_of_set (path_filename ` set ps))"
proof -
  have "foldl (\<lambda>m p. add_path p m) [] ps = map (\<lambda>f. (f, the (omap.group_value (\<lambda>p. [p]) (\<lambda>ps p. ps @ [p]) (filter (\<lambda>p. path_filename p = f) ps))))
      (sorted_list_of_set (path_filename ` set ps))"
    using omap.group_entries [of path_filename "\<lambda>p. [p]" "\<lambda>ps p. ps @ [p]" ps] by (simp add: add_path_def)
  also have "\<dots> = map (\<lambda>f. (f, filter (\<lambda>p. path_filename p = f) ps)) (sorted_list_of_set (path_filename ` set ps))"
    by (rule map_cong) (auto simp: snoc_group filter_empty_conv)
  finally show ?thesis .
qed

text \<open>The winner of entries in ascending order: the longest, the least of them on a tie.\<close>

lemma winning_entry_best:
  "sorted_wrt (<) (map fst (w # es)) \<Longrightarrow>
   winning_entry w es \<in> set (w # es) \<and>
   (\<forall>e \<in> set (w # es). length (snd e) < length (snd (winning_entry w es)) \<or>
     length (snd e) = length (snd (winning_entry w es)) \<and> fst (winning_entry w es) \<le> fst e)"
proof (induction es arbitrary: w)
  case Nil
  then show ?case by simp
next
  case (Cons e es)
  define v where "v = (if length (snd e) > length (snd w) then e else w)"
  have "sorted_wrt (<) (map fst (v # es))" using Cons.prems by (auto simp: v_def)
  note IH = Cons.IH [OF this]
  let ?b = "winning_entry v es"
  have "winning_entry w (e # es) = ?b" by (simp add: v_def)
  moreover have "?b \<in> set (w # e # es)" using IH by (auto simp: v_def split: if_splits)
  moreover have "length (snd x) < length (snd ?b) \<or> length (snd x) = length (snd ?b) \<and> fst ?b \<le> fst x" if "x \<in> set (w # e # es)" for x
  proof (cases "x \<in> set (v # es)")
    case True
    with IH show ?thesis by blast
  next
    case False
    have v: "length (snd v) < length (snd ?b) \<or> length (snd v) = length (snd ?b) \<and> fst ?b \<le> fst v" using IH by simp
    from False that have "x = (if length (snd e) > length (snd w) then w else e)" by (auto simp: v_def split: if_splits)
    with v Cons.prems show ?thesis by (auto simp: v_def split: if_splits)
  qed
  ultimately show ?case by simp
qed

lemma dominant_name_eq:
  assumes "f \<in> path_filename ` set ps"
    and "\<And>g. g \<in> path_filename ` set ps \<Longrightarrow> count_name ps g < count_name ps f \<or> count_name ps g = count_name ps f \<and> f \<le> g"
  shows "dominant_name ps = f"
proof -
  let ?names = "path_filename ` set ps"
  have "Max (count_name ps ` ?names) = count_name ps f"
    using assms by (intro Max_eqI) (auto, metis imageI less_imp_le order_refl)
  moreover have "Min {g \<in> ?names. count_name ps g = count_name ps f} = f"
    using assms by (intro Min_eqI) (auto, metis imageI less_irrefl)
  ultimately show ?thesis by (simp add: dominant_name_def Let_def)
qed

lemma winner_is_dominant:
  assumes "ps \<noteq> []" "foldl (\<lambda>m p. add_path p m) [] ps = e # es"
  shows "winning_entry e (e # es) = (dominant_name ps, filter (\<lambda>p. path_filename p = dominant_name ps) ps)"
proof -
  let ?entry = "\<lambda>f. (f, filter (\<lambda>p. path_filename p = f) ps)"
  have entries: "e # es = map ?entry (sorted_list_of_set (path_filename ` set ps))" using assms(2) grouped_entries by simp
  then have "map fst (e # es) = sorted_list_of_set (path_filename ` set ps)" by (simp only: list.map_comp comp_def fst_conv list.map_ident)
  then have sorted: "sorted_wrt (<) (map fst (e # es))" by (simp only: strict_sorted_list_of_set)
  have set: "set (e # es) = ?entry ` path_filename ` set ps" unfolding entries by simp
  have "winning_entry e (e # es) = winning_entry e es" by simp
  moreover note best = winning_entry_best [OF sorted]
  ultimately obtain f where f: "f \<in> path_filename ` set ps" "winning_entry e (e # es) = ?entry f" unfolding set by (metis (no_types, lifting) imageE)
  have "dominant_name ps = f"
  proof (rule dominant_name_eq [OF f(1)])
    fix g assume "g \<in> path_filename ` set ps"
    then have "?entry g \<in> set (e # es)" unfolding set by blast
    with best f(2) show "count_name ps g < count_name ps f \<or> count_name ps g = count_name ps f \<and> f \<le> g"
      by (force simp: count_name_def)
  qed
  with f(2) show ?thesis by simp
qed

lemma report_for_tier_exact:
  assumes "list_all (\<lambda>p. has_covered_ancestor (path_parent p) covered = Some (c p)) (matching_paths listing names)"
  shows "report_for_tier listing em names covered b =
    Some (tier_report em (filter (\<lambda>p. \<not> c p) (matching_paths listing names)) b)"
proof -
  define ps where "ps = filter (\<lambda>p. \<not> c p) (matching_paths listing names)"
  have found: "paths_by_filename (matching_paths listing names) covered [] = Some (foldl (\<lambda>m p. add_path p m) [] ps)"
    using paths_by_filename_filter [OF assms] by (simp add: ps_def)
  show ?thesis
  proof (cases "foldl (\<lambda>m p. add_path p m) [] ps")
    case Nil
    then have "ps = []" by (simp add: grouped_entries)
    with Nil found show ?thesis by (simp add: report_for_tier_def tier_report_def flip: ps_def)
  next
    case (Cons e es)
    then have "ps \<noteq> []" by auto
    from winner_is_dominant [OF this Cons] this found Cons show ?thesis
      by (simp add: report_for_tier_def tier_report_def Let_def del: winning_entry.simps flip: ps_def)
  qed
qed

section \<open>The whole report\<close>

text \<open>Files as an index has them: relative, in normal form, with plain names.\<close>

definition tidy_file :: "path \<Rightarrow> bool" where
  "tidy_file p \<longleftrightarrow> p = tidy_path (path_names p) \<and> path_names p \<noteq> [] \<and> list_all plain_name (path_names p)"

lemma tidy_file_parent:
  assumes "tidy_file p"
  obtains ns n where "p = tidy_path (ns @ [n])" "list_all plain_name (ns @ [n])" "path_parent p = tidy_path ns"
    "path_key (path_parent p) = (False, ns)" "path_names (path_parent p) = ns" "path_filename p = n"
proof -
  from assms obtain ns n where names: "path_names p = ns @ [n]" by (cases "path_names p" rule: rev_cases) (auto simp: tidy_file_def)
  with assms have p: "p = tidy_path (ns @ [n])" "list_all plain_name (ns @ [n])" by (simp_all add: tidy_file_def)
  then have "list_all plain_name ns" by simp
  then show thesis using that [OF p] path_parent_tidy [OF p(2)] path_filename_tidy [OF p(2)] by (simp add: p(1) tidy_path_names)
qed

lemma matching_paths_subset: "set (matching_paths listing names) \<subseteq> set listing"
  by (auto simp: matching_paths_def)

lemma covered_directories_find:
  assumes "list_all tidy_file listing"
  shows "omap_find (covered_directories_of listing em) (False, ms) \<noteq> None \<longleftrightarrow>
    list_ex (\<lambda>lock. path_names (path_parent lock) = ms) (matching_paths listing (supported_locks em))"
proof -
  let ?locks = "matching_paths listing (supported_locks em)"
  have "covered_directories_of listing em = path_set_of (map path_parent ?locks)"
    by (simp add: covered_directories_of_def path_set_of_def foldl_map)
  then have "omap_find (covered_directories_of listing em) (False, ms) \<noteq> None \<longleftrightarrow> (\<exists>lock \<in> set ?locks. path_key (path_parent lock) = (False, ms))"
    by (simp only: path_set_of_dom) (auto simp: image_iff eq_commute [of "(False, ms)"])
  moreover have "path_key (path_parent lock) = (False, ms) \<longleftrightarrow> path_names (path_parent lock) = ms" if "lock \<in> set ?locks" for lock
  proof -
    have "tidy_file lock" using that assms matching_paths_subset by (auto simp: list_all_iff)
    then show ?thesis by (rule tidy_file_parent) simp
  qed
  ultimately show ?thesis by (auto simp: list_ex_iff)
qed

lemma report_for_tier_tidy:
  assumes "list_all tidy_file listing"
  shows "report_for_tier listing em names (covered_directories_of listing em) b = Some (tier_report em (uncovered listing em names) b)"
proof -
  let ?cov = "covered_directories_of listing em"
  let ?c = "\<lambda>p. list_ex (\<lambda>lock. prefix (path_names (path_parent lock)) (path_names (path_parent p))) (matching_paths listing (supported_locks em))"
  have "has_covered_ancestor (path_parent p) ?cov = Some (?c p)" if "p \<in> set (matching_paths listing names)" for p
  proof -
    have "tidy_file p" using that assms matching_paths_subset by (auto simp: list_all_iff)
    then obtain ns n where p: "list_all plain_name (ns @ [n])" "path_parent p = tidy_path ns" "path_names (path_parent p) = ns"
      by (rule tidy_file_parent)
    have "covers ?cov ns \<longleftrightarrow> ?c p"
      unfolding covers_def p(3) using covered_directories_find [OF assms, of em] by (auto simp: list_ex_iff simp del: not_None_eq)
    with has_covered_ancestor_tidy [of ns ?cov] p(1,2) show ?thesis by simp
  qed
  then have "list_all (\<lambda>p. has_covered_ancestor (path_parent p) ?cov = Some (?c p)) (matching_paths listing names)" by (simp add: list_all_iff)
  from report_for_tier_exact [OF this] show ?thesis by (simp add: uncovered_def)
qed

definition reference_report :: "path list \<Rightarrow> ecosystem_manifest \<Rightarrow> unparsed_report option" where
  "reference_report listing em =
     (case tier_report em (uncovered listing em (unsupported_locks em)) True of
        Some r \<Rightarrow> Some r
      | None \<Rightarrow> tier_report em (uncovered listing em (loose_manifests em)) False)"

lemma ecosystem_report_tidy: "list_all tidy_file listing \<Longrightarrow> ecosystem_report listing em = Some (reference_report listing em)"
  by (simp add: ecosystem_report_def report_for_tier_tidy reference_report_def Let_def split: option.split)

lemma collect_reports_tidy:
  "list_all tidy_file listing \<Longrightarrow> collect_reports listing es = Some (List.map_filter (reference_report listing) es)"
  by (induction es) (simp_all add: ecosystem_report_tidy List.map_filter_simps split: option.split)

lemma sort_key_sorted: "sorted (map f xs) \<Longrightarrow> sort_key f xs = xs"
  by (induction xs) (simp_all add: insort_is_Cons)

lemma reference_report_ecosystem: "reference_report listing e = Some r \<Longrightarrow> um_ecosystem r = em_ecosystem e"
  by (auto simp: reference_report_def tier_report_def split: option.splits if_splits)

lemma sorted_reports: "sorted (map em_ecosystem es) \<Longrightarrow> sorted (map um_ecosystem (List.map_filter (reference_report listing) es))"
proof (induction es)
  case Nil
  then show ?case by (simp add: List.map_filter_simps)
next
  case (Cons e es)
  have "em_ecosystem e \<le> um_ecosystem r" if "r \<in> set (List.map_filter (reference_report listing) es)" for r
    using that Cons.prems reference_report_ecosystem [of listing] by (fastforce simp: List.map_filter_def)
  with Cons show ?case by (auto simp: List.map_filter_simps dest: reference_report_ecosystem split: option.split)
qed

section \<open>Properties\<close>

text \<open>C29: On every index of a tree the report of unread manifests returns, and is exactly this: one entry per ecosystem, in
  order, for the lockfiles bomwerk cannot read - or, where there are none, the loose manifests - that have no supported
  lockfile in their directory or above it and do not lie in an installed dependency tree; the entry names the most
  frequent file name, the least on a tie, with all its paths.\<close>

theorem unparsed_manifests_exact:
  assumes "list_all tidy_file listing"
  shows "find_unparsed_manifests listing = Some (List.map_filter (reference_report listing) ecosystem_manifests)"
proof -
  have "sorted (map em_ecosystem ecosystem_manifests)" by code_simp
  from sort_key_sorted [OF sorted_reports [OF this]] show ?thesis
    by (simp add: find_unparsed_manifests_def collect_reports_tidy [OF assms])
qed

theorem unparsed_manifests_exact_witness:
  "find_unparsed_manifests [''a/Cargo.toml'', ''b/Cargo.lock'', ''b/c/Cargo.toml'', ''bun.lock'', ''package.json''] =
    Some [\<lparr>um_ecosystem = ''cargo'', um_filename = ''Cargo.toml'', um_paths = [''a/Cargo.toml''], um_is_lockfile = False\<rparr>,
      \<lparr>um_ecosystem = ''npm'', um_filename = ''bun.lock'', um_paths = [''bun.lock''], um_is_lockfile = True\<rparr>]"
proof -
  have "list_all tidy_file [''a/Cargo.toml'', ''b/Cargo.lock'', ''b/c/Cargo.toml'', ''bun.lock'', ''package.json'']" by code_simp
  note unparsed_manifests_exact [OF this]
  also have "List.map_filter (reference_report [''a/Cargo.toml'', ''b/Cargo.lock'', ''b/c/Cargo.toml'', ''bun.lock'', ''package.json'']) ecosystem_manifests =
    [\<lparr>um_ecosystem = ''cargo'', um_filename = ''Cargo.toml'', um_paths = [''a/Cargo.toml''], um_is_lockfile = False\<rparr>,
      \<lparr>um_ecosystem = ''npm'', um_filename = ''bun.lock'', um_paths = [''bun.lock''], um_is_lockfile = True\<rparr>]" by code_simp
  finally show ?thesis .
qed

end
