(* ===== verification/File_Index.thy ===== *)
theory File_Index
  imports Manifest_Names
begin

text \<open>
  \<open>core/file_index.hpp\<close>, \<open>core/file_index.cpp\<close>, \<open>core/manifest_walk.cpp\<close>: the one walk over the scanned tree, the scope
  rules shared with producers that do not walk, and the bounded reading of the manifests it finds. What the directory
  iterators of the operating system report is a tree: the entries of a directory in the order they are returned, and
  \<open>Walk_Stops\<close> where advancing to the next entry fails. An iterator that reports an error equals the end iterator,
  so the loop ends there.
\<close>

section \<open>Directories\<close>

datatype node =
    Folder "(string \<times> node) list"
  | Linked_Folder "(string \<times> node) list"
  | Regular
  | Special
  | Unknown
  | Walk_Stops

record scan_rules =
  excluded_names :: "string set"
  excluded_subtrees :: path_set
  included_subtrees :: path_set

section \<open>Scope\<close>

definition path_elements :: "path \<Rightarrow> string list" where
  "path_elements p = (if path_absolute p then [''/''] else []) @ path_names p"

fun elements_within :: "string list \<Rightarrow> string list \<Rightarrow> bool" where
  "elements_within candidate [] = True"
| "elements_within [] (p # prefix_rest) = False"
| "elements_within (c # candidate) (p # prefix_rest) = (c = p \<and> elements_within candidate prefix_rest)"

definition path_is_within :: "path \<Rightarrow> path \<Rightarrow> bool" where
  "path_is_within candidate prefix_path = elements_within (path_elements candidate) (path_elements prefix_path)"

definition directory_reaches_include :: "path \<Rightarrow> path_set \<Rightarrow> bool" where
  "directory_reaches_include relative_dir included =
     list_ex (\<lambda>included_subtree. path_is_within included_subtree relative_dir \<or> path_is_within relative_dir included_subtree)
       (path_set_paths included)"

definition file_is_included :: "path \<Rightarrow> path_set \<Rightarrow> bool" where
  "file_is_included relative_path included = list_ex (path_is_within relative_path) (path_set_paths included)"

definition path_in_scan_scope :: "path \<Rightarrow> path_set \<Rightarrow> path_set \<Rightarrow> bool" where
  "path_in_scan_scope relative_path excluded included =
     (if list_ex (path_is_within relative_path) (path_set_paths excluded) then False
      else if included = [] then True
      else file_is_included relative_path included)"

section \<open>The walk\<close>

text \<open>The two nested loops that look for a manifest in a directory about to be skipped.\<close>

fun nested_manifest :: "(string \<times> node) list \<Rightarrow> bool" where
  "nested_manifest [] = False"
| "nested_manifest ((name, n) # rest) =
     (if n = Walk_Stops then False
      else if n = Regular \<and> name \<in> default_manifest_names then True
      else nested_manifest rest)"

fun may_hide_a_manifest :: "(string \<times> node) list \<Rightarrow> bool" where
  "may_hide_a_manifest [] = False"
| "may_hide_a_manifest ((name, n) # rest) =
     (if n = Walk_Stops then False
      else if n = Regular \<and> name \<in> default_manifest_names then True
      else case n of
          Folder entries \<Rightarrow> if nested_manifest entries then True else may_hide_a_manifest rest
        | Linked_Folder entries \<Rightarrow> if nested_manifest entries then True else may_hide_a_manifest rest
        | _ \<Rightarrow> may_hide_a_manifest rest)"

type_synonym file_index = "path list"

text \<open>What happens at a directory: whether the walk goes into it.\<close>

definition enter_directory :: "path \<Rightarrow> scan_rules \<Rightarrow> path \<Rightarrow> (string \<times> node) list \<Rightarrow> file_index result \<Rightarrow> bool \<times> file_index result" where
  "enter_directory root rules entry_path entries r =
     (let entry_name = path_filename entry_path in
      if entry_name \<in> excluded_names rules
      then (False, if entry_name \<in> collision_prone_excluded_dir_names \<and> may_hide_a_manifest entries
        then warn kBuildOutputDirectoryHoldsManifest (''directory walk: skipped '' @ CHR 0x27 # lexically_relative entry_path root @ CHR 0x27 #
          '' as a build-output directory, but it holds a recognized manifest file within two levels: if this is real source rather than build output, rerun with -A/--all or configure [scan] include for this path'') [] [] r
        else r)
      else if excluded_subtrees rules \<noteq> [] \<or> included_subtrees rules \<noteq> []
      then
        let relative_dir = lexically_normal (lexically_relative entry_path root) in
        if omap_find (excluded_subtrees rules) (path_key relative_dir) \<noteq> None then (False, r)
        else if included_subtrees rules \<noteq> [] \<and> \<not> directory_reaches_include relative_dir (included_subtrees rules) then (False, r)
        else (True, r)
      else (True, r))"

definition index_file :: "path \<Rightarrow> scan_rules \<Rightarrow> path \<Rightarrow> file_index result \<Rightarrow> file_index result" where
  "index_file root rules entry_path r =
     (let relative_path = lexically_relative entry_path root in
      if included_subtrees rules \<noteq> [] \<and> \<not> file_is_included relative_path (included_subtrees rules) then r
      else r\<lparr>result_value := result_value r @ [relative_path]\<rparr>)"

text \<open>The loop over the recursive iterator, in the directory \<open>dir\<close>: the flag tells whether the walk goes on.\<close>

fun walk_entries :: "path \<Rightarrow> scan_rules \<Rightarrow> path \<Rightarrow> (string \<times> node) list \<Rightarrow> file_index result \<Rightarrow> bool \<times> file_index result" where
  "walk_entries root rules dir [] r = (True, r)"
| "walk_entries root rules dir ((name, Walk_Stops) # rest) r = (False, r)"
| "walk_entries root rules dir ((name, Folder entries) # rest) r =
     (let entry_path = path_append dir name;
          (enter, r) = enter_directory root rules entry_path entries r;
          (goes_on, r) = (if enter then walk_entries root rules entry_path entries r else (True, r))
      in if goes_on then walk_entries root rules dir rest r else (False, r))"
| "walk_entries root rules dir ((name, Linked_Folder entries) # rest) r =
     (let (enter, r) = enter_directory root rules (path_append dir name) entries r
      in walk_entries root rules dir rest r)"
| "walk_entries root rules dir ((name, Regular) # rest) r =
     walk_entries root rules dir rest (index_file root rules (path_append dir name) r)"
| "walk_entries root rules dir ((name, Special) # rest) r = walk_entries root rules dir rest r"
| "walk_entries root rules dir ((name, Unknown) # rest) r = walk_entries root rules dir rest r"

text \<open>The node is what the root path names; a root that is no directory gives an empty index.\<close>

definition build_file_index :: "path \<Rightarrow> node \<Rightarrow> scan_rules \<Rightarrow> file_index result" where
  "build_file_index root root_node rules =
     (case root_node of
        Folder entries \<Rightarrow> let (_, r) = walk_entries root rules root entries (new_result []) in r\<lparr>result_value := sort_key path_key (result_value r)\<rparr>
      | Linked_Folder entries \<Rightarrow> let (_, r) = walk_entries root rules root entries (new_result []) in r\<lparr>result_value := sort_key path_key (result_value r)\<rparr>
      | _ \<Rightarrow> new_result [])"

section \<open>Reading the manifests of an index\<close>

record walked_manifest_file =
  wm_label :: string
  wm_bytes :: string
  wm_truncated :: bool

record manifest_walk_options =
  max_scanned_files :: nat
  max_file_bytes :: nat
  producer_name :: string
  file_label :: string
  truncate_at_last_newline :: bool

definition last_newline_prefix :: "string \<Rightarrow> string" where
  "last_newline_prefix s = (case rfind_char CHR 0x0A s of None \<Rightarrow> [] | Some last_newline \<Rightarrow> take (last_newline + 1) s)"

definition walk_manifest_file :: "file_system \<Rightarrow> path \<Rightarrow> manifest_walk_options \<Rightarrow> path \<Rightarrow> walked_manifest_file list result \<Rightarrow> walked_manifest_file list result" where
  "walk_manifest_file fsys root opts relative_path r =
     (let file_read = read_file_bounded (fs_file fsys (path_append root relative_path)) (max_file_bytes opts) in
      if \<not> readable file_read
      then warn kUnreadableFile (producer_name opts @ '': unreadable file: '' @ relative_path) (producer_name opts) [] r
      else if truncated file_read
      then
        if \<not> truncate_at_last_newline opts
        then warn kFileSizeLimitExceeded (producer_name opts @ '': file exceeds size limit, skipped: '' @ relative_path) (producer_name opts) [] r
        else
          let r = warn kFileSizeLimitExceeded (producer_name opts @ '': file exceeds size limit, parsing first part only: '' @ relative_path)
            (producer_name opts) [] r
          in r\<lparr>result_value := result_value r @
            [\<lparr>wm_label = relative_path, wm_bytes = last_newline_prefix (bytes file_read), wm_truncated = True\<rparr>]\<rparr>
      else r\<lparr>result_value := result_value r @ [\<lparr>wm_label = relative_path, wm_bytes = bytes file_read, wm_truncated = False\<rparr>]\<rparr>)"

fun walk_manifests :: "file_system \<Rightarrow> path \<Rightarrow> string \<Rightarrow> manifest_walk_options \<Rightarrow> path list \<Rightarrow> nat \<Rightarrow> walked_manifest_file list result \<Rightarrow>
    walked_manifest_file list result" where
  "walk_manifests fsys root filename opts [] scanned_file_count r = r"
| "walk_manifests fsys root filename opts (relative_path # rest) scanned_file_count r =
     (if path_filename relative_path \<noteq> filename then walk_manifests fsys root filename opts rest scanned_file_count r
      else if scanned_file_count \<ge> max_scanned_files opts
      then warn kFileLimitReached (producer_name opts @ '': file limit reached; remaining '' @ file_label opts @ '' files skipped'') (producer_name opts) [] r
      else walk_manifests fsys root filename opts rest (scanned_file_count + 1) (walk_manifest_file fsys root opts relative_path r))"

definition walk_bounded_manifest_files :: "file_system \<Rightarrow> file_index \<Rightarrow> path \<Rightarrow> string \<Rightarrow> manifest_walk_options \<Rightarrow> walked_manifest_file list result" where
  "walk_bounded_manifest_files fsys index root filename opts =
     walk_manifests fsys root filename opts index 0 (new_result [])"

section \<open>Paths below the root\<close>

lemma elements_within_prefix: "elements_within c p \<longleftrightarrow> prefix p c"
  by (induction c p rule: elements_within.induct) auto

lemma path_elements_tidy: "list_all plain_name ns \<Longrightarrow> path_elements (tidy_path ns) = ns"
  using plain_names_ok [of ns] by (simp add: path_elements_def tidy_path_def)

lemma path_names_dirs: "path_names p = path_dirs p \<or> path_names p = path_dirs p @ [[]]"
proof (cases "path_names p" rule: rev_cases)
  case (snoc ns n)
  have "names_ok (path_names p)" by simp
  then have "list_all (\<lambda>n. n \<noteq> []) ns" by (simp add: names_ok_def snoc)
  then have "filter (\<lambda>n. n \<noteq> []) ns = ns" by (simp add: filter_id_conv list_all_iff)
  then show ?thesis by (cases "n = []") (simp_all add: path_dirs_def snoc)
qed (simp add: path_dirs_def)

text \<open>The path of an entry as the iterator builds it, and what is below the root of it.\<close>

definition entry_at :: "path \<Rightarrow> string list \<Rightarrow> path" where
  "entry_at root ns = foldl path_append root ns"

lemma entry_at_snoc [simp]: "path_append (entry_at root ns) n = entry_at root (ns @ [n])"
  by (simp add: entry_at_def)

lemma path_filename_append:
  assumes "p \<noteq> []" "n \<noteq> []" "CHR ''/'' \<notin> set n"
  shows "path_filename (path_append p n) = n"
proof -
  have join: "path_filename (q @ CHR ''/'' # n) = n" for q by (simp add: path_filename_def split_on_snoc_sep [OF assms(3)])
  have rel: "\<not> path_absolute n" using assms(2,3) by (cases n) (auto simp: path_absolute_iff)
  show ?thesis
  proof (cases "path_filename p = []")
    case True
    then obtain q where "p = q @ [CHR ''/'']" using assms(1) by (cases p rule: rev_cases) (auto simp: path_filename_eq_Nil)
    then show ?thesis using rel True join [of q] by (simp add: path_append_def)
  next
    case False
    then show ?thesis using rel join by (simp add: path_append_def)
  qed
qed

lemma entry_at_names:
  assumes "root \<noteq> []" "list_all plain_name ns" "ns \<noteq> []"
  shows "path_names (entry_at root ns) = path_dirs root @ ns \<and> path_absolute (entry_at root ns) = path_absolute root \<and>
    path_filename (entry_at root ns) = last ns \<and> entry_at root ns \<noteq> []"
  using assms(2,3)
proof (induction ns rule: rev_induct)
  case Nil
  then show ?case by simp
next
  case (snoc n ns)
  have n: "n \<noteq> []" "CHR ''/'' \<notin> set n" using snoc.prems by (simp_all add: plain_name_def)
  then have rel: "\<not> path_absolute n" by (cases n) (auto simp: path_absolute_iff)
  have "path_names n = [n]"
    using n by (cases n) (auto simp: path_names_def split_on_simple)
  define p where "p = entry_at root ns"
  have p: "p \<noteq> [] \<and> path_dirs p = path_dirs root @ ns \<and> path_absolute p = path_absolute root"
  proof (cases "ns = []")
    case True
    then show ?thesis using assms(1) by (simp add: p_def entry_at_def)
  next
    case False
    have ns: "list_all plain_name ns" using snoc.prems by simp
    then have "filter (\<lambda>n. n \<noteq> []) (path_dirs root @ ns) = path_dirs root @ ns"
      by (simp add: path_dirs_def plain_filter)
    then show ?thesis using snoc.IH [OF ns False] by (simp add: p_def path_dirs_def)
  qed
  have "path_filename (path_append p n) = n" using p n by (simp add: path_filename_append)
  moreover have "entry_at root (ns @ [n]) = path_append p n" by (simp add: p_def)
  moreover have "path_append p n \<noteq> []" using n(1) by (simp add: path_append_def)
  ultimately show ?case
    using path_names_append [OF n(1) rel, of p] path_absolute_append [OF rel, of p] p \<open>path_names n = [n]\<close> by simp
qed

lemma mismatch_below: "ns \<noteq> [] \<Longrightarrow> hd ns \<noteq> [] \<Longrightarrow> mismatch (ds @ ns) ds = (ns, []) \<and> mismatch (ds @ ns) (ds @ [[]]) = (ns, [[]])"
  by (induction ds) (auto simp: neq_Nil_conv)

lemma relative_entry:
  assumes "root \<noteq> []" "list_all plain_name ns" "ns \<noteq> []"
  shows "lexically_relative (entry_at root ns) root = tidy_path ns"
proof -
  note e = entry_at_names [OF assms]
  have hd: "hd ns \<noteq> []" using assms(2,3) by (cases ns) (simp_all add: plain_name_def)
  have "fst (mismatch (path_names (entry_at root ns)) (path_names root)) = ns \<and>
      climb (snd (mismatch (path_names (entry_at root ns)) (path_names root))) = 0"
    using path_names_dirs [of root] mismatch_below [OF assms(3) hd, of "path_dirs root"] e by (auto simp: name_climb_def)
  then show ?thesis
    using e hd assms(3) foldl_path_append_key [OF plain_names_ok [OF assms(2)] assms(3)]
    by (simp add: lexically_relative_def split_beta Let_def tidy_path_def)
qed

lemma lexically_normal_tidy: "list_all plain_name ns \<Longrightarrow> ns \<noteq> [] \<Longrightarrow> lexically_normal (tidy_path ns) = tidy_path ns"
proof -
  assume ns: "list_all plain_name ns" "ns \<noteq> []"
  then have "normal_kept False ns" unfolding normal_kept_def by (intro exI [of _ 0] exI [of _ ns]) simp
  then have "normal_names False ns = (ns, False)" by (rule normal_names_kept)
  moreover have "tidy_path ns \<noteq> []" "\<not> path_absolute (tidy_path ns)" "path_names (tidy_path ns) = ns"
    using ns plain_names_ok [OF ns(1)] by (simp_all add: tidy_path_eq_Nil) (simp add: tidy_path_def)
  ultimately show ?thesis using ns by (simp add: lexically_normal_def tidy_path_def path_of_key_def)
qed

section \<open>Scope by names\<close>

text \<open>A set of subtrees covers a path iff it has a directory above it, or the path itself.\<close>

lemma subtree_paths:
  assumes "roots_ok roots"
  shows "p \<in> set (path_set_paths roots) \<longleftrightarrow>
    (\<exists>ms. p = tidy_path ms \<and> list_all plain_name ms \<and> ms \<noteq> [] \<and> omap_find roots (False, ms) \<noteq> None)"
proof -
  have find: "omap_find roots k = map_of roots k" for k using assms by (simp add: roots_ok_def omap_find_map_of)
  have distinct: "distinct (map fst roots)" using assms by (simp add: roots_ok_def omap_ok_def strict_sorted_iff)
  have entry: "r = tidy_path (snd k) \<and> \<not> fst k \<and> list_all plain_name (snd k) \<and> snd k \<noteq> []" if "(k, r) \<in> set roots" for k r
    using assms that by (cases k) (auto simp: roots_ok_def list_all_iff tidy_path_def)
  show ?thesis
  proof
    assume "p \<in> set (path_set_paths roots)"
    then obtain k where "(k, p) \<in> set roots" by (auto simp: path_set_paths_def)
    moreover from this have "map_of roots k = Some p" using distinct by simp
    ultimately show "\<exists>ms. p = tidy_path ms \<and> list_all plain_name ms \<and> ms \<noteq> [] \<and> omap_find roots (False, ms) \<noteq> None"
      using entry find by (intro exI [of _ "snd k"]) (metis option.distinct(1) prod.collapse)
  next
    assume "\<exists>ms. p = tidy_path ms \<and> list_all plain_name ms \<and> ms \<noteq> [] \<and> omap_find roots (False, ms) \<noteq> None"
    then obtain ms r where ms: "p = tidy_path ms" "map_of roots (False, ms) = Some r" using find by auto
    then have "((False, ms), r) \<in> set roots" by (simp add: map_of_SomeD)
    with entry ms show "p \<in> set (path_set_paths roots)" by (force simp: path_set_paths_def)
  qed
qed

lemma within_subtrees:
  assumes "roots_ok roots" "list_all plain_name ns"
  shows "list_ex (path_is_within (tidy_path ns)) (path_set_paths roots) \<longleftrightarrow> covers roots ns"
proof -
  have "list_ex (path_is_within (tidy_path ns)) (path_set_paths roots) \<longleftrightarrow>
      (\<exists>ms. list_all plain_name ms \<and> ms \<noteq> [] \<and> omap_find roots (False, ms) \<noteq> None \<and> prefix ms ns)"
    unfolding list_ex_iff using subtree_paths [OF assms(1)] assms(2)
    by (metis elements_within_prefix path_elements_tidy path_is_within_def)
  also have "\<dots> \<longleftrightarrow> covers roots ns"
    using roots_ok_find [OF assms(1), of "(False, _)"] by (fastforce simp: covers_def list_ex_iff)
  finally show ?thesis .
qed

lemma reaches_subtrees:
  assumes "roots_ok roots" "list_all plain_name ds" "covers roots (ds @ ms)"
  shows "directory_reaches_include (tidy_path ds) roots"
proof -
  obtain is' where i: "prefix is' (ds @ ms)" "omap_find roots (False, is') \<noteq> None"
    using assms(3) by (auto simp: covers_def list_ex_iff)
  then have plain: "list_all plain_name is'" "is' \<noteq> []" using roots_ok_find [OF assms(1), of "(False, is')"] by auto
  then have "tidy_path is' \<in> set (path_set_paths roots)" using subtree_paths [OF assms(1)] i(2) by blast
  moreover have "prefix is' ds \<or> prefix ds is'" using i(1) prefix_same_cases [of is' "ds @ ms" ds] by auto
  then have "path_is_within (tidy_path is') (tidy_path ds) \<or> path_is_within (tidy_path ds) (tidy_path is')"
    using plain assms(2) by (auto simp: path_is_within_def elements_within_prefix path_elements_tidy)
  ultimately show ?thesis unfolding directory_reaches_include_def list_ex_iff by blast
qed

section \<open>What the walk finds\<close>

text \<open>The regular files of a tree, by name; and a tree as an operating system reports it when no step fails.\<close>

fun tree_files :: "string list \<Rightarrow> (string \<times> node) list \<Rightarrow> string list list" where
  "tree_files dn [] = []"
| "tree_files dn ((name, Folder entries) # rest) = tree_files (dn @ [name]) entries @ tree_files dn rest"
| "tree_files dn ((name, Regular) # rest) = (dn @ [name]) # tree_files dn rest"
| "tree_files dn (e # rest) = tree_files dn rest"

fun tree_ok :: "(string \<times> node) list \<Rightarrow> bool" where
  "tree_ok [] = True"
| "tree_ok ((name, Walk_Stops) # rest) = False"
| "tree_ok ((name, Folder entries) # rest) = (plain_name name \<and> tree_ok entries \<and> tree_ok rest)"
| "tree_ok ((name, n) # rest) = (plain_name name \<and> tree_ok rest)"

definition entered :: "scan_rules \<Rightarrow> string list \<Rightarrow> bool" where
  "entered rules ds \<longleftrightarrow> last ds \<notin> excluded_names rules \<and> omap_find (excluded_subtrees rules) (False, ds) = None"

text \<open>In scope: no directory on the way is left out, and the file lies in an included subtree where some are given.\<close>

definition in_scope :: "scan_rules \<Rightarrow> string list \<Rightarrow> bool" where
  "in_scope rules ns \<longleftrightarrow> list_all (\<lambda>ds. ds = [] \<or> entered rules ds) (prefixes (butlast ns)) \<and>
     (included_subtrees rules = [] \<or> covers (included_subtrees rules) ns)"

definition rules_ok :: "scan_rules \<Rightarrow> bool" where
  "rules_ok rules \<longleftrightarrow> roots_ok (excluded_subtrees rules) \<and> roots_ok (included_subtrees rules)"

lemma tree_files_below: "ns \<in> set (tree_files dn entries) \<Longrightarrow> \<exists>ms n. ns = dn @ ms @ [n]"
proof (induction dn entries rule: tree_files.induct)
  case (2 dn name entries rest)
  from "2.prems" consider "ns \<in> set (tree_files (dn @ [name]) entries)" | "ns \<in> set (tree_files dn rest)" by auto
  then show ?case
  proof cases
    case 1
    then obtain ms n where "ns = (dn @ [name]) @ ms @ [n]" using "2.IH"(1) by blast
    then show ?thesis by (intro exI [of _ "name # ms"] exI [of _ n]) simp
  qed (use "2.IH"(2) in blast)
qed auto

lemma tree_files_plain: "tree_ok entries \<Longrightarrow> list_all plain_name dn \<Longrightarrow> ns \<in> set (tree_files dn entries) \<Longrightarrow> list_all plain_name ns"
  by (induction dn entries rule: tree_files.induct) auto

lemma below_prefix: "prefix ds dn \<Longrightarrow> ns = dn @ ms @ [n] \<Longrightarrow> ds \<in> set (prefixes (butlast ns))"
  by (auto simp: butlast_append prefix_def)

lemma enter_directory_eq:
  assumes "root \<noteq> []" "list_all plain_name ds" "ds \<noteq> []"
  shows "fst (enter_directory root rules (entry_at root ds) entries r) \<longleftrightarrow>
      entered rules ds \<and> (included_subtrees rules = [] \<or> directory_reaches_include (tidy_path ds) (included_subtrees rules))"
    "result_value (snd (enter_directory root rules (entry_at root ds) entries r)) = result_value r"
proof -
  have key: "path_key (tidy_path ds) = (False, ds)" using assms(2) by simp
  note simps = enter_directory_def entered_def key relative_entry [OF assms] lexically_normal_tidy [OF assms(2,3)]
    entry_at_names [OF assms]
  show "fst (enter_directory root rules (entry_at root ds) entries r) \<longleftrightarrow>
      entered rules ds \<and> (included_subtrees rules = [] \<or> directory_reaches_include (tidy_path ds) (included_subtrees rules))"
    by (auto simp: simps Let_def)
  show "result_value (snd (enter_directory root rules (entry_at root ds) entries r)) = result_value r"
    by (simp add: simps Let_def warn_def)
qed

lemma index_file_eq:
  assumes "root \<noteq> []" "list_all plain_name ns" "ns \<noteq> []" "roots_ok (included_subtrees rules)"
  shows "result_value (index_file root rules (entry_at root ns) r) = result_value r @
    (if included_subtrees rules = [] \<or> covers (included_subtrees rules) ns then [tidy_path ns] else [])"
  using within_subtrees [OF assms(4,2)] by (simp add: index_file_def relative_entry [OF assms(1-3)] file_is_included_def)

text \<open>Nothing below a directory that is not entered is in scope.\<close>

lemma not_entered_out_of_scope:
  assumes "rules_ok rules" "list_all plain_name ds" "ds \<noteq> []"
    and "\<not> (entered rules ds \<and> (included_subtrees rules = [] \<or> directory_reaches_include (tidy_path ds) (included_subtrees rules)))"
    and "ns \<in> set (tree_files ds entries)"
  shows "\<not> in_scope rules ns"
proof
  assume scope: "in_scope rules ns"
  obtain ms n where ns: "ns = ds @ ms @ [n]" using tree_files_below [OF assms(5)] by blast
  have "ds \<in> set (prefixes (butlast ns))" by (rule below_prefix [OF _ ns]) simp
  with scope assms(3) have "entered rules ds" by (auto simp: in_scope_def list_all_iff)
  with assms(4) have inc: "included_subtrees rules \<noteq> []" "\<not> directory_reaches_include (tidy_path ds) (included_subtrees rules)" by auto
  with scope have "covers (included_subtrees rules) (ds @ ms @ [n])" by (simp add: in_scope_def ns)
  with reaches_subtrees [OF _ assms(2)] inc(2) assms(1) show False by (simp add: rules_ok_def)
qed

lemma index_walk_eq:
  assumes "root \<noteq> []" "rules_ok rules"
  shows "tree_ok entries \<Longrightarrow> list_all plain_name dn \<Longrightarrow> list_all (\<lambda>ds. ds = [] \<or> entered rules ds) (prefixes dn) \<Longrightarrow>
    fst (walk_entries root rules (entry_at root dn) entries r) \<and>
    result_value (snd (walk_entries root rules (entry_at root dn) entries r)) =
      result_value r @ map tidy_path (filter (in_scope rules) (tree_files dn entries))"
proof (induction dn entries arbitrary: r rule: tree_files.induct [case_names empty below regular blocked other])
  case (empty dn)
  then show ?case by simp
next
  case (below dn name entries rest)
  let ?ds = "dn @ [name]"
  have ds: "list_all plain_name ?ds" "?ds \<noteq> []" and ok: "tree_ok entries" "tree_ok rest" using below.prems by simp_all
  obtain enter r1 where e: "enter_directory root rules (entry_at root ?ds) entries r = (enter, r1)" by fastforce
  have enter: "enter \<longleftrightarrow> entered rules ?ds \<and> (included_subtrees rules = [] \<or> directory_reaches_include (tidy_path ?ds) (included_subtrees rules))"
    and r1: "result_value r1 = result_value r"
    using enter_directory_eq [OF assms(1) ds, of rules entries r] by (simp_all add: e)
  show ?case
  proof (cases enter)
    case True
    then have "list_all (\<lambda>ds. ds = [] \<or> entered rules ds) (prefixes ?ds)" using below.prems(3) enter by (simp add: list_all_iff)
    from below.IH(1) [OF ok(1) ds(1) this, of r1] obtain r2 where
      w: "walk_entries root rules (entry_at root ?ds) entries r1 = (True, r2)"
         "result_value r2 = result_value r1 @ map tidy_path (filter (in_scope rules) (tree_files ?ds entries))"
      by (metis prod.collapse)
    from below.IH(2) [OF ok(2) below.prems(2,3), of r2] w r1 True show ?thesis by (simp add: e)
  next
    case False
    have "filter (in_scope rules) (tree_files ?ds entries) = []"
      using not_entered_out_of_scope [OF assms(2) ds] False enter by (auto simp: filter_empty_conv)
    with below.IH(2) [OF ok(2) below.prems(2,3), of r1] r1 False show ?thesis by (simp add: e)
  qed
next
  case (regular dn name rest)
  let ?ns = "dn @ [name]"
  have ns: "list_all plain_name ?ns" "?ns \<noteq> []" and ok: "tree_ok rest" using regular.prems by simp_all
  have inc: "roots_ok (included_subtrees rules)" using assms(2) by (simp add: rules_ok_def)
  have "in_scope rules ?ns \<longleftrightarrow> included_subtrees rules = [] \<or> covers (included_subtrees rules) ?ns"
    using regular.prems(3) by (simp add: in_scope_def)
  with regular.IH [OF ok regular.prems(2,3), of "index_file root rules (entry_at root ?ns) r"] index_file_eq [OF assms(1) ns inc, of r]
  show ?case by simp
next
  case (blocked dn name entries rest)
  have "list_all plain_name (dn @ [name])" using blocked.prems by simp
  then have "result_value (snd (enter_directory root rules (entry_at root (dn @ [name])) entries r)) = result_value r"
    by (intro enter_directory_eq(2) assms(1)) simp_all
  with blocked show ?case by (simp add: split_beta)
qed simp_all

lemma path_less_tidy: "list_all plain_name ns \<Longrightarrow> list_all plain_name ms \<Longrightarrow> path_key (tidy_path ns) \<le> path_key (tidy_path ms) \<longleftrightarrow> ns \<le> ms"
  by (auto simp: less_eq_prod_def)

lemma sort_tidy:
  assumes "list_all (list_all plain_name) nss"
  shows "sort_key path_key (map tidy_path nss) = map tidy_path (sort nss)"
proof (rule sort_key_inj_key_eq)
  show "mset (map tidy_path nss) = mset (map tidy_path (sort nss))" by simp
  have key: "path_key (tidy_path ns) = (False, ns)" if "ns \<in> set nss" for ns using assms that by (simp add: list_all_iff)
  then show "inj_on path_key (set (map tidy_path nss))" by (auto simp: inj_on_def)
  have "map path_key (map tidy_path (sort nss)) = map (Pair False) (sort nss)" using key by simp
  moreover have "sorted (map (Pair False) (sort nss))" by (simp add: sorted_map)
  ultimately show "sorted (map path_key (map tidy_path (sort nss)))" by (simp only:)
qed

section \<open>Properties\<close>

text \<open>C26: When no step of the walk fails, the index is exactly the regular files in scope, sorted by name: those with no
  excluded directory name and no excluded subtree on the way and, where subtrees are included, inside one of them. The
  pruning of directories that lead to no included subtree loses nothing, and the order in which the file system
  returns the entries does not matter.\<close>

theorem file_index_exact:
  assumes "root \<noteq> []" "rules_ok rules" "tree_ok entries"
  shows "result_value (build_file_index root (Folder entries) rules) = map tidy_path (sort (filter (in_scope rules) (tree_files [] entries)))"
proof -
  have "list_all (\<lambda>ds. ds = [] \<or> entered rules ds) (prefixes [])" by simp
  from index_walk_eq [OF assms(1,2,3) _ this, of "new_result []"]
  have "result_value (snd (walk_entries root rules root entries (new_result []))) = map tidy_path (filter (in_scope rules) (tree_files [] entries))"
    by (simp add: entry_at_def new_result_def)
  moreover have "list_all (list_all plain_name) (filter (in_scope rules) (tree_files [] entries))"
    using tree_files_plain [OF assms(3), of "[]"] by (auto simp: list_all_iff)
  ultimately show ?thesis by (simp add: build_file_index_def split_beta sort_tidy)
qed

definition sample_tree :: "(string \<times> node) list" where
  "sample_tree = [(''src'', Folder [(''b.c'', Regular), (''a.c'', Regular)]), (''build'', Folder [(''Cargo.lock'', Regular)]), (''x.txt'', Regular)]"

definition sample_rules :: scan_rules where
  "sample_rules = \<lparr>excluded_names = default_excluded_dir_names, excluded_subtrees = [], included_subtrees = []\<rparr>"

theorem file_index_exact_witness:
  "result_value (build_file_index ''/r'' (Folder sample_tree) sample_rules) = [''src/a.c'', ''src/b.c'', ''x.txt'']"
proof -
  have "''/r'' \<noteq> []" "rules_ok sample_rules" "tree_ok sample_tree" by code_simp+
  from file_index_exact [OF this] show ?thesis by simp code_simp
qed

text \<open>The scope test for producers that do not walk agrees with the walk: a path is in scope for the walk iff no directory
  on the way has an excluded name and the test accepts it - except for a path that is itself an excluded subtree, which
  the test refuses while the walk, which only asks directories, still lists it when it is a file.\<close>

theorem scan_scope_agrees:
  assumes "rules_ok rules" "list_all plain_name ns" "ns \<noteq> []"
  shows "in_scope rules ns \<longleftrightarrow>
    list_all (\<lambda>name. name \<notin> excluded_names rules) (butlast ns) \<and>
    (path_in_scan_scope (tidy_path ns) (excluded_subtrees rules) (included_subtrees rules) \<or>
     omap_find (excluded_subtrees rules) (False, ns) \<noteq> None \<and> \<not> covers (excluded_subtrees rules) (butlast ns) \<and>
       (included_subtrees rules = [] \<or> covers (included_subtrees rules) ns))"
proof -
  let ?ex = "excluded_subtrees rules"
  have ex: "roots_ok ?ex" and inc: "roots_ok (included_subtrees rules)" using assms(1) by (simp_all add: rules_ok_def)
  have names: "list_all (\<lambda>ds. ds = [] \<or> last ds \<notin> excluded_names rules) (prefixes ms) \<longleftrightarrow> list_all (\<lambda>name. name \<notin> excluded_names rules) ms" for ms
    by (induction ms rule: rev_induct) auto
  have root: "omap_find ?ex (False, []) = None"
    using roots_ok_find [OF ex, of "(False, [])"] by (cases "omap_find ?ex (False, [])") auto
  have "list_all (\<lambda>ds. ds = [] \<or> entered rules ds) (prefixes (butlast ns)) \<longleftrightarrow>
      list_all (\<lambda>name. name \<notin> excluded_names rules) (butlast ns) \<and> \<not> covers ?ex (butlast ns)"
    unfolding names [symmetric] covers_def entered_def list_all_iff list_ex_iff using root by auto
  moreover obtain ms n where ns: "ns = ms @ [n]" using assms(3) by (cases ns rule: rev_cases) auto
  moreover have "covers ?ex ns \<longleftrightarrow> covers ?ex (butlast ns) \<or> omap_find ?ex (False, ns) \<noteq> None" by (auto simp: covers_def ns)
  ultimately show ?thesis
    using within_subtrees [OF ex assms(2)] within_subtrees [OF inc assms(2)]
    by (auto simp: in_scope_def path_in_scan_scope_def file_is_included_def)
qed

theorem scan_scope_agrees_witness:
  "(let rules = sample_rules\<lparr>excluded_subtrees := path_set_insert ''notes.txt'' []\<rparr> in
    in_scope rules [''notes.txt''] \<and> \<not> path_in_scan_scope ''notes.txt'' (excluded_subtrees rules) [])"
proof -
  let ?rules = "sample_rules\<lparr>excluded_subtrees := path_set_insert ''notes.txt'' []\<rparr>"
  have h: "rules_ok ?rules" "list_all plain_name [''notes.txt'']" "[''notes.txt''] \<noteq> []" by code_simp+
  have "list_all (\<lambda>name. name \<notin> excluded_names ?rules) (butlast [''notes.txt''])"
    "omap_find (excluded_subtrees ?rules) (False, [''notes.txt'']) \<noteq> None \<and> \<not> covers (excluded_subtrees ?rules) (butlast [''notes.txt'']) \<and>
       included_subtrees ?rules = []"
    "\<not> path_in_scan_scope ''notes.txt'' (excluded_subtrees ?rules) []" by code_simp+
  with scan_scope_agrees [OF h] show ?thesis by (simp add: Let_def)
qed

definition walk_warnings_only :: "file_index result \<Rightarrow> bool" where
  "walk_warnings_only r \<longleftrightarrow> list_all (\<lambda>w. warning_code w = kBuildOutputDirectoryHoldsManifest) (result_warnings r) \<and> complete r"

lemma walk_warnings:
  "walk_warnings_only r \<Longrightarrow> walk_warnings_only (snd (walk_entries root rules dir entries r))"
proof (induction root rules dir entries r rule: walk_entries.induct)
  case (3 root rules dir name entries rest r)
  obtain enter r1 where e: "enter_directory root rules (path_append dir name) entries r = (enter, r1)" by fastforce
  have q1: "walk_warnings_only r1"
    using "3.prems" e by (auto simp: enter_directory_def Let_def warn_def walk_warnings_only_def split: if_splits)
  obtain goes_on r2 where w: "(if enter then walk_entries root rules (path_append dir name) entries r1 else (True, r1)) = (goes_on, r2)" by fastforce
  have "walk_warnings_only r2" using "3.IH"(1) [OF refl e [symmetric]] q1 w by (cases enter) auto
  with "3.IH"(2) [OF refl e [symmetric] refl w [symmetric]] show ?case by (cases goes_on) (simp_all add: e w)
next
  case (4 root rules dir name entries rest r)
  obtain enter r1 where e: "enter_directory root rules (path_append dir name) entries r = (enter, r1)" by fastforce
  have "walk_warnings_only r1"
    using "4.prems" e by (auto simp: enter_directory_def Let_def warn_def walk_warnings_only_def split: if_splits)
  with "4.IH" [OF e [symmetric]] show ?case by (simp add: e)
next
  case (5 root rules dir name rest r)
  then show ?case by (simp add: index_file_def Let_def walk_warnings_only_def)
qed simp_all

text \<open>A walk that fails half-way is not told apart from a complete one: the index holds what was met so far and no warning
  about it is given, for every tree.\<close>

theorem walk_failure_is_silent:
  "walk_warnings_only (build_file_index root root_node rules)"
proof -
  have "walk_warnings_only (new_result [])" by (simp add: walk_warnings_only_def new_result_def)
  with walk_warnings show ?thesis
    by (simp add: build_file_index_def split_beta walk_warnings_only_def split: node.split)
qed

definition reads_whole :: "file_system \<Rightarrow> path \<Rightarrow> manifest_walk_options \<Rightarrow> path \<Rightarrow> bool" where
  "reads_whole fsys root opts p \<longleftrightarrow>
     (let b = read_file_bounded (fs_file fsys (path_append root p)) (max_file_bytes opts) in readable b \<and> \<not> truncated b)"

definition whole_manifest :: "file_system \<Rightarrow> path \<Rightarrow> manifest_walk_options \<Rightarrow> path \<Rightarrow> walked_manifest_file" where
  "whole_manifest fsys root opts p =
     \<lparr>wm_label = p, wm_bytes = bytes (read_file_bounded (fs_file fsys (path_append root p)) (max_file_bytes opts)), wm_truncated = False\<rparr>"

text \<open>A file the walk may report: bounded, of the wanted name, cut after a newline if cut at all.\<close>

definition manifest_ok :: "string \<Rightarrow> manifest_walk_options \<Rightarrow> path list \<Rightarrow> walked_manifest_file \<Rightarrow> bool" where
  "manifest_ok filename opts index m \<longleftrightarrow> wm_label m \<in> set index \<and> path_filename (wm_label m) = filename \<and>
     length (wm_bytes m) \<le> max_file_bytes opts \<and>
     (wm_truncated m \<longrightarrow> truncate_at_last_newline opts \<and> (wm_bytes m = [] \<or> last (wm_bytes m) = CHR 0x0A))"

lemma last_newline_prefix: "last_newline_prefix s = [] \<or> last (last_newline_prefix s) = CHR 0x0A"
  "length (last_newline_prefix s) \<le> length s"
proof -
  show "length (last_newline_prefix s) \<le> length s" by (simp add: last_newline_prefix_def split: option.split)
  show "last_newline_prefix s = [] \<or> last (last_newline_prefix s) = CHR 0x0A"
  proof (cases "rfind_char CHR 0x0A s")
    case (Some i)
    then obtain j where "find_char CHR 0x0A (rev s) = Some j" "i = length s - 1 - j" by (auto simp: rfind_pos_def)
    then have "j < length s" "rev s ! j = CHR 0x0A" using find_pos_SomeD [of "\<lambda>c. c = CHR 0x0A" "rev s" j] by simp_all
    then have "i < length s" "s ! i = CHR 0x0A" using \<open>i = length s - 1 - j\<close> by (simp_all add: rev_nth)
    with Some show ?thesis by (simp add: last_newline_prefix_def take_Suc_conv_app_nth)
  qed (simp add: last_newline_prefix_def)
qed

lemma walk_manifest_file_ok:
  assumes "list_all (manifest_ok filename opts index) (result_value r)" "p \<in> set index" "path_filename p = filename"
  shows "list_all (manifest_ok filename opts index) (result_value (walk_manifest_file fsys root opts p r)) \<and>
    length (result_value (walk_manifest_file fsys root opts p r)) \<le> length (result_value r) + 1 \<and>
    complete (walk_manifest_file fsys root opts p r) = complete r \<and>
    (if reads_whole fsys root opts p
     then walk_manifest_file fsys root opts p r = r\<lparr>result_value := result_value r @ [whole_manifest fsys root opts p]\<rparr>
     else result_warnings (walk_manifest_file fsys root opts p r) \<noteq> [])"
proof -
  let ?b = "read_file_bounded (fs_file fsys (path_append root p)) (max_file_bytes opts)"
  have "length (bytes ?b) \<le> max_file_bytes opts" by (auto simp: read_file_bounded_def Let_def split: option.split)
  moreover from this have "length (last_newline_prefix (bytes ?b)) \<le> max_file_bytes opts" using last_newline_prefix(2) order_trans by blast
  ultimately show ?thesis
    using assms last_newline_prefix(1) [of "bytes ?b"]
    by (auto simp: walk_manifest_file_def reads_whole_def whole_manifest_def manifest_ok_def warn_def Let_def)
qed

lemma walk_manifest_file_warnings: "\<exists>ws. result_warnings (walk_manifest_file fsys root opts p r) = result_warnings r @ ws"
  by (simp add: walk_manifest_file_def warn_def Let_def)

lemma walk_manifests_warnings: "result_warnings r \<noteq> [] \<Longrightarrow> result_warnings (walk_manifests fsys root filename opts ps n r) \<noteq> []"
proof (induction ps arbitrary: n r)
  case (Cons p ps)
  obtain ws where "result_warnings (walk_manifest_file fsys root opts p r) = result_warnings r @ ws" using walk_manifest_file_warnings by blast
  with Cons show ?case by (simp add: warn_def)
qed simp

lemma walk_manifests_exact:
  assumes "list_all (manifest_ok filename opts index) (result_value r)" "set ps \<subseteq> set index" "length (result_value r) \<le> n" "n \<le> max_scanned_files opts"
    "complete r"
  shows "list_all (manifest_ok filename opts index) (result_value (walk_manifests fsys root filename opts ps n r)) \<and>
    length (result_value (walk_manifests fsys root filename opts ps n r)) \<le> max_scanned_files opts \<and>
    complete (walk_manifests fsys root filename opts ps n r) \<and>
    (if n + length (filter (\<lambda>p. path_filename p = filename) ps) \<le> max_scanned_files opts \<and>
        list_all (reads_whole fsys root opts) (filter (\<lambda>p. path_filename p = filename) ps)
     then walk_manifests fsys root filename opts ps n r =
       r\<lparr>result_value := result_value r @ map (whole_manifest fsys root opts) (filter (\<lambda>p. path_filename p = filename) ps)\<rparr>
     else result_warnings (walk_manifests fsys root filename opts ps n r) \<noteq> [])"
  using assms
proof (induction ps arbitrary: n r)
  case Nil
  then show ?case by simp
next
  case (Cons p ps)
  show ?case
  proof (cases "path_filename p = filename")
    case False
    with Cons show ?thesis by simp
  next
    case name: True
    show ?thesis
    proof (cases "n \<ge> max_scanned_files opts")
      case True
      with name Cons.prems show ?thesis by (simp add: warn_def)
    next
      case False
      let ?r = "walk_manifest_file fsys root opts p r"
      have "p \<in> set index" using Cons.prems(2) by simp
      note step = walk_manifest_file_ok [OF Cons.prems(1) this name, of fsys root]
      note IH = Cons.IH [of ?r "n + 1"]
      have IH': "list_all (manifest_ok filename opts index) (result_value (walk_manifests fsys root filename opts ps (n + 1) ?r)) \<and>
          length (result_value (walk_manifests fsys root filename opts ps (n + 1) ?r)) \<le> max_scanned_files opts \<and>
          complete (walk_manifests fsys root filename opts ps (n + 1) ?r) \<and>
          (if n + 1 + length (filter (\<lambda>p. path_filename p = filename) ps) \<le> max_scanned_files opts \<and>
              list_all (reads_whole fsys root opts) (filter (\<lambda>p. path_filename p = filename) ps)
           then walk_manifests fsys root filename opts ps (n + 1) ?r =
             ?r\<lparr>result_value := result_value ?r @ map (whole_manifest fsys root opts) (filter (\<lambda>p. path_filename p = filename) ps)\<rparr>
           else result_warnings (walk_manifests fsys root filename opts ps (n + 1) ?r) \<noteq> [])"
        using step Cons.prems False by (intro Cons.IH) auto
      show ?thesis
      proof (cases "reads_whole fsys root opts p")
        case True
        then have r: "?r = r\<lparr>result_value := result_value r @ [whole_manifest fsys root opts p]\<rparr>" using step by simp
        have fold: "walk_manifests fsys root filename opts (p # ps) n r = walk_manifests fsys root filename opts ps (n + 1) ?r"
          using name False by simp
        have keep: "filter (\<lambda>p. path_filename p = filename) (p # ps) = p # filter (\<lambda>p. path_filename p = filename) ps" using name by simp
        have val: "result_value ?r = result_value r @ [whole_manifest fsys root opts p]"
          "?r\<lparr>result_value := v\<rparr> = r\<lparr>result_value := v\<rparr>" for v by (simp_all add: r)
        show ?thesis using IH' True unfolding fold keep val
          by (auto split: if_splits)
      next
        case unread: False
        with step have "result_warnings ?r \<noteq> []" by simp
        with walk_manifests_warnings IH' name False unread show ?thesis by simp
      qed
    qed
  qed
qed

text \<open>C28: The manifests read are at most as many as allowed, of the wanted name, within the size bound, and cut only after a
  newline and only where that is asked for; when every matching file of the index fits the bounds they are all there
  with their whole contents, and otherwise a warning says that something was left out.\<close>

theorem manifest_walk_exact:
  "(let r = walk_bounded_manifest_files fsys index root filename opts; ps = filter (\<lambda>p. path_filename p = filename) index in
    list_all (manifest_ok filename opts index) (result_value r) \<and> length (result_value r) \<le> max_scanned_files opts \<and> complete r \<and>
    (if length ps \<le> max_scanned_files opts \<and> list_all (reads_whole fsys root opts) ps
     then r = new_result (map (whole_manifest fsys root opts) ps)
     else result_warnings r \<noteq> []))"
proof -
  have "list_all (manifest_ok filename opts index) (result_value (new_result []))" "complete (new_result ([] :: walked_manifest_file list))"
    "length (result_value (new_result ([] :: walked_manifest_file list))) \<le> 0" by (simp_all add: new_result_def)
  from walk_manifests_exact [OF this(1) order_refl this(3) le0 this(2)]
  have exact: "list_all (manifest_ok filename opts index) (result_value r) \<and> length (result_value r) \<le> max_scanned_files opts \<and> complete r \<and>
      (if 0 + length ps \<le> max_scanned_files opts \<and> list_all (reads_whole fsys root opts) ps
       then r = (new_result [])\<lparr>result_value := result_value (new_result []) @ map (whole_manifest fsys root opts) ps\<rparr>
       else result_warnings r \<noteq> [])"
    if "r = walk_bounded_manifest_files fsys index root filename opts" "ps = filter (\<lambda>p. path_filename p = filename) index" for r ps
    unfolding that walk_bounded_manifest_files_def by blast
  show ?thesis unfolding Let_def using exact [OF refl refl] by (simp add: new_result_def)
qed

end
