(* ===== verification/Binary_Map.thy ===== *)
theory Binary_Map
  imports Elf_Read Archive_Read File_Index Model
begin

text \<open>
  \<open>binscan/binary_map.hpp\<close> and \<open>binscan/binary_map.cpp\<close>: every binary a build wrote or consumed is opened, told apart by its
  first bytes, read by the ELF or the archive reader, and attributed to component roots in two ways: by the libraries
  it declares, as far as a file of that name lies in the tree, and by where it lies itself.
\<close>

section \<open>Data\<close>

datatype artifact_kind = Unreadable_Artifact | Unrecognized_Artifact | Elf_Artifact | Archive_Artifact

definition artifact_kind_to_string :: "artifact_kind \<Rightarrow> string" where
  "artifact_kind_to_string kind = (case kind of Unreadable_Artifact \<Rightarrow> ''unreadable'' | Unrecognized_Artifact \<Rightarrow> ''unrecognized''
     | Elf_Artifact \<Rightarrow> ''elf'' | Archive_Artifact \<Rightarrow> ''archive'')"

record scanned_artifact =
  sa_path :: path
  sa_kind :: artifact_kind
  sa_shape :: elf_shape
  sa_soname :: string
  sa_needed :: "string list"
  sa_members :: "string list"
  sa_symbols :: "string list"
  sa_needed_truncated :: bool
  sa_members_truncated :: bool
  sa_symbols_truncated :: bool
  sa_symbols_unavailable :: bool

definition new_artifact :: "path \<Rightarrow> scanned_artifact" where
  "new_artifact p = \<lparr>sa_path = p, sa_kind = Unrecognized_Artifact, sa_shape = NotElf, sa_soname = [], sa_needed = [], sa_members = [],
     sa_symbols = [], sa_needed_truncated = False, sa_members_truncated = False, sa_symbols_truncated = False, sa_symbols_unavailable = False\<rparr>"

record binary_scan_counters =
  artifacts_scanned :: nat
  elf_artifacts :: nat
  dynamic_artifacts :: nat
  static_artifacts :: nat
  relocatable_artifacts :: nat
  malformed_artifacts :: nat
  dynamic_without_needed :: nat
  archives :: nat
  unrecognized_artifacts :: nat
  unreadable_artifacts :: nat
  truncated_samples :: nat

definition no_counts :: binary_scan_counters where
  "no_counts = \<lparr>artifacts_scanned = 0, elf_artifacts = 0, dynamic_artifacts = 0, static_artifacts = 0, relocatable_artifacts = 0,
     malformed_artifacts = 0, dynamic_without_needed = 0, archives = 0, unrecognized_artifacts = 0, unreadable_artifacts = 0,
     truncated_samples = 0\<rparr>"

record binary_evidence =
  be_root :: path
  needed_sonames :: "string list"
  archive_member_count :: nat
  shared_object_count :: nat
  first_declaring_artifact :: path
  first_member :: string
  first_shared_object :: path

definition new_evidence :: binary_evidence where
  "new_evidence = \<lparr>be_root = [], needed_sonames = [], archive_member_count = 0, shared_object_count = 0, first_declaring_artifact = [],
     first_member = [], first_shared_object = []\<rparr>"

type_synonym evidence_map = "(path_key \<times> binary_evidence) list"

record binary_map =
  evidence_by_root :: evidence_map
  bm_artifacts :: "scanned_artifact list"
  unmatched_sonames :: "string set"
  counters :: binary_scan_counters

definition kMagicPeekBytes :: nat where "kMagicPeekBytes = 8"
definition kElfMagic :: string where "kElfMagic = CHR 0x7F # ''ELF''"
definition kArchiveMagicText :: string where "kArchiveMagicText = ''!<arch>'' @ [CHR 0x0A]"
definition kMaxSonameVersionSegments :: nat where "kMaxSonameVersionSegments = 3"

section \<open>Names and roots\<close>

text \<open>The loop strips one numeric extension per turn; \<open>n\<close> turns are left.\<close>

fun base_name_of :: "nat \<Rightarrow> string \<Rightarrow> string option" where
  "base_name_of 0 candidate = None"
| "base_name_of (Suc n) candidate =
     (case rfind_char CHR ''.'' candidate of
        None \<Rightarrow> None
      | Some last_dot \<Rightarrow>
          if drop last_dot candidate = ''.so'' then Some candidate
          else
            let extension = drop (last_dot + 1) candidate in
            if extension = [] \<or> \<not> list_all (\<lambda>c. CHR ''0'' \<le> c \<and> c \<le> CHR ''9'') extension then None
            else base_name_of n (take last_dot candidate))"

definition shared_object_base_name :: "string \<Rightarrow> string option" where
  "shared_object_base_name name = base_name_of (kMaxSonameVersionSegments + 1) name"

fun longer_root :: "path \<Rightarrow> path option \<Rightarrow> path list \<Rightarrow> path option" where
  "longer_root relative_path best [] = best"
| "longer_root relative_path best (root # roots) =
     (if \<not> elements_within (path_elements relative_path) (path_elements root) then longer_root relative_path best roots
      else longer_root relative_path
        (case best of None \<Rightarrow> Some root | Some b \<Rightarrow> if length root > length b then Some root else Some b) roots)"

definition longest_enclosing_root :: "path \<Rightarrow> path_set \<Rightarrow> path option" where
  "longest_enclosing_root relative_path roots = longer_root relative_path None (path_set_paths roots)"

type_synonym shared_object_index = "(string \<times> path) list"

definition remember :: "string \<Rightarrow> path \<Rightarrow> shared_object_index \<Rightarrow> shared_object_index" where
  "remember file_name root index =
     (case omap_find index file_name of
        None \<Rightarrow> omap_put file_name root index
      | Some existing \<Rightarrow> if length root > length existing then omap_put file_name root index else index)"

definition index_shared_object :: "path_set \<Rightarrow> shared_object_index \<Rightarrow> path \<Rightarrow> shared_object_index" where
  "index_shared_object component_roots index relative_path =
     (let file_name = path_filename relative_path in
      if shared_object_base_name file_name = None then index
      else case longest_enclosing_root relative_path component_roots of
        None \<Rightarrow> index
      | Some root \<Rightarrow> remember file_name root index)"

definition build_shared_objects :: "path \<Rightarrow> node \<Rightarrow> path_set \<Rightarrow> binary_map result \<Rightarrow> shared_object_index \<times> binary_map result" where
  "build_shared_objects scan_root root_node component_roots outcome =
     (if component_roots = [] then ([], outcome)
      else
        let index = build_file_index scan_root root_node
          \<lparr>excluded_names = default_excluded_dir_names, excluded_subtrees = [], included_subtrees = component_roots\<rparr>
        in (foldl (index_shared_object component_roots) [] (result_value index),
            foldl (\<lambda>r w. warn_again w r) outcome (result_warnings index)))"

definition root_for_soname :: "shared_object_index \<Rightarrow> string \<Rightarrow> path option" where
  "root_for_soname index soname_text =
     (case omap_find index soname_text of
        Some root \<Rightarrow> Some root
      | None \<Rightarrow>
          (case shared_object_base_name soname_text of
             None \<Rightarrow> None
           | Some base \<Rightarrow> if base = soname_text then None else omap_find index base))"

datatype magic_kind = Magic_Unreadable | Magic_Elf | Magic_Archive | Magic_Unrecognized

definition peek_magic :: "disk_file \<Rightarrow> path \<Rightarrow> binary_map result \<Rightarrow> magic_kind \<times> binary_map result" where
  "peek_magic f relative_path outcome =
     (let peek = read_file_bounded f kMagicPeekBytes in
      if \<not> readable peek
      then (Magic_Unreadable, warn kBinaryUnreadable (relative_path @ '': named by the build trace but cannot be read now; skipped'') [] [] outcome)
      else if starts_with (bytes peek) kElfMagic then (Magic_Elf, outcome)
      else if starts_with (bytes peek) kArchiveMagicText then (Magic_Archive, outcome)
      else (Magic_Unrecognized, outcome))"

section \<open>Attributing\<close>

definition evidence_at :: "evidence_map \<Rightarrow> path_key \<Rightarrow> binary_evidence" where
  "evidence_at m k = (case omap_find m k of None \<Rightarrow> new_evidence | Some e \<Rightarrow> e)"

text \<open>Pathway one: what the artifact declares it loads.\<close>

definition attribute_soname :: "shared_object_index \<Rightarrow> path \<Rightarrow> binary_map \<Rightarrow> string \<Rightarrow> binary_map" where
  "attribute_soname shared_objects relative_path m soname_text =
     (case root_for_soname shared_objects soname_text of
        None \<Rightarrow> m\<lparr>unmatched_sonames := insert soname_text (unmatched_sonames m)\<rparr>
      | Some root \<Rightarrow>
          let e = (evidence_at (evidence_by_root m) (path_key root))\<lparr>be_root := root\<rparr>;
              e = (if soname_text \<notin> set (needed_sonames e) then e\<lparr>needed_sonames := needed_sonames e @ [soname_text]\<rparr> else e);
              e = (if first_declaring_artifact e = [] then e\<lparr>first_declaring_artifact := relative_path\<rparr> else e)
          in m\<lparr>evidence_by_root := omap_put (path_key root) e (evidence_by_root m)\<rparr>)"

text \<open>Pathway two: where the artifact lies.\<close>

definition is_contained_binary :: "scanned_artifact \<Rightarrow> bool" where
  "is_contained_binary a \<longleftrightarrow> sa_kind a = Archive_Artifact \<or> sa_kind a = Elf_Artifact \<and> sa_shape a = Dynamic"

definition attribute_location :: "path_set \<Rightarrow> scanned_artifact \<Rightarrow> binary_map \<Rightarrow> binary_map" where
  "attribute_location component_roots a m =
     (if \<not> is_contained_binary a then m
      else case longest_enclosing_root (sa_path a) component_roots of
        None \<Rightarrow> m
      | Some root \<Rightarrow>
          let e = (evidence_at (evidence_by_root m) (path_key root))\<lparr>be_root := root\<rparr>;
              e = (if sa_kind a = Archive_Artifact \<and> sa_members a \<noteq> []
                   then
                     let e = e\<lparr>archive_member_count := archive_member_count e + length (sa_members a)\<rparr>
                     in if first_member e = [] then e\<lparr>first_member := hd (sa_members a)\<rparr> else e
                   else if sa_kind a = Elf_Artifact
                   then
                     let e = e\<lparr>shared_object_count := shared_object_count e + 1\<rparr>
                     in if first_shared_object e = [] then e\<lparr>first_shared_object := sa_path a\<rparr> else e
                   else e)
          in m\<lparr>evidence_by_root := omap_put (path_key root) e (evidence_by_root m)\<rparr>)"

section \<open>Reading the artifacts\<close>

definition count_elf :: "elf_image \<Rightarrow> binary_scan_counters \<Rightarrow> binary_scan_counters" where
  "count_elf img c =
     (let c = c\<lparr>elf_artifacts := elf_artifacts c + 1\<rparr> in
      if shape img = StaticExecutable then c\<lparr>static_artifacts := static_artifacts c + 1\<rparr>
      else if shape img = Relocatable then c\<lparr>relocatable_artifacts := relocatable_artifacts c + 1\<rparr>
      else if shape img = Dynamic
      then
        let c = c\<lparr>dynamic_artifacts := dynamic_artifacts c + 1\<rparr> in
        if names_unavailable img then c\<lparr>malformed_artifacts := malformed_artifacts c + 1\<rparr>
        else if needed img = [] then c\<lparr>dynamic_without_needed := dynamic_without_needed c + 1\<rparr>
        else c
      else c\<lparr>malformed_artifacts := malformed_artifacts c + 1\<rparr>)"

definition artifact_of_elf :: "path \<Rightarrow> elf_image \<Rightarrow> scanned_artifact" where
  "artifact_of_elf p img = (new_artifact p)\<lparr>sa_kind := Elf_Artifact, sa_shape := shape img, sa_soname := soname img,
     sa_needed := needed img, sa_symbols := exported_symbols img, sa_needed_truncated := needed_truncated img,
     sa_symbols_truncated := symbols_truncated img, sa_symbols_unavailable := symbols_unavailable img\<rparr>"

definition artifact_of_archive :: "path \<Rightarrow> archive_contents \<Rightarrow> scanned_artifact" where
  "artifact_of_archive p ar = (new_artifact p)\<lparr>sa_kind := Archive_Artifact, sa_members := member_names ar, sa_symbols := indexed_symbols ar,
     sa_members_truncated := members_truncated ar, sa_symbols_truncated := ar_symbols_truncated ar,
     sa_symbols_unavailable := ar_symbols_unavailable ar\<rparr>"

definition sample_was_truncated :: "scanned_artifact \<Rightarrow> bool" where
  "sample_was_truncated a \<longleftrightarrow> sa_needed_truncated a \<or> sa_members_truncated a \<or> sa_symbols_truncated a"

text \<open>What happens once an artifact has been read: the truncation counter, both pathways, the list.\<close>

definition finish_artifact :: "shared_object_index \<Rightarrow> path_set \<Rightarrow> scanned_artifact \<Rightarrow> binary_map \<Rightarrow> binary_map" where
  "finish_artifact shared_objects component_roots a m =
     (let c = counters m;
          m = (if sample_was_truncated a then m\<lparr>counters := c\<lparr>truncated_samples := truncated_samples c + 1\<rparr>\<rparr> else m);
          m = foldl (attribute_soname shared_objects (sa_path a)) m (sa_needed a);
          m = attribute_location component_roots a m
      in m\<lparr>bm_artifacts := bm_artifacts m @ [a]\<rparr>)"

definition scan_artifact :: "file_system \<Rightarrow> path \<Rightarrow> shared_object_index \<Rightarrow> path_set \<Rightarrow> binary_map result \<Rightarrow> path \<Rightarrow> binary_map result" where
  "scan_artifact fsys scan_root shared_objects component_roots outcome relative_path =
     (let m = result_value outcome; c = counters m;
          outcome = outcome\<lparr>result_value := m\<lparr>counters := c\<lparr>artifacts_scanned := artifacts_scanned c + 1\<rparr>\<rparr>\<rparr>;
          absolute_path = path_append scan_root relative_path; f = fs_file fsys absolute_path;
          (magic, outcome) = peek_magic f relative_path outcome;
          m = result_value outcome; c = counters m
      in case magic of
           Magic_Unreadable \<Rightarrow> outcome\<lparr>result_value := m\<lparr>counters := c\<lparr>unreadable_artifacts := unreadable_artifacts c + 1\<rparr>,
             bm_artifacts := bm_artifacts m @ [(new_artifact relative_path)\<lparr>sa_kind := Unreadable_Artifact\<rparr>]\<rparr>\<rparr>
         | Magic_Unrecognized \<Rightarrow> outcome\<lparr>result_value := m\<lparr>counters := c\<lparr>unrecognized_artifacts := unrecognized_artifacts c + 1\<rparr>,
             bm_artifacts := bm_artifacts m @ [(new_artifact relative_path)\<lparr>sa_kind := Unrecognized_Artifact\<rparr>]\<rparr>\<rparr>
         | Magic_Elf \<Rightarrow>
             let img = read_elf absolute_path f;
                 outcome = foldl (\<lambda>r w. warn_again w r) outcome (result_warnings img)
             in outcome\<lparr>result_value := finish_artifact shared_objects component_roots (artifact_of_elf relative_path (result_value img))
                  (m\<lparr>counters := count_elf (result_value img) c\<rparr>)\<rparr>
         | Magic_Archive \<Rightarrow>
             let ar = read_archive absolute_path f;
                 outcome = foldl (\<lambda>r w. warn_again w r) outcome (result_warnings ar)
             in outcome\<lparr>result_value := finish_artifact shared_objects component_roots (artifact_of_archive relative_path (result_value ar))
                  (m\<lparr>counters := c\<lparr>archives := archives c + 1\<rparr>\<rparr>)\<rparr>)"

definition limited :: "bool \<Rightarrow> string \<Rightarrow> binary_map result \<Rightarrow> binary_map result" where
  "limited condition text_of_it r = (if condition then warn kBinaryEvidenceLimited text_of_it [] [] r else r)"

definition binary_warnings :: "binary_map result \<Rightarrow> binary_map result" where
  "binary_warnings r =
     (let m = result_value r; c = counters m;
          r = limited (static_artifacts c > 0) (string_of_nat (static_artifacts c) @
            '' build output(s) are statically linked; they declare no dynamic dependencies'') r;
          r = limited (relocatable_artifacts c > 0) (string_of_nat (relocatable_artifacts c) @
            '' build output(s) are relocatable objects, which cannot declare dependencies'') r;
          r = limited (dynamic_without_needed c > 0) (string_of_nat (dynamic_without_needed c) @
            '' build output(s) carry a dynamic section that names no library'') r;
          r = limited (malformed_artifacts c > 0) (string_of_nat (malformed_artifacts c) @
            '' build output(s) carry ELF magic but a structure bomwerk could not read; what they declare is unknown, not absent'') r;
          r = limited (unrecognized_artifacts c > 0) (string_of_nat (unrecognized_artifacts c) @
            '' build output(s) are neither ELF nor ar archives; bomwerk reads no dynamic dependencies from them (a macOS build emits Mach-O, which this pass does not parse)'') r;
          r = limited (truncated_samples c > 0) (string_of_nat (truncated_samples c) @
            '' artifact(s) declare more entries than bomwerk records; their samples are partial'') r;
          r = limited (elf_artifacts c = 0 \<and> archives c = 0 \<and> artifacts_scanned c > 0)
            ''no build output could be read as a binary; this pass proved nothing'' r
      in limited (evidence_by_root m = [] \<and> artifacts_scanned c > 0)
           (if unmatched_sonames m = {}
            then ''no binary evidence attributed to any component; no build output declared a dynamic dependency or lay inside a component'' @ CHR 0x27 # ''s directory''
            else ''no binary evidence attributed to any component; every dynamic dependency named a library outside this repository'') r)"

definition map_binaries_to_roots :: "file_system \<Rightarrow> node \<Rightarrow> path list \<Rightarrow> path \<Rightarrow> path_set \<Rightarrow> binary_map result" where
  "map_binaries_to_roots fsys root_node artifacts scan_root component_roots =
     (let outcome = new_result \<lparr>evidence_by_root = [], bm_artifacts = [], unmatched_sonames = {}, counters = no_counts\<rparr>;
          (shared_objects, outcome) = build_shared_objects scan_root root_node component_roots outcome;
          ordered_artifacts = unique_adj path_equal (sort_key path_key artifacts);
          outcome = foldl (scan_artifact fsys scan_root shared_objects component_roots) outcome ordered_artifacts;
          m = result_value outcome;
          m = m\<lparr>evidence_by_root := map (\<lambda>(k, e). (k, e\<lparr>needed_sonames := sort (needed_sonames e)\<rparr>)) (evidence_by_root m)\<rparr>
      in binary_warnings (outcome\<lparr>result_value := m\<rparr>))"

section \<open>Evidence\<close>

definition evidence_details :: "binary_evidence \<Rightarrow> string list" where
  "evidence_details e =
     map (\<lambda>s. ''binary: DT_NEEDED '' @ s @ '' resolves under '' @ be_root e @ '' (declared by '' @ first_declaring_artifact e @ '')'') (needed_sonames e) @
     (if archive_member_count e > 0
      then [''binary: '' @ string_of_nat (archive_member_count e) @ '' archive member(s) under '' @ be_root e @ '' (e.g. '' @ first_member e @ '')''] else []) @
     (if shared_object_count e > 0
      then [''binary: '' @ string_of_nat (shared_object_count e) @ '' prebuilt shared object(s) under '' @ be_root e @ '' (e.g. '' @
        first_shared_object e @ '')''] else [])"

definition apply_to_component :: "binary_map \<Rightarrow> component \<Rightarrow> component \<times> bool" where
  "apply_to_component m c =
     (let root = normalized_subtree_path (comp_root c) in
      if root = [] then (c, False)
      else case omap_find (evidence_by_root m) (path_key root) of
        None \<Rightarrow> (c, False)
      | Some e \<Rightarrow>
          let details = evidence_details e in
          if details = [] then (c, False)
          else (c\<lparr>comp_evidence := comp_evidence c @ map (\<lambda>d. Evidence Binary d High) details\<rparr>, True))"

definition apply_binary_evidence :: "component list \<Rightarrow> binary_map \<Rightarrow> component list \<times> nat" where
  "apply_binary_evidence components m =
     (map (fst \<circ> apply_to_component m) components, length (filter (snd \<circ> apply_to_component m) components))"

section \<open>The shared objects of the tree\<close>

lemma longer_root_best:
  "(longer_root p best roots = None \<longleftrightarrow> best = None \<and> (\<forall>r \<in> set roots. \<not> elements_within (path_elements p) (path_elements r))) \<and>
   (\<forall>r. longer_root p best roots = Some r \<longrightarrow>
     (best = Some r \<or> r \<in> set roots \<and> elements_within (path_elements p) (path_elements r)) \<and>
     (\<forall>b. best = Some b \<longrightarrow> length b \<le> length r) \<and>
     (\<forall>r' \<in> set roots. elements_within (path_elements p) (path_elements r') \<longrightarrow> length r' \<le> length r))"
proof (induction p best roots rule: longer_root.induct)
  case (2 p best root roots)
  show ?case
  proof (cases "elements_within (path_elements p) (path_elements root)")
    case False
    then have "longer_root p best (root # roots) = longer_root p best roots" by simp
    with "2.IH"(1) [OF False] False show ?thesis by auto
  next
    case True
    show ?thesis
    proof (cases best)
      case None
      then show ?thesis using 2 True by auto
    next
      case (Some b)
      then show ?thesis using 2 True by (cases "length root > length b") (auto intro: le_trans less_imp_le)
    qed
  qed
qed simp

lemma longest_enclosing_root_member: "longest_enclosing_root p roots = Some r \<Longrightarrow> r \<in> set (path_set_paths roots)"
  using longer_root_best [of p None "path_set_paths roots"] by (auto simp: longest_enclosing_root_def)

lemma tidy_path_longer: "ms \<noteq> [] \<Longrightarrow> length (tidy_path ms) < length (tidy_path (ms @ n # ns))"
proof (induction ns arbitrary: n rule: rev_induct)
  case Nil
  then show ?case by (simp add: tidy_path_snoc)
next
  case (snoc x ns)
  then have "length (tidy_path ms) < length (tidy_path (ms @ n # ns))" by simp
  moreover have "tidy_path ((ms @ n # ns) @ [x]) = tidy_path (ms @ n # ns) @ CHR ''/'' # x" by (rule tidy_path_snoc) simp
  ultimately show ?case by simp
qed

lemma longest_enclosing_root_eq:
  assumes "roots_ok roots" "list_all plain_name ns"
  shows "longest_enclosing_root (tidy_path ns) roots = enclosing_root (tidy_path ns) roots"
proof -
  note best = longer_root_best [of "tidy_path ns" None "path_set_paths roots", folded longest_enclosing_root_def]
  have within: "elements_within (path_elements (tidy_path ns)) (path_elements (tidy_path ms)) \<longleftrightarrow> prefix ms ns" if "list_all plain_name ms" for ms
    using that assms(2) by (simp add: elements_within_prefix path_elements_tidy)
  have found: "list_all plain_name ms \<and> ms \<noteq> [] \<and> tidy_path ms \<in> set (path_set_paths roots)" if "omap_find roots (False, ms) \<noteq> None" for ms
    using that roots_ok_find [OF assms(1), of "(False, ms)"] subtree_paths [OF assms(1), of "tidy_path ms"] by fastforce
  show ?thesis
  proof (cases "longest_enclosing_root (tidy_path ns) roots")
    case None
    then have "omap_find roots (False, ms) = None" if "prefix ms ns" for ms
      using best within found that by blast
    with None enclosing_root_longest [OF assms] show ?thesis by metis
  next
    case (Some r)
    then have r: "r \<in> set (path_set_paths roots)" "elements_within (path_elements (tidy_path ns)) (path_elements r)"
      and longest: "\<And>r'. r' \<in> set (path_set_paths roots) \<Longrightarrow> elements_within (path_elements (tidy_path ns)) (path_elements r') \<Longrightarrow> length r' \<le> length r"
      using best by auto
    from r(1) obtain ms where ms: "r = tidy_path ms" "list_all plain_name ms" "ms \<noteq> []" "omap_find roots (False, ms) \<noteq> None"
      using subtree_paths [OF assms(1)] by blast
    have "prefix ms ns" using r(2) within [OF ms(2)] ms(1) by simp
    moreover have "length ms' \<le> length ms" if ms': "prefix ms' ns" "omap_find roots (False, ms') \<noteq> None" for ms'
    proof (rule ccontr)
      assume longer: "\<not> length ms' \<le> length ms"
      with \<open>prefix ms ns\<close> ms'(1) have "prefix ms ms'" by (meson nat_le_linear prefix_length_prefix)
      with longer obtain n xs where "ms' = ms @ n # xs" by (metis append_Nil2 neq_Nil_conv order_refl prefixE)
      then have "length r < length (tidy_path ms')" using tidy_path_longer [OF ms(3)] ms(1) by simp
      moreover have "length (tidy_path ms') \<le> length r" using longest [of "tidy_path ms'"] found [OF ms'(2)] within ms'(1) by simp
      ultimately show False by simp
    qed
    ultimately have "enclosing_root (tidy_path ns) roots = Some r"
      using enclosing_root_longest [OF assms, of r] ms by metis
    with Some show ?thesis by simp
  qed
qed

text \<open>A versioned name stands for the name without its version.\<close>

lemma rfind_dot: "CHR ''.'' \<notin> set v \<Longrightarrow> rfind_char CHR ''.'' (s @ CHR ''.'' # v) = Some (length s)"
  by (rule rfind_pos_append) auto

lemma base_name_versions:
  "length vs < n \<Longrightarrow> list_all (\<lambda>v. v \<noteq> [] \<and> list_all (\<lambda>c. CHR ''0'' \<le> c \<and> c \<le> CHR ''9'') v) vs \<Longrightarrow>
   base_name_of n (base @ ''.so'' @ concat (map (\<lambda>v. CHR ''.'' # v) vs)) = Some (base @ ''.so'')"
proof (induction vs arbitrary: n rule: rev_induct)
  case Nil
  then show ?case using rfind_dot [of "''so''" base] by (cases n) simp_all
next
  case (snoc v vs)
  then obtain n' where n: "n = Suc n'" "length vs < n'" by (cases n) auto
  have v: "v \<noteq> []" "list_all (\<lambda>c. CHR ''0'' \<le> c \<and> c \<le> CHR ''9'') v" using snoc.prems by simp_all
  moreover have "\<not> (CHR ''0'' \<le> CHR ''.'')" "\<not> (CHR ''s'' \<le> CHR ''9'')" by simp_all
  ultimately have "CHR ''.'' \<notin> set v" "CHR ''s'' \<notin> set v" unfolding list_all_iff by blast+
  then have not_so: "CHR ''.'' # v \<noteq> ''.so''" by auto
  define s where "s = base @ ''.so'' @ concat (map (\<lambda>v. CHR ''.'' # v) vs)"
  have "base_name_of (Suc n') (s @ CHR ''.'' # v) = base_name_of n' s"
    using rfind_dot [OF \<open>CHR ''.'' \<notin> set v\<close>, of s] not_so v by simp
  also have "\<dots> = Some (base @ ''.so'')" unfolding s_def using snoc.prems by (intro snoc.IH n(2)) simp
  also have "s @ CHR ''.'' # v = base @ ''.so'' @ concat (map (\<lambda>v. CHR ''.'' # v) (vs @ [v]))" by (simp add: s_def)
  finally show ?case unfolding n(1) .
qed

lemma shared_object_base_name_version:
  "length vs \<le> kMaxSonameVersionSegments \<Longrightarrow> list_all (\<lambda>v. v \<noteq> [] \<and> list_all (\<lambda>c. CHR ''0'' \<le> c \<and> c \<le> CHR ''9'') v) vs \<Longrightarrow>
   shared_object_base_name (base @ ''.so'' @ concat (map (\<lambda>v. CHR ''.'' # v) vs)) = Some (base @ ''.so'')"
  unfolding shared_object_base_name_def by (rule base_name_versions) simp_all

text \<open>What the index of shared objects holds.\<close>

definition owns :: "path_set \<Rightarrow> path list \<Rightarrow> string \<Rightarrow> path \<Rightarrow> bool" where
  "owns roots index name root \<longleftrightarrow>
     list_ex (\<lambda>p. path_filename p = name \<and> shared_object_base_name name \<noteq> None \<and> longest_enclosing_root p roots = Some root) index"

lemma index_shared_object_owns:
  "omap_ok sh \<and> (\<forall>name root. omap_find sh name = Some root \<longrightarrow> owns roots done name root) \<Longrightarrow>
   omap_ok (index_shared_object roots sh p) \<and>
   (\<forall>name root. omap_find (index_shared_object roots sh p) name = Some root \<longrightarrow> owns roots (done @ [p]) name root)"
  by (auto simp: index_shared_object_def remember_def owns_def Let_def omap.ok_put omap.lookup_put split: option.splits if_splits)

lemma index_shared_objects_owns:
  "omap_ok (foldl (index_shared_object roots) [] ps) \<and>
   (\<forall>name root. omap_find (foldl (index_shared_object roots) [] ps) name = Some root \<longrightarrow> owns roots ps name root)"
proof (induction ps rule: rev_induct)
  case Nil
  then show ?case by (simp add: omap.ok_empty)
next
  case (snoc p ps)
  from index_shared_object_owns [OF snoc] show ?case by simp
qed

text \<open>The file a soname is answered by.\<close>

definition answers :: "string \<Rightarrow> path \<Rightarrow> bool" where
  "answers s p \<longleftrightarrow> shared_object_base_name (path_filename p) \<noteq> None \<and>
     (path_filename p = s \<or> shared_object_base_name s = Some (path_filename p))"

lemma root_for_soname_answered:
  assumes "\<forall>name root. omap_find sh name = Some root \<longrightarrow> owns roots index name root" "root_for_soname sh s = Some root"
  shows "list_ex (\<lambda>p. answers s p \<and> longest_enclosing_root p roots = Some root) index"
proof -
  from assms(2) obtain name where name: "omap_find sh name = Some root" "name = s \<or> shared_object_base_name s = Some name"
    by (auto simp: root_for_soname_def split: option.splits if_splits)
  with assms(1) have "owns roots index name root" by blast
  with name(2) show ?thesis by (auto simp: owns_def answers_def list_ex_iff)
qed

section \<open>The pass over the artifacts\<close>

lemma attribute_soname_keeps [simp]:
  "counters (attribute_soname sh p m s) = counters m" "bm_artifacts (attribute_soname sh p m s) = bm_artifacts m"
  by (simp_all add: attribute_soname_def Let_def split: option.split)

lemma attribute_sonames_keep [simp]:
  "counters (foldl (attribute_soname sh p) m ss) = counters m" "bm_artifacts (foldl (attribute_soname sh p) m ss) = bm_artifacts m"
  by (induction ss arbitrary: m) simp_all

lemma attribute_location_keeps [simp]:
  "counters (attribute_location roots a m) = counters m" "bm_artifacts (attribute_location roots a m) = bm_artifacts m"
  "unmatched_sonames (attribute_location roots a m) = unmatched_sonames m"
  by (simp_all add: attribute_location_def Let_def split: option.split)

lemma warn_agains_value [simp]: "result_value (foldl (\<lambda>r w. warn_again w r) r ws) = result_value r"
  by (induction ws arbitrary: r) (simp_all add: warn_again_def)

lemma peek_magic_value [simp]: "result_value (snd (peek_magic f p r)) = result_value r"
  by (simp add: peek_magic_def Let_def warn_def)

definition magic_of :: "disk_file \<Rightarrow> magic_kind" where
  "magic_of f = (let peek = read_file_bounded f kMagicPeekBytes in
     if \<not> readable peek then Magic_Unreadable
     else if starts_with (bytes peek) kElfMagic then Magic_Elf
     else if starts_with (bytes peek) kArchiveMagicText then Magic_Archive else Magic_Unrecognized)"

lemma peek_magic_kind [simp]: "fst (peek_magic f p r) = magic_of f"
  by (simp add: peek_magic_def magic_of_def Let_def)

text \<open>What one artifact does to the map.\<close>

definition read_artifact :: "file_system \<Rightarrow> path \<Rightarrow> path \<Rightarrow> scanned_artifact \<times> (binary_scan_counters \<Rightarrow> binary_scan_counters)" where
  "read_artifact fsys scan_root p =
     (let absolute_path = path_append scan_root p; f = fs_file fsys absolute_path in
      case magic_of f of
        Magic_Unreadable \<Rightarrow> ((new_artifact p)\<lparr>sa_kind := Unreadable_Artifact\<rparr>, \<lambda>c. c\<lparr>unreadable_artifacts := unreadable_artifacts c + 1\<rparr>)
      | Magic_Unrecognized \<Rightarrow> ((new_artifact p)\<lparr>sa_kind := Unrecognized_Artifact\<rparr>, \<lambda>c. c\<lparr>unrecognized_artifacts := unrecognized_artifacts c + 1\<rparr>)
      | Magic_Elf \<Rightarrow> (artifact_of_elf p (result_value (read_elf absolute_path f)), count_elf (result_value (read_elf absolute_path f)))
      | Magic_Archive \<Rightarrow> (artifact_of_archive p (result_value (read_archive absolute_path f)), \<lambda>c. c\<lparr>archives := archives c + 1\<rparr>))"

definition counted :: "(binary_scan_counters \<Rightarrow> binary_scan_counters) \<Rightarrow> binary_map \<Rightarrow> binary_map" where
  "counted f m = m\<lparr>counters := f ((counters m)\<lparr>artifacts_scanned := artifacts_scanned (counters m) + 1\<rparr>)\<rparr>"

lemma finish_plain:
  "sa_needed a = [] \<Longrightarrow> \<not> is_contained_binary a \<Longrightarrow> \<not> sample_was_truncated a \<Longrightarrow>
   finish_artifact sh roots a m = m\<lparr>bm_artifacts := bm_artifacts m @ [a]\<rparr>"
  by (simp add: finish_artifact_def attribute_location_def Let_def)

lemma scan_artifact_value:
  "result_value (scan_artifact fsys scan_root sh roots r p) =
    (let (a, f) = read_artifact fsys scan_root p in finish_artifact sh roots a (counted f (result_value r)))"
  by (cases "magic_of (fs_file fsys (path_append scan_root p))")
    (simp_all add: scan_artifact_def read_artifact_def counted_def finish_plain new_artifact_def is_contained_binary_def
      sample_was_truncated_def Let_def split_beta)

subsection \<open>The counters\<close>

text \<open>An artifact with a dynamic section whose names cannot be read.\<close>

definition nameless :: "file_system \<Rightarrow> path \<Rightarrow> path \<Rightarrow> bool" where
  "nameless fsys scan_root p \<longleftrightarrow>
     (let absolute_path = path_append scan_root p; f = fs_file fsys absolute_path; img = result_value (read_elf absolute_path f) in
      magic_of f = Magic_Elf \<and> shape img = Dynamic \<and> names_unavailable img)"

definition balanced :: "nat \<Rightarrow> binary_scan_counters \<Rightarrow> bool" where
  "balanced twice c \<longleftrightarrow>
     artifacts_scanned c = elf_artifacts c + archives c + unrecognized_artifacts c + unreadable_artifacts c \<and>
     static_artifacts c + relocatable_artifacts c + dynamic_artifacts c + malformed_artifacts c = elf_artifacts c + twice \<and>
     dynamic_without_needed c + twice \<le> dynamic_artifacts c \<and> truncated_samples c \<le> elf_artifacts c + archives c"

lemma read_artifact_balanced:
  assumes "balanced twice (counters m)" "read_artifact fsys scan_root p = (a, f)"
  shows "balanced (twice + (if nameless fsys scan_root p then 1 else 0)) (counters (finish_artifact sh roots a (counted f m)))"
  using assms
  by (cases "magic_of (fs_file fsys (path_append scan_root p))")
    (auto simp: balanced_def read_artifact_def finish_artifact_def counted_def nameless_def count_elf_def new_artifact_def
      sample_was_truncated_def artifact_of_elf_def artifact_of_archive_def Let_def)

lemma scan_artifacts_balanced:
  "balanced twice (counters (result_value r)) \<Longrightarrow>
   balanced (twice + length (filter (nameless fsys scan_root) ps)) (counters (result_value (foldl (scan_artifact fsys scan_root sh roots) r ps))) \<and>
   artifacts_scanned (counters (result_value (foldl (scan_artifact fsys scan_root sh roots) r ps))) =
     artifacts_scanned (counters (result_value r)) + length ps \<and>
   bm_artifacts (result_value (foldl (scan_artifact fsys scan_root sh roots) r ps)) =
     bm_artifacts (result_value r) @ map (\<lambda>p. fst (read_artifact fsys scan_root p)) ps"
proof (induction ps arbitrary: r twice)
  case Nil
  then show ?case by simp
next
  case (Cons p ps)
  obtain a f where read: "read_artifact fsys scan_root p = (a, f)" by fastforce
  have v: "result_value (scan_artifact fsys scan_root sh roots r p) = finish_artifact sh roots a (counted f (result_value r))"
    by (simp add: scan_artifact_value read)
  have "artifacts_scanned (counters (finish_artifact sh roots a (counted f (result_value r)))) = artifacts_scanned (counters (result_value r)) + 1"
    using read by (cases "magic_of (fs_file fsys (path_append scan_root p))")
      (auto simp: read_artifact_def finish_artifact_def counted_def count_elf_def Let_def)
  moreover have "bm_artifacts (finish_artifact sh roots a (counted f (result_value r))) = bm_artifacts (result_value r) @ [a]"
    by (simp add: finish_artifact_def counted_def Let_def)
  moreover note read_artifact_balanced [OF Cons.prems read, of sh roots, folded v]
  note Cons.IH [OF this]
  ultimately show ?case by (cases "nameless fsys scan_root p") (simp_all add: read v)
qed

subsection \<open>The evidence\<close>

text \<open>An entry of the evidence map: a given root, with distinct sonames that the index answers by a file under it.\<close>

definition entry_ok :: "shared_object_index \<Rightarrow> path_set \<Rightarrow> path_key \<Rightarrow> binary_evidence \<Rightarrow> bool" where
  "entry_ok sh roots k e \<longleftrightarrow> be_root e \<in> set (path_set_paths roots) \<and> k = path_key (be_root e) \<and> distinct (needed_sonames e) \<and>
     list_all (\<lambda>s. root_for_soname sh s = Some (be_root e)) (needed_sonames e)"

definition evidence_ok :: "shared_object_index \<Rightarrow> path_set \<Rightarrow> evidence_map \<Rightarrow> bool" where
  "evidence_ok sh roots ev \<longleftrightarrow> omap_ok ev \<and> (\<forall>k e. omap_find ev k = Some e \<longrightarrow> entry_ok sh roots k e)"

definition mentions :: "evidence_map \<Rightarrow> string \<Rightarrow> bool" where
  "mentions ev s \<longleftrightarrow> (\<exists>k e. omap_find ev k = Some e \<and> s \<in> set (needed_sonames e))"

lemma evidence_ok_put: "evidence_ok sh roots ev \<Longrightarrow> entry_ok sh roots k e \<Longrightarrow> evidence_ok sh roots (omap_put k e ev)"
  unfolding evidence_ok_def using omap.ok_put omap.lookup_put by (metis option.inject)

lemma root_paths_inj:
  assumes "roots_ok roots" "r \<in> set (path_set_paths roots)" "r' \<in> set (path_set_paths roots)" "path_key r = path_key r'"
  shows "r = r'"
  using subtree_paths [OF assms(1)] assms(2-4) by auto

lemma evidence_ok_at:
  assumes "roots_ok roots" "evidence_ok sh roots ev" "root \<in> set (path_set_paths roots)"
  shows "entry_ok sh roots (path_key root) ((evidence_at ev (path_key root))\<lparr>be_root := root\<rparr>)"
proof (cases "omap_find ev (path_key root)")
  case None
  with assms(3) show ?thesis by (simp add: evidence_at_def new_evidence_def entry_ok_def)
next
  case (Some e)
  with assms(2) have e: "entry_ok sh roots (path_key root) e" unfolding evidence_ok_def by blast
  then have "be_root e \<in> set (path_set_paths roots)" "path_key (be_root e) = path_key root" unfolding entry_ok_def by auto
  then have "be_root e = root" by (intro root_paths_inj [OF assms(1) _ assms(3)])
  then have "e\<lparr>be_root := root\<rparr> = e" by simp
  with e Some show ?thesis by (simp add: evidence_at_def)
qed

lemma mentionsI: "omap_find ev k = Some e \<Longrightarrow> s \<in> set (needed_sonames e) \<Longrightarrow> mentions ev s"
  unfolding mentions_def by blast

lemma mentions_at: "s \<in> set (needed_sonames (evidence_at ev k)) \<Longrightarrow> mentions ev s"
  by (cases "omap_find ev k") (auto simp: evidence_at_def new_evidence_def intro: mentionsI)

lemma mentions_put:
  assumes "omap_ok ev" "set (needed_sonames (evidence_at ev k)) \<subseteq> set (needed_sonames e)"
  shows "mentions (omap_put k e ev) s \<longleftrightarrow> mentions ev s \<or> s \<in> set (needed_sonames e)"
proof
  assume "mentions (omap_put k e ev) s"
  then obtain k' e' where e': "omap_find (omap_put k e ev) k' = Some e'" "s \<in> set (needed_sonames e')" unfolding mentions_def by blast
  show "mentions ev s \<or> s \<in> set (needed_sonames e)"
  proof (cases "k' = k")
    case True
    with e' omap.lookup_put [OF assms(1), of k e k'] show ?thesis by simp
  next
    case False
    with e' omap.lookup_put [OF assms(1), of k e k'] show ?thesis by (simp add: mentionsI)
  qed
next
  assume s: "mentions ev s \<or> s \<in> set (needed_sonames e)"
  have here: "mentions (omap_put k e ev) s" if "s \<in> set (needed_sonames e)"
    using that omap.lookup_put [OF assms(1), of k e k] by (intro mentionsI [of _ k e]) simp_all
  from s show "mentions (omap_put k e ev) s"
  proof
    assume "mentions ev s"
    then obtain k' e' where e': "omap_find ev k' = Some e'" "s \<in> set (needed_sonames e')" unfolding mentions_def by blast
    show ?thesis
    proof (cases "k' = k")
      case True
      with e' assms(2) have "s \<in> set (needed_sonames e)" by (auto simp: evidence_at_def)
      then show ?thesis by (rule here)
    next
      case False
      with e' omap.lookup_put [OF assms(1), of k e k'] show ?thesis by (intro mentionsI [of _ k' e']) simp_all
    qed
  qed (rule here)
qed

definition tracked :: "binary_map \<Rightarrow> string \<Rightarrow> bool" where
  "tracked m s \<longleftrightarrow> s \<in> unmatched_sonames m \<or> mentions (evidence_by_root m) s"

text \<open>The three facts every step keeps.\<close>

definition sound :: "shared_object_index \<Rightarrow> path_set \<Rightarrow> binary_map \<Rightarrow> bool" where
  "sound sh roots m \<longleftrightarrow> evidence_ok sh roots (evidence_by_root m) \<and> (\<forall>s \<in> unmatched_sonames m. root_for_soname sh s = None)"

lemma root_for_soname_member:
  assumes "\<forall>name root. omap_find sh name = Some root \<longrightarrow> owns roots index name root" "root_for_soname sh s = Some root"
  shows "root \<in> set (path_set_paths roots)"
  using root_for_soname_answered [OF assms] longest_enclosing_root_member by (auto simp: list_ex_iff)

lemma attribute_soname_sound:
  assumes "roots_ok roots" "\<forall>name root. omap_find sh name = Some root \<longrightarrow> owns roots index name root" "sound sh roots m"
  shows "sound sh roots (attribute_soname sh p m s) \<and> (\<forall>t. tracked (attribute_soname sh p m s) t \<longleftrightarrow> tracked m t \<or> t = s)"
proof (cases "root_for_soname sh s")
  case None
  with assms(3) show ?thesis by (auto simp: attribute_soname_def sound_def tracked_def)
next
  case (Some root)
  define e where "e = (evidence_at (evidence_by_root m) (path_key root))\<lparr>be_root := root\<rparr>"
  define e' where "e' = (if s \<notin> set (needed_sonames e) then e\<lparr>needed_sonames := needed_sonames e @ [s]\<rparr> else e)"
  define e'' where "e'' = (if first_declaring_artifact e' = [] then e'\<lparr>first_declaring_artifact := p\<rparr> else e')"
  have step: "attribute_soname sh p m s = m\<lparr>evidence_by_root := omap_put (path_key root) e'' (evidence_by_root m)\<rparr>"
    by (simp add: attribute_soname_def Some Let_def e_def e'_def e''_def)
  have ev: "evidence_ok sh roots (evidence_by_root m)" "omap_ok (evidence_by_root m)" using assms(3) by (auto simp: sound_def evidence_ok_def)
  have "entry_ok sh roots (path_key root) e"
    unfolding e_def by (rule evidence_ok_at [OF assms(1) ev(1) root_for_soname_member [OF assms(2) Some]])
  then have "entry_ok sh roots (path_key root) e''" using Some by (auto simp: entry_ok_def e''_def e'_def e_def)
  with evidence_ok_put [OF ev(1)] have "sound sh roots (attribute_soname sh p m s)" using assms(3) by (simp add: step sound_def)
  moreover have needed: "set (needed_sonames e'') = insert s (set (needed_sonames (evidence_at (evidence_by_root m) (path_key root))))"
    by (auto simp: e''_def e'_def e_def)
  then have "mentions (omap_put (path_key root) e'' (evidence_by_root m)) t \<longleftrightarrow> mentions (evidence_by_root m) t \<or> t \<in> set (needed_sonames e'')" for t
    by (intro mentions_put ev(2)) auto
  then have "tracked (attribute_soname sh p m s) t \<longleftrightarrow> tracked m t \<or> t = s" for t
    using needed by (auto simp: step tracked_def dest: mentions_at)
  ultimately show ?thesis by blast
qed

lemma attribute_sonames_sound:
  assumes "roots_ok roots" "\<forall>name root. omap_find sh name = Some root \<longrightarrow> owns roots index name root"
  shows "sound sh roots m \<Longrightarrow> sound sh roots (foldl (attribute_soname sh p) m ss) \<and>
    (\<forall>t. tracked (foldl (attribute_soname sh p) m ss) t \<longleftrightarrow> tracked m t \<or> t \<in> set ss)"
proof (induction ss arbitrary: m)
  case (Cons s ss)
  from attribute_soname_sound [OF assms Cons.prems, of p s] Cons.IH [of "attribute_soname sh p m s"] show ?case by auto
qed simp

lemma attribute_location_sound:
  assumes "roots_ok roots" "sound sh roots m"
  shows "sound sh roots (attribute_location roots a m) \<and> (\<forall>t. tracked (attribute_location roots a m) t \<longleftrightarrow> tracked m t)"
proof (cases "is_contained_binary a \<and> longest_enclosing_root (sa_path a) roots \<noteq> None")
  case False
  with assms(2) have "attribute_location roots a m = m" by (auto simp: attribute_location_def split: option.split)
  with assms(2) show ?thesis by simp
next
  case True
  then obtain root where root: "longest_enclosing_root (sa_path a) roots = Some root" by auto
  obtain e where step: "attribute_location roots a m = m\<lparr>evidence_by_root := omap_put (path_key root) e (evidence_by_root m)\<rparr>"
    and e: "needed_sonames e = needed_sonames (evidence_at (evidence_by_root m) (path_key root))" "be_root e = root"
    using True by (auto simp: attribute_location_def root Let_def)
  have ev: "evidence_ok sh roots (evidence_by_root m)" "omap_ok (evidence_by_root m)" using assms(2) by (auto simp: sound_def evidence_ok_def)
  have "entry_ok sh roots (path_key root) e"
    using evidence_ok_at [OF assms(1) ev(1) longest_enclosing_root_member [OF root]] e by (simp add: entry_ok_def)
  with evidence_ok_put [OF ev(1)] have "sound sh roots (attribute_location roots a m)" using assms(2) by (simp add: step sound_def)
  moreover have "mentions (omap_put (path_key root) e (evidence_by_root m)) t \<longleftrightarrow> mentions (evidence_by_root m) t \<or> t \<in> set (needed_sonames e)" for t
    by (intro mentions_put ev(2)) (simp add: e)
  then have "tracked (attribute_location roots a m) t \<longleftrightarrow> tracked m t" for t
    by (auto simp: step tracked_def e dest: mentions_at)
  ultimately show ?thesis by blast
qed

lemma scan_artifacts_sound:
  assumes "roots_ok roots" "\<forall>name root. omap_find sh name = Some root \<longrightarrow> owns roots index name root"
  shows "sound sh roots (result_value r) \<Longrightarrow>
    sound sh roots (result_value (foldl (scan_artifact fsys scan_root sh roots) r ps)) \<and>
    (\<forall>t. tracked (result_value (foldl (scan_artifact fsys scan_root sh roots) r ps)) t \<longleftrightarrow>
      tracked (result_value r) t \<or> (\<exists>p \<in> set ps. t \<in> set (sa_needed (fst (read_artifact fsys scan_root p)))))"
proof (induction ps arbitrary: r)
  case Nil
  then show ?case by simp
next
  case (Cons p ps)
  obtain a f where read: "read_artifact fsys scan_root p = (a, f)" by fastforce
  define m where "m = (let m = counted f (result_value r); c = counters m in
    if sample_was_truncated a then m\<lparr>counters := c\<lparr>truncated_samples := truncated_samples c + 1\<rparr>\<rparr> else m)"
  have m: "sound sh roots m" "\<forall>t. tracked m t \<longleftrightarrow> tracked (result_value r) t"
    using Cons.prems by (simp_all add: m_def counted_def sound_def tracked_def Let_def)
  define m' where "m' = attribute_location roots a (foldl (attribute_soname sh (sa_path a)) m (sa_needed a))"
  have m': "sound sh roots m'" "\<forall>t. tracked m' t \<longleftrightarrow> tracked (result_value r) t \<or> t \<in> set (sa_needed a)"
    using attribute_sonames_sound [OF assms m(1), of "sa_path a" "sa_needed a"] attribute_location_sound [OF assms(1)] m(2)
    by (auto simp: m'_def)
  have v: "result_value (scan_artifact fsys scan_root sh roots r p) = m'\<lparr>bm_artifacts := bm_artifacts m' @ [a]\<rparr>"
    by (simp add: scan_artifact_value read finish_artifact_def m'_def m_def Let_def)
  have "sound sh roots (result_value (scan_artifact fsys scan_root sh roots r p))" using m'(1) by (simp add: v sound_def)
  moreover have "tracked (result_value (scan_artifact fsys scan_root sh roots r p)) t \<longleftrightarrow> tracked (result_value r) t \<or> t \<in> set (sa_needed a)" for t
    using m'(2) by (simp add: v tracked_def)
  ultimately show ?case using Cons.IH [of "scan_artifact fsys scan_root sh roots r p"] by (auto simp: read)
qed

section \<open>Properties\<close>

lemma limited_value [simp]: "result_value (limited condition t r) = result_value r"
  by (simp add: limited_def warn_def)

lemma binary_warnings_value [simp]: "result_value (binary_warnings r) = result_value r"
  by (simp add: binary_warnings_def Let_def)

lemma build_shared_objects_value [simp]: "result_value (snd (build_shared_objects scan_root root_node roots r)) = result_value r"
  by (simp add: build_shared_objects_def Let_def)

definition no_binaries :: binary_map where
  "no_binaries = \<lparr>evidence_by_root = [], bm_artifacts = [], unmatched_sonames = {}, counters = no_counts\<rparr>"

text \<open>The paths the pass opens, the index of shared objects it consults, and the map before the sonames are sorted.\<close>

definition opened_paths :: "path list \<Rightarrow> path list" where
  "opened_paths artifacts = unique_adj path_equal (sort_key path_key artifacts)"

definition shared_objects_of :: "path \<Rightarrow> node \<Rightarrow> path_set \<Rightarrow> shared_object_index" where
  "shared_objects_of scan_root root_node roots = fst (build_shared_objects scan_root root_node roots (new_result no_binaries))"

definition scanned_map :: "file_system \<Rightarrow> node \<Rightarrow> path list \<Rightarrow> path \<Rightarrow> path_set \<Rightarrow> binary_map" where
  "scanned_map fsys root_node artifacts scan_root roots = result_value (foldl (scan_artifact fsys scan_root (shared_objects_of scan_root root_node roots) roots)
     (snd (build_shared_objects scan_root root_node roots (new_result no_binaries))) (opened_paths artifacts))"

lemma map_binaries_value:
  "result_value (map_binaries_to_roots fsys root_node artifacts scan_root roots) =
    (let m = scanned_map fsys root_node artifacts scan_root roots in
     m\<lparr>evidence_by_root := map (\<lambda>(k, e). (k, e\<lparr>needed_sonames := sort (needed_sonames e)\<rparr>)) (evidence_by_root m)\<rparr>)"
  by (simp add: map_binaries_to_roots_def scanned_map_def shared_objects_of_def opened_paths_def no_binaries_def split_beta Let_def)

lemma scanned_map_counts:
  "balanced (length (filter (nameless fsys scan_root) (opened_paths artifacts))) (counters (scanned_map fsys root_node artifacts scan_root roots)) \<and>
   artifacts_scanned (counters (scanned_map fsys root_node artifacts scan_root roots)) = length (opened_paths artifacts) \<and>
   bm_artifacts (scanned_map fsys root_node artifacts scan_root roots) = map (\<lambda>p. fst (read_artifact fsys scan_root p)) (opened_paths artifacts)"
proof -
  define r where "r = snd (build_shared_objects scan_root root_node roots (new_result no_binaries))"
  have r: "result_value r = no_binaries" by (simp add: r_def new_result_def)
  then have "balanced 0 (counters (result_value r))" by (simp add: no_binaries_def no_counts_def balanced_def)
  from scan_artifacts_balanced [OF this, of fsys scan_root "opened_paths artifacts" "shared_objects_of scan_root root_node roots" roots]
  show ?thesis by (simp add: scanned_map_def r_def [symmetric] r) (simp add: no_binaries_def no_counts_def)
qed

text \<open>C32: Every file opened is counted once, as ELF, archive, unrecognised or unreadable, and listed once; every ELF file lands
  in one of the four buckets - static, relocatable, dynamic, malformed - except those with a dynamic section whose names
  cannot be read, which are counted as dynamic and as malformed.\<close>

theorem binary_counters_reconcile:
  "(let m = result_value (map_binaries_to_roots fsys root_node artifacts scan_root roots); c = counters m;
        ps = unique_adj path_equal (sort_key path_key artifacts) in
    bm_artifacts m = map (\<lambda>p. fst (read_artifact fsys scan_root p)) ps \<and> artifacts_scanned c = length ps \<and>
    artifacts_scanned c = elf_artifacts c + archives c + unrecognized_artifacts c + unreadable_artifacts c \<and>
    static_artifacts c + relocatable_artifacts c + dynamic_artifacts c + malformed_artifacts c =
      elf_artifacts c + length (filter (nameless fsys scan_root) ps) \<and>
    dynamic_without_needed c \<le> dynamic_artifacts c \<and> truncated_samples c \<le> elf_artifacts c + archives c)"
  using scanned_map_counts [of fsys scan_root artifacts root_node roots]
  by (simp add: map_binaries_value Let_def balanced_def opened_paths_def)

text \<open>What an index of files says of a map: every entry is of a given root and each of its sonames is answered by a file
  under it; every soname of an artifact is evidence somewhere or unmatched.\<close>

definition attributed_soundly :: "path_set \<Rightarrow> path list \<Rightarrow> binary_map \<Rightarrow> bool" where
  "attributed_soundly roots index m \<longleftrightarrow>
    list_all (\<lambda>(k, e). be_root e \<in> set (path_set_paths roots) \<and> k = path_key (be_root e) \<and> distinct (needed_sonames e) \<and> sorted (needed_sonames e) \<and>
      list_all (\<lambda>s. list_ex (\<lambda>p. answers s p \<and> longest_enclosing_root p roots = Some (be_root e)) index) (needed_sonames e)) (evidence_by_root m) \<and>
    list_all (\<lambda>a. list_all (\<lambda>s. s \<in> unmatched_sonames m \<or> list_ex (\<lambda>(k, e). s \<in> set (needed_sonames e)) (evidence_by_root m)) (sa_needed a))
      (bm_artifacts m)"

text \<open>C31: No soname is guessed: every library the evidence of a root names is answered by a file of the tree - of that name, or
  of the name without its version - whose longest enclosing root it is; every library an artifact declares is either
  evidence of some root or listed as unmatched.\<close>

theorem binary_evidence_sound:
  assumes "roots_ok roots"
  shows "(let m = result_value (map_binaries_to_roots fsys root_node artifacts scan_root roots);
        index = result_value (build_file_index scan_root root_node
          \<lparr>excluded_names = default_excluded_dir_names, excluded_subtrees = [], included_subtrees = roots\<rparr>) in
    attributed_soundly roots index m)"
proof -
  let ?sh = "shared_objects_of scan_root root_node roots"
  define r where "r = snd (build_shared_objects scan_root root_node roots (new_result no_binaries))"
  define index where "index = result_value (build_file_index scan_root root_node
          \<lparr>excluded_names = default_excluded_dir_names, excluded_subtrees = [], included_subtrees = roots\<rparr>)"
  define m where "m = scanned_map fsys root_node artifacts scan_root roots"
  have r: "result_value r = no_binaries" by (simp add: r_def new_result_def)
  have owns: "\<forall>name root. omap_find ?sh name = Some root \<longrightarrow> owns roots index name root"
  proof (cases "roots = []")
    case True
    then show ?thesis by (simp add: shared_objects_of_def build_shared_objects_def)
  next
    case False
    then have "?sh = foldl (index_shared_object roots) [] index" by (simp add: shared_objects_of_def build_shared_objects_def index_def Let_def)
    with index_shared_objects_owns [of roots index] show ?thesis by simp
  qed
  have "sound ?sh roots (result_value r)" by (simp add: r no_binaries_def sound_def evidence_ok_def omap.ok_empty)
  from scan_artifacts_sound [OF assms owns this, of fsys scan_root "opened_paths artifacts"]
  have s: "sound ?sh roots m" and t: "\<forall>t. tracked m t \<longleftrightarrow> (\<exists>p \<in> set (opened_paths artifacts). t \<in> set (sa_needed (fst (read_artifact fsys scan_root p))))"
    unfolding m_def scanned_map_def r_def [symmetric] by (auto simp: r no_binaries_def tracked_def mentions_def)
  have ok: "omap_ok (evidence_by_root m)" using s by (simp add: sound_def evidence_ok_def)
  then have "distinct (map fst (evidence_by_root m))" by (simp add: omap_ok_def strict_sorted_iff)
  then have find: "omap_find (evidence_by_root m) k = Some e" if "(k, e) \<in> set (evidence_by_root m)" for k e
    using that ok by (simp add: omap_find_map_of)
  have entries: "entry_ok ?sh roots k e" if "(k, e) \<in> set (evidence_by_root m)" for k e
    using find [OF that] s unfolding sound_def evidence_ok_def by blast
  define ev where "ev = map (\<lambda>(k, e). (k, e\<lparr>needed_sonames := sort (needed_sonames e)\<rparr>)) (evidence_by_root m)"
  have "list_all (\<lambda>(k, e). be_root e \<in> set (path_set_paths roots) \<and> k = path_key (be_root e) \<and> distinct (needed_sonames e) \<and> sorted (needed_sonames e) \<and>
      list_all (\<lambda>s. list_ex (\<lambda>p. answers s p \<and> longest_enclosing_root p roots = Some (be_root e)) index) (needed_sonames e)) ev"
    unfolding list_all_iff [of _ ev]
  proof
    fix x assume "x \<in> set ev"
    then obtain k e0 where e0: "(k, e0) \<in> set (evidence_by_root m)" "x = (k, e0\<lparr>needed_sonames := sort (needed_sonames e0)\<rparr>)" by (auto simp: ev_def)
    from entries [OF e0(1)] root_for_soname_answered [OF owns]
    show "case x of (k, e) \<Rightarrow> be_root e \<in> set (path_set_paths roots) \<and> k = path_key (be_root e) \<and> distinct (needed_sonames e) \<and> sorted (needed_sonames e) \<and>
      list_all (\<lambda>s. list_ex (\<lambda>p. answers s p \<and> longest_enclosing_root p roots = Some (be_root e)) index) (needed_sonames e)"
      by (auto simp: entry_ok_def e0(2) list_all_iff)
  qed
  moreover have "s \<in> unmatched_sonames m \<or> list_ex (\<lambda>(k, e). s \<in> set (needed_sonames e)) ev"
    if "p \<in> set (opened_paths artifacts)" "s \<in> set (sa_needed (fst (read_artifact fsys scan_root p)))" for p s
  proof -
    from t that have "tracked m s" by blast
    moreover have "list_ex (\<lambda>(k, e). s \<in> set (needed_sonames e)) ev" if "mentions (evidence_by_root m) s"
    proof -
      from that obtain k e where e: "omap_find (evidence_by_root m) k = Some e" "s \<in> set (needed_sonames e)" unfolding mentions_def by blast
      with ok have "(k, e) \<in> set (evidence_by_root m)" by (simp add: omap_find_map_of map_of_SomeD)
      with e(2) show ?thesis by (force simp: ev_def list_ex_iff)
    qed
    ultimately show ?thesis by (auto simp: tracked_def)
  qed
  moreover have "bm_artifacts m = map (\<lambda>p. fst (read_artifact fsys scan_root p)) (opened_paths artifacts)"
    using scanned_map_counts by (simp add: m_def)
  moreover have "result_value (map_binaries_to_roots fsys root_node artifacts scan_root roots) = m\<lparr>evidence_by_root := ev\<rparr>"
    by (simp add: map_binaries_value m_def ev_def Let_def)
  ultimately show ?thesis by (simp add: attributed_soundly_def Let_def list_all_iff [of _ "map f xs" for f xs] list_all_iff [of _ "sa_needed a" for a] flip: index_def)
qed

theorem binary_evidence_sound_witness:
  "(let roots = path_set_insert ''lib'' []; tree = Folder [(''lib'', Folder [(''libz.so'', Regular)])] in
    attributed_soundly roots [''lib/libz.so''] (result_value (map_binaries_to_roots (files []) tree [''app''] ''/r'' roots)))"
proof -
  let ?roots = "path_set_insert ''lib'' []"
  let ?tree = "Folder [(''lib'', Folder [(''libz.so'', Regular)])]"
  have ok: "roots_ok ?roots" by code_simp
  have index: "result_value (build_file_index ''/r'' ?tree
      \<lparr>excluded_names = default_excluded_dir_names, excluded_subtrees = [], included_subtrees = ?roots\<rparr>) = [''lib/libz.so'']" by code_simp
  from binary_evidence_sound [OF ok, where fsys = "files []" and root_node = ?tree and artifacts = "[''app'']" and scan_root = "''/r''"]
  show ?thesis by (simp only: Let_def index)
qed

text \<open>C33: The two searches for the directory a file belongs to - from the path upwards in the build passes, over all the
  roots by the length of their texts here - give the same root for every path of the tree.\<close>

theorem enclosing_searches_agree:
  assumes "roots_ok roots" "list_all plain_name ns"
  shows "longest_enclosing_root (tidy_path ns) roots = enclosing_root (tidy_path ns) roots"
  by (rule longest_enclosing_root_eq [OF assms])

theorem enclosing_searches_agree_witness:
  "longest_enclosing_root ''lib/zlib/inflate.c'' (path_set_insert ''lib'' (path_set_insert ''lib/zlib'' [])) = Some ''lib/zlib''"
proof -
  have "roots_ok (path_set_insert ''lib'' (path_set_insert ''lib/zlib'' []))" "list_all plain_name [''lib'', ''zlib'', ''inflate.c'']" by code_simp+
  from enclosing_searches_agree [OF this] have "longest_enclosing_root ''lib/zlib/inflate.c'' (path_set_insert ''lib'' (path_set_insert ''lib/zlib'' [])) =
    enclosing_root ''lib/zlib/inflate.c'' (path_set_insert ''lib'' (path_set_insert ''lib/zlib'' []))" by (simp add: tidy_path_def path_of_key_def)
  also have "\<dots> = Some ''lib/zlib''" by code_simp
  finally show ?thesis .
qed

lemma apply_to_component_only_evidence:
  "(fst (apply_to_component m c))\<lparr>comp_evidence := []\<rparr> = c\<lparr>comp_evidence := []\<rparr>"
  "\<exists>ds. comp_evidence (fst (apply_to_component m c)) = comp_evidence c @ map (\<lambda>d. Evidence Binary d High) ds \<and> (snd (apply_to_component m c) \<longleftrightarrow> ds \<noteq> [])"
  by (auto simp: apply_to_component_def Let_def split: option.split)

end
