(* ===== verification/Json.thy ===== *)
theory Json
  imports Text
begin

text \<open>
  \<open>core/json_utils.hpp\<close> and \<open>core/json_utils.cpp\<close>: what every reader does to a document before it hands it to the JSON
  library, and the values that library returns. The library itself is not part of the sources: a parser is a parameter
  of type \<open>string \<Rightarrow> json option\<close> wherever one is called, \<^const>\<open>None\<close> for a document it discards.
\<close>

section \<open>Values\<close>

text \<open>An object is the list of its members in the order the library iterates them (ascending keys, each once). A number
  that is not an integer keeps its text.\<close>

datatype json = Json_Null | Json_Bool bool | Json_Int int | Json_Float string | Json_String string
  | Json_Array "json list" | Json_Object "(string \<times> json) list"

fun json_find :: "json \<Rightarrow> string \<Rightarrow> json option" where
  "json_find (Json_Object members) key = map_of members key"
| "json_find _ key = None"

fun is_json_object :: "json \<Rightarrow> bool" where
  "is_json_object (Json_Object _) = True"
| "is_json_object _ = False"

fun json_string :: "json \<Rightarrow> string option" where
  "json_string (Json_String s) = Some s"
| "json_string _ = None"

fun json_int :: "json \<Rightarrow> int option" where
  "json_int (Json_Int i) = Some i"
| "json_int _ = None"

fun json_array :: "json \<Rightarrow> json list option" where
  "json_array (Json_Array vs) = Some vs"
| "json_array _ = None"

text \<open>The string at a key, when there is one and it is a string.\<close>

definition json_string_at :: "json \<Rightarrow> string \<Rightarrow> string option" where
  "json_string_at v key = Option.bind (json_find v key) json_string"

section \<open>Nesting depth\<close>

definition kUtf8Bom :: string where
  "kUtf8Bom = [CHR 0xEF, CHR 0xBB, CHR 0xBF]"

definition without_utf8_bom :: "string \<Rightarrow> string" where
  "without_utf8_bom bs = (if starts_with bs kUtf8Bom then drop (length kUtf8Bom) bs else bs)"

text \<open>The state of the loop: \<open>current_depth\<close>, \<open>inside_string\<close> and \<open>previous_was_escape\<close>; the body as a step that
  says whether the loop returns.\<close>

definition string_step :: "char \<Rightarrow> bool \<Rightarrow> bool \<times> bool" where
  "string_step character previous_was_escape =
     (if previous_was_escape then (True, False)
      else if character = CHR 0x5C then (True, True)
      else (character \<noteq> CHR 0x22, False))"

definition opens_level :: "char \<Rightarrow> bool" where
  "opens_level c \<longleftrightarrow> c = CHR ''{'' \<or> c = CHR ''[''"

definition closes_level :: "char \<Rightarrow> bool" where
  "closes_level c \<longleftrightarrow> c = CHR ''}'' \<or> c = CHR '']''"

fun exceeds_depth_from :: "string \<Rightarrow> int \<Rightarrow> int \<Rightarrow> bool \<Rightarrow> bool \<Rightarrow> bool" where
  "exceeds_depth_from [] maximum_depth current_depth inside_string previous_was_escape = False"
| "exceeds_depth_from (character # rest) maximum_depth current_depth inside_string previous_was_escape =
     (if inside_string
      then (case string_step character previous_was_escape of
              (inside, escape) \<Rightarrow> exceeds_depth_from rest maximum_depth current_depth inside escape)
      else if character = CHR 0x22 then exceeds_depth_from rest maximum_depth current_depth True previous_was_escape
      else
        let opened = (if opens_level character then current_depth + 1 else current_depth)
        in if opens_level character \<and> opened > maximum_depth then True
           else exceeds_depth_from rest maximum_depth (if closes_level character then opened - 1 else opened)
                  False previous_was_escape)"

definition exceeds_json_nesting_depth :: "string \<Rightarrow> int \<Rightarrow> bool" where
  "exceeds_json_nesting_depth bs maximum_depth = exceeds_depth_from bs maximum_depth 0 False False"

section \<open>Lemmas\<close>

text \<open>The guard measures the nesting outside of strings: a reference that reads the brackets that are left when every
  string is taken out.\<close>

fun brackets_from :: "string \<Rightarrow> bool \<Rightarrow> bool \<Rightarrow> string" where
  "brackets_from [] inside escape = []"
| "brackets_from (c # rest) inside escape =
     (if inside then (case string_step c escape of (i, e) \<Rightarrow> brackets_from rest i e)
      else if c = CHR 0x22 then brackets_from rest True escape
      else if opens_level c \<or> closes_level c then c # brackets_from rest False escape
      else brackets_from rest False escape)"

definition json_brackets :: "string \<Rightarrow> string" where
  "json_brackets txt = brackets_from txt False False"

definition level_change :: "char \<Rightarrow> int" where
  "level_change c = (if opens_level c then 1 else if closes_level c then - 1 else 0)"

definition nesting :: "string \<Rightarrow> int" where
  "nesting bs = sum_list (map level_change bs)"

lemma nesting_simps [simp]: "nesting [] = 0" "nesting (c # bs) = level_change c + nesting bs"
  by (simp_all add: nesting_def)

lemma level_disjoint [simp]: "opens_level c \<Longrightarrow> \<not> closes_level c"
  by (auto simp: opens_level_def closes_level_def)

lemma exceeds_depth_from_reference:
  "0 \<le> maximum_depth \<Longrightarrow> d \<le> maximum_depth \<Longrightarrow>
   exceeds_depth_from txt maximum_depth d i e \<longleftrightarrow>
     (\<exists>n. n \<le> length (brackets_from txt i e) \<and> d + nesting (take n (brackets_from txt i e)) > maximum_depth)"
proof (induction "txt" maximum_depth d i e rule: exceeds_depth_from.induct)
  case (2 c rest m d i e)
  consider i | "\<not> i" "c = CHR 0x22" | "\<not> i" "c \<noteq> CHR 0x22" "opens_level c" | "\<not> i" "c \<noteq> CHR 0x22" "closes_level c"
    | "\<not> i" "c \<noteq> CHR 0x22" "\<not> opens_level c" "\<not> closes_level c" by blast
  then show ?case
  proof cases
    case 1
    obtain i' e' where "string_step c e = (i', e')" by fastforce
    with 1 "2.IH"(1) [OF 1] "2.prems" show ?thesis by simp
  next
    case 3
    have split: "(\<exists>n\<le>Suc k. P n) \<longleftrightarrow> P 0 \<or> (\<exists>n\<le>k. P (Suc n))" for P and k :: nat
      by (metis Suc_le_mono le0 not0_implies_Suc)
    show ?thesis
    proof (cases "d + 1 > m")
      case True
      then have "exceeds_depth_from (c # rest) m d i e" using 3 by simp
      moreover have "d + nesting (take 1 (brackets_from (c # rest) i e)) > m"
        using 3 True by (simp add: level_change_def)
      ultimately show ?thesis using 3 by (metis One_nat_def Suc_le_mono brackets_from.simps(2) le0 length_Cons)
    next
      case False
      with 3 "2.IH"(3) [OF 3(1,2) refl] "2.prems" show ?thesis
        by (simp add: split level_change_def add.assoc)
    qed
  next
    case 4
    have split: "(\<exists>n\<le>Suc k. P n) \<longleftrightarrow> P 0 \<or> (\<exists>n\<le>k. P (Suc n))" for P and k :: nat
      by (metis Suc_le_mono le0 not0_implies_Suc)
    from 4 have "\<not> opens_level c" by (auto simp: opens_level_def closes_level_def)
    with 4 "2.IH"(3) [OF 4(1,2) refl] "2.prems" show ?thesis
      by (simp add: split level_change_def algebra_simps)
  qed (use 2 in simp_all)
qed simp

end
