(* ===== verification/Compile_Map.thy ===== *)
theory Compile_Map
  imports Path_Sets File_System Model
begin

text \<open>
  \<open>observe/compile_map.hpp\<close> and \<open>observe/compile_map.cpp\<close>: what a recorded build proves about the components of a
  repository. A trace record is one tool invocation; \<open>scan_compile_line\<close> reads its arguments,
  \<open>map_compiles_to_roots\<close> attributes the sources and include directories to component roots, and
  \<open>mark_used_in_build\<close> applies the result to the components.
  \<open>DirectoryResolver\<close> remembers what \<open>canonical\<close> answered; the file system does not change while the program runs,
  so it is modelled by the function it remembers.
\<close>

section \<open>Records of a build\<close>

record trace_record =
  rec_tool :: string
  rec_arguments :: "string list"
  rec_directory :: string
  rec_process :: int

datatype usage_signal = No_Signal | Include_Path | Linked | Compiled_Source

definition signal_rank :: "usage_signal \<Rightarrow> nat" where
  "signal_rank s = (case s of No_Signal \<Rightarrow> 0 | Include_Path \<Rightarrow> 1 | Linked \<Rightarrow> 2 | Compiled_Source \<Rightarrow> 3)"

lemma signal_rank_inj [simp]: "signal_rank a = signal_rank b \<longleftrightarrow> a = b"
  by (cases a; cases b) (simp_all add: signal_rank_def)

instantiation usage_signal :: linorder
begin

definition "a \<le> b \<longleftrightarrow> signal_rank a \<le> signal_rank b"

definition "a < b \<longleftrightarrow> signal_rank a < signal_rank b"

instance by standard (auto simp: less_eq_usage_signal_def less_usage_signal_def)

end

record compile_line =
  source_arguments :: "string list"
  include_path_arguments :: "string list"
  cl_response_files :: nat

record component_usage =
  usage_root :: path
  usage_signal_of :: usage_signal
  compiled_source_count :: nat
  include_path_count :: nat
  linked_input_count :: nat
  first_compiled_source :: path
  first_include_path :: path
  first_linked_input :: path

definition new_usage :: component_usage where
  "new_usage = \<lparr>usage_root = [], usage_signal_of = No_Signal, compiled_source_count = 0, include_path_count = 0,
     linked_input_count = 0, first_compiled_source = [], first_include_path = [], first_linked_input = []\<rparr>"

type_synonym usage_map = "(path_key \<times> component_usage) list"

record compile_map =
  usage_by_root :: usage_map
  compiled_sources :: path_set
  compile_invocations :: nat
  out_of_tree_sources :: nat
  unexpanded_response_files :: nat

record used_set_summary =
  judged :: nat
  used :: nat
  unused :: nat
  not_judgeable :: nat

section \<open>Arguments\<close>

definition kCompilerToolNames :: "string list" where
  "kCompilerToolNames = [''cc'', ''c++'', ''gcc'', ''g++'', ''clang'', ''clang++'']"

definition kSourceFileExtensions :: "string list" where
  "kSourceFileExtensions = [''.c'', ''.cc'', ''.cpp'', ''.cxx'', ''.c++'', ''.m'', ''.mm'', ''.s'']"

definition kIncludePathOptions :: "string list" where
  "kIncludePathOptions = [''-I'', ''-isystem'', ''-iquote'', ''-idirafter'']"

definition kOptionsConsumingNextArgument :: "string list" where
  "kOptionsConsumingNextArgument = [''-o'', ''-include'', ''-imacros'', ''-D'', ''-U'', ''-L'', ''-l'', ''-MF'',
     ''-MT'', ''-MQ'', ''-x'', ''--sysroot'', ''-isysroot'', ''-Xclang'', ''-Xlinker'', ''-Xpreprocessor'',
     ''-T'', ''-u'', ''-e'', ''-arch'', ''-framework'']"

definition kCompileOnlyOptions :: "string list" where
  "kCompileOnlyOptions = [''-c'', ''-S'', ''-E'']"

definition has_source_file_extension :: "string \<Rightarrow> bool" where
  "has_source_file_extension argument \<longleftrightarrow> to_lower_ascii (path_extension argument) \<in> set kSourceFileExtensions"

text \<open>The loop over \<open>kIncludePathOptions\<close>: the value, and whether it is the next argument.\<close>

fun include_path_value_in :: "string list \<Rightarrow> string \<Rightarrow> string \<Rightarrow> string \<times> bool" where
  "include_path_value_in [] argument next_argument = ([], False)"
| "include_path_value_in (option # options) argument next_argument =
     (if argument = option then (next_argument, True)
      else if length argument > length option \<and> starts_with argument option then (drop (length option) argument, False)
      else include_path_value_in options argument next_argument)"

definition include_path_value :: "string \<Rightarrow> string \<Rightarrow> string \<times> bool" where
  "include_path_value argument next_argument = include_path_value_in kIncludePathOptions argument next_argument"

definition is_compiler_tool_name :: "string \<Rightarrow> bool" where
  "is_compiler_tool_name tool_name \<longleftrightarrow> tool_name \<in> set kCompilerToolNames"

definition is_link_mode_invocation :: "trace_record \<Rightarrow> bool" where
  "is_link_mode_invocation r =
     (if rec_tool r = ''ld'' then True
      else if \<not> is_compiler_tool_name (rec_tool r) then False
      else list_all (\<lambda>a. \<not> (a \<noteq> [] \<and> hd a = CHR ''@'') \<and> a \<notin> set kCompileOnlyOptions) (drop 1 (rec_arguments r)))"

fun scan_compile_arguments :: "string list \<Rightarrow> compile_line \<Rightarrow> compile_line" where
  "scan_compile_arguments [] line = line"
| "scan_compile_arguments (argument # rest) line =
     (if argument = [] \<or> argument = ''-'' then scan_compile_arguments rest line
      else if hd argument = CHR ''@''
      then scan_compile_arguments rest (line\<lparr>cl_response_files := cl_response_files line + 1\<rparr>)
      else if hd argument \<noteq> CHR ''-''
      then scan_compile_arguments rest
        (if has_source_file_extension argument then line\<lparr>source_arguments := source_arguments line @ [argument]\<rparr> else line)
      else
        let next_argument = (case rest of [] \<Rightarrow> [] | n # _ \<Rightarrow> n);
            (include_path, consumed_next) = include_path_value argument next_argument;
            line = (if include_path \<noteq> [] then line\<lparr>include_path_arguments := include_path_arguments line @ [include_path]\<rparr> else line)
        in scan_compile_arguments
             (if consumed_next \<or> argument \<in> set kOptionsConsumingNextArgument then drop 1 rest else rest) line)"

definition scan_compile_line :: "trace_record \<Rightarrow> compile_line" where
  "scan_compile_line r =
     scan_compile_arguments (drop 1 (rec_arguments r))
       \<lparr>source_arguments = [], include_path_arguments = [], cl_response_files = 0\<rparr>"

section \<open>Paths of a trace\<close>

definition canonical_directory :: "file_system \<Rightarrow> path \<Rightarrow> path" where
  "canonical_directory fsys directory =
     (case fs_weakly_canonical fsys directory of
        Some resolved \<Rightarrow> if resolved \<noteq> [] then resolved
          else lexically_normal (case fs_absolute fsys directory of Some a \<Rightarrow> if a \<noteq> [] then a else directory | None \<Rightarrow> directory)
      | None \<Rightarrow> lexically_normal (case fs_absolute fsys directory of Some a \<Rightarrow> if a \<noteq> [] then a else directory | None \<Rightarrow> directory))"

definition absolute_argument_path :: "path \<Rightarrow> string \<Rightarrow> path" where
  "absolute_argument_path working_directory argument =
     lexically_normal (if path_absolute argument then argument else path_append working_directory argument)"

definition resolve_directory_argument :: "file_system \<Rightarrow> path \<Rightarrow> string \<Rightarrow> path" where
  "resolve_directory_argument fsys working_directory argument =
     canonical_directory fsys (absolute_argument_path working_directory argument)"

definition resolve_file_argument :: "file_system \<Rightarrow> path \<Rightarrow> string \<Rightarrow> path" where
  "resolve_file_argument fsys working_directory argument =
     (let candidate = absolute_argument_path working_directory argument
      in path_append (canonical_directory fsys (path_parent candidate)) (path_filename candidate))"

definition to_root_relative :: "path \<Rightarrow> path \<Rightarrow> path option" where
  "to_root_relative absolute_path canonical_root =
     (let relative_path = lexically_relative absolute_path canonical_root in
      if relative_path = [] then None
      else if first_element relative_path = ''..'' then None
      else Some relative_path)"

definition component_roots_of :: "component list \<Rightarrow> path_set" where
  "component_roots_of components =
     foldl (\<lambda>roots c. let normalized_root = normalized_subtree_path (comp_root c) in
        if normalized_root \<noteq> [] then path_set_insert normalized_root roots else roots) [] components"

section \<open>The compile scan\<close>

text \<open>The state of the loop: the result so far, \<open>sources_by_root\<close> and the sources outside the tree.\<close>

record compile_scan =
  cs_map :: compile_map
  cs_by_root :: "(path_key \<times> path_set) list"
  cs_outside :: path_set

definition usage_at :: "usage_map \<Rightarrow> path_key \<Rightarrow> component_usage" where
  "usage_at m k = (case omap_find m k of None \<Rightarrow> new_usage | Some u \<Rightarrow> u)"

definition paths_at :: "(path_key \<times> path_set) list \<Rightarrow> path_key \<Rightarrow> path_set" where
  "paths_at m k = (case omap_find m k of None \<Rightarrow> [] | Some s \<Rightarrow> s)"

definition initial_usage :: "path_set \<Rightarrow> usage_map" where
  "initial_usage component_roots = foldl (\<lambda>m r. omap_put (path_key r) (new_usage\<lparr>usage_root := r\<rparr>) m) [] (path_set_paths component_roots)"

definition scan_source :: "file_system \<Rightarrow> path \<Rightarrow> path_set \<Rightarrow> path \<Rightarrow> compile_scan \<Rightarrow> string \<Rightarrow> compile_scan" where
  "scan_source fsys canonical_root component_roots working_directory st source_argument =
     (let absolute_source = resolve_file_argument fsys working_directory source_argument in
      case to_root_relative absolute_source canonical_root of
        None \<Rightarrow> st\<lparr>cs_outside := path_set_insert absolute_source (cs_outside st)\<rparr>
      | Some relative_source \<Rightarrow>
          let m = cs_map st; st = st\<lparr>cs_map := m\<lparr>compiled_sources := path_set_insert relative_source (compiled_sources m)\<rparr>\<rparr> in
          case enclosing_root (path_parent relative_source) component_roots of
            None \<Rightarrow> st
          | Some root \<Rightarrow>
              st\<lparr>cs_by_root := omap_put (path_key root) (path_set_insert relative_source (paths_at (cs_by_root st) (path_key root)))
                (cs_by_root st)\<rparr>)"

definition scan_include :: "file_system \<Rightarrow> path \<Rightarrow> path_set \<Rightarrow> path \<Rightarrow> compile_scan \<Rightarrow> string \<Rightarrow> compile_scan" where
  "scan_include fsys canonical_root component_roots working_directory st include_argument =
     (case to_root_relative (resolve_directory_argument fsys working_directory include_argument) canonical_root of
        None \<Rightarrow> st
      | Some relative_include \<Rightarrow>
          case enclosing_root relative_include component_roots of
            None \<Rightarrow> st
          | Some root \<Rightarrow>
              let m = cs_map st; usage = usage_at (usage_by_root m) (path_key root);
                  usage = usage\<lparr>include_path_count := include_path_count usage + 1,
                    first_include_path := keep_lowest (first_include_path usage) relative_include,
                    usage_signal_of := max (usage_signal_of usage) Include_Path\<rparr>
              in st\<lparr>cs_map := m\<lparr>usage_by_root := omap_put (path_key root) usage (usage_by_root m)\<rparr>\<rparr>)"

definition scan_record :: "file_system \<Rightarrow> path \<Rightarrow> path_set \<Rightarrow> compile_scan \<Rightarrow> trace_record \<Rightarrow> compile_scan" where
  "scan_record fsys canonical_root component_roots st r =
     (if \<not> is_compiler_tool_name (rec_tool r) then st
      else
        let m = cs_map st;
            m = (if \<not> is_link_mode_invocation r then m\<lparr>compile_invocations := compile_invocations m + 1\<rparr> else m);
            line = scan_compile_line r;
            m = m\<lparr>unexpanded_response_files := unexpanded_response_files m + cl_response_files line\<rparr>;
            working_directory = canonical_directory fsys (rec_directory r);
            st = foldl (scan_source fsys canonical_root component_roots working_directory) (st\<lparr>cs_map := m\<rparr>) (source_arguments line)
        in foldl (scan_include fsys canonical_root component_roots working_directory) st (include_path_arguments line))"

definition record_sources :: "usage_map \<Rightarrow> path_key \<times> path_set \<Rightarrow> usage_map" where
  "record_sources m e =
     (let (root, sources) = e; usage = usage_at m root; usage = usage\<lparr>compiled_source_count := length sources\<rparr>;
          usage = (case sources of [] \<Rightarrow> usage
            | s # _ \<Rightarrow> usage\<lparr>first_compiled_source := snd s, usage_signal_of := max (usage_signal_of usage) Compiled_Source\<rparr>)
      in omap_put root usage m)"

definition compile_warnings :: "path \<Rightarrow> compile_map result \<Rightarrow> compile_map result" where
  "compile_warnings scan_root r =
     (let m = result_value r;
          r = (if compile_invocations m = 0 \<and> compiled_sources m = []
               then warn kObserveNoCompilerInvocations (''the trace holds no compiler invocations naming a source file, so no component'' @ CHR 0x27 #
                 ''s compiled-source or include-path evidence can be produced from it; link evidence, if any, is judged separately. Record the build with `bomwerk observe` first, and configure it under observe too if it is a CMake tree'') [] [] r
               else r);
          r = (if compile_invocations m > 0 \<and> compiled_sources m = [] \<and> out_of_tree_sources m > 0
               then warn kObserveEvidenceOutsideRoot (''every compiled source lies outside '' @ scan_root @
                 '', so no component there can be shown to be used. The trace was almost certainly recorded against a different directory: point --root at the repository this SBOM describes'') [] [] r
               else r)
      in if unexpanded_response_files m > 0
         then warn kObserveResponseFilesUnexpanded (string_of_nat (unexpanded_response_files m) @
           '' compile argument(s) were response files (@file), which bomwerk does not open; a component whose sources appear only inside one may be reported unused'') [] [] r
         else r)"

definition map_compiles_to_roots :: "file_system \<Rightarrow> trace_record list \<Rightarrow> path \<Rightarrow> path_set \<Rightarrow> compile_map result" where
  "map_compiles_to_roots fsys records scan_root component_roots =
     (let canonical_root = canonical_directory fsys scan_root;
          m = \<lparr>usage_by_root = initial_usage component_roots, compiled_sources = [], compile_invocations = 0,
               out_of_tree_sources = 0, unexpanded_response_files = 0\<rparr>;
          st = foldl (scan_record fsys canonical_root component_roots) \<lparr>cs_map = m, cs_by_root = [], cs_outside = []\<rparr> records;
          m = (cs_map st)\<lparr>out_of_tree_sources := length (cs_outside st)\<rparr>;
          m = m\<lparr>usage_by_root := foldl record_sources (usage_by_root m) (cs_by_root st)\<rparr>
      in compile_warnings scan_root (new_result m))"

section \<open>Marking the components\<close>

definition compiled_source_detail :: "component_usage \<Rightarrow> string" where
  "compiled_source_detail u = ''observed build: '' @ string_of_nat (compiled_source_count u) @
     '' source file(s) compiled under '' @ usage_root u @ '' (e.g. '' @ first_compiled_source u @ '')''"

definition include_path_detail :: "component_usage \<Rightarrow> string" where
  "include_path_detail u = ''observed build: no source compiled, but '' @ string_of_nat (include_path_count u) @
     '' compile line(s) added '' @ first_include_path u @ '' to the include search path''"

definition linked_input_detail :: "component_usage \<Rightarrow> string" where
  "linked_input_detail u = ''observed build: no source compiled, but '' @ string_of_nat (linked_input_count u) @
     '' link input(s) resolved under '' @ usage_root u @ '' (e.g. '' @ first_linked_input u @ '')''"

definition mark_component :: "compile_map \<Rightarrow> used_set_summary \<Rightarrow> component \<Rightarrow> component \<times> used_set_summary" where
  "mark_component m s c =
     (let normalized_root = normalized_subtree_path (comp_root c) in
      if normalized_root = [] then (c, s\<lparr>not_judgeable := not_judgeable s + 1\<rparr>)
      else
        let s = s\<lparr>judged := judged s + 1\<rparr>;
            usage = (case omap_find (usage_by_root m) (path_key normalized_root) of Some u \<Rightarrow> u | None \<Rightarrow> new_usage) in
        case usage_signal_of usage of
          No_Signal \<Rightarrow> (c\<lparr>used_in_build := False\<rparr>, s\<lparr>unused := unused s + 1\<rparr>)
        | Compiled_Source \<Rightarrow> (c\<lparr>used_in_build := True, comp_evidence := comp_evidence c @ [Evidence ObservedBuild (compiled_source_detail usage) High]\<rparr>,
            s\<lparr>used := used s + 1\<rparr>)
        | Linked \<Rightarrow> (c\<lparr>used_in_build := True, comp_evidence := comp_evidence c @ [Evidence ObservedBuild (linked_input_detail usage) High]\<rparr>,
            s\<lparr>used := used s + 1\<rparr>)
        | Include_Path \<Rightarrow> (c\<lparr>used_in_build := True, comp_evidence := comp_evidence c @ [Evidence ObservedBuild (include_path_detail usage) Medium]\<rparr>,
            s\<lparr>used := used s + 1\<rparr>))"

fun mark_components :: "compile_map \<Rightarrow> used_set_summary \<Rightarrow> component list \<Rightarrow> component list \<times> used_set_summary" where
  "mark_components m s [] = ([], s)"
| "mark_components m s (c # cs) =
     (let (c', s) = mark_component m s c; (cs', s) = mark_components m s cs in (c' # cs', s))"

definition mark_used_in_build :: "component list \<Rightarrow> compile_map \<Rightarrow> component list \<times> used_set_summary" where
  "mark_used_in_build components m = mark_components m \<lparr>judged = 0, used = 0, unused = 0, not_judgeable = 0\<rparr> components"

section \<open>Reading the arguments\<close>

text \<open>The arguments of a compile line by what they mean.\<close>

datatype compile_item =
    Source_File string | Other_File string | Response_File string
  | Include_Next string string | Include_Joined string string | Valued_Option string string | Plain_Option string

primrec render_item :: "compile_item \<Rightarrow> string list" where
  "render_item (Source_File s) = [s]"
| "render_item (Other_File s) = [s]"
| "render_item (Response_File s) = [CHR ''@'' # s]"
| "render_item (Include_Next option dir) = [option, dir]"
| "render_item (Include_Joined option dir) = [option @ dir]"
| "render_item (Valued_Option option v) = [option, v]"
| "render_item (Plain_Option f) = [f]"

definition is_operand :: "string \<Rightarrow> bool" where
  "is_operand s \<longleftrightarrow> s \<noteq> [] \<and> hd s \<noteq> CHR ''@'' \<and> hd s \<noteq> CHR ''-''"

definition is_plain_option :: "string \<Rightarrow> bool" where
  "is_plain_option f \<longleftrightarrow> f \<noteq> [] \<and> hd f = CHR ''-'' \<and> f \<noteq> ''-'' \<and> f \<notin> set kOptionsConsumingNextArgument \<and>
     list_all (\<lambda>option. \<not> starts_with f option) kIncludePathOptions"

primrec plain_item :: "compile_item \<Rightarrow> bool" where
  "plain_item (Source_File s) = (is_operand s \<and> has_source_file_extension s)"
| "plain_item (Other_File s) = (is_operand s \<and> \<not> has_source_file_extension s)"
| "plain_item (Response_File s) = True"
| "plain_item (Include_Next option dir) = (option \<in> set kIncludePathOptions \<and> dir \<noteq> [])"
| "plain_item (Include_Joined option dir) = (option \<in> set kIncludePathOptions \<and> dir \<noteq> [])"
| "plain_item (Valued_Option option v) = (option \<in> set kOptionsConsumingNextArgument)"
| "plain_item (Plain_Option f) = is_plain_option f"

definition item_sources :: "compile_item \<Rightarrow> string list" where
  "item_sources i = (case i of Source_File s \<Rightarrow> [s] | _ \<Rightarrow> [])"

definition item_includes :: "compile_item \<Rightarrow> string list" where
  "item_includes i = (case i of Include_Next option dir \<Rightarrow> [dir] | Include_Joined option dir \<Rightarrow> [dir] | _ \<Rightarrow> [])"

definition item_responses :: "compile_item \<Rightarrow> nat" where
  "item_responses i = (case i of Response_File s \<Rightarrow> 1 | _ \<Rightarrow> 0)"

lemma include_options:
  "option \<in> set kIncludePathOptions \<Longrightarrow> option \<noteq> [] \<and> hd option = CHR ''-'' \<and> option \<noteq> ''-''"
  "option \<in> set kIncludePathOptions \<Longrightarrow> include_path_value option n = (n, True)"
  "option \<in> set kIncludePathOptions \<Longrightarrow> d \<noteq> [] \<Longrightarrow> include_path_value (option @ d) n = (d, False)"
  by (auto simp: kIncludePathOptions_def include_path_value_def)

lemma plain_option_value: "list_all (\<lambda>option. \<not> starts_with f option) options \<Longrightarrow> include_path_value_in options f n = ([], False)"
proof (induction options)
  case (Cons p options)
  moreover have "f \<noteq> p" using Cons.prems by (auto simp: starts_with_def)
  ultimately show ?case by simp
qed simp

lemma consuming_options:
  assumes "option \<in> set kOptionsConsumingNextArgument"
  shows "option \<noteq> [] \<and> hd option = CHR ''-'' \<and> option \<noteq> ''-'' \<and> include_path_value option n = ([], False)"
proof -
  have "\<forall>x \<in> set kOptionsConsumingNextArgument.
      x \<noteq> [] \<and> hd x = CHR ''-'' \<and> x \<noteq> ''-'' \<and> list_all (\<lambda>p. \<not> starts_with x p) kIncludePathOptions" by code_simp
  with assms show ?thesis unfolding include_path_value_def using plain_option_value by blast
qed

lemma joined_not_consuming:
  assumes "option \<in> set kIncludePathOptions"
  shows "option @ d \<notin> set kOptionsConsumingNextArgument"
proof
  assume "option @ d \<in> set kOptionsConsumingNextArgument"
  moreover have "\<forall>x \<in> set kOptionsConsumingNextArgument. \<forall>p \<in> set kIncludePathOptions. \<not> starts_with x p" by code_simp
  ultimately show False using assms starts_with_append [of option d] by blast
qed

lemma scan_item:
  assumes "plain_item i"
  shows "scan_compile_arguments (render_item i @ rest) line = scan_compile_arguments rest
    (line\<lparr>source_arguments := source_arguments line @ item_sources i, include_path_arguments := include_path_arguments line @ item_includes i,
       cl_response_files := cl_response_files line + item_responses i\<rparr>)"
proof (cases i)
  case (Include_Next p d)
  then show ?thesis using assms include_options(1) [of p] include_options(2) [of p d]
    by (cases "d = []") (simp_all add: item_sources_def item_includes_def item_responses_def)
next
  case (Include_Joined p d)
  then show ?thesis using assms include_options(1) [of p] include_options(3) [of p d] joined_not_consuming [where option = p and d = d]
    by (simp add: item_sources_def item_includes_def item_responses_def append_eq_Cons_conv)
next
  case (Valued_Option p v)
  then show ?thesis using assms consuming_options [of p v]
    by (simp add: item_sources_def item_includes_def item_responses_def)
next
  case (Plain_Option f)
  then show ?thesis using assms plain_option_value [of f kIncludePathOptions]
    by (simp add: item_sources_def item_includes_def item_responses_def is_plain_option_def include_path_value_def)
qed (use assms in \<open>auto simp: item_sources_def item_includes_def item_responses_def is_operand_def\<close>)

lemma scan_items:
  "list_all plain_item items \<Longrightarrow> scan_compile_arguments (concat (map render_item items)) line =
    line\<lparr>source_arguments := source_arguments line @ concat (map item_sources items),
       include_path_arguments := include_path_arguments line @ concat (map item_includes items),
       cl_response_files := cl_response_files line + sum_list (map item_responses items)\<rparr>"
  by (induction items arbitrary: line) (simp_all add: scan_item)

section \<open>Attributing\<close>

lemma to_root_relative_canonical: "to_root_relative a r = Some p \<Longrightarrow> canonical_path p \<and> p \<noteq> []"
  using lexically_relative_canonical [of a r] by (auto simp: to_root_relative_def Let_def split: if_splits)

subsection \<open>What one pass over a trace sees\<close>

definition working_directory_of :: "file_system \<Rightarrow> trace_record \<Rightarrow> path" where
  "working_directory_of fsys r = canonical_directory fsys (rec_directory r)"

text \<open>The root-relative sources and include directories one record names, and the sources outside the tree.\<close>

definition sources_of :: "file_system \<Rightarrow> path \<Rightarrow> trace_record \<Rightarrow> path list" where
  "sources_of fsys canonical_root r =
     (if is_compiler_tool_name (rec_tool r)
      then List.map_filter (\<lambda>a. to_root_relative (resolve_file_argument fsys (working_directory_of fsys r) a) canonical_root)
        (source_arguments (scan_compile_line r)) else [])"

definition outside_of :: "file_system \<Rightarrow> path \<Rightarrow> trace_record \<Rightarrow> path list" where
  "outside_of fsys canonical_root r =
     (if is_compiler_tool_name (rec_tool r)
      then filter (\<lambda>p. to_root_relative p canonical_root = None)
        (map (resolve_file_argument fsys (working_directory_of fsys r)) (source_arguments (scan_compile_line r))) else [])"

definition includes_of :: "file_system \<Rightarrow> path \<Rightarrow> trace_record \<Rightarrow> path list" where
  "includes_of fsys canonical_root r =
     (if is_compiler_tool_name (rec_tool r)
      then List.map_filter (\<lambda>a. to_root_relative (resolve_directory_argument fsys (working_directory_of fsys r) a) canonical_root)
        (include_path_arguments (scan_compile_line r)) else [])"

definition root_key :: "path_set \<Rightarrow> path \<Rightarrow> path_key option" where
  "root_key roots p = map_option path_key (enclosing_root p roots)"

definition add_include :: "component_usage \<Rightarrow> path \<Rightarrow> component_usage" where
  "add_include usage relative_include = usage\<lparr>include_path_count := include_path_count usage + 1,
     first_include_path := keep_lowest (first_include_path usage) relative_include,
     usage_signal_of := max (usage_signal_of usage) Include_Path\<rparr>"

text \<open>The paths attributed so far, by root: a function of the root-relative paths met.\<close>

definition by_root_state :: "path_set \<Rightarrow> path list \<Rightarrow> (path_key \<times> path_set) list \<Rightarrow> bool" where
  "by_root_state roots ss by_root \<longleftrightarrow> omap_ok by_root \<and>
     (\<forall>k. omap_find by_root k =
        (let ps = filter (\<lambda>s. root_key roots (path_parent s) = Some k) ss in if ps = [] then None else Some (path_set_of ps)))"

lemma by_root_state_Nil [simp]: "by_root_state roots [] []"
  by (simp add: by_root_state_def omap.ok_empty)

lemma by_root_state_skip:
  "by_root_state roots ss by_root \<Longrightarrow> enclosing_root (path_parent p) roots = None \<Longrightarrow> by_root_state roots (ss @ [p]) by_root"
  by (simp add: by_root_state_def root_key_def)

lemma by_root_state_put:
  assumes "by_root_state roots ss by_root" "enclosing_root (path_parent p) roots = Some r"
  shows "by_root_state roots (ss @ [p]) (omap_put (path_key r) (path_set_insert p (paths_at by_root (path_key r))) by_root)"
proof -
  have ok: "omap_ok by_root" and found: "omap_find by_root k =
      (let ps = filter (\<lambda>s. root_key roots (path_parent s) = Some k) ss in if ps = [] then None else Some (path_set_of ps))" for k
    using assms(1) unfolding by_root_state_def by blast+
  have at: "paths_at by_root k = path_set_of (filter (\<lambda>s. root_key roots (path_parent s) = Some k) ss)" for k
    by (simp add: paths_at_def found Let_def path_set_of_def)
  have k: "root_key roots (path_parent p) = Some (path_key r)" using assms(2) by (simp add: root_key_def)
  have "omap_find (omap_put (path_key r) (path_set_insert p (paths_at by_root (path_key r))) by_root) k' =
      (let ps = filter (\<lambda>s. root_key roots (path_parent s) = Some k') (ss @ [p]) in if ps = [] then None else Some (path_set_of ps))" for k'
    using k by (subst omap.lookup_put [OF ok]) (auto simp: found at path_set_of_snoc Let_def)
  then show ?thesis using ok unfolding by_root_state_def by (blast intro: omap.ok_put)
qed

text \<open>The state of the scan, as a function of the sources, outside sources and includes met so far.\<close>

definition scan_state :: "path_set \<Rightarrow> usage_map \<Rightarrow> path list \<Rightarrow> path list \<Rightarrow> path list \<Rightarrow> compile_scan \<Rightarrow> bool" where
  "scan_state roots u0 ss os is st \<longleftrightarrow>
     compiled_sources (cs_map st) = path_set_of ss \<and> cs_outside st = path_set_of os \<and>
     by_root_state roots ss (cs_by_root st) \<and>
     omap_ok (usage_by_root (cs_map st)) \<and>
     (\<forall>k. omap_find (usage_by_root (cs_map st)) k =
        (let ps = filter (\<lambda>i. root_key roots i = Some k) is in
         if ps = [] then omap_find u0 k else Some (foldl add_include (usage_at u0 k) ps)))"

lemma scan_source_state:
  assumes "scan_state roots u0 ss os is st"
  shows "case to_root_relative (resolve_file_argument fsys wd a) cr of
      None \<Rightarrow> scan_state roots u0 ss (os @ [resolve_file_argument fsys wd a]) is (scan_source fsys cr roots wd st a)
    | Some p \<Rightarrow> scan_state roots u0 (ss @ [p]) os is (scan_source fsys cr roots wd st a)"
proof (cases "to_root_relative (resolve_file_argument fsys wd a) cr")
  case None
  with assms show ?thesis by (simp add: scan_state_def scan_source_def path_set_of_snoc)
next
  case (Some p)
  have state: "by_root_state roots ss (cs_by_root st)" using assms by (simp add: scan_state_def)
  show ?thesis
  proof (cases "enclosing_root (path_parent p) roots")
    case none: None
    with Some assms by_root_state_skip [OF state none] show ?thesis by (simp add: scan_state_def scan_source_def path_set_of_snoc)
  next
    case root: (Some r)
    with Some assms by_root_state_put [OF state root] show ?thesis
      by (simp add: scan_state_def scan_source_def path_set_of_snoc Let_def)
  qed
qed

lemma scan_include_state:
  assumes "scan_state roots u0 ss os is st"
  shows "case to_root_relative (resolve_directory_argument fsys wd a) cr of
      None \<Rightarrow> scan_state roots u0 ss os is (scan_include fsys cr roots wd st a)
    | Some p \<Rightarrow> scan_state roots u0 ss os (is @ [p]) (scan_include fsys cr roots wd st a)"
proof (cases "to_root_relative (resolve_directory_argument fsys wd a) cr")
  case None
  with assms show ?thesis by (simp add: scan_include_def)
next
  case (Some p)
  show ?thesis
  proof (cases "enclosing_root p roots")
    case none: None
    with Some assms show ?thesis by (simp add: scan_state_def scan_include_def root_key_def)
  next
    case root: (Some r)
    then have k: "root_key roots p = Some (path_key r)" by (simp add: root_key_def)
    define u where "u = usage_by_root (cs_map st)"
    have ok: "omap_ok u" and found: "omap_find u k' =
        (let ps = filter (\<lambda>i. root_key roots i = Some k') is in
         if ps = [] then omap_find u0 k' else Some (foldl add_include (usage_at u0 k') ps))" for k'
      using assms unfolding scan_state_def u_def by blast+
    have at: "usage_at u k' = foldl add_include (usage_at u0 k') (filter (\<lambda>i. root_key roots i = Some k') is)" for k'
      by (simp add: usage_at_def found Let_def)
    define u' where "u' = omap_put (path_key r) (add_include (usage_at u (path_key r)) p) u"
    have "omap_ok u'" using ok by (simp add: u'_def omap.ok_put)
    moreover have "omap_find u' k' = (let ps = filter (\<lambda>i. root_key roots i = Some k') (is @ [p]) in
         if ps = [] then omap_find u0 k' else Some (foldl add_include (usage_at u0 k') ps))" for k'
      using k unfolding u'_def by (subst omap.lookup_put [OF ok]) (auto simp: found at Let_def)
    moreover have "scan_include fsys cr roots wd st a = st\<lparr>cs_map := (cs_map st)\<lparr>usage_by_root := u'\<rparr>\<rparr>"
      using Some root by (simp add: scan_include_def u'_def u_def add_include_def Let_def)
    ultimately show ?thesis using Some assms by (simp add: scan_state_def)
  qed
qed

lemma scan_sources_state:
  "scan_state roots u0 ss os is st \<Longrightarrow>
   scan_state roots u0 (ss @ List.map_filter (\<lambda>a. to_root_relative (resolve_file_argument fsys wd a) cr) as)
     (os @ filter (\<lambda>p. to_root_relative p cr = None) (map (resolve_file_argument fsys wd) as)) is
     (foldl (scan_source fsys cr roots wd) st as)"
proof (induction "as" arbitrary: ss os st)
  case Nil
  then show ?case by (simp add: List.map_filter_simps)
next
  case (Cons a bs)
  note step = scan_source_state [OF Cons.prems, where fsys = fsys and wd = wd and a = a and cr = cr]
  show ?case
  proof (cases "to_root_relative (resolve_file_argument fsys wd a) cr")
    case None
    with step have "scan_state roots u0 ss (os @ [resolve_file_argument fsys wd a]) is (scan_source fsys cr roots wd st a)" by simp
    from Cons.IH [OF this] None show ?thesis by (simp add: List.map_filter_simps)
  next
    case (Some p)
    with step have "scan_state roots u0 (ss @ [p]) os is (scan_source fsys cr roots wd st a)" by simp
    from Cons.IH [OF this] Some show ?thesis by (simp add: List.map_filter_simps)
  qed
qed

lemma scan_includes_state:
  "scan_state roots u0 ss os is st \<Longrightarrow>
   scan_state roots u0 ss os (is @ List.map_filter (\<lambda>a. to_root_relative (resolve_directory_argument fsys wd a) cr) as)
     (foldl (scan_include fsys cr roots wd) st as)"
proof (induction "as" arbitrary: "is" st)
  case Nil
  then show ?case by (simp add: List.map_filter_simps)
next
  case (Cons a bs)
  note step = scan_include_state [OF Cons.prems, where fsys = fsys and wd = wd and a = a and cr = cr]
  show ?case
  proof (cases "to_root_relative (resolve_directory_argument fsys wd a) cr")
    case None
    with step have "scan_state roots u0 ss os is (scan_include fsys cr roots wd st a)" by simp
    from Cons.IH [OF this] None show ?thesis by (simp add: List.map_filter_simps)
  next
    case (Some p)
    with step have "scan_state roots u0 ss os (is @ [p]) (scan_include fsys cr roots wd st a)" by simp
    from Cons.IH [OF this] Some show ?thesis by (simp add: List.map_filter_simps)
  qed
qed

text \<open>The counters, which neither kind of argument touches.\<close>

lemma scan_source_counts [simp]:
  "compile_invocations (cs_map (foldl (scan_source fsys cr roots wd) st as)) = compile_invocations (cs_map st)"
  "unexpanded_response_files (cs_map (foldl (scan_source fsys cr roots wd) st as)) = unexpanded_response_files (cs_map st)"
  by (induction "as" arbitrary: st) (simp_all add: scan_source_def Let_def split: option.split)

lemma scan_include_counts [simp]:
  "compile_invocations (cs_map (foldl (scan_include fsys cr roots wd) st as)) = compile_invocations (cs_map st)"
  "unexpanded_response_files (cs_map (foldl (scan_include fsys cr roots wd) st as)) = unexpanded_response_files (cs_map st)"
  by (induction "as" arbitrary: st) (simp_all add: scan_include_def Let_def split: option.split)

definition is_compile_record :: "trace_record \<Rightarrow> bool" where
  "is_compile_record r \<longleftrightarrow> is_compiler_tool_name (rec_tool r) \<and> \<not> is_link_mode_invocation r"

definition response_files_of :: "trace_record \<Rightarrow> nat" where
  "response_files_of r = (if is_compiler_tool_name (rec_tool r) then cl_response_files (scan_compile_line r) else 0)"

lemma scan_record_state:
  assumes "scan_state roots u0 ss os is st"
  shows "scan_state roots u0 (ss @ sources_of fsys cr r) (os @ outside_of fsys cr r) (is @ includes_of fsys cr r)
      (scan_record fsys cr roots st r) \<and>
    compile_invocations (cs_map (scan_record fsys cr roots st r)) = compile_invocations (cs_map st) + (if is_compile_record r then 1 else 0) \<and>
    unexpanded_response_files (cs_map (scan_record fsys cr roots st r)) = unexpanded_response_files (cs_map st) + response_files_of r"
proof (cases "is_compiler_tool_name (rec_tool r)")
  case False
  with assms show ?thesis
    by (simp add: scan_record_def sources_of_def outside_of_def includes_of_def is_compile_record_def response_files_of_def)
next
  case True
  define m where "m = (let m = cs_map st; m = (if \<not> is_link_mode_invocation r then m\<lparr>compile_invocations := compile_invocations m + 1\<rparr> else m)
    in m\<lparr>unexpanded_response_files := unexpanded_response_files m + cl_response_files (scan_compile_line r)\<rparr>)"
  have "scan_state roots u0 ss os is (st\<lparr>cs_map := m\<rparr>)" using assms by (simp add: scan_state_def m_def Let_def)
  from scan_includes_state [OF scan_sources_state [OF this]]
  show ?thesis
    using True by (simp add: scan_record_def sources_of_def outside_of_def includes_of_def working_directory_of_def Let_def
      is_compile_record_def response_files_of_def m_def)
qed

lemma scan_records_state:
  "scan_state roots u0 ss os is st \<Longrightarrow>
   scan_state roots u0 (ss @ concat (map (sources_of fsys cr) rs)) (os @ concat (map (outside_of fsys cr) rs))
     (is @ concat (map (includes_of fsys cr) rs)) (foldl (scan_record fsys cr roots) st rs) \<and>
   compile_invocations (cs_map (foldl (scan_record fsys cr roots) st rs)) = compile_invocations (cs_map st) + length (filter is_compile_record rs) \<and>
   unexpanded_response_files (cs_map (foldl (scan_record fsys cr roots) st rs)) =
     unexpanded_response_files (cs_map st) + sum_list (map response_files_of rs)"
proof (induction rs arbitrary: ss os "is" st)
  case Nil
  then show ?case by simp
next
  case (Cons r rs)
  from scan_record_state [OF Cons.prems, of fsys cr r] Cons.IH show ?case by fastforce
qed

subsection \<open>The result\<close>

lemma add_includes:
  assumes "list_all (\<lambda>p. canonical_path p \<and> p \<noteq> []) is" "is \<noteq> []" "first_include_path u = []"
  shows "foldl add_include u is = u\<lparr>include_path_count := include_path_count u + length is,
    first_include_path := least_path is, usage_signal_of := max (usage_signal_of u) Include_Path\<rparr>"
proof -
  have "foldl add_include u is = u\<lparr>include_path_count := include_path_count u + length is,
      first_include_path := foldl keep_lowest (first_include_path u) is,
      usage_signal_of := if is = [] then usage_signal_of u else max (usage_signal_of u) Include_Path\<rparr>"
    by (induction "is" arbitrary: u) (simp_all add: add_include_def)
  then show ?thesis using assms keep_lowest_least [OF assms(1)] by simp
qed

definition with_sources :: "component_usage \<Rightarrow> path_set \<Rightarrow> component_usage" where
  "with_sources usage sources =
     (let usage = usage\<lparr>compiled_source_count := length sources\<rparr> in
      case sources of [] \<Rightarrow> usage
      | s # _ \<Rightarrow> usage\<lparr>first_compiled_source := snd s, usage_signal_of := max (usage_signal_of usage) Compiled_Source\<rparr>)"

lemma record_sources_with: "record_sources m e = omap_put (fst e) (with_sources (usage_at m (fst e)) (snd e)) m"
  by (simp add: record_sources_def with_sources_def split_beta Let_def)

text \<open>Updating the entries of a usage map, key by key.\<close>

lemma update_usages:
  "omap_ok m \<Longrightarrow> distinct (map fst es) \<Longrightarrow>
   omap_ok (foldl (\<lambda>m e. omap_put (fst e) (f (fst e) (usage_at m (fst e)) (snd e)) m) m es) \<and>
   omap_find (foldl (\<lambda>m e. omap_put (fst e) (f (fst e) (usage_at m (fst e)) (snd e)) m) m es) k =
     (case map_of es k of None \<Rightarrow> omap_find m k | Some s \<Rightarrow> Some (f k (usage_at m k) s))"
proof (induction es arbitrary: m)
  case Nil
  then show ?case by simp
next
  case (Cons e es)
  define m' where "m' = omap_put (fst e) (f (fst e) (usage_at m (fst e)) (snd e)) m"
  have ok: "omap_ok m'" using Cons.prems(1) by (simp add: m'_def omap.ok_put)
  have find: "omap_find m' k' = (if k' = fst e then Some (f (fst e) (usage_at m (fst e)) (snd e)) else omap_find m k')" for k'
    using Cons.prems(1) by (simp add: m'_def omap.lookup_put)
  have "map_of es (fst e) = None" using Cons.prems(2) by (simp add: map_of_eq_None_iff)
  moreover have "map_of (e # es) k = (if k = fst e then Some (snd e) else map_of es k)" by (cases e) auto
  moreover have "usage_at m' k = usage_at m k" if "k \<noteq> fst e" using that find by (simp add: usage_at_def)
  ultimately show ?case using Cons.IH [OF ok] Cons.prems(2) by (cases "k = fst e") (simp_all add: find split: option.split flip: m'_def)
qed

lemma record_all_sources:
  "omap_ok m \<Longrightarrow> distinct (map fst es) \<Longrightarrow>
   omap_ok (foldl record_sources m es) \<and>
   omap_find (foldl record_sources m es) k =
     (case map_of es k of None \<Rightarrow> omap_find m k | Some s \<Rightarrow> Some (with_sources (usage_at m k) s))"
  unfolding record_sources_with [abs_def] by (rule update_usages)

lemma initial_usage_state:
  assumes "roots_ok roots"
  shows "omap_ok (initial_usage roots)"
    "omap_find (initial_usage roots) k = map_option (\<lambda>r. new_usage\<lparr>usage_root := r\<rparr>) (omap_find roots k)"
proof -
  define put where "put = (\<lambda>m r. omap_put (path_key r) (new_usage\<lparr>usage_root := r\<rparr>) m)"
  have "omap_ok (foldl put [] rs) \<and> omap_find (foldl put [] rs) k =
      (if k \<in> path_key ` set rs then Some (new_usage\<lparr>usage_root := path_of_key k\<rparr>) else None)"
    if "list_all canonical_path rs" for rs k
    using that
  proof (induction rs arbitrary: k rule: rev_induct)
    case Nil
    then show ?case by (simp add: omap.ok_empty)
  next
    case (snoc r rs)
    then have "r = path_of_key (path_key r)" by (simp add: canonical_path_def)
    with snoc show ?case by (auto simp: put_def omap.ok_put omap.lookup_put)
  qed
  note puts = this
  have key: "r = path_of_key k' \<and> path_key r = k'" if "(k', r) \<in> set roots" for k' r
    using assms that plain_names_ok [of "snd k'"] path_key_of_key [of k'] by (auto simp: roots_ok_def list_all_iff)
  then have c: "list_all canonical_path (path_set_paths roots)"
    by (auto simp: list_all_iff path_set_paths_def canonical_path_def)
  have "path_key ` set (path_set_paths roots) = fst ` set roots"
    using key by (force simp: path_set_paths_def image_image)
  moreover have find: "omap_find roots k = map_of roots k" using assms by (simp add: roots_ok_def omap_find_map_of)
  moreover have "map_of roots k = (if k \<in> fst ` set roots then Some (path_of_key k) else None)"
  proof (cases "map_of roots k")
    case None
    then show ?thesis by (simp add: map_of_eq_None_iff)
  next
    case (Some r)
    then show ?thesis using key [OF map_of_SomeD [OF Some]] by (force dest: map_of_SomeD)
  qed
  ultimately show "omap_find (initial_usage roots) k = map_option (\<lambda>r. new_usage\<lparr>usage_root := r\<rparr>) (omap_find roots k)"
    "omap_ok (initial_usage roots)"
    using puts [OF c, of k] by (simp_all add: initial_usage_def put_def)
qed

text \<open>What the trace says of one root: the reference the pass is compared with.\<close>

definition root_sources :: "file_system \<Rightarrow> trace_record list \<Rightarrow> path \<Rightarrow> path_set \<Rightarrow> path_key \<Rightarrow> path list" where
  "root_sources fsys records canonical_root roots k =
     filter (\<lambda>s. root_key roots (path_parent s) = Some k) (concat (map (sources_of fsys canonical_root) records))"

definition root_includes :: "file_system \<Rightarrow> trace_record list \<Rightarrow> path \<Rightarrow> path_set \<Rightarrow> path_key \<Rightarrow> path list" where
  "root_includes fsys records canonical_root roots k =
     filter (\<lambda>i. root_key roots i = Some k) (concat (map (includes_of fsys canonical_root) records))"

definition reference_usage :: "path \<Rightarrow> path list \<Rightarrow> path list \<Rightarrow> component_usage" where
  "reference_usage root sources includes = new_usage\<lparr>usage_root := root,
     usage_signal_of := (if sources \<noteq> [] then Compiled_Source else if includes \<noteq> [] then Include_Path else No_Signal),
     compiled_source_count := card (set sources), include_path_count := length includes,
     first_compiled_source := least_path sources, first_include_path := least_path includes\<rparr>"

lemma sources_canonical: "list_all (\<lambda>p. canonical_path p \<and> p \<noteq> []) (concat (map (sources_of fsys cr) rs))"
  by (induction rs) (auto simp: sources_of_def list_all_iff List.map_filter_def dest: to_root_relative_canonical)

lemma includes_canonical: "list_all (\<lambda>p. canonical_path p \<and> p \<noteq> []) (concat (map (includes_of fsys cr) rs))"
  by (induction rs) (auto simp: includes_of_def list_all_iff List.map_filter_def dest: to_root_relative_canonical)

lemma compile_warnings_value [simp]: "result_value (compile_warnings root r) = result_value r"
  by (simp add: compile_warnings_def Let_def warn_def)

text \<open>The value of \<open>map_compiles_to_roots\<close>, read off the state of the scan.\<close>

lemma map_compiles_state:
  fixes fsys scan_root records roots
  assumes roots: "roots_ok roots"
  defines "cr \<equiv> canonical_directory fsys scan_root"
  defines "m \<equiv> result_value (map_compiles_to_roots fsys records scan_root roots)"
  shows "compiled_sources m = path_set_of (concat (map (sources_of fsys cr) records))"
    "out_of_tree_sources m = card (path_key ` set (concat (map (outside_of fsys cr) records)))"
    "compile_invocations m = length (filter is_compile_record records)"
    "unexpanded_response_files m = sum_list (map response_files_of records)"
    "omap_ok (usage_by_root m)"
    "omap_find (usage_by_root m) k = map_option
       (\<lambda>r. reference_usage r (root_sources fsys records cr roots k) (root_includes fsys records cr roots k)) (omap_find roots k)"
proof -
  define u0 where "u0 = initial_usage roots"
  define m0 where "m0 = \<lparr>usage_by_root = u0, compiled_sources = [], compile_invocations = 0,
     out_of_tree_sources = 0, unexpanded_response_files = 0\<rparr>"
  define st where "st = foldl (scan_record fsys cr roots) \<lparr>cs_map = m0, cs_by_root = [], cs_outside = []\<rparr> records"
  note u0 = initial_usage_state [OF roots, folded u0_def]
  have "scan_state roots u0 [] [] [] \<lparr>cs_map = m0, cs_by_root = [], cs_outside = []\<rparr>"
    using u0(1) by (simp add: scan_state_def m0_def path_set_of_def omap.ok_empty)
  from scan_records_state [OF this, of fsys cr records]
  have state: "scan_state roots u0 (concat (map (sources_of fsys cr) records)) (concat (map (outside_of fsys cr) records))
      (concat (map (includes_of fsys cr) records)) st"
    and counts: "compile_invocations (cs_map st) = length (filter is_compile_record records)"
      "unexpanded_response_files (cs_map st) = sum_list (map response_files_of records)"
    by (simp_all add: st_def m0_def)
  have m: "m = (cs_map st)\<lparr>out_of_tree_sources := length (cs_outside st),
      usage_by_root := foldl record_sources (usage_by_root (cs_map st)) (cs_by_root st)\<rparr>"
    by (simp add: m_def map_compiles_to_roots_def Let_def new_result_def st_def m0_def u0_def cr_def)
  show "compiled_sources m = path_set_of (concat (map (sources_of fsys cr) records))"
    "out_of_tree_sources m = card (path_key ` set (concat (map (outside_of fsys cr) records)))"
    "compile_invocations m = length (filter is_compile_record records)"
    "unexpanded_response_files m = sum_list (map response_files_of records)"
    using state counts unfolding scan_state_def by (simp_all add: m length_path_set_of del: set_concat)
  define ss where "ss = root_sources fsys records cr roots k"
  define is' where "is' = root_includes fsys records cr roots k"
  have by_root: "omap_ok (cs_by_root st)" "omap_find (cs_by_root st) k = (if ss = [] then None else Some (path_set_of ss))"
    and usage: "omap_ok (usage_by_root (cs_map st))"
      "omap_find (usage_by_root (cs_map st)) k = (if is' = [] then omap_find u0 k else Some (foldl add_include (usage_at u0 k) is'))"
    using state unfolding scan_state_def by_root_state_def ss_def is'_def root_sources_def root_includes_def Let_def by blast+
  have "distinct (map fst (cs_by_root st))" using by_root(1) by (simp add: omap_ok_def strict_sorted_iff)
  note final = record_all_sources [OF usage(1) this, of k]
  then show "omap_ok (usage_by_root m)" by (simp add: m)
  have found: "omap_find (usage_by_root m) k =
      (if ss = [] then omap_find (usage_by_root (cs_map st)) k
       else Some (with_sources (usage_at (usage_by_root (cs_map st)) k) (path_set_of ss)))"
    using final by_root by (simp add: m omap_find_map_of [OF by_root(1)] split: option.splits if_splits)
  have can: "list_all (\<lambda>p. canonical_path p \<and> p \<noteq> []) ss" "list_all (\<lambda>p. canonical_path p \<and> p \<noteq> []) is'"
    using sources_canonical [of fsys cr records] includes_canonical [of fsys cr records]
    by (auto simp: list_all_iff ss_def is'_def root_sources_def root_includes_def)
  have is_root: "omap_find roots k \<noteq> None" if "root_key roots p = Some k" for p
    using that enclosing_root_member [OF roots] by (auto simp: root_key_def)
  show "omap_find (usage_by_root m) k = map_option (\<lambda>r. reference_usage r ss is') (omap_find roots k)"
  proof (cases "omap_find roots k")
    case None
    with is_root have "ss = []" "is' = []" by (auto simp: ss_def is'_def root_sources_def root_includes_def filter_empty_conv)
    with None found usage u0(2) [of k] show ?thesis by simp
  next
    case (Some r)
    define u where "u = new_usage\<lparr>usage_root := r\<rparr>"
    define u1 where "u1 = (if is' = [] then u else u\<lparr>include_path_count := length is', first_include_path := least_path is',
      usage_signal_of := Include_Path\<rparr>)"
    have sig: "max No_Signal Include_Path = Include_Path" "max No_Signal Compiled_Source = Compiled_Source"
      "max Include_Path Compiled_Source = Compiled_Source"
      by (simp_all add: max_def less_eq_usage_signal_def signal_rank_def)
    have u: "usage_at u0 k = u" using u0(2) [of k] Some by (simp add: usage_at_def u_def)
    have "omap_find (usage_by_root (cs_map st)) k = Some u1"
      using usage(2) add_includes [OF can(2), of u] u0(2) [of k] Some
      by (auto simp: u u1_def u_def new_usage_def sig)
    then have "omap_find (usage_by_root m) k = Some (if ss = [] then u1 else with_sources u1 (path_set_of ss))"
      using found by (simp add: usage_at_def)
    also have "(if ss = [] then u1 else with_sources u1 (path_set_of ss)) = reference_usage r ss is'"
    proof (cases "ss = []")
      case True
      then show ?thesis by (simp add: reference_usage_def u1_def u_def new_usage_def least_path_def)
    next
      case False
      have c: "list_all canonical_path ss" using can(1) by (auto simp: list_all_iff)
      obtain k' s where first: "path_set_of ss = (k', least_path ss) # s" by (rule path_set_first [OF c False])
      have "length (path_set_of ss) = card (set ss)" by (rule path_set_of_paths(3) [OF c])
      with first False show ?thesis
        by (simp add: with_sources_def reference_usage_def u1_def u_def new_usage_def least_path_def [of "[]"] sig)
    qed
    finally show ?thesis by (simp add: Some)
  qed
qed

section \<open>Properties\<close>

lemma reference_usage_mset:
  "mset ss = mset ss' \<Longrightarrow> mset is' = mset is'' \<Longrightarrow> reference_usage r ss is' = reference_usage r ss' is''"
  using mset_eq_setD [of ss ss'] mset_eq_length [of is' is''] least_path_mset [of ss ss'] least_path_mset [of is' is'']
  by (auto simp: reference_usage_def)

lemma map_compiles_shape: "\<exists>m. map_compiles_to_roots fsys records root roots = compile_warnings root (new_result m)"
  by (auto simp: map_compiles_to_roots_def Let_def)

lemma compile_line_roundtrip_core:
  assumes "list_all plain_item items"
  shows "scan_compile_line \<lparr>rec_tool = tool, rec_arguments = program # concat (map render_item items), rec_directory = d, rec_process = p\<rparr> =
    \<lparr>source_arguments = concat (map item_sources items), include_path_arguments = concat (map item_includes items),
     cl_response_files = sum_list (map item_responses items)\<rparr>"
  by (simp add: scan_compile_line_def scan_items [OF assms])

text \<open>Reading a compile command written as a sequence of operands, response files, include options (joined or with
  the directory next) and other options (with or without a value) reports exactly its source files and include
  directories, in order, and its response files: no option value is taken for a source.\<close>

theorem compile_line_roundtrip:
  assumes "list_all plain_item items"
  shows "scan_compile_line \<lparr>rec_tool = tool, rec_arguments = program # concat (map render_item items), rec_directory = d, rec_process = p\<rparr> =
    \<lparr>source_arguments = concat (map item_sources items), include_path_arguments = concat (map item_includes items),
     cl_response_files = sum_list (map item_responses items)\<rparr>"
  by (rule compile_line_roundtrip_core [OF assms])

theorem compile_line_roundtrip_witness:
  "scan_compile_line \<lparr>rec_tool = ''cc'', rec_arguments = [''cc'', ''-o'', ''x.c'', ''-Iinc'', ''-isystem'', ''sys'', ''a.c'', ''@rsp''],
     rec_directory = ''/b'', rec_process = 1\<rparr> =
    \<lparr>source_arguments = [''a.c''], include_path_arguments = [''inc'', ''sys''], cl_response_files = 1\<rparr>"
proof -
  let ?items = "[Valued_Option ''-o'' ''x.c'', Include_Joined ''-I'' ''inc'', Include_Next ''-isystem'' ''sys'', Source_File ''a.c'', Response_File ''rsp'']"
  have "list_all plain_item ?items" by code_simp
  from compile_line_roundtrip [OF this, where tool = "''cc''" and program = "''cc''" and d = "''/b''" and p = 1]
  show ?thesis by (simp add: item_sources_def item_includes_def item_responses_def)
qed

text \<open>For every trace and file system, the recorded usage of each component root is exactly what the trace says of it:
  the distinct compiled sources whose nearest enclosing root it is, the include options that resolve under it, the
  least of each as the example, and the strongest signal; paths that are not roots have no entry.\<close>

theorem compile_usage_exact:
  assumes "roots_ok roots"
  shows "omap_find (usage_by_root (result_value (map_compiles_to_roots fsys records scan_root roots))) k =
    (let cr = canonical_directory fsys scan_root in
     map_option (\<lambda>r. reference_usage r (root_sources fsys records cr roots k) (root_includes fsys records cr roots k)) (omap_find roots k))"
  using map_compiles_state(6) [OF assms] by (simp add: Let_def)

theorem compile_usage_exact_witness:
  "omap_find (usage_by_root (result_value (map_compiles_to_roots fsys [] scan_root (path_set_insert ''lib'' [])))) (path_key ''lib'') =
    Some (reference_usage ''lib'' [] [])"
proof -
  have "roots_ok (path_set_insert ''lib'' [])" by code_simp
  note compile_usage_exact [OF this, where fsys = fsys and records = "[]" and scan_root = scan_root and k = "path_key ''lib''"]
  moreover have "omap_find (path_set_insert ''lib'' []) (path_key ''lib'') = Some ''lib''" by code_simp
  ultimately show ?thesis by (simp add: root_sources_def root_includes_def Let_def)
qed

text \<open>The include count is a count of options. \<open>compile_map.hpp\<close> and the evidence text call it the compile lines that add
  an include path: the two agree on a trace exactly when no line adds two directories of the component.\<close>

definition includes_under :: "file_system \<Rightarrow> path \<Rightarrow> path_set \<Rightarrow> path_key \<Rightarrow> trace_record \<Rightarrow> nat" where
  "includes_under fsys canonical_root roots k r =
     length (filter (\<lambda>i. root_key roots i = Some k) (includes_of fsys canonical_root r))"

lemma sum_eq_count_positive:
  "length (filter (\<lambda>x. 0 < f x) xs) \<le> sum_list (map f xs) \<and>
   (sum_list (map f xs) = length (filter (\<lambda>x. 0 < f x) xs) \<longleftrightarrow> list_all (\<lambda>x. f x \<le> (1::nat)) xs)"
  by (induction xs) auto

lemma length_root_includes:
  "length (root_includes fsys records cr roots k) = sum_list (map (includes_under fsys cr roots k) records)"
  by (induction records) (simp_all add: root_includes_def includes_under_def)

theorem include_count_is_of_options:
  assumes "roots_ok roots" "omap_find roots k = Some r"
  shows "let cr = canonical_directory fsys scan_root;
             count = include_path_count (the (omap_find (usage_by_root (result_value (map_compiles_to_roots fsys records scan_root roots))) k));
             compile_lines = length (filter (\<lambda>rec. 0 < includes_under fsys cr roots k rec) records)
         in compile_lines \<le> count \<and>
            (count = compile_lines \<longleftrightarrow> list_all (\<lambda>rec. includes_under fsys cr roots k rec \<le> 1) records)"
  using sum_eq_count_positive [of "includes_under fsys (canonical_directory fsys scan_root) roots k" records]
  by (simp add: map_compiles_state(6) [OF assms(1)] assms(2) reference_usage_def length_root_includes Let_def)

text \<open>One line with two \<open>-I\<close> options: the evidence speaks of two compile lines.\<close>

definition two_includes :: "trace_record list" where
  "two_includes = [\<lparr>rec_tool = ''cc'', rec_arguments = [''cc'', ''-Ilib/a'', ''-Ilib/b'', ''-c'', ''x.c''], rec_directory = ''/r'', rec_process = 1\<rparr>]"

theorem include_count_is_of_options_witness:
  "(let count = include_path_count (the (omap_find (usage_by_root
       (result_value (map_compiles_to_roots (files []) two_includes ''/r'' (path_set_insert ''lib'' [])))) (path_key ''lib''))) in
    1 < count) \<and>
   map_option include_path_detail (omap_find (usage_by_root
       (result_value (map_compiles_to_roots (files []) two_includes ''/r'' (path_set_insert ''lib'' [])))) (path_key ''lib'')) =
     Some ''observed build: no source compiled, but 2 compile line(s) added lib/a to the include search path''"
proof -
  let ?roots = "path_set_insert ''lib'' []" and ?k = "path_key ''lib''"
  have ok: "roots_ok ?roots" "omap_find ?roots ?k = Some ''lib''" by code_simp+
  have eval: "canonical_directory (files []) ''/r'' = ''/r''"
    "length (filter (\<lambda>rec. 0 < includes_under (files []) ''/r'' ?roots ?k rec) two_includes) = 1"
    "list_all (\<lambda>rec. includes_under (files []) ''/r'' ?roots ?k rec \<le> 1) two_includes = False" by code_simp+
  have detail: "map_option include_path_detail (omap_find (usage_by_root
       (result_value (map_compiles_to_roots (files []) two_includes ''/r'' ?roots))) ?k) =
     Some ''observed build: no source compiled, but 2 compile line(s) added lib/a to the include search path''" by code_simp
  show ?thesis
    using include_count_is_of_options [OF ok, where fsys = "files []" and records = two_includes and scan_root = "''/r''"] detail
    unfolding eval Let_def by (auto simp: order_less_le)
qed

text \<open>The compile map and its warnings do not depend on the order in which the invocations were recorded, so a parallel
  build gives the same bill of materials on every run.\<close>

theorem compile_map_order_independent:
  assumes "roots_ok roots" "mset records = mset records'"
  shows "map_compiles_to_roots fsys records scan_root roots = map_compiles_to_roots fsys records' scan_root roots"
proof -
  obtain m where m: "map_compiles_to_roots fsys records scan_root roots = compile_warnings scan_root (new_result m)"
    using map_compiles_shape by blast
  obtain m' where m': "map_compiles_to_roots fsys records' scan_root roots = compile_warnings scan_root (new_result m')"
    using map_compiles_shape by blast
  define cr where "cr = canonical_directory fsys scan_root"
  note s = map_compiles_state [OF assms(1), of fsys records scan_root, unfolded m, folded cr_def, simplified]
  note s' = map_compiles_state [OF assms(1), of fsys records' scan_root, unfolded m', folded cr_def, simplified]
  note perm = concat_map_mset [OF assms(2)]
  have "omap_find (usage_by_root m) k = omap_find (usage_by_root m') k" for k
    using perm(1) [of "sources_of fsys cr"] perm(1) [of "includes_of fsys cr"] unfolding s(6) s'(6) root_sources_def root_includes_def
    by (intro arg_cong [where f = "\<lambda>g. map_option g _"] ext reference_usage_mset) simp_all
  then have "usage_by_root m = usage_by_root m'" using s(5) s'(5) by (intro omap.entries_cong) auto
  moreover have "compiled_sources m = compiled_sources m'"
    unfolding s(1) s'(1)
    by (rule path_set_of_cong [OF _ _ perm(2)]) (use sources_canonical in \<open>auto simp: list_all_iff\<close>)
  moreover have "compile_invocations m = compile_invocations m'"
    using assms(2) unfolding s(3) s'(3) by (metis mset_filter size_mset)
  moreover have "unexpanded_response_files m = unexpanded_response_files m'"
    using assms(2) unfolding s(4) s'(4) by (metis mset_map sum_mset_sum_list)
  moreover have "out_of_tree_sources m = out_of_tree_sources m'"
    using perm(2) [of "outside_of fsys cr"] unfolding s(2) s'(2) by simp
  ultimately have "m = m'" by (simp add: compile_map.equality)
  then show ?thesis by (simp add: m m')
qed

theorem compile_map_order_independent_witness:
  "map_compiles_to_roots fsys [a, b] scan_root (path_set_insert ''lib'' []) =
   map_compiles_to_roots fsys [b, a] scan_root (path_set_insert ''lib'' [])"
proof (rule compile_map_order_independent)
  show "roots_ok (path_set_insert ''lib'' [])" by code_simp
qed simp

subsection \<open>Marking\<close>

definition judgeable :: "component \<Rightarrow> bool" where
  "judgeable c \<longleftrightarrow> normalized_subtree_path (comp_root c) \<noteq> []"

definition signal_at :: "compile_map \<Rightarrow> component \<Rightarrow> usage_signal" where
  "signal_at m c = usage_signal_of (usage_at (usage_by_root m) (path_key (normalized_subtree_path (comp_root c))))"

text \<open>The component with what the build says of it set aside.\<close>

definition without_usage :: "component \<Rightarrow> component" where
  "without_usage c = c\<lparr>used_in_build := True, comp_evidence := []\<rparr>"

definition signal_confidence :: "usage_signal \<Rightarrow> confidence" where
  "signal_confidence g = (if g = Include_Path then Medium else High)"

definition marked_as :: "compile_map \<Rightarrow> component \<Rightarrow> component \<Rightarrow> bool" where
  "marked_as m c c' \<longleftrightarrow>
     without_usage c' = without_usage c \<and>
     (if judgeable c \<and> signal_at m c \<noteq> No_Signal
      then used_in_build c' \<and> (\<exists>d. comp_evidence c' = comp_evidence c @ [Evidence ObservedBuild d (signal_confidence (signal_at m c))])
      else comp_evidence c' = comp_evidence c \<and> used_in_build c' = (used_in_build c \<and> \<not> judgeable c))"

lemma mark_component_marked: "marked_as m c (fst (mark_component m s c))"
  by (cases "signal_at m c")
    (auto simp: mark_component_def marked_as_def judgeable_def signal_at_def usage_at_def without_usage_def signal_confidence_def Let_def
      split: usage_signal.split)

lemma mark_component_counts:
  "snd (mark_component m s c) =
    (if \<not> judgeable c then s\<lparr>not_judgeable := not_judgeable s + 1\<rparr>
     else if signal_at m c = No_Signal then s\<lparr>judged := judged s + 1, unused := unused s + 1\<rparr>
     else s\<lparr>judged := judged s + 1, used := used s + 1\<rparr>)"
  by (cases "signal_at m c") (auto simp: mark_component_def judgeable_def signal_at_def usage_at_def Let_def split: usage_signal.split)

lemma mark_components_marked: "list_all2 (marked_as m) cs (fst (mark_components m s cs))"
proof (induction cs arbitrary: s)
  case (Cons c cs)
  then show ?case using mark_component_marked [of m c s] by (simp add: split_beta Let_def)
qed simp

lemma mark_components_counts:
  "snd (mark_components m s cs) = s\<lparr>judged := judged s + length (filter judgeable cs),
     used := used s + length (filter (\<lambda>c. judgeable c \<and> signal_at m c \<noteq> No_Signal) cs),
     unused := unused s + length (filter (\<lambda>c. judgeable c \<and> signal_at m c = No_Signal) cs),
     not_judgeable := not_judgeable s + length (filter (\<lambda>c. \<not> judgeable c) cs)\<rparr>"
  by (induction cs arbitrary: s) (simp_all add: split_beta Let_def mark_component_counts)

text \<open>Marking judges exactly the components that have a directory: each of them is used, with one more piece of evidence
  of the confidence its signal deserves, or unused, with none; the others are left as they were; nothing but these
  two fields changes, and the summary counts every component once.\<close>

theorem mark_used_in_build_accounts:
  "(let (marked, s) = mark_used_in_build components m in
    list_all2 (marked_as m) components marked \<and>
    judged s = length (filter judgeable components) \<and>
    used s = length (filter (\<lambda>c. judgeable c \<and> signal_at m c \<noteq> No_Signal) components) \<and>
    judged s = used s + unused s \<and> judged s + not_judgeable s = length components)"
proof -
  have "length (filter judgeable cs) = length (filter (\<lambda>c. judgeable c \<and> signal_at m c \<noteq> No_Signal) cs) +
      length (filter (\<lambda>c. judgeable c \<and> signal_at m c = No_Signal) cs)" for cs
    by (induction cs) auto
  then show ?thesis
    using mark_components_marked [of m components] sum_length_filter_compl [of judgeable components]
    by (simp add: mark_used_in_build_def mark_components_counts split_beta Let_def)
qed

end
