(* ===== verification/Trace_Line.thy ===== *)
theory Trace_Line
  imports Json Archive_Read Compile_Map
begin

text \<open>
  The line a compiler shim writes for one tool invocation: \<open>observe/trace_line.cpp\<close>, the names of the shims in
  \<open>observe/shim_names.hpp\<close> and \<open>observe/shim_names.cpp\<close>.
  The second half is a reference reader for the JSON the shims write (a flat object of strings, integers and arrays of
  strings, RFC 8259), against which the writer is proved right. \<open>well_formed\<close> texts are valid UTF-8; \<open>as_unicode\<close> is what
  the writer makes of any other byte string.
\<close>

section \<open>Writing a line\<close>

definition kReplacementCharacter :: string where
  "kReplacementCharacter = [CHR 0xEF, CHR 0xBF, CHR 0xBD]"

abbreviation byte :: "char \<Rightarrow> nat" where
  "byte \<equiv> of_char"

definition append_unicode_escape :: "string \<Rightarrow> nat \<Rightarrow> string" where
  "append_unicode_escape output v =
     output @ [CHR 0x5C, CHR ''u'', CHR ''0'', CHR ''0'', hex_digit_lower (drop_bit 4 v AND 0x0F), hex_digit_lower (v AND 0x0F)]"

definition is_utf8_continuation :: "char \<Rightarrow> bool" where
  "is_utf8_continuation c \<longleftrightarrow> u8_of_char c AND 0xC0 = 0x80"

text \<open>The text is what is left from \<open>position\<close> on, so \<open>available\<close> is its length.\<close>

definition valid_utf8_sequence_length :: "string \<Rightarrow> nat" where
  "valid_utf8_sequence_length txt =
     (let available = length txt; lead = byte (txt ! 0) in
      if lead \<ge> 0xC2 \<and> lead \<le> 0xDF
      then (if available \<ge> 2 \<and> is_utf8_continuation (txt ! 1) then 2 else 0)
      else if lead \<ge> 0xE0 \<and> lead \<le> 0xEF
      then (if available < 3 \<or> \<not> is_utf8_continuation (txt ! 1) \<or> \<not> is_utf8_continuation (txt ! 2) then 0
            else let second = byte (txt ! 1) in
              if lead = 0xE0 \<and> second < 0xA0 then 0
              else if lead = 0xED \<and> second \<ge> 0xA0 then 0
              else 3)
      else if lead \<ge> 0xF0 \<and> lead \<le> 0xF4
      then (if available < 4 \<or> \<not> is_utf8_continuation (txt ! 1) \<or> \<not> is_utf8_continuation (txt ! 2)
               \<or> \<not> is_utf8_continuation (txt ! 3) then 0
            else let second = byte (txt ! 1) in
              if lead = 0xF0 \<and> second < 0x90 then 0
              else if lead = 0xF4 \<and> second \<ge> 0x90 then 0
              else 4)
      else 0)"

definition escaped_json_char :: "char \<Rightarrow> string" where
  "escaped_json_char c =
     (if c = CHR 0x22 then [CHR 0x5C, CHR 0x22]
      else if c = CHR 0x5C then [CHR 0x5C, CHR 0x5C]
      else if c = CHR 0x08 then [CHR 0x5C, CHR ''b'']
      else if c = CHR 0x0C then [CHR 0x5C, CHR ''f'']
      else if c = CHR 0x0A then [CHR 0x5C, CHR ''n'']
      else if c = CHR 0x0D then [CHR 0x5C, CHR ''r'']
      else if c = CHR 0x09 then [CHR 0x5C, CHR ''t'']
      else if byte c < 0x20 then append_unicode_escape [] (byte c)
      else [c])"

function append_json_characters :: "string \<Rightarrow> string \<Rightarrow> string" where
  "append_json_characters output [] = output"
| "append_json_characters output (c # rest) =
     (if byte c < 0x80 then append_json_characters (output @ escaped_json_char c) rest
      else let sequence_length = valid_utf8_sequence_length (c # rest) in
        if sequence_length = 0 then append_json_characters (output @ kReplacementCharacter) rest
        else append_json_characters (output @ take sequence_length (c # rest)) (drop sequence_length (c # rest)))"
  by pat_completeness auto
termination
  by (relation "measure (\<lambda>(_, txt). length txt)") auto

definition append_json_string :: "string \<Rightarrow> string \<Rightarrow> string" where
  "append_json_string output txt = append_json_characters (output @ [CHR 0x22]) txt @ [CHR 0x22]"

fun append_arguments :: "string \<Rightarrow> nat \<Rightarrow> string list \<Rightarrow> string" where
  "append_arguments line argument_index [] = line"
| "append_arguments line argument_index (argument # arguments) =
     append_arguments (append_json_string (if argument_index > 0 then line @ '','' else line) argument)
       (Suc argument_index) arguments"

definition string_of_int :: "int \<Rightarrow> string" where
  "string_of_int i = (if i < 0 then CHR ''-'' # string_of_nat (nat (- i)) else string_of_nat (nat i))"

definition build_trace_line :: "string \<Rightarrow> string list \<Rightarrow> string \<Rightarrow> int \<Rightarrow> string" where
  "build_trace_line tool_name arguments working_directory process_id =
     (let line = append_arguments ([CHR ''{'', CHR 0x22] @ ''argv'' @ [CHR 0x22, CHR '':'', CHR ''['']) 0 arguments;
          line = line @ [CHR '']'', CHR '','', CHR 0x22] @ ''cwd'' @ [CHR 0x22, CHR '':''];
          line = append_json_string line working_directory;
          line = line @ [CHR '','', CHR 0x22] @ ''pid'' @ [CHR 0x22, CHR '':''];
          line = line @ string_of_int process_id;
          line = line @ [CHR '','', CHR 0x22] @ ''tool'' @ [CHR 0x22, CHR '':''];
          line = append_json_string line tool_name
      in line @ [CHR ''}'', CHR 0x0A])"

section \<open>Shim names\<close>

definition kShimmedToolNames :: "string list" where
  "kShimmedToolNames = [''cc'', ''c++'', ''gcc'', ''g++'', ''clang'', ''clang++'', ''ld'', ''ar'']"

definition kTraceEnvVarName :: string where "kTraceEnvVarName = ''BOMWERK_TRACE''"

definition kRealToolEnvVarPrefix :: string where "kRealToolEnvVarPrefix = ''BOMWERK_REAL_''"

definition is_ascii_alphanumeric :: "char \<Rightarrow> bool" where
  "is_ascii_alphanumeric character \<longleftrightarrow>
     (character \<ge> CHR ''a'' \<and> character \<le> CHR ''z'') \<or> (character \<ge> CHR ''A'' \<and> character \<le> CHR ''Z'') \<or>
     (character \<ge> CHR ''0'' \<and> character \<le> CHR ''9'')"

definition shim_variable_char :: "char \<Rightarrow> char" where
  "shim_variable_char c =
     (if c = CHR ''+'' then CHR ''P''
      else if is_ascii_alphanumeric c then to_upper_ascii_char c
      else CHR ''_'')"

definition shim_env_var_name :: "string \<Rightarrow> string" where
  "shim_env_var_name tool_name =
     (if tool_name = [] then [] else kRealToolEnvVarPrefix @ map shim_variable_char tool_name)"

definition is_shimmed_tool_name :: "string \<Rightarrow> bool" where
  "is_shimmed_tool_name tool_name \<longleftrightarrow> tool_name \<in> set kShimmedToolNames"

section \<open>A reference reader\<close>

text \<open>Four hexadecimal digits below \<open>0x80\<close>, as the escapes of control characters are.\<close>

definition hex_value_of :: "char \<Rightarrow> nat option" where
  "hex_value_of c = (if CHR ''0'' \<le> c \<and> c \<le> CHR ''9'' then Some (byte c - 48)
     else if CHR ''a'' \<le> c \<and> c \<le> CHR ''f'' then Some (byte c - 87)
     else if CHR ''A'' \<le> c \<and> c \<le> CHR ''F'' then Some (byte c - 55) else None)"

definition short_escape :: "char \<Rightarrow> char option" where
  "short_escape c = map_of [(CHR 0x22, CHR 0x22), (CHR 0x5C, CHR 0x5C), (CHR ''/'', CHR ''/''), (CHR ''b'', CHR 0x08),
     (CHR ''f'', CHR 0x0C), (CHR ''n'', CHR 0x0A), (CHR ''r'', CHR 0x0D), (CHR ''t'', CHR 0x09)] c"

fun read_escape :: "string \<Rightarrow> (char \<times> string) option" where
  "read_escape (u # a # b # x # y # rest) =
     (if u = CHR ''u'' then
        (case (hex_value_of x, hex_value_of y) of
           (Some h, Some l) \<Rightarrow> if a = CHR ''0'' \<and> b = CHR ''0'' \<and> h < 8 then Some (char_of (16 * h + l), rest) else None
         | _ \<Rightarrow> None)
      else map_option (\<lambda>c. (c, a # b # x # y # rest)) (short_escape u))"
| "read_escape (u # rest) = map_option (\<lambda>c. (c, rest)) (short_escape u)"
| "read_escape [] = None"

lemma read_escape_shorter: "read_escape s = Some (c, rest) \<Longrightarrow> length rest < length s"
  by (induction s rule: read_escape.induct) (auto split: if_splits option.splits)

text \<open>The characters of a string up to its closing quote, and the rest.\<close>

function read_characters :: "string \<Rightarrow> (string \<times> string) option" where
  "read_characters [] = None"
| "read_characters (c # rest) =
     (if c = CHR 0x22 then Some ([], rest)
      else if c = CHR 0x5C then
        (case read_escape rest of None \<Rightarrow> None
         | Some (e, rest) \<Rightarrow> map_option (\<lambda>(s, r). (e # s, r)) (read_characters rest))
      else if byte c < 0x20 then None
      else if byte c < 0x80 then map_option (\<lambda>(s, r). (c # s, r)) (read_characters rest)
      else let n = valid_utf8_sequence_length (c # rest) in
        if n = 0 then None
        else map_option (\<lambda>(s, r). (take n (c # rest) @ s, r)) (read_characters (drop n (c # rest))))"
  by pat_completeness auto
termination
  by (relation "measure length") (auto dest: read_escape_shorter)

definition read_text :: "string \<Rightarrow> (string \<times> string) option" where
  "read_text s = (case s of [] \<Rightarrow> None | c # rest \<Rightarrow> if c = CHR 0x22 then read_characters rest else None)"

lemma read_characters_shorter: "read_characters s = Some (t, rest) \<Longrightarrow> length rest < length s"
proof (induction s arbitrary: t rule: read_characters.induct)
  case (2 c s)
  show ?case
  proof (cases "c = CHR 0x22 \<or> c = CHR 0x5C \<or> byte c < 0x80")
    case True
    with 2 show ?thesis by (fastforce split: if_splits option.splits dest!: read_escape_shorter)
  next
    case False
    let ?n = "valid_utf8_sequence_length (c # s)"
    from False "2.prems" have n: "?n \<noteq> 0" and "\<exists>t'. read_characters (drop ?n (c # s)) = Some (t', rest)"
      by (auto simp: Let_def split: if_splits)
    moreover from False "2.prems" have "\<not> byte c < 0x20" by auto
    ultimately have "length rest < length (drop ?n (c # s))" using "2.IH"(3) [OF _ _ _ _ refl] False by auto
    then show ?thesis by simp
  qed
qed simp

lemma read_text_shorter: "read_text s = Some (t, rest) \<Longrightarrow> length rest < length s"
  by (cases s) (auto simp: read_text_def split: if_splits dest: read_characters_shorter)

text \<open>The strings of an array, after its first one; the members of an object, after its first one.\<close>

function read_more_texts :: "string \<Rightarrow> (string list \<times> string) option" where
  "read_more_texts s =
     (case s of [] \<Rightarrow> None
      | c # rest \<Rightarrow>
          if c = CHR '']'' then Some ([], rest)
          else if c = CHR '','' then
            (case read_text rest of None \<Rightarrow> None
             | Some (t, rest) \<Rightarrow> map_option (\<lambda>(ts, r). (t # ts, r)) (read_more_texts rest))
          else None)"
  by pat_completeness auto
termination
  by (relation "measure length") (auto dest: read_text_shorter)

declare read_more_texts.simps [simp del]

definition read_texts :: "string \<Rightarrow> (string list \<times> string) option" where
  "read_texts s =
     (case s of [] \<Rightarrow> None
      | c # rest \<Rightarrow> if c = CHR '']'' then Some ([], rest) else read_more_texts (CHR '','' # s))"

text \<open>An integer in the range of the library's integers, with nothing after it that would make it another number.\<close>

definition read_integer :: "string \<Rightarrow> (int \<times> string) option" where
  "read_integer s =
     (let negative = s \<noteq> [] \<and> hd s = CHR ''-'';
          digits = takeWhile is_digit (if negative then tl s else s);
          rest = dropWhile is_digit (if negative then tl s else s);
          magnitude = int (decimal_from 0 digits);
          v = (if negative then - magnitude else magnitude)
      in if digits = [] \<or> (hd digits = CHR ''0'' \<and> length digits > 1) then None
         else if rest \<noteq> [] \<and> hd rest \<in> set ''.eE'' then None
         else if v < - (2 ^ 63) \<or> 2 ^ 64 \<le> v then None
         else Some (v, rest))"

definition read_value :: "string \<Rightarrow> (json \<times> string) option" where
  "read_value s =
     (case s of [] \<Rightarrow> None
      | c # rest \<Rightarrow>
          if c = CHR 0x22 then map_option (\<lambda>(t, r). (Json_String t, r)) (read_text s)
          else if c = CHR ''['' then map_option (\<lambda>(ts, r). (Json_Array (map Json_String ts), r)) (read_texts rest)
          else map_option (\<lambda>(i, r). (Json_Int i, r)) (read_integer s))"

definition read_member :: "string \<Rightarrow> ((string \<times> json) \<times> string) option" where
  "read_member s =
     (case read_text s of
        Some (k, c # rest) \<Rightarrow> if c = CHR '':'' then map_option (\<lambda>(v, r). ((k, v), r)) (read_value rest) else None
      | _ \<Rightarrow> None)"

fun read_members :: "nat \<Rightarrow> string \<Rightarrow> ((string \<times> json) list \<times> string) option" where
  "read_members 0 s = None"
| "read_members (Suc fuel) s =
     (case read_member s of
        Some (m, c # rest) \<Rightarrow>
          if c = CHR ''}'' then Some ([m], rest)
          else if c = CHR '','' then map_option (\<lambda>(ms, r). (m # ms, r)) (read_members fuel rest)
          else None
      | _ \<Rightarrow> None)"

text \<open>Each member takes a character of the text, so the length is fuel enough.\<close>

definition read_json :: "string \<Rightarrow> json option" where
  "read_json s =
     (case s of [] \<Rightarrow> None
      | c # rest \<Rightarrow> if c = CHR ''{'' then
          (case read_members (length rest) rest of
             Some (ms, []) \<Rightarrow> if distinct (map fst ms) then Some (Json_Object ms) else None
           | _ \<Rightarrow> None)
        else None)"

section \<open>What the writer writes\<close>

text \<open>The text a reader gets back: a byte that does not belong to a valid UTF-8 sequence is replaced by U+FFFD.\<close>

function as_unicode :: "string \<Rightarrow> string" where
  "as_unicode [] = []"
| "as_unicode (c # rest) =
     (if byte c < 0x80 then c # as_unicode rest
      else let n = valid_utf8_sequence_length (c # rest) in
        if n = 0 then kReplacementCharacter @ as_unicode rest
        else take n (c # rest) @ as_unicode (drop n (c # rest)))"
  by pat_completeness auto
termination
  by (relation "measure length") auto

function is_utf8 :: "string \<Rightarrow> bool" where
  "is_utf8 [] = True"
| "is_utf8 (c # rest) =
     (if byte c < 0x80 then is_utf8 rest
      else let n = valid_utf8_sequence_length (c # rest) in if n = 0 then False else is_utf8 (drop n (c # rest)))"
  by pat_completeness auto
termination
  by (relation "measure length") auto

lemma as_unicode_id: "is_utf8 s \<Longrightarrow> as_unicode s = s"
  by (induction s rule: is_utf8.induct) (auto simp: Let_def split: if_splits)

lemma continuation_byte: "is_utf8_continuation c \<longleftrightarrow> byte c div 64 = (2::nat)"
proof -
  have "(\<forall>n < 256. (of_nat n AND 0xC0 = (0x80 :: 8 word)) = (n div 64 = (2::nat)))" by code_simp
  then have "(of_nat (byte c) AND 0xC0 = (0x80 :: 8 word)) = (byte c div 64 = (2::nat))"
    using nat_of_char_less_256 [of c] by blast
  then show ?thesis by (simp add: is_utf8_continuation_def u8_of_char_def)
qed

lemma continuation_ge: "is_utf8_continuation c \<Longrightarrow> byte c \<ge> (0x80 :: nat)"
  by (simp add: continuation_byte)

text \<open>A sequence has two to four bytes, all of them \<open>0x80\<close> or more, and its length does not depend on what follows.\<close>

lemma utf8_sequence_cases:
  assumes "valid_utf8_sequence_length (c # s) \<noteq> 0"
  obtains (two) c1 s' where "s = c1 # s'" "valid_utf8_sequence_length (c # s) = 2" "is_utf8_continuation c1"
      "\<And>t. valid_utf8_sequence_length (c # c1 # t) = 2"
    | (three) c1 c2 s' where "s = c1 # c2 # s'" "valid_utf8_sequence_length (c # s) = 3" "is_utf8_continuation c1"
      "is_utf8_continuation c2" "\<And>t. valid_utf8_sequence_length (c # c1 # c2 # t) = 3"
    | (four) c1 c2 c3 s' where "s = c1 # c2 # c3 # s'" "valid_utf8_sequence_length (c # s) = 4" "is_utf8_continuation c1"
      "is_utf8_continuation c2" "is_utf8_continuation c3" "\<And>t. valid_utf8_sequence_length (c # c1 # c2 # c3 # t) = 4"
proof -
  consider "s = []" | c1 where "s = [c1]" | c1 c2 where "s = [c1, c2]" | c1 c2 c3 s' where "s = c1 # c2 # c3 # s'"
    by (metis list.exhaust)
  then show thesis
  proof cases
    case 1
    with assms show thesis by (simp add: valid_utf8_sequence_length_def Let_def split: if_splits)
  next
    case 2
    with assms show thesis
      by (intro two [of c1 "[]"]) (auto simp: valid_utf8_sequence_length_def Let_def split: if_splits)
  next
    case 3
    show thesis
    proof (cases "byte c \<le> (0xDF :: nat)")
      case True
      with 3 assms show thesis
        by (intro two [of c1 "[c2]"]) (auto simp: valid_utf8_sequence_length_def Let_def split: if_splits)
    next
      case False
      with 3 assms show thesis
        by (intro three [of c1 c2 "[]"]) (auto simp: valid_utf8_sequence_length_def Let_def split: if_splits)
    qed
  next
    case 4
    consider "byte c \<le> (0xDF :: nat)" | "byte c > (0xDF :: nat)" "byte c \<le> (0xEF :: nat)" | "byte c > (0xEF :: nat)" by linarith
    then show thesis
    proof cases
      case 1
      with 4 assms show thesis
        by (intro two [of c1 "c2 # c3 # s'"]) (auto simp: valid_utf8_sequence_length_def Let_def split: if_splits)
    next
      case 2
      with 4 assms show thesis
        by (intro three [of c1 c2 "c3 # s'"]) (auto simp: valid_utf8_sequence_length_def Let_def split: if_splits)
    next
      case 3
      with 4 assms show thesis
        by (intro four [of c1 c2 c3 s']) (auto simp: valid_utf8_sequence_length_def Let_def split: if_splits)
    qed
  qed
qed

lemma utf8_sequence:
  assumes "valid_utf8_sequence_length (c # s) = n" "n \<noteq> 0" "byte c \<ge> (0x80 :: nat)"
  shows "n \<le> length (c # s)" "valid_utf8_sequence_length (take n (c # s) @ t) = n"
    "list_all (\<lambda>d. byte d \<ge> (0x80 :: nat)) (take n (c # s))"
proof -
  from assms have "valid_utf8_sequence_length (c # s) \<noteq> 0" by simp
  then show "n \<le> length (c # s)" "valid_utf8_sequence_length (take n (c # s) @ t) = n"
    "list_all (\<lambda>d. byte d \<ge> (0x80 :: nat)) (take n (c # s))"
    by (cases rule: utf8_sequence_cases; use assms in \<open>auto simp: numeral_3_eq_3 numeral_eq_Suc dest: continuation_ge\<close>)+
qed

subsection \<open>Strings\<close>

abbreviation json_characters :: "string \<Rightarrow> string" where
  "json_characters \<equiv> append_json_characters []"

definition json_text :: "string \<Rightarrow> string" where
  "json_text t = CHR 0x22 # json_characters t @ [CHR 0x22]"

lemma append_json_characters_append: "append_json_characters (a @ b) t = a @ append_json_characters b t"
proof (induction b t arbitrary: a rule: append_json_characters.induct)
  case (2 b c rest)
  show ?case
  proof (cases "byte c < (0x80 :: nat)")
    case True
    with "2.IH"(1) [OF True, of a] show ?thesis by simp
  next
    case False
    with "2.IH"(2,3) [OF False refl, of a] show ?thesis by (simp add: Let_def)
  qed
qed simp

lemma json_characters_Cons:
  "json_characters (c # rest) =
     (if byte c < (0x80 :: nat) then escaped_json_char c @ json_characters rest
      else let n = valid_utf8_sequence_length (c # rest) in
        if n = 0 then kReplacementCharacter @ json_characters rest
        else take n (c # rest) @ json_characters (drop n (c # rest)))"
  using append_json_characters_append [of "escaped_json_char c" "[]" rest] append_json_characters_append [of kReplacementCharacter "[]" rest]
    append_json_characters_append [of "take (valid_utf8_sequence_length (c # rest)) (c # rest)" "[]"]
  by (simp only: append_json_characters.simps(2) append_Nil append_Nil2 Let_def)

lemma append_json_string_eq [simp]: "append_json_string output t = output @ json_text t"
  using append_json_characters_append [of "output @ [CHR 0x22]" "[]" t]
  by (simp add: append_json_string_def json_text_def)

declare append_json_characters.simps(2) [simp del] as_unicode.simps(2) [simp del]

text \<open>What is written for one string holds in a predicate for which every byte from \<open>0x20\<close> on does.\<close>

lemma hex_nibbles: "(n::nat) < 0x20 \<Longrightarrow>
  drop_bit 4 n AND 0x0F = n div 16 \<and> n AND 0x0F = n mod 16"
  by (simp add: and_0x0F drop_bit_eq_div)

lemma json_escape_cases:
  assumes "byte c < (0x80 :: nat)"
  obtains (plain) "escaped_json_char c = [c]" "byte c \<ge> (0x20 :: nat)" "c \<noteq> CHR 0x22" "c \<noteq> CHR 0x5C"
    | (short) d where "escaped_json_char c = [CHR 0x5C, d]" "short_escape d = Some c" "d \<noteq> CHR ''u''" "byte d \<ge> (0x20 :: nat)"
    | (long) "escaped_json_char c = [CHR 0x5C, CHR ''u'', CHR ''0'', CHR ''0'', hex_digit_lower (byte c div 16), hex_digit_lower (byte c mod 16)]"
      "byte c < (0x20 :: nat)"
proof -
  define S where "S = {CHR 0x22, CHR 0x5C, CHR 0x08, CHR 0x0C, CHR 0x0A, CHR 0x0D, CHR 0x09}"
  have escape: "\<exists>d. escaped_json_char c = [CHR 0x5C, d] \<and> short_escape d = Some c \<and> d \<noteq> CHR ''u'' \<and> byte d \<ge> (0x20 :: nat)"
    if "c \<in> S"
    using that unfolding S_def by (elim insertE emptyE; simp add: escaped_json_char_def short_escape_def)
  have other: "escaped_json_char c = (if byte c < (0x20 :: nat) then append_unicode_escape [] (byte c) else [c])" if "c \<notin> S"
    using that by (simp add: escaped_json_char_def S_def)
  have "c \<in> S" if "c = CHR 0x22 \<or> c = CHR 0x5C" using that by (auto simp: S_def)
  then have plain: "\<not> (c = CHR 0x22 \<or> c = CHR 0x5C)" if "c \<notin> S" using that by blast
  consider "c \<in> S" | "c \<notin> S" "byte c < (0x20 :: nat)" | "c \<notin> S" "byte c \<ge> (0x20 :: nat)" by linarith
  then show thesis
  proof cases
    case 1
    then show thesis using escape short by blast
  next
    case 2
    show thesis by (rule long) (use other [OF 2(1)] hex_nibbles [OF 2(2)] 2 in \<open>simp_all add: append_unicode_escape_def\<close>)
  next
    case 3
    show thesis by (rule that(1)) (use other [OF 3(1)] plain [OF 3(1)] 3 in simp_all)
  qed
qed

lemma hex_value_of_digit: "n < 16 \<Longrightarrow> hex_value_of (hex_digit_lower n) = Some n \<and> byte (hex_digit_lower n) \<ge> (0x20 :: nat)
   \<and> byte (hex_digit_lower n) < (0x80 :: nat) \<and> hex_digit_lower n \<noteq> CHR 0x22 \<and> hex_digit_lower n \<noteq> CHR 0x5C"
proof -
  have "\<forall>n < 16. hex_value_of (hex_digit_lower n) = Some n \<and> byte (hex_digit_lower n) \<ge> (0x20 :: nat)
     \<and> byte (hex_digit_lower n) < (0x80 :: nat) \<and> hex_digit_lower n \<noteq> CHR 0x22 \<and> hex_digit_lower n \<noteq> CHR 0x5C" by code_simp
  then show "n < 16 \<Longrightarrow> ?thesis" by blast
qed

lemma char_of_hex: "(16::nat) * (byte c div 16) + byte c mod 16 = byte c"
  by (simp add: mult.commute)

lemma read_escaped_char:
  assumes "byte c < (0x80 :: nat)"
  shows "read_characters (escaped_json_char c @ r) = map_option (\<lambda>(s, r). (c # s, r)) (read_characters r)"
  using assms
proof (cases rule: json_escape_cases)
  case plain
  with assms show ?thesis by auto
next
  case (short d)
  then have "read_escape (d # r) = Some (c, r)"
    by (cases "d # r" rule: read_escape.cases) auto
  with short show ?thesis by simp
next
  case long
  then have "byte c div 16 < (8::nat)" by simp
  then have "read_escape (CHR ''u'' # CHR ''0'' # CHR ''0'' # hex_digit_lower (byte c div 16) # hex_digit_lower (byte c mod 16) # r)
      = Some (c, r)"
    using hex_value_of_digit [of "byte c div 16"] hex_value_of_digit [of "byte c mod 16"] char_of_hex [of c] by simp
  with long show ?thesis by simp
qed

lemma read_utf8_sequence:
  assumes "valid_utf8_sequence_length (c # s) = n" "n \<noteq> 0" "byte c \<ge> (0x80 :: nat)"
  shows "read_characters (take n (c # s) @ r) = map_option (\<lambda>(t, r). (take n (c # s) @ t, r)) (read_characters r)"
proof -
  obtain m where m: "n = Suc m" using assms(2) by (cases n) auto
  have "valid_utf8_sequence_length (c # take m s @ r) = Suc m"
    using utf8_sequence(2) [OF assms, of r] by (simp add: m)
  moreover have "length (take m s) = m" using utf8_sequence(1) [OF assms] by (simp add: m)
  moreover have "c \<noteq> CHR 0x22" "c \<noteq> CHR 0x5C" using assms(3) by auto
  ultimately show ?thesis using assms(3) by (simp add: m)
qed

lemma read_json_text: "read_characters (json_characters t @ CHR 0x22 # r) = Some (as_unicode t, r)"
proof (induction t rule: as_unicode.induct)
  case (2 c rest)
  let ?n = "valid_utf8_sequence_length (c # rest)"
  consider "byte c < (0x80 :: nat)" | "byte c \<ge> (0x80 :: nat)" "?n = 0" | "byte c \<ge> (0x80 :: nat)" "?n \<noteq> 0" by linarith
  then show ?case
  proof cases
    case 1
    with "2.IH"(1) show ?thesis by (simp add: json_characters_Cons as_unicode.simps(2) read_escaped_char)
  next
    case 2
    have "valid_utf8_sequence_length kReplacementCharacter = 3" by code_simp
    then have "read_characters (kReplacementCharacter @ x) = map_option (\<lambda>(t, r). (kReplacementCharacter @ t, r)) (read_characters x)" for x
      using read_utf8_sequence [of "CHR 0xEF" "[CHR 0xBF, CHR 0xBD]" 3 x] by (simp add: kReplacementCharacter_def)
    with 2 "2.IH"(2) show ?thesis by (simp add: json_characters_Cons as_unicode.simps(2))
  next
    case 3
    then have "\<not> byte c < (0x80 :: nat)" by simp
    from read_utf8_sequence [OF refl 3(2,1)] "2.IH"(3) [OF this refl 3(2)] 3 show ?thesis
      by (simp add: json_characters_Cons as_unicode.simps(2) Let_def)
  qed
qed simp

lemma read_text_json [simp]: "read_text (json_text t @ r) = Some (as_unicode t, r)"
  by (simp add: read_text_def json_text_def read_json_text)

text \<open>Every byte written for a string is \<open>0x20\<close> or more, so a line holds no line break but its last character, and the
  nesting guard skips it.\<close>

lemma json_characters_induct [case_names empty plain bad sequence]:
  assumes "P []"
    and "\<And>c t. byte c < (0x80 :: nat) \<Longrightarrow> P t \<Longrightarrow> P (c # t)"
    and "\<And>c t. byte c \<ge> (0x80 :: nat) \<Longrightarrow> valid_utf8_sequence_length (c # t) = 0 \<Longrightarrow> P t \<Longrightarrow> P (c # t)"
    and "\<And>c t n. byte c \<ge> (0x80 :: nat) \<Longrightarrow> valid_utf8_sequence_length (c # t) = n \<Longrightarrow> n \<noteq> 0 \<Longrightarrow> P (drop n (c # t)) \<Longrightarrow> P (c # t)"
  shows "P t"
proof (induction t rule: as_unicode.induct)
  case (2 c rest)
  then show ?case using assms(2-4) by (metis not_le)
qed (rule assms(1))

lemma json_characters_printable: "list_all (\<lambda>c. byte c \<ge> (0x20 :: nat)) (json_characters t)"
proof (induction t rule: json_characters_induct)
  case (plain c t)
  have "list_all (\<lambda>c. byte c \<ge> (0x20 :: nat)) (escaped_json_char c)"
    using plain(1) by (cases rule: json_escape_cases) (auto simp: hex_value_of_digit)
  with plain show ?case by (simp add: json_characters_Cons)
next
  case (bad c t)
  then show ?case by (simp add: json_characters_Cons kReplacementCharacter_def)
next
  case (sequence c t n)
  from utf8_sequence(3) [OF sequence(2,3,1)] have "list_all (\<lambda>c. byte c \<ge> (0x20 :: nat)) (take n (c # t))"
    by (rule list.pred_mono_strong) simp
  with sequence show ?case by (simp add: json_characters_Cons Let_def)
qed simp

lemma depth_skips_high:
  "list_all (\<lambda>c. byte c \<ge> (0x80 :: nat)) s \<Longrightarrow>
   exceeds_depth_from (s @ r) m d True False = exceeds_depth_from r m d True False"
proof (induction s)
  case (Cons c s)
  then have "c \<noteq> CHR 0x22" "c \<noteq> CHR 0x5C" by auto
  with Cons show ?case by (simp add: string_step_def)
qed simp

lemma depth_skips_string: "exceeds_depth_from (json_characters t @ CHR 0x22 # r) m d True False = exceeds_depth_from r m d False False"
proof (induction t rule: json_characters_induct)
  case (plain c t)
  have "exceeds_depth_from (escaped_json_char c @ r) m d True False = exceeds_depth_from r m d True False" for r
    using plain(1) by (cases rule: json_escape_cases) (simp_all add: string_step_def hex_value_of_digit)
  with plain show ?case by (simp add: json_characters_Cons)
next
  case (bad c t)
  have "exceeds_depth_from (kReplacementCharacter @ r) m d True False = exceeds_depth_from r m d True False" for r
    by (rule depth_skips_high) (simp add: kReplacementCharacter_def)
  with bad show ?case by (simp add: json_characters_Cons)
next
  case (sequence c t n)
  from depth_skips_high [OF utf8_sequence(3) [OF sequence(2,3,1)]] sequence show ?case
    by (simp add: json_characters_Cons Let_def)
qed (simp add: string_step_def)

lemma depth_skips_json_text [simp]: "exceeds_depth_from (json_text t @ r) m d False False = exceeds_depth_from r m d False False"
  by (simp add: json_text_def depth_skips_string)

subsection \<open>Integers\<close>

lemma string_of_nat_hd: "0 < n \<Longrightarrow> hd (string_of_nat n) \<noteq> CHR ''0''"
proof (induction n rule: string_of_nat.induct)
  case (1 n)
  show ?case
  proof (cases "n < 10")
    case True
    with "1.prems" have "48 + n < 256" "48 + n \<noteq> 48" by simp_all
    then have "byte (digit_char n) \<noteq> (48 :: nat)" by (simp add: digit_char_def)
    then have "digit_char n \<noteq> CHR ''0''" by auto
    with True show ?thesis by (simp add: string_of_nat.simps [of n])
  next
    case False
    then have "hd (string_of_nat (n div 10)) \<noteq> CHR ''0''" using 1 by simp
    with False string_of_nat_digits [of "n div 10"] show ?thesis by (simp add: string_of_nat.simps [of n])
  qed
qed

lemma string_of_nat_zero: "string_of_nat 0 = ''0''"
  by code_simp

lemma read_string_of_int:
  assumes "- (2 ^ 63) \<le> i" "i < 2 ^ 63" "r = [] \<or> (\<not> is_digit (hd r) \<and> hd r \<notin> set ''.eE'')"
  shows "read_integer (string_of_int i @ r) = Some (i, r)"
proof -
  define n where "n = nat \<bar>i\<bar>"
  define ds where "ds = string_of_nat n"
  have ds: "list_all is_digit ds" "decimal_from 0 ds = n" "ds \<noteq> []"
    using string_of_nat_digits [of n] by (simp_all add: ds_def)
  have sign: "string_of_int i = (if i < 0 then CHR ''-'' # ds else ds)" by (simp add: string_of_int_def ds_def n_def)
  have take: "takeWhile is_digit (ds @ r) = ds" "dropWhile is_digit (ds @ r) = r"
    using ds(1) assms(3) by (simp_all add: list_all_iff takeWhile_append dropWhile_append takeWhile_eq_Nil_iff) (cases r; auto)+
  have head: "hd ds \<noteq> CHR ''-''" using ds by (cases ds) (auto simp: is_digit_def)
  have zero: "\<not> (hd ds = CHR ''0'' \<and> length ds > 1)"
  proof (cases "n = 0")
    case True
    then show ?thesis by (simp add: ds_def string_of_nat_zero)
  next
    case False
    then show ?thesis using string_of_nat_hd [of n] by (simp add: ds_def)
  qed
  have i: "i = (if i < 0 then - int n else int n)" by (simp add: n_def)
  show ?thesis
  proof (cases "i < 0")
    case True
    then have "read_integer (string_of_int i @ r) = read_integer (CHR ''-'' # ds @ r)" by (simp add: sign)
    also have "\<dots> = Some (- int n, r)"
      using ds take zero assms True i unfolding read_integer_def Let_def by auto
    finally show ?thesis using i True by simp
  next
    case False
    then have "read_integer (string_of_int i @ r) = read_integer (ds @ r)" by (simp add: sign)
    also have "\<dots> = Some (int n, r)"
      using ds take zero assms False i head unfolding read_integer_def Let_def by auto
    finally show ?thesis using i False by simp
  qed
qed

subsection \<open>Lines\<close>

definition more_texts :: "string list \<Rightarrow> string" where
  "more_texts arguments = concat (map (\<lambda>a. CHR '','' # json_text a) arguments)"

lemma append_arguments_later: "i > 0 \<Longrightarrow> append_arguments line i arguments = line @ more_texts arguments"
  by (induction line i arguments rule: append_arguments.induct) (simp_all add: more_texts_def)

definition texts :: "string list \<Rightarrow> string" where
  "texts arguments = (case arguments of [] \<Rightarrow> [] | a # as \<Rightarrow> json_text a @ more_texts as)"

lemma append_arguments_eq: "append_arguments line 0 arguments = line @ texts arguments"
  by (cases arguments) (simp_all add: texts_def append_arguments_later)

lemma read_more_texts_eq: "read_more_texts (more_texts arguments @ CHR '']'' # r) = Some (map as_unicode arguments, r)"
  by (induction arguments) (simp_all add: more_texts_def read_more_texts.simps)

lemma json_text_Cons: "\<exists>u. json_text t = CHR 0x22 # u"
  by (simp add: json_text_def)

lemma read_texts_eq: "read_texts (texts arguments @ CHR '']'' # r) = Some (map as_unicode arguments, r)"
proof (cases arguments)
  case Nil
  then show ?thesis by (simp add: read_texts_def texts_def)
next
  case (Cons a as)
  obtain u where u: "json_text a = CHR 0x22 # u" using json_text_Cons by blast
  have "read_texts (texts arguments @ CHR '']'' # r) = read_more_texts (more_texts arguments @ CHR '']'' # r)"
    by (simp add: read_texts_def texts_def Cons more_texts_def u)
  then show ?thesis by (simp add: read_more_texts_eq)
qed

text \<open>The line without its line break: an object of four members.\<close>

definition member_text :: "string \<Rightarrow> string \<Rightarrow> string" where
  "member_text k v = json_text k @ CHR '':'' # v"

definition trace_text :: "string \<Rightarrow> string list \<Rightarrow> string \<Rightarrow> int \<Rightarrow> string" where
  "trace_text tool arguments directory process =
     CHR ''{'' # member_text ''argv'' (CHR ''['' # texts arguments @ [CHR '']''])
       @ CHR '','' # member_text ''cwd'' (json_text directory)
       @ CHR '','' # member_text ''pid'' (string_of_int process)
       @ CHR '','' # member_text ''tool'' (json_text tool) @ [CHR ''}'']"

lemma key_texts:
  "json_text ''argv'' = CHR 0x22 # ''argv'' @ [CHR 0x22]" "json_text ''cwd'' = CHR 0x22 # ''cwd'' @ [CHR 0x22]"
  "json_text ''pid'' = CHR 0x22 # ''pid'' @ [CHR 0x22]" "json_text ''tool'' = CHR 0x22 # ''tool'' @ [CHR 0x22]"
  by code_simp+

lemma build_trace_line_eq:
  "build_trace_line tool arguments directory process = trace_text tool arguments directory process @ [CHR 0x0A]"
  by (simp add: build_trace_line_def Let_def append_arguments_eq trace_text_def member_text_def key_texts)

lemma key_unicode [simp]: "as_unicode ''argv'' = ''argv''" "as_unicode ''cwd'' = ''cwd''" "as_unicode ''pid'' = ''pid''"
  "as_unicode ''tool'' = ''tool''"
  by code_simp+

lemma read_member_text:
  "read_value (v @ r) = Some (j, r) \<Longrightarrow> read_member (member_text k v @ r) = Some ((as_unicode k, j), r)"
  by (simp add: read_member_def member_text_def)

lemma read_value_text: "read_value (json_text t @ r) = Some (Json_String (as_unicode t), r)"
proof -
  obtain u where u: "json_text t = CHR 0x22 # u" using json_text_Cons by blast
  have "read_text (json_text t @ r) = Some (as_unicode t, r)" by simp
  then show ?thesis by (simp add: read_value_def u)
qed

lemma read_value_texts: "read_value ((CHR ''['' # texts arguments @ [CHR '']'']) @ r) = Some (Json_Array (map (Json_String \<circ> as_unicode) arguments), r)"
  using read_texts_eq [of arguments r] by (simp add: read_value_def)

lemma read_value_int:
  assumes "- (2 ^ 63) \<le> i" "i < 2 ^ 63"
  shows "read_value (string_of_int i @ CHR '','' # r) = Some (Json_Int i, CHR '','' # r)"
proof -
  have "read_integer (string_of_int i @ CHR '','' # r) = Some (i, CHR '','' # r)"
    using assms by (intro read_string_of_int) (auto simp: is_digit_def)
  moreover have "\<exists>c s. string_of_int i = c # s \<and> (c = CHR ''-'' \<or> is_digit c)"
    using string_of_nat_digits [of "nat i"] by (cases "i < 0"; cases "string_of_nat (nat i)") (simp_all add: string_of_int_def)
  then obtain c s where c: "string_of_int i = c # s" "c = CHR ''-'' \<or> is_digit c" by blast
  from c(2) have "c \<noteq> CHR 0x22" "c \<noteq> CHR ''[''" by (auto simp: is_digit_def)
  ultimately show ?thesis by (simp add: read_value_def c(1))
qed

definition trace_object :: "string \<Rightarrow> string list \<Rightarrow> string \<Rightarrow> int \<Rightarrow> json" where
  "trace_object tool arguments directory process =
     Json_Object [(''argv'', Json_Array (map (Json_String \<circ> as_unicode) arguments)), (''cwd'', Json_String (as_unicode directory)),
       (''pid'', Json_Int process), (''tool'', Json_String (as_unicode tool))]"

lemma read_trace_text:
  assumes "- (2 ^ 63) \<le> process" "process < 2 ^ 63"
  shows "read_json (trace_text tool arguments directory process) = Some (trace_object tool arguments directory process)"
proof -
  define last where "last = member_text ''tool'' (json_text tool) @ [CHR ''}'']"
  define third where "third = member_text ''pid'' (string_of_int process) @ CHR '','' # last"
  define second where "second = member_text ''cwd'' (json_text directory) @ CHR '','' # third"
  define first where "first = member_text ''argv'' (CHR ''['' # texts arguments @ [CHR '']'']) @ CHR '','' # second"
  have first: "read_member first = Some ((''argv'', Json_Array (map (Json_String \<circ> as_unicode) arguments)), CHR '','' # second)"
    unfolding first_def by (subst read_member_text [OF read_value_texts]) simp
  have second: "read_member second = Some ((''cwd'', Json_String (as_unicode directory)), CHR '','' # third)"
    unfolding second_def by (subst read_member_text [OF read_value_text]) simp
  have third: "read_member third = Some ((''pid'', Json_Int process), CHR '','' # last)"
    unfolding third_def by (subst read_member_text [OF read_value_int [OF assms]]) simp
  have last: "read_member last = Some ((''tool'', Json_String (as_unicode tool)), [CHR ''}''])"
    unfolding last_def by (subst read_member_text [OF read_value_text]) simp
  have whole: "trace_text tool arguments directory process = CHR ''{'' # first"
    by (simp add: trace_text_def first_def second_def third_def last_def)
  have "length first \<ge> 4" by (simp add: first_def member_text_def)
  then obtain f where "length first = 4 + f" using le_Suc_ex by blast
  then have f: "length first = Suc (Suc (Suc (Suc f)))" by simp
  have "read_members (length first) first = Some ([(''argv'', Json_Array (map (Json_String \<circ> as_unicode) arguments)),
      (''cwd'', Json_String (as_unicode directory)), (''pid'', Json_Int process), (''tool'', Json_String (as_unicode tool))], [])"
    by (simp add: f first second third last)
  then show ?thesis by (simp add: read_json_def whole trace_object_def)
qed

text \<open>What a reader of lines and the nesting guard see of a line.\<close>

lemma json_text_printable: "list_all (\<lambda>c. byte c \<ge> (0x20 :: nat)) (json_text t)"
  by (simp add: json_text_def json_characters_printable)

lemma more_texts_printable: "list_all (\<lambda>c. byte c \<ge> (0x20 :: nat)) (more_texts arguments)"
  by (induction arguments) (simp_all add: more_texts_def json_text_printable)

lemma texts_printable: "list_all (\<lambda>c. byte c \<ge> (0x20 :: nat)) (texts arguments)"
  by (cases arguments) (simp_all add: texts_def json_text_printable more_texts_printable)

lemma digits_printable: "list_all (\<lambda>c. byte c \<ge> (0x20 :: nat)) (string_of_int i)"
proof -
  have "list_all (\<lambda>c. byte c \<ge> (0x20 :: nat)) (string_of_nat n)" for n
    using string_of_nat_digits [of n] by (auto simp: list_all_iff is_digit_value)
  then show ?thesis by (simp add: string_of_int_def)
qed

lemma trace_text_printable: "list_all (\<lambda>c. byte c \<ge> (0x20 :: nat)) (trace_text tool arguments directory process)"
  by (simp add: trace_text_def member_text_def json_text_printable texts_printable digits_printable)

lemma trace_text_no_break: "c \<in> set (trace_text tool arguments directory process) \<Longrightarrow> c \<noteq> CHR 0x0A \<and> c \<noteq> CHR 0x0D"
  using trace_text_printable by (fastforce simp: list_all_iff)

lemma depth_skips_more_texts [simp]: "exceeds_depth_from (more_texts arguments @ r) m d False False = exceeds_depth_from r m d False False"
  by (induction arguments) (simp_all add: more_texts_def opens_level_def closes_level_def)

lemma depth_skips_texts [simp]: "exceeds_depth_from (texts arguments @ r) m d False False = exceeds_depth_from r m d False False"
  by (cases arguments) (simp_all add: texts_def)

lemma depth_skips_digits: "list_all is_digit ds \<Longrightarrow> exceeds_depth_from (ds @ r) m d False False = exceeds_depth_from r m d False False"
proof (induction ds)
  case (Cons c ds)
  then have "c \<noteq> CHR 0x22" "\<not> opens_level c" "\<not> closes_level c"
    by (auto simp: is_digit_def opens_level_def closes_level_def)
  with Cons show ?case by simp
qed simp

lemma depth_skips_int [simp]: "exceeds_depth_from (string_of_int i @ r) m d False False = exceeds_depth_from r m d False False"
  using depth_skips_digits string_of_nat_digits
  by (simp add: string_of_int_def opens_level_def closes_level_def)

lemma trace_text_depth: "2 \<le> m \<Longrightarrow> \<not> exceeds_json_nesting_depth (trace_text tool arguments directory process) m"
  by (simp add: exceeds_json_nesting_depth_def trace_text_def member_text_def opens_level_def closes_level_def)

text \<open>The variable that names a real tool is different for every shim.\<close>

lemma shim_variables_distinct: "distinct (map shim_env_var_name kShimmedToolNames)"
  by code_simp

end
