(* ===== verification/Link_Map.thy ===== *)
theory Link_Map
  imports Compile_Map
begin

text \<open>
  \<open>observe/link_map.hpp\<close> and \<open>observe/link_map.cpp\<close>: what the link and archive invocations of a recorded build prove.
  \<open>flatten_linker_tokens\<close> undoes the spellings a compiler driver uses for linker options, \<open>scan_link_tokens\<close> reads the
  tokens, \<open>map_links_to_roots\<close> attributes the link inputs to component roots, \<open>scan_archive_output\<close> and
  \<open>collect_build_artifacts\<close> find the files the build wrote, and \<open>merge_link_evidence\<close> folds the result into a compile map.
\<close>

section \<open>Data\<close>

record link_input =
  li_argument :: string
  li_whole_archive :: bool

record link_name =
  ln_name :: string
  ln_whole_archive :: bool

record link_line =
  direct_inputs :: "link_input list"
  named_libraries :: "link_name list"
  search_directories :: "string list"
  ll_response_files :: nat
  map_file :: "path option"
  output_path :: "path option"

record build_artifacts =
  link_outputs :: path_set
  archive_outputs :: path_set
  linked_archives :: path_set
  out_of_tree_artifacts :: nat
  ba_response_files :: nat

record link_map =
  lm_usage_by_root :: usage_map
  link_invocations :: nat
  unresolved_library_names :: nat
  lm_response_files :: nat

definition kLinkInputExtensions :: "string list" where
  "kLinkInputExtensions = [''.o'', ''.a'']"

definition kMaxSonameVersionSegments :: nat where
  "kMaxSonameVersionSegments = 3"

definition kLinkOptionsConsumingNextArgument :: "string list" where
  "kLinkOptionsConsumingNextArgument = [''-o'', ''-T'', ''--script'', ''-soname'', ''-h'', ''--soname'', ''-dynamic-linker'',
     ''-rpath'', ''--rpath'', ''-e'', ''-u'']"

definition kLibraryNameSuffixes :: "string list" where
  "kLibraryNameSuffixes = [''.so'', ''.a'']"

section \<open>Tokens of a link line\<close>

definition is_all_digits :: "string \<Rightarrow> bool" where
  "is_all_digits s \<longleftrightarrow> s \<noteq> [] \<and> list_all (\<lambda>c. CHR ''0'' \<le> c \<and> c \<le> CHR ''9'') s"

text \<open>The loop strips one numeric extension per turn; \<open>n\<close> turns are left.\<close>

fun versioned_shared_object :: "nat \<Rightarrow> path \<Rightarrow> bool" where
  "versioned_shared_object 0 candidate = False"
| "versioned_shared_object (Suc n) candidate =
     (let extension = to_lower_ascii (path_extension candidate) in
      if extension = ''.so'' then True
      else if length extension \<le> 1 \<or> \<not> is_all_digits (drop 1 extension) then False
      else versioned_shared_object n (path_stem candidate))"

definition has_versioned_shared_object_extension :: "path \<Rightarrow> bool" where
  "has_versioned_shared_object_extension candidate = versioned_shared_object (kMaxSonameVersionSegments + 1) candidate"

definition has_link_input_extension :: "string \<Rightarrow> bool" where
  "has_link_input_extension argument =
     (if to_lower_ascii (path_extension argument) \<in> set kLinkInputExtensions then True
      else has_versioned_shared_object_extension argument)"

text \<open>The value a token carries, and whether it is the next token.\<close>

definition map_file_value :: "string \<Rightarrow> string \<Rightarrow> (string \<times> bool) option" where
  "map_file_value token next_token =
     (if starts_with token ''-Map='' then Some (drop 5 token, False)
      else if token = ''-Map'' \<and> next_token \<noteq> [] then Some (next_token, True)
      else None)"

definition output_path_value :: "string \<Rightarrow> string \<Rightarrow> (string \<times> bool) option" where
  "output_path_value token next_token =
     (if starts_with token ''--output='' then Some (drop 9 token, False)
      else if (token = ''-o'' \<or> token = ''--output'') \<and> next_token \<noteq> [] then Some (next_token, True)
      else if length token > 2 \<and> starts_with token ''-o'' \<and> \<not> starts_with token ''-oformat'' then Some (drop 2 token, False)
      else None)"

definition search_directory_value :: "string \<Rightarrow> string \<Rightarrow> string \<times> bool" where
  "search_directory_value token next_token =
     (if token = ''-L'' then (next_token, True)
      else if length token > 2 \<and> starts_with token ''-L'' then (drop 2 token, False)
      else ([], False))"

definition library_name_value :: "string \<Rightarrow> string \<Rightarrow> string \<times> bool" where
  "library_name_value token next_token =
     (if token = ''-l'' then (next_token, True)
      else if length token > 2 \<and> starts_with token ''-l'' then (drop 2 token, False)
      else ([], False))"

fun flatten_arguments :: "string list \<Rightarrow> string list" where
  "flatten_arguments [] = []"
| "flatten_arguments (argument # rest) =
     (if argument = ''-Xlinker'' then (case rest of [] \<Rightarrow> [] | token # rest' \<Rightarrow> token # flatten_arguments rest')
      else if starts_with argument ''-Wl,'' then filter (\<lambda>segment. segment \<noteq> []) (split_on CHR '','' (drop 4 argument)) @ flatten_arguments rest
      else argument # flatten_arguments rest)"

definition flatten_linker_tokens :: "trace_record \<Rightarrow> string list" where
  "flatten_linker_tokens r = flatten_arguments (drop 1 (rec_arguments r))"

text \<open>One turn of the loop over the tokens: the region flag, the line, and whether the next token is consumed.\<close>

definition link_step :: "bool \<Rightarrow> string \<Rightarrow> string \<Rightarrow> link_line \<Rightarrow> bool \<times> link_line \<times> bool" where
  "link_step inside token next_token line =
     (if token = [] then (inside, line, False)
      else if token = ''--whole-archive'' then (True, line, False)
      else if token = ''--no-whole-archive'' then (False, line, False)
      else if hd token = CHR ''@'' then (inside, line\<lparr>ll_response_files := ll_response_files line + 1\<rparr>, False)
      else case output_path_value token next_token of
        Some (v, consumed) \<Rightarrow> (inside, if output_path line = None then line\<lparr>output_path := Some v\<rparr> else line, consumed)
      | None \<Rightarrow> case map_file_value token next_token of
        Some (v, consumed) \<Rightarrow> (inside, if map_file line = None then line\<lparr>map_file := Some v\<rparr> else line, consumed)
      | None \<Rightarrow>
        let (search_directory, consumed) = search_directory_value token next_token in
        if search_directory \<noteq> [] then (inside, line\<lparr>search_directories := search_directories line @ [search_directory]\<rparr>, consumed)
        else
          let (library_name, consumed) = library_name_value token next_token in
          if library_name \<noteq> []
          then (inside, line\<lparr>named_libraries := named_libraries line @ [\<lparr>ln_name = library_name, ln_whole_archive = inside\<rparr>]\<rparr>, consumed)
          else if hd token \<noteq> CHR ''-''
          then (inside, if has_link_input_extension token
            then line\<lparr>direct_inputs := direct_inputs line @ [\<lparr>li_argument = token, li_whole_archive = inside\<rparr>]\<rparr> else line, False)
          else (inside, line, token \<in> set kLinkOptionsConsumingNextArgument))"

fun scan_tokens :: "bool \<Rightarrow> string list \<Rightarrow> link_line \<Rightarrow> link_line" where
  "scan_tokens inside [] line = line"
| "scan_tokens inside (token # rest) line =
     (let (inside, line, consumed) = link_step inside token (case rest of [] \<Rightarrow> [] | n # _ \<Rightarrow> n) line
      in scan_tokens inside (if consumed then drop 1 rest else rest) line)"

definition new_link_line :: link_line where
  "new_link_line = \<lparr>direct_inputs = [], named_libraries = [], search_directories = [], ll_response_files = 0,
     map_file = None, output_path = None\<rparr>"

definition scan_link_tokens :: "string list \<Rightarrow> link_line" where
  "scan_link_tokens tokens = scan_tokens False tokens new_link_line"

definition scan_link_line :: "trace_record \<Rightarrow> link_line" where
  "scan_link_line r = scan_link_tokens (flatten_linker_tokens r)"

section \<open>Attributing the link inputs\<close>

fun library_candidate :: "file_system \<Rightarrow> string \<Rightarrow> path \<Rightarrow> string list \<Rightarrow> path option" where
  "library_candidate fsys name directory [] = None"
| "library_candidate fsys name directory (s # rest) =
     (let candidate = path_append directory (''lib'' @ name @ s) in
      if fs_exists fsys candidate then Some candidate else library_candidate fsys name directory rest)"

fun resolve_library_name :: "file_system \<Rightarrow> string \<Rightarrow> path list \<Rightarrow> path option" where
  "resolve_library_name fsys name [] = None"
| "resolve_library_name fsys name (directory # directories) =
     (case library_candidate fsys name directory kLibraryNameSuffixes of
        Some candidate \<Rightarrow> Some candidate
      | None \<Rightarrow> resolve_library_name fsys name directories)"

definition attribute_link_input :: "path \<Rightarrow> path_set \<Rightarrow> (path_key \<times> path_set) list \<Rightarrow> path \<Rightarrow> (path_key \<times> path_set) list" where
  "attribute_link_input canonical_root component_roots by_root absolute_input =
     (case to_root_relative absolute_input canonical_root of
        None \<Rightarrow> by_root
      | Some relative_input \<Rightarrow>
          (case enclosing_root (path_parent relative_input) component_roots of
             None \<Rightarrow> by_root
           | Some root \<Rightarrow> omap_put (path_key root) (path_set_insert relative_input (paths_at by_root (path_key root))) by_root))"

text \<open>The loop over the named libraries of one record: unresolved names are counted, found ones attributed.\<close>

definition link_library :: "file_system \<Rightarrow> path \<Rightarrow> path_set \<Rightarrow> path list \<Rightarrow> link_map \<times> (path_key \<times> path_set) list \<Rightarrow> link_name \<Rightarrow>
    link_map \<times> (path_key \<times> path_set) list" where
  "link_library fsys canonical_root component_roots directories st library =
     (let (m, by_root) = st in
      if directories = [] then (m, by_root)
      else case resolve_library_name fsys (ln_name library) directories of
        None \<Rightarrow> (m\<lparr>unresolved_library_names := unresolved_library_names m + 1\<rparr>, by_root)
      | Some resolved \<Rightarrow> (m, attribute_link_input canonical_root component_roots by_root resolved))"

definition link_record :: "file_system \<Rightarrow> path \<Rightarrow> path_set \<Rightarrow> link_map \<times> (path_key \<times> path_set) list \<Rightarrow> trace_record \<Rightarrow>
    link_map \<times> (path_key \<times> path_set) list" where
  "link_record fsys canonical_root component_roots st r =
     (if \<not> is_link_mode_invocation r then st
      else
        let (m, by_root) = st;
            line = scan_link_line r;
            m = m\<lparr>link_invocations := link_invocations m + 1, lm_response_files := lm_response_files m + ll_response_files line\<rparr>;
            working_directory = canonical_directory fsys (rec_directory r);
            directories = map (resolve_directory_argument fsys working_directory) (search_directories line);
            by_root = foldl (\<lambda>by_root input. attribute_link_input canonical_root component_roots by_root
              (resolve_file_argument fsys working_directory (li_argument input))) by_root (direct_inputs line)
        in foldl (link_library fsys canonical_root component_roots directories) (m, by_root) (named_libraries line))"

definition record_inputs :: "usage_map \<Rightarrow> path_key \<times> path_set \<Rightarrow> usage_map" where
  "record_inputs m e =
     (let (root, inputs) = e; usage = usage_at m root; usage = usage\<lparr>linked_input_count := length inputs\<rparr>;
          usage = (case inputs of [] \<Rightarrow> usage
            | i # _ \<Rightarrow> usage\<lparr>first_linked_input := snd i, usage_signal_of := max (usage_signal_of usage) Linked\<rparr>)
      in omap_put root usage m)"

definition link_warnings :: "link_map result \<Rightarrow> link_map result" where
  "link_warnings r =
     (let m = result_value r;
          r = (if unresolved_library_names m > 0
               then warn kObserveUnresolvedLinkArgument (string_of_nat (unresolved_library_names m) @
                 '' -l<name> argument(s) did not resolve to a file in any -L directory seen on the same link line; a component supplied only that way may be reported unused'') [] [] r
               else r)
      in if lm_response_files m > 0
         then warn kObserveResponseFilesUnexpanded (string_of_nat (lm_response_files m) @
           '' link argument(s) were response files (@file), which bomwerk does not open; a component whose link inputs appear only inside one may be reported unused'') [] [] r
         else r)"

definition map_links_to_roots :: "file_system \<Rightarrow> trace_record list \<Rightarrow> path \<Rightarrow> path_set \<Rightarrow> link_map result" where
  "map_links_to_roots fsys records scan_root component_roots =
     (let canonical_root = canonical_directory fsys scan_root;
          m = \<lparr>lm_usage_by_root = initial_usage component_roots, link_invocations = 0, unresolved_library_names = 0,
               lm_response_files = 0\<rparr>;
          (m, by_root) = foldl (link_record fsys canonical_root component_roots) (m, []) records;
          m = m\<lparr>lm_usage_by_root := foldl record_inputs (lm_usage_by_root m) by_root\<rparr>
      in link_warnings (new_result m))"

text \<open>The keys are root paths; \<open>path_of_key\<close> is the path of a key, the same text for every canonical path.\<close>

definition merge_link_usage :: "usage_map \<Rightarrow> path_key \<times> component_usage \<Rightarrow> usage_map" where
  "merge_link_usage m e =
     (let (root, link_usage) = e; usage = usage_at m root in
      omap_put root (usage\<lparr>usage_root := path_of_key root, linked_input_count := linked_input_count link_usage,
        first_linked_input := first_linked_input link_usage,
        usage_signal_of := max (usage_signal_of usage) (usage_signal_of link_usage)\<rparr>) m)"

definition merge_link_evidence :: "compile_map \<Rightarrow> link_map \<Rightarrow> compile_map" where
  "merge_link_evidence m l = m\<lparr>usage_by_root := foldl merge_link_usage (usage_by_root m) (lm_usage_by_root l)\<rparr>"

section \<open>What the build wrote\<close>

definition kArchiveKeyLetters :: string where
  "kArchiveKeyLetters = ''dmpqrstxMabcDfilNoPsSTuUvV''"

definition kArchiveKeysTakingOperand :: string where
  "kArchiveKeysTakingOperand = ''abiN''"

definition kArchiveOptionsConsumingNextArgument :: "string list" where
  "kArchiveOptionsConsumingNextArgument = [''--plugin'', ''--target'']"

definition is_archive_or_shared_object :: "string \<Rightarrow> bool" where
  "is_archive_or_shared_object argument =
     (if to_lower_ascii (path_extension argument) = ''.a'' then True else has_versioned_shared_object_extension argument)"

text \<open>The arguments left when the long options before the key letters are skipped.\<close>

fun skip_archive_options :: "string list \<Rightarrow> string list" where
  "skip_archive_options [] = []"
| "skip_archive_options (argument # rest) =
     (if argument \<in> set kArchiveOptionsConsumingNextArgument then skip_archive_options (drop 1 rest)
      else if starts_with argument ''--'' then skip_archive_options rest
      else argument # rest)"

text \<open>The loop over the key letters: how many operands come before the archive, or nothing for a bundle that is not
  understood.\<close>

fun operands_before_archive :: "string \<Rightarrow> nat option" where
  "operands_before_archive [] = Some 0"
| "operands_before_archive (key # keys) =
     (if key \<notin> set kArchiveKeyLetters then None
      else if key = CHR ''M'' then None
      else map_option (\<lambda>n. if key \<in> set kArchiveKeysTakingOperand then n + 1 else n) (operands_before_archive keys))"

definition scan_archive_output :: "trace_record \<Rightarrow> string option" where
  "scan_archive_output r =
     (case skip_archive_options (drop 1 (rec_arguments r)) of
        [] \<Rightarrow> None
      | argument # operands \<Rightarrow>
          let keys = (if starts_with argument ''-'' then drop 1 argument else argument) in
          if keys = [] then None
          else case operands_before_archive keys of
            None \<Rightarrow> None
          | Some n \<Rightarrow> if n \<ge> length operands then None else Some (operands ! n))"

definition record_artifact :: "file_system \<Rightarrow> path \<Rightarrow> path \<Rightarrow> string \<Rightarrow> build_artifacts \<times> path_set \<Rightarrow> build_artifacts \<times> path_set" where
  "record_artifact fsys canonical_root working_directory argument st =
     (let (a, destination) = st in
      case to_root_relative (resolve_file_argument fsys working_directory argument) canonical_root of
        None \<Rightarrow> (a\<lparr>out_of_tree_artifacts := out_of_tree_artifacts a + 1\<rparr>, destination)
      | Some relative_path \<Rightarrow> (a, path_set_insert relative_path destination))"

definition record_link_output :: "file_system \<Rightarrow> path \<Rightarrow> path \<Rightarrow> build_artifacts \<Rightarrow> string \<Rightarrow> build_artifacts" where
  "record_link_output fsys cr wd a argument =
     (let (a, s) = record_artifact fsys cr wd argument (a, link_outputs a) in a\<lparr>link_outputs := s\<rparr>)"

definition record_archive_output :: "file_system \<Rightarrow> path \<Rightarrow> path \<Rightarrow> build_artifacts \<Rightarrow> string \<Rightarrow> build_artifacts" where
  "record_archive_output fsys cr wd a argument =
     (let (a, s) = record_artifact fsys cr wd argument (a, archive_outputs a) in a\<lparr>archive_outputs := s\<rparr>)"

definition record_linked_archive :: "file_system \<Rightarrow> path \<Rightarrow> path \<Rightarrow> build_artifacts \<Rightarrow> string \<Rightarrow> build_artifacts" where
  "record_linked_archive fsys cr wd a argument =
     (let (a, s) = record_artifact fsys cr wd argument (a, linked_archives a) in a\<lparr>linked_archives := s\<rparr>)"

definition artifacts_of_record :: "file_system \<Rightarrow> path \<Rightarrow> build_artifacts \<Rightarrow> trace_record \<Rightarrow> build_artifacts" where
  "artifacts_of_record fsys canonical_root a r =
     (let working_directory = canonical_directory fsys (rec_directory r) in
      if rec_tool r = ''ar''
      then (case scan_archive_output r of
          None \<Rightarrow> a
        | Some archive \<Rightarrow> record_archive_output fsys canonical_root working_directory a archive)
      else if \<not> is_link_mode_invocation r then a
      else
        let line = scan_link_line r;
            a = a\<lparr>ba_response_files := ba_response_files a + ll_response_files line\<rparr>;
            a = (case output_path line of
              None \<Rightarrow> a | Some p \<Rightarrow> record_link_output fsys canonical_root working_directory a p)
        in foldl (\<lambda>a input. if is_archive_or_shared_object (li_argument input)
             then record_linked_archive fsys canonical_root working_directory a (li_argument input) else a) a (direct_inputs line))"

definition collect_build_artifacts :: "file_system \<Rightarrow> trace_record list \<Rightarrow> path \<Rightarrow> build_artifacts result" where
  "collect_build_artifacts fsys records scan_root =
     (let canonical_root = canonical_directory fsys scan_root;
          a = foldl (artifacts_of_record fsys canonical_root)
            \<lparr>link_outputs = [], archive_outputs = [], linked_archives = [], out_of_tree_artifacts = 0, ba_response_files = 0\<rparr> records;
          r = new_result a;
          r = (if out_of_tree_artifacts a > 0
               then warn kObserveEvidenceOutsideRoot (string_of_nat (out_of_tree_artifacts a) @
                 '' build artifact(s) lie outside '' @ scan_root @ ''; bomwerk reads no binary evidence from them'') [] [] r
               else r)
      in if ba_response_files a > 0
         then warn kObserveResponseFilesUnexpanded (string_of_nat (ba_response_files a) @
           '' link argument(s) were response files (@file), which bomwerk does not open; an output named only inside one is not scanned'') [] [] r
         else r)"

definition all_paths :: "build_artifacts \<Rightarrow> path list" where
  "all_paths a = unique_adj path_equal (sort_key path_key
     (path_set_paths (link_outputs a) @ path_set_paths (archive_outputs a) @ path_set_paths (linked_archives a)))"

section \<open>Reading the tokens\<close>

text \<open>The spellings of linker tokens on a compiler command line.\<close>

datatype spelling = Bare string | Wl "string list" | Xlinker string

primrec render_spelling :: "spelling \<Rightarrow> string list" where
  "render_spelling (Bare token) = [token]"
| "render_spelling (Wl tokens) = [''-Wl,'' @ join_with CHR '','' tokens]"
| "render_spelling (Xlinker token) = [''-Xlinker'', token]"

primrec spelled_tokens :: "spelling \<Rightarrow> string list" where
  "spelled_tokens (Bare token) = [token]"
| "spelled_tokens (Wl tokens) = filter (\<lambda>t. t \<noteq> []) tokens"
| "spelled_tokens (Xlinker token) = [token]"

primrec spelling_ok :: "spelling \<Rightarrow> bool" where
  "spelling_ok (Bare token) = (token \<noteq> ''-Xlinker'' \<and> \<not> starts_with token ''-Wl,'')"
| "spelling_ok (Wl tokens) = (tokens \<noteq> [] \<and> list_all (\<lambda>t. CHR '','' \<notin> set t) tokens)"
| "spelling_ok (Xlinker token) = True"

lemma flatten_spelling: "spelling_ok s \<Longrightarrow> flatten_arguments (render_spelling s @ rest) = spelled_tokens s @ flatten_arguments rest"
  by (cases s) (simp_all add: starts_with_def split_on_join)

lemma flatten_spellings:
  "list_all spelling_ok ss \<Longrightarrow> flatten_arguments (concat (map render_spelling ss)) = concat (map spelled_tokens ss)"
  by (induction ss) (simp_all add: flatten_spelling)

text \<open>The tokens of a link line by what they mean.\<close>

datatype link_item =
    Link_Operand string | Link_Response string | Whole_Archive bool | Output bool string | Map_File bool string
  | Search_Directory bool string | Library bool string | Link_Valued string string | Link_Flag string

primrec render_link_item :: "link_item \<Rightarrow> string list" where
  "render_link_item (Link_Operand s) = [s]"
| "render_link_item (Link_Response s) = [CHR ''@'' # s]"
| "render_link_item (Whole_Archive b) = [if b then ''--whole-archive'' else ''--no-whole-archive'']"
| "render_link_item (Output joined v) = (if joined then [''--output='' @ v] else [''-o'', v])"
| "render_link_item (Map_File joined v) = (if joined then [''-Map='' @ v] else [''-Map'', v])"
| "render_link_item (Search_Directory joined v) = (if joined then [''-L'' @ v] else [''-L'', v])"
| "render_link_item (Library joined v) = (if joined then [''-l'' @ v] else [''-l'', v])"
| "render_link_item (Link_Valued option v) = [option, v]"
| "render_link_item (Link_Flag f) = [f]"

definition is_quiet :: "string \<Rightarrow> bool" where
  "is_quiet f \<longleftrightarrow> f \<noteq> [] \<and> hd f = CHR ''-'' \<and>
     f \<notin> set [''--whole-archive'', ''--no-whole-archive'', ''-o'', ''--output'', ''-Map'', ''-L'', ''-l''] \<and>
     (starts_with f ''-o'' \<longrightarrow> starts_with f ''-oformat'') \<and>
     list_all (\<lambda>p. \<not> starts_with f p) [''--output='', ''-Map='', ''-L'', ''-l'']"

definition is_link_flag :: "string \<Rightarrow> bool" where
  "is_link_flag f \<longleftrightarrow> is_quiet f \<and> f \<notin> set kLinkOptionsConsumingNextArgument"

primrec link_item_ok :: "link_item \<Rightarrow> bool" where
  "link_item_ok (Link_Operand s) = is_operand s"
| "link_item_ok (Link_Response s) = True"
| "link_item_ok (Whole_Archive b) = True"
| "link_item_ok (Output joined v) = (joined \<or> v \<noteq> [])"
| "link_item_ok (Map_File joined v) = (joined \<or> v \<noteq> [])"
| "link_item_ok (Search_Directory joined v) = (v \<noteq> [])"
| "link_item_ok (Library joined v) = (v \<noteq> [])"
| "link_item_ok (Link_Valued option v) = (option \<in> set kLinkOptionsConsumingNextArgument \<and> option \<noteq> ''-o'')"
| "link_item_ok (Link_Flag f) = is_link_flag f"

text \<open>What an item adds to a line, inside or outside a whole-archive region.\<close>

definition apply_item :: "bool \<times> link_line \<Rightarrow> link_item \<Rightarrow> bool \<times> link_line" where
  "apply_item st i = (let (inside, line) = st in case i of
       Link_Operand s \<Rightarrow> (inside, if has_link_input_extension s
         then line\<lparr>direct_inputs := direct_inputs line @ [\<lparr>li_argument = s, li_whole_archive = inside\<rparr>]\<rparr> else line)
     | Link_Response s \<Rightarrow> (inside, line\<lparr>ll_response_files := ll_response_files line + 1\<rparr>)
     | Whole_Archive b \<Rightarrow> (b, line)
     | Output joined v \<Rightarrow> (inside, if output_path line = None then line\<lparr>output_path := Some v\<rparr> else line)
     | Map_File joined v \<Rightarrow> (inside, if map_file line = None then line\<lparr>map_file := Some v\<rparr> else line)
     | Search_Directory joined v \<Rightarrow> (inside, line\<lparr>search_directories := search_directories line @ [v]\<rparr>)
     | Library joined v \<Rightarrow> (inside, line\<lparr>named_libraries := named_libraries line @ [\<lparr>ln_name = v, ln_whole_archive = inside\<rparr>]\<rparr>)
     | Link_Valued option v \<Rightarrow> (inside, line)
     | Link_Flag f \<Rightarrow> (inside, line))"

lemmas link_values = output_path_value_def map_file_value_def search_directory_value_def library_name_value_def starts_with_def

lemma operand_values:
  assumes "is_operand s"
  shows "s \<noteq> ''--whole-archive''" "s \<noteq> ''--no-whole-archive''" "output_path_value s n = None" "map_file_value s n = None"
    "search_directory_value s n = ([], False)" "library_name_value s n = ([], False)"
  using assms by (cases s; auto simp: is_operand_def link_values)+

lemma quiet_step: "is_quiet f \<Longrightarrow> link_step inside f n line = (inside, line, f \<in> set kLinkOptionsConsumingNextArgument)"
  by (auto simp: link_step_def is_quiet_def output_path_value_def map_file_value_def search_directory_value_def library_name_value_def)

lemma consuming_quiet: "f \<in> set kLinkOptionsConsumingNextArgument \<Longrightarrow> f \<noteq> ''-o'' \<Longrightarrow> is_quiet f"
proof -
  have "\<forall>f \<in> set kLinkOptionsConsumingNextArgument. f = ''-o'' \<or> is_quiet f" by code_simp
  then show "f \<in> set kLinkOptionsConsumingNextArgument \<Longrightarrow> f \<noteq> ''-o'' \<Longrightarrow> is_quiet f" by blast
qed

lemma scan_link_item:
  assumes "link_item_ok i"
  shows "scan_tokens inside (render_link_item i @ rest) line =
    (let (inside', line') = apply_item (inside, line) i in scan_tokens inside' rest line')"
proof (cases i)
  case (Link_Operand s)
  then show ?thesis using assms operand_values [of s] by (simp add: link_step_def apply_item_def is_operand_def)
next
  case (Link_Flag f)
  then show ?thesis using assms by (simp add: quiet_step is_link_flag_def apply_item_def)
next
  case (Link_Valued p v)
  then show ?thesis using assms by (simp add: quiet_step consuming_quiet apply_item_def)
qed (use assms in \<open>auto simp: link_step_def apply_item_def link_values\<close>)

lemma scan_link_items:
  "list_all link_item_ok items \<Longrightarrow> scan_tokens inside (concat (map render_link_item items)) line =
    snd (foldl apply_item (inside, line) items)"
  by (induction items arbitrary: inside line) (simp_all add: scan_link_item split_beta Let_def)

section \<open>What the link lines of a trace say\<close>

definition relative_to :: "path \<Rightarrow> path list \<Rightarrow> path list" where
  "relative_to canonical_root absolutes = List.map_filter (\<lambda>a. to_root_relative a canonical_root) absolutes"

lemma relative_to_simps [simp]:
  "relative_to cr [] = []"
  "relative_to cr (a # as) = (case to_root_relative a cr of None \<Rightarrow> relative_to cr as | Some p \<Rightarrow> p # relative_to cr as)"
  "relative_to cr (as @ bs) = relative_to cr as @ relative_to cr bs"
  by (simp_all add: relative_to_def List.map_filter_def split: option.split)

lemma relative_to_canonical: "list_all (\<lambda>p. canonical_path p \<and> p \<noteq> []) (relative_to cr as)"
  by (induction "as") (simp_all add: to_root_relative_canonical split: option.split)

lemma attribute_state:
  "by_root_state roots ss b \<Longrightarrow> by_root_state roots (ss @ relative_to cr as) (foldl (attribute_link_input cr roots) b as)"
proof (induction "as" arbitrary: ss b)
  case Nil
  then show ?case by simp
next
  case (Cons a bs)
  show ?case
  proof (cases "to_root_relative a cr")
    case None
    with Cons show ?thesis by (simp add: attribute_link_input_def)
  next
    case (Some p)
    have "by_root_state roots (ss @ [p]) (attribute_link_input cr roots b a)"
      using by_root_state_skip [OF Cons.prems, of p] by_root_state_put [OF Cons.prems, of p]
      by (cases "enclosing_root (path_parent p) roots") (simp_all add: attribute_link_input_def Some)
    from Cons.IH [OF this] Some show ?thesis by simp
  qed
qed

text \<open>The files one record links, the libraries it names in vain and its response files.\<close>

definition record_directories :: "file_system \<Rightarrow> trace_record \<Rightarrow> path list" where
  "record_directories fsys r = map (resolve_directory_argument fsys (working_directory_of fsys r)) (search_directories (scan_link_line r))"

definition found_libraries :: "file_system \<Rightarrow> path list \<Rightarrow> link_name list \<Rightarrow> path list" where
  "found_libraries fsys directories libraries =
     (if directories = [] then [] else List.map_filter (\<lambda>l. resolve_library_name fsys (ln_name l) directories) libraries)"

definition missing_libraries :: "file_system \<Rightarrow> path list \<Rightarrow> link_name list \<Rightarrow> nat" where
  "missing_libraries fsys directories libraries =
     (if directories = [] then 0 else length (filter (\<lambda>l. resolve_library_name fsys (ln_name l) directories = None) libraries))"

definition inputs_of :: "file_system \<Rightarrow> trace_record \<Rightarrow> path list" where
  "inputs_of fsys r =
     (if is_link_mode_invocation r
      then map (\<lambda>i. resolve_file_argument fsys (working_directory_of fsys r) (li_argument i)) (direct_inputs (scan_link_line r)) @
        found_libraries fsys (record_directories fsys r) (named_libraries (scan_link_line r))
      else [])"

definition missing_of :: "file_system \<Rightarrow> trace_record \<Rightarrow> nat" where
  "missing_of fsys r = (if is_link_mode_invocation r
     then missing_libraries fsys (record_directories fsys r) (named_libraries (scan_link_line r)) else 0)"

definition link_responses_of :: "trace_record \<Rightarrow> nat" where
  "link_responses_of r = (if is_link_mode_invocation r then ll_response_files (scan_link_line r) else 0)"

lemma link_libraries:
  "foldl (link_library fsys cr roots directories) (m, b) libraries =
    (m\<lparr>unresolved_library_names := unresolved_library_names m + missing_libraries fsys directories libraries\<rparr>,
     foldl (attribute_link_input cr roots) b (found_libraries fsys directories libraries))"
proof (induction libraries arbitrary: m b)
  case Nil
  then show ?case by (simp add: missing_libraries_def found_libraries_def List.map_filter_simps)
next
  case (Cons l libraries)
  show ?case
  proof (cases "directories = []")
    case True
    with Cons show ?thesis by (simp add: link_library_def missing_libraries_def found_libraries_def)
  next
    case False
    with Cons show ?thesis
      by (cases "resolve_library_name fsys (ln_name l) directories")
        (simp_all add: link_library_def missing_libraries_def found_libraries_def List.map_filter_simps)
  qed
qed

lemma link_record_eq:
  "link_record fsys cr roots (m, b) r =
    (m\<lparr>link_invocations := link_invocations m + (if is_link_mode_invocation r then 1 else 0),
       unresolved_library_names := unresolved_library_names m + missing_of fsys r,
       lm_response_files := lm_response_files m + link_responses_of r\<rparr>,
     foldl (attribute_link_input cr roots) b (inputs_of fsys r))"
  by (simp add: link_record_def link_libraries missing_of_def link_responses_of_def inputs_of_def record_directories_def
    working_directory_of_def foldl_map Let_def)

lemma link_records_eq:
  "foldl (link_record fsys cr roots) (m, b) rs =
    (m\<lparr>link_invocations := link_invocations m + length (filter is_link_mode_invocation rs),
       unresolved_library_names := unresolved_library_names m + sum_list (map (missing_of fsys) rs),
       lm_response_files := lm_response_files m + sum_list (map link_responses_of rs)\<rparr>,
     foldl (attribute_link_input cr roots) b (concat (map (inputs_of fsys) rs)))"
  by (induction rs arbitrary: m b) (simp_all add: link_record_eq)

text \<open>The files linked from under one root, and what the pass reports of it.\<close>

definition root_inputs :: "file_system \<Rightarrow> trace_record list \<Rightarrow> path \<Rightarrow> path_set \<Rightarrow> path_key \<Rightarrow> path list" where
  "root_inputs fsys records canonical_root roots k =
     filter (\<lambda>s. root_key roots (path_parent s) = Some k) (relative_to canonical_root (concat (map (inputs_of fsys) records)))"

definition with_inputs :: "component_usage \<Rightarrow> path_set \<Rightarrow> component_usage" where
  "with_inputs usage inputs =
     (let usage = usage\<lparr>linked_input_count := length inputs\<rparr> in
      case inputs of [] \<Rightarrow> usage
      | i # _ \<Rightarrow> usage\<lparr>first_linked_input := snd i, usage_signal_of := max (usage_signal_of usage) Linked\<rparr>)"

lemma record_inputs_with: "record_inputs m e = omap_put (fst e) (with_inputs (usage_at m (fst e)) (snd e)) m"
  by (simp add: record_inputs_def with_inputs_def split_beta Let_def)

lemma record_all_inputs:
  "omap_ok m \<Longrightarrow> distinct (map fst es) \<Longrightarrow>
   omap_ok (foldl record_inputs m es) \<and>
   omap_find (foldl record_inputs m es) k =
     (case map_of es k of None \<Rightarrow> omap_find m k | Some s \<Rightarrow> Some (with_inputs (usage_at m k) s))"
  unfolding record_inputs_with [abs_def] by (rule update_usages)

definition reference_link :: "path \<Rightarrow> path list \<Rightarrow> component_usage" where
  "reference_link root inputs = new_usage\<lparr>usage_root := root, usage_signal_of := (if inputs = [] then No_Signal else Linked),
     linked_input_count := card (set inputs), first_linked_input := least_path inputs\<rparr>"

lemma with_inputs_reference:
  assumes "list_all canonical_path ps" "ps \<noteq> []"
  shows "with_inputs (new_usage\<lparr>usage_root := r\<rparr>) (path_set_of ps) = reference_link r ps"
proof -
  obtain k s where first: "path_set_of ps = (k, least_path ps) # s" by (rule path_set_first [OF assms])
  have "length (path_set_of ps) = card (set ps)" by (rule path_set_of_paths(3) [OF assms(1)])
  with first assms(2) show ?thesis
    by (simp add: with_inputs_def reference_link_def new_usage_def max_def less_eq_usage_signal_def signal_rank_def)
qed

lemma link_warnings_value [simp]: "result_value (link_warnings r) = result_value r"
  by (simp add: link_warnings_def Let_def warn_def)

lemma map_links_shape: "\<exists>m. map_links_to_roots fsys records root roots = link_warnings (new_result m)"
  by (auto simp: map_links_to_roots_def Let_def split_beta)

lemma map_links_state:
  fixes fsys scan_root records roots
  assumes roots: "roots_ok roots"
  defines "cr \<equiv> canonical_directory fsys scan_root"
  defines "m \<equiv> result_value (map_links_to_roots fsys records scan_root roots)"
  shows "link_invocations m = length (filter is_link_mode_invocation records)"
    "unresolved_library_names m = sum_list (map (missing_of fsys) records)"
    "lm_response_files m = sum_list (map link_responses_of records)"
    "omap_ok (lm_usage_by_root m)"
    "omap_find (lm_usage_by_root m) k = map_option (\<lambda>r. reference_link r (root_inputs fsys records cr roots k)) (omap_find roots k)"
proof -
  define u0 where "u0 = initial_usage roots"
  define b where "b = foldl (attribute_link_input cr roots) [] (concat (map (inputs_of fsys) records))"
  note u0 = initial_usage_state [OF roots, folded u0_def]
  have m: "m = \<lparr>lm_usage_by_root = foldl record_inputs u0 b, link_invocations = length (filter is_link_mode_invocation records),
      unresolved_library_names = sum_list (map (missing_of fsys) records), lm_response_files = sum_list (map link_responses_of records)\<rparr>"
    by (simp add: m_def map_links_to_roots_def link_records_eq new_result_def Let_def u0_def b_def cr_def)
  then show "link_invocations m = length (filter is_link_mode_invocation records)"
    "unresolved_library_names m = sum_list (map (missing_of fsys) records)"
    "lm_response_files m = sum_list (map link_responses_of records)" by simp_all
  define ps where "ps = root_inputs fsys records cr roots k"
  have state: "by_root_state roots (relative_to cr (concat (map (inputs_of fsys) records))) b"
    using attribute_state [of roots "[]" "[]" cr "concat (map (inputs_of fsys) records)"] by (simp add: b_def)
  have by_root: "omap_ok b" "omap_find b k = (if ps = [] then None else Some (path_set_of ps))"
    using state unfolding by_root_state_def ps_def root_inputs_def Let_def by blast+
  have "distinct (map fst b)" using by_root(1) by (simp add: omap_ok_def strict_sorted_iff)
  note final = record_all_inputs [OF u0(1) this, of k]
  then show "omap_ok (lm_usage_by_root m)" by (simp add: m)
  have find: "omap_find (lm_usage_by_root m) k = (if ps = [] then omap_find u0 k else Some (with_inputs (usage_at u0 k) (path_set_of ps)))"
    using final by_root by (simp add: m omap_find_map_of [OF by_root(1)] split: option.splits if_splits)
  have "omap_find roots k \<noteq> None" if "ps \<noteq> []"
    using that enclosing_root_member [OF roots] by (auto simp: ps_def root_inputs_def root_key_def filter_empty_conv)
  moreover have "list_all canonical_path ps"
    using relative_to_canonical by (auto simp: ps_def root_inputs_def list_all_iff)
  ultimately show "omap_find (lm_usage_by_root m) k = map_option (\<lambda>r. reference_link r (root_inputs fsys records cr roots k)) (omap_find roots k)"
    using find u0(2) [of k] with_inputs_reference [of ps]
    by (cases "omap_find roots k"; cases "ps = []")
      (simp_all add: usage_at_def reference_link_def new_usage_def least_path_def flip: ps_def)
qed

subsection \<open>Both kinds of evidence together\<close>

lemma merge_link_state:
  assumes "omap_ok (usage_by_root m)" "omap_ok (lm_usage_by_root l)"
  shows "omap_ok (usage_by_root (merge_link_evidence m l))"
    "omap_find (usage_by_root (merge_link_evidence m l)) k =
      (case omap_find (lm_usage_by_root l) k of None \<Rightarrow> omap_find (usage_by_root m) k
       | Some lu \<Rightarrow> let u = usage_at (usage_by_root m) k in
           Some (u\<lparr>usage_root := path_of_key k, linked_input_count := linked_input_count lu,
             first_linked_input := first_linked_input lu, usage_signal_of := max (usage_signal_of u) (usage_signal_of lu)\<rparr>))"
proof -
  define f where "f = (\<lambda>k (u :: component_usage) (lu :: component_usage). u\<lparr>usage_root := path_of_key k, linked_input_count := linked_input_count lu,
             first_linked_input := first_linked_input lu, usage_signal_of := max (usage_signal_of u) (usage_signal_of lu)\<rparr>)"
  have step: "merge_link_usage m e = omap_put (fst e) (f (fst e) (usage_at m (fst e)) (snd e)) m" for m e
    by (simp add: merge_link_usage_def f_def split_beta Let_def)
  have "distinct (map fst (lm_usage_by_root l))" using assms(2) by (simp add: omap_ok_def strict_sorted_iff)
  note u = update_usages [OF assms(1) this, of f k]
  have fold: "foldl merge_link_usage m es = foldl (\<lambda>m e. omap_put (fst e) (f (fst e) (usage_at m (fst e)) (snd e)) m) m es" for m es
    by (simp add: step [abs_def])
  show "omap_ok (usage_by_root (merge_link_evidence m l))" using u by (simp add: merge_link_evidence_def fold)
  show "omap_find (usage_by_root (merge_link_evidence m l)) k =
      (case omap_find (lm_usage_by_root l) k of None \<Rightarrow> omap_find (usage_by_root m) k
       | Some lu \<Rightarrow> let u = usage_at (usage_by_root m) k in
           Some (u\<lparr>usage_root := path_of_key k, linked_input_count := linked_input_count lu,
             first_linked_input := first_linked_input lu, usage_signal_of := max (usage_signal_of u) (usage_signal_of lu)\<rparr>))"
    using u assms(2) by (auto simp: merge_link_evidence_def fold omap_find_map_of f_def Let_def split: option.split)
qed

subsection \<open>The files the build wrote\<close>

text \<open>The paths one record proves written or consumed as binaries.\<close>

definition artifact_arguments :: "trace_record \<Rightarrow> string list" where
  "artifact_arguments r =
     (if rec_tool r = ''ar'' then (case scan_archive_output r of None \<Rightarrow> [] | Some a \<Rightarrow> [a])
      else if is_link_mode_invocation r
      then (case output_path (scan_link_line r) of None \<Rightarrow> [] | Some p \<Rightarrow> [p]) @
        filter is_archive_or_shared_object (map li_argument (direct_inputs (scan_link_line r)))
      else [])"

definition artifacts_of :: "file_system \<Rightarrow> trace_record \<Rightarrow> path list" where
  "artifacts_of fsys r = map (resolve_file_argument fsys (working_directory_of fsys r)) (artifact_arguments r)"

definition outside :: "path \<Rightarrow> path list \<Rightarrow> nat" where
  "outside cr as = length (filter (\<lambda>a. to_root_relative a cr = None) as)"

lemma outside_simps [simp]: "outside cr [] = 0" "outside cr (as @ bs) = outside cr as + outside cr bs"
  "outside cr (a # as) = (if to_root_relative a cr = None then 1 else 0) + outside cr as"
  by (simp_all add: outside_def)

definition artifact_state :: "path \<Rightarrow> path list \<Rightarrow> build_artifacts \<Rightarrow> bool" where
  "artifact_state cr as a \<longleftrightarrow> out_of_tree_artifacts a = outside cr as \<and>
     (\<exists>xs ys zs. link_outputs a = path_set_of xs \<and> archive_outputs a = path_set_of ys \<and> linked_archives a = path_set_of zs \<and>
       set (xs @ ys @ zs) = set (relative_to cr as))"

lemmas artifact_steps = record_link_output_def record_archive_output_def record_linked_archive_def

lemma record_artifact_eq:
  "record_artifact fsys cr wd argument (a, s) = (let p = resolve_file_argument fsys wd argument in
    (a\<lparr>out_of_tree_artifacts := out_of_tree_artifacts a + outside cr [p]\<rparr>, foldl (\<lambda>s p. path_set_insert p s) s (relative_to cr [p])))"
  by (simp add: record_artifact_def Let_def split: option.split)

lemma path_set_of_append: "foldl (\<lambda>s p. path_set_insert p s) (path_set_of ps) qs = path_set_of (ps @ qs)"
  by (simp add: path_set_of_def)

lemma artifact_state_step:
  assumes "artifact_state cr as a" "p = resolve_file_argument fsys wd argument"
  shows "artifact_state cr (as @ [p]) (record_link_output fsys cr wd a argument)"
    "artifact_state cr (as @ [p]) (record_archive_output fsys cr wd a argument)"
    "artifact_state cr (as @ [p]) (record_linked_archive fsys cr wd a argument)"
proof -
  obtain xs ys zs where a: "link_outputs a = path_set_of xs" "archive_outputs a = path_set_of ys" "linked_archives a = path_set_of zs"
      "set (xs @ ys @ zs) = set (relative_to cr as)" and n: "out_of_tree_artifacts a = outside cr as"
    using assms(1) by (auto simp: artifact_state_def)
  let ?p = "relative_to cr [p]"
  have out: "outside cr (as @ [p]) = outside cr as + outside cr [p]" "relative_to cr (as @ [p]) = relative_to cr as @ ?p" by (simp_all only: outside_simps relative_to_simps)
  show "artifact_state cr (as @ [p]) (record_link_output fsys cr wd a argument)"
    unfolding artifact_state_def out using a n
    by (intro conjI exI [of _ "xs @ ?p"] exI [of _ ys] exI [of _ zs])
      (auto simp: artifact_steps record_artifact_eq path_set_of_append Let_def simp flip: assms(2) simp del: relative_to_simps outside_simps)
  show "artifact_state cr (as @ [p]) (record_archive_output fsys cr wd a argument)"
    unfolding artifact_state_def out using a n
    by (intro conjI exI [of _ xs] exI [of _ "ys @ ?p"] exI [of _ zs])
      (auto simp: artifact_steps record_artifact_eq path_set_of_append Let_def simp flip: assms(2) simp del: relative_to_simps outside_simps)
  show "artifact_state cr (as @ [p]) (record_linked_archive fsys cr wd a argument)"
    unfolding artifact_state_def out using a n
    by (intro conjI exI [of _ xs] exI [of _ ys] exI [of _ "zs @ ?p"])
      (auto simp: artifact_steps record_artifact_eq path_set_of_append Let_def simp flip: assms(2) simp del: relative_to_simps outside_simps)
qed

lemma artifact_state_inputs:
  "artifact_state cr as a \<Longrightarrow>
   artifact_state cr (as @ map (resolve_file_argument fsys wd) (filter is_archive_or_shared_object (map li_argument is)))
     (foldl (\<lambda>a input. if is_archive_or_shared_object (li_argument input)
        then record_linked_archive fsys cr wd a (li_argument input) else a) a is)"
proof (induction "is" arbitrary: "as" a)
  case Nil
  then show ?case by simp
next
  case (Cons i "is")
  show ?case
  proof (cases "is_archive_or_shared_object (li_argument i)")
    case True
    with Cons.IH [OF artifact_state_step(3) [OF Cons.prems refl, where fsys = fsys and wd = wd and argument = "li_argument i"]]
    show ?thesis by simp
  qed (use Cons in simp)
qed

lemma artifact_state_record:
  assumes "artifact_state cr as a"
  shows "artifact_state cr (as @ artifacts_of fsys r) (artifacts_of_record fsys cr a r)"
proof -
  note [simp] = artifacts_of_def artifact_arguments_def artifacts_of_record_def working_directory_of_def
  show ?thesis
  proof (cases "rec_tool r = ''ar''")
    case True
    then show ?thesis using assms artifact_state_step(2) [OF assms refl]
      by (cases "scan_archive_output r") simp_all
  next
    case not_ar: False
    show ?thesis
    proof (cases "is_link_mode_invocation r")
      case False
      with not_ar assms show ?thesis by simp
    next
      case True
      define a1 where "a1 = a\<lparr>ba_response_files := ba_response_files a + ll_response_files (scan_link_line r)\<rparr>"
      have a1: "artifact_state cr as a1" using assms by (simp add: artifact_state_def a1_def)
      show ?thesis
      proof (cases "output_path (scan_link_line r)")
        case None
        with True not_ar artifact_state_inputs [OF a1] show ?thesis by (simp add: Let_def flip: a1_def)
      next
        case (Some p)
        from True not_ar Some artifact_state_inputs [OF artifact_state_step(1) [OF a1 refl]]
        show ?thesis by (simp add: Let_def flip: a1_def)
      qed
    qed
  qed
qed

lemma artifact_state_records:
  "artifact_state cr as a \<Longrightarrow>
   artifact_state cr (as @ concat (map (artifacts_of fsys) rs)) (foldl (artifacts_of_record fsys cr) a rs)"
proof (induction rs arbitrary: "as" a)
  case Nil
  then show ?case by simp
next
  case (Cons r rs)
  from Cons.IH [OF artifact_state_record [OF Cons.prems, of fsys r]] show ?case by simp
qed

lemma unique_paths:
  assumes "list_all canonical_path ps"
  shows "set (unique_adj path_equal (sort_key path_key ps)) = set ps \<and>
    sorted_wrt path_less (unique_adj path_equal (sort_key path_key ps))"
proof -
  have "sorted (map path_key qs) \<Longrightarrow> list_all canonical_path qs \<Longrightarrow>
      set (unique_adj path_equal qs) = set qs \<and> sorted_wrt path_less (unique_adj path_equal qs)" for qs
  proof (induction qs rule: pairwise_list_induct)
    case (pair p q r)
    show ?case
    proof (cases "path_equal p q")
      case True
      then have "p = q" using pair.prems(2) canonical_eq by (simp add: path_equal_def)
      with pair True show ?thesis by simp
    next
      case False
      with pair.prems(1) have "path_key p < path_key q" by (auto simp: path_equal_def)
      with pair.prems(1) have "\<forall>x \<in> set (q # r). path_less p x" by (auto simp: path_less_def dest: less_le_trans)
      moreover have "set (unique_adj path_equal (q # r)) \<subseteq> set (q # r)" by (rule set_unique_adj_subset)
      ultimately show ?thesis using pair False by auto
    qed
  qed simp_all
  from this [of "sort_key path_key ps"] assms show ?thesis by (simp add: list_all_iff)
qed

text \<open>The archive an \<open>ar\<close> command writes: long options, the key letters, the operands they take, the archive.\<close>

datatype archive_option = Long_Option string | Long_Valued string string

primrec render_archive_option :: "archive_option \<Rightarrow> string list" where
  "render_archive_option (Long_Option f) = [''--'' @ f]"
| "render_archive_option (Long_Valued f v) = [f, v]"

primrec archive_option_ok :: "archive_option \<Rightarrow> bool" where
  "archive_option_ok (Long_Option f) = (''--'' @ f \<notin> set kArchiveOptionsConsumingNextArgument)"
| "archive_option_ok (Long_Valued f v) = (f \<in> set kArchiveOptionsConsumingNextArgument)"

lemma skip_archive_rendered:
  "list_all archive_option_ok options \<Longrightarrow>
    skip_archive_options (concat (map render_archive_option options) @ rest) = skip_archive_options rest"
proof (induction options)
  case (Cons p options)
  then show ?case by (cases p) (simp_all add: starts_with_def)
qed simp

definition archive_keys_ok :: "string \<Rightarrow> bool" where
  "archive_keys_ok keys \<longleftrightarrow> keys \<noteq> [] \<and> list_all (\<lambda>c. c \<in> set kArchiveKeyLetters \<and> c \<noteq> CHR ''M'') keys"

lemma operands_before_archive_ok:
  "list_all (\<lambda>c. c \<in> set kArchiveKeyLetters \<and> c \<noteq> CHR ''M'') keys \<Longrightarrow>
    operands_before_archive keys = Some (length (filter (\<lambda>c. c \<in> set kArchiveKeysTakingOperand) keys))"
  by (induction keys) simp_all

section \<open>Properties\<close>

text \<open>C23: However the linker options of a command line are spelled - bare, after \<open>-Xlinker\<close>, or packed into \<open>-Wl,\<close> - a line
  that stands for a sequence of operands, libraries, search directories, output and map names, whole-archive
  brackets and other options is read as exactly that sequence: no output name, soname or interpreter path is taken
  for a link input, and the first output and map name count.\<close>

theorem link_line_roundtrip:
  assumes "list_all spelling_ok ss" "list_all link_item_ok items"
    and "concat (map spelled_tokens ss) = concat (map render_link_item items)"
  shows "scan_link_line \<lparr>rec_tool = tool, rec_arguments = program # concat (map render_spelling ss), rec_directory = d, rec_process = p\<rparr> =
    snd (foldl apply_item (False, new_link_line) items)"
  using assms by (simp add: scan_link_line_def flatten_linker_tokens_def flatten_spellings scan_link_tokens_def scan_link_items)

theorem link_line_roundtrip_witness:
  "scan_link_line \<lparr>rec_tool = ''cc'', rec_arguments = [''cc'', ''-Wl,-soname,libz.so.1'', ''-Xlinker'', ''--whole-archive'', ''a.o''],
     rec_directory = ''/b'', rec_process = 1\<rparr> =
    new_link_line\<lparr>direct_inputs := [\<lparr>li_argument = ''a.o'', li_whole_archive = True\<rparr>]\<rparr>"
proof -
  let ?ss = "[Wl [''-soname'', ''libz.so.1''], Xlinker ''--whole-archive'', Bare ''a.o'']"
  let ?items = "[Link_Valued ''-soname'' ''libz.so.1'', Whole_Archive True, Link_Operand ''a.o'']"
  have "list_all spelling_ok ?ss" "list_all link_item_ok ?items"
    "concat (map spelled_tokens ?ss) = concat (map render_link_item ?items)" by code_simp+
  from link_line_roundtrip [OF this, where tool = "''cc''" and program = "''cc''" and d = "''/b''" and p = 1]
  have "scan_link_line \<lparr>rec_tool = ''cc'', rec_arguments = [''cc'', ''-Wl,-soname,libz.so.1'', ''-Xlinker'', ''--whole-archive'', ''a.o''],
     rec_directory = ''/b'', rec_process = 1\<rparr> = snd (foldl apply_item (False, new_link_line) ?items)" by simp
  also have "\<dots> = new_link_line\<lparr>direct_inputs := [\<lparr>li_argument = ''a.o'', li_whole_archive = True\<rparr>]\<rparr>" by code_simp
  finally show ?thesis .
qed

text \<open>The evidence \<open>trim\<close> judges by: both maps of a trace, merged.\<close>

definition observed_map :: "file_system \<Rightarrow> trace_record list \<Rightarrow> path \<Rightarrow> path_set \<Rightarrow> compile_map" where
  "observed_map fsys records scan_root roots = merge_link_evidence
     (result_value (map_compiles_to_roots fsys records scan_root roots)) (result_value (map_links_to_roots fsys records scan_root roots))"

text \<open>C20: Once compile and link evidence are merged, the usage of each component root is exactly what the trace says: the
  number of distinct sources, of include options and of distinct link inputs attributed to it, the least of each as the
  example, and the strongest signal among them. The include count is one of options, not of the compile lines that
  \<open>compile_map.hpp\<close> and the evidence text speak of: \<open>include_count_is_of_options\<close> says when they differ.\<close>

theorem observed_usage_exact:
  assumes "roots_ok roots"
  shows "omap_find (usage_by_root (observed_map fsys records scan_root roots)) k =
    (let cr = canonical_directory fsys scan_root; sources = root_sources fsys records cr roots k;
         includes = root_includes fsys records cr roots k; inputs = root_inputs fsys records cr roots k in
     map_option (\<lambda>r. (reference_usage r sources includes)\<lparr>linked_input_count := card (set inputs), first_linked_input := least_path inputs,
       usage_signal_of := (if sources \<noteq> [] then Compiled_Source else if inputs \<noteq> [] then Linked
         else if includes \<noteq> [] then Include_Path else No_Signal)\<rparr>) (omap_find roots k))"
proof -
  note c = map_compiles_state(5,6) [OF assms, of fsys records scan_root]
  note l = map_links_state(4,5) [OF assms, of fsys records scan_root]
  note merged = merge_link_state(2) [OF c(1) l(1), of k, folded observed_map_def]
  show ?thesis
  proof (cases "omap_find roots k")
    case None
    with merged c(2) [of k] l(2) [of k] show ?thesis by (simp add: Let_def)
  next
    case (Some r)
    then have "path_of_key k = r" using roots_ok_find [OF assms Some] by simp
    with Some merged c(2) [of k] l(2) [of k] show ?thesis
      by (simp add: Let_def usage_at_def reference_link_def reference_usage_def new_usage_def max_def less_eq_usage_signal_def signal_rank_def)
  qed
qed

definition sample_trace :: "trace_record list" where
  "sample_trace =
     [\<lparr>rec_tool = ''cc'', rec_arguments = [''cc'', ''-c'', ''a.c''], rec_directory = ''/r/lib'', rec_process = 1\<rparr>,
      \<lparr>rec_tool = ''cc'', rec_arguments = [''cc'', ''-o'', ''app'', ''lib/b.o''], rec_directory = ''/r'', rec_process = 2\<rparr>]"

theorem observed_usage_exact_witness:
  "omap_find (usage_by_root (observed_map (files []) sample_trace ''/r'' (path_set_insert ''lib'' []))) (path_key ''lib'') =
    Some (new_usage\<lparr>usage_root := ''lib'', usage_signal_of := Compiled_Source, compiled_source_count := 1,
      linked_input_count := 1, first_compiled_source := ''lib/a.c'', first_linked_input := ''lib/b.o''\<rparr>)"
proof -
  let ?roots = "path_set_insert ''lib'' []"
  let ?k = "path_key ''lib''"
  have ok: "roots_ok ?roots" by code_simp
  have eval: "canonical_directory (files []) ''/r'' = ''/r''" "root_sources (files []) sample_trace ''/r'' ?roots ?k = [''lib/a.c'']"
    "root_includes (files []) sample_trace ''/r'' ?roots ?k = []" "root_inputs (files []) sample_trace ''/r'' ?roots ?k = [''lib/b.o'']"
    "omap_find ?roots ?k = Some ''lib''" "least_path [''lib/a.c''] = ''lib/a.c''" "least_path [''lib/b.o''] = ''lib/b.o''"
    by code_simp+
  show ?thesis
    using observed_usage_exact [OF ok, where fsys = "files []" and records = sample_trace and scan_root = "''/r''" and k = ?k]
    by (simp add: eval reference_usage_def new_usage_def least_path_def [of "[]"] Let_def)
qed

lemma map_links_order_independent:
  assumes "roots_ok roots" "mset records = mset records'"
  shows "map_links_to_roots fsys records scan_root roots = map_links_to_roots fsys records' scan_root roots"
proof -
  obtain m where m: "map_links_to_roots fsys records scan_root roots = link_warnings (new_result m)"
    using map_links_shape by blast
  obtain m' where m': "map_links_to_roots fsys records' scan_root roots = link_warnings (new_result m')"
    using map_links_shape by blast
  define cr where "cr = canonical_directory fsys scan_root"
  note s = map_links_state [OF assms(1), of fsys records scan_root, unfolded m, folded cr_def, simplified]
  note s' = map_links_state [OF assms(1), of fsys records' scan_root, unfolded m', folded cr_def, simplified]
  have sums: "sum_list (map f records) = sum_list (map f records')" for f :: "trace_record \<Rightarrow> nat"
    using assms(2) by (metis mset_map sum_mset_sum_list)
  have rel: "set (root_inputs fsys records cr roots k) = set (root_inputs fsys records' cr roots k)" for k
    using concat_map_mset(2) [OF assms(2), of "inputs_of fsys"] by (auto simp: root_inputs_def relative_to_def List.map_filter_def simp del: set_concat)
  have "reference_link r (root_inputs fsys records cr roots k) = reference_link r (root_inputs fsys records' cr roots k)" for r k
    using rel [of k] by (auto simp: reference_link_def least_path_def)
  then have "omap_find (lm_usage_by_root m) k = omap_find (lm_usage_by_root m') k" for k unfolding s(5) s'(5) by simp
  then have "lm_usage_by_root m = lm_usage_by_root m'" using s(4) s'(4) by (intro omap.entries_cong) auto
  moreover have "link_invocations m = link_invocations m'"
    using assms(2) unfolding s(1) s'(1) by (metis mset_filter size_mset)
  ultimately have "m = m'" using s(2,3) s'(2,3) sums by (simp add: link_map.equality)
  then show ?thesis by (simp add: m m')
qed

text \<open>C21: What a trace proves does not depend on the order of its records: the compile map, the link map, the warnings of
  both, and with them the marked components and their counts are the same for every interleaving of the build.\<close>

theorem observed_order_independent:
  assumes "roots_ok roots" "mset records = mset records'"
  shows "map_compiles_to_roots fsys records scan_root roots = map_compiles_to_roots fsys records' scan_root roots \<and>
    map_links_to_roots fsys records scan_root roots = map_links_to_roots fsys records' scan_root roots \<and>
    mark_used_in_build components (observed_map fsys records scan_root roots) =
      mark_used_in_build components (observed_map fsys records' scan_root roots)"
  by (simp add: observed_map_def compile_map_order_independent [OF assms] map_links_order_independent [OF assms])

theorem observed_order_independent_witness:
  "map_links_to_roots (files []) sample_trace ''/r'' (path_set_insert ''lib'' []) =
   map_links_to_roots (files []) (rev sample_trace) ''/r'' (path_set_insert ''lib'' [])"
proof -
  have "roots_ok (path_set_insert ''lib'' [])" by code_simp
  from observed_order_independent [OF this, of sample_trace "rev sample_trace" "files []" "''/r''"] show ?thesis by simp
qed

text \<open>C24: The files handed to the binary pass are exactly the outputs, archives and consumed libraries of the trace that lie in
  the scanned tree, root-relative, each once, in ascending order; the others are counted.\<close>

theorem build_artifacts_exact:
  "(let artifacts = result_value (collect_build_artifacts fsys records scan_root); cr = canonical_directory fsys scan_root;
        written = concat (map (artifacts_of fsys) records) in
    set (all_paths artifacts) = {p. \<exists>a \<in> set written. to_root_relative a cr = Some p} \<and>
    sorted_wrt path_less (all_paths artifacts) \<and>
    out_of_tree_artifacts artifacts = length (filter (\<lambda>a. to_root_relative a cr = None) written))"
proof -
  define cr where "cr = canonical_directory fsys scan_root"
  define a where "a = result_value (collect_build_artifacts fsys records scan_root)"
  define written where "written = concat (map (artifacts_of fsys) records)"
  let ?a0 = "\<lparr>link_outputs = [], archive_outputs = [], linked_archives = [], out_of_tree_artifacts = 0, ba_response_files = 0\<rparr>"
  have "artifact_state cr [] ?a0" unfolding artifact_state_def
    by (intro conjI exI [of _ "[]"]) (simp_all add: path_set_of_def)
  from artifact_state_records [OF this, of fsys records]
  have "artifact_state cr written (foldl (artifacts_of_record fsys cr) ?a0 records)" by (simp add: written_def)
  moreover have "a = foldl (artifacts_of_record fsys cr) ?a0 records"
    by (simp add: a_def cr_def collect_build_artifacts_def Let_def new_result_def warn_def)
  ultimately obtain xs ys zs where sets: "link_outputs a = path_set_of xs" "archive_outputs a = path_set_of ys" "linked_archives a = path_set_of zs"
      "set (xs @ ys @ zs) = set (relative_to cr written)" and n: "out_of_tree_artifacts a = outside cr written"
    by (auto simp: artifact_state_def)
  have c: "list_all canonical_path (xs @ ys @ zs)" using relative_to_canonical [of cr written] sets(4) by (auto simp: list_all_iff)
  then have p: "set (path_set_paths (path_set_of xs)) = set xs" "set (path_set_paths (path_set_of ys)) = set ys"
    "set (path_set_paths (path_set_of zs)) = set zs" by (simp_all add: path_set_of_paths(1))
  then have all: "set (path_set_paths (link_outputs a) @ path_set_paths (archive_outputs a) @ path_set_paths (linked_archives a)) = set (xs @ ys @ zs)"
    by (simp add: sets(1-3))
  then have "list_all canonical_path (path_set_paths (link_outputs a) @ path_set_paths (archive_outputs a) @ path_set_paths (linked_archives a))"
    using c by (simp only: list_all_iff)
  from unique_paths [OF this] have "set (all_paths a) = set (relative_to cr written)" "sorted_wrt path_less (all_paths a)"
    unfolding all_paths_def by (simp_all only: all sets(4) simp_thms)
  moreover have "set (relative_to cr written) = {p. \<exists>a \<in> set written. to_root_relative a cr = Some p}"
    by (force simp: relative_to_def List.map_filter_def)
  ultimately show ?thesis using n by (simp add: outside_def flip: a_def cr_def written_def)
qed

text \<open>The archive an \<open>ar\<close> command writes is found behind long options with and without a value and behind the operands
  its key letters take.\<close>

theorem archive_output_found:
  assumes "list_all archive_option_ok options" "archive_keys_ok keys"
    and "length operands = length (filter (\<lambda>c. c \<in> set kArchiveKeysTakingOperand) keys)"
  shows "scan_archive_output \<lparr>rec_tool = ''ar'', rec_arguments = program # concat (map render_archive_option options) @
      (if dash then CHR ''-'' # keys else keys) # operands @ archive # members, rec_directory = d, rec_process = p\<rparr> = Some archive"
proof -
  have "CHR ''-'' \<notin> set kArchiveKeyLetters" by code_simp
  then have keys: "keys \<noteq> []" "CHR ''-'' \<notin> set keys" using assms(2) unfolding archive_keys_ok_def list_all_iff by blast+
  obtain k ks where k: "keys = k # ks" "k \<noteq> CHR ''-''" using keys by (cases keys) auto
  define argument where "argument = (if dash then CHR ''-'' # keys else keys)"
  have argument: "argument \<notin> set kArchiveOptionsConsumingNextArgument" "\<not> starts_with argument ''--''"
    "(if starts_with argument ''-'' then drop 1 argument else argument) = keys"
    using k by (cases dash; cases ks; simp add: argument_def kArchiveOptionsConsumingNextArgument_def starts_with_def)+
  have "skip_archive_options (concat (map render_archive_option options) @ argument # operands @ archive # members) =
      argument # operands @ archive # members"
    unfolding skip_archive_rendered [OF assms(1)] using argument by simp
  moreover have "operands_before_archive keys = Some (length operands)"
    using assms(2,3) operands_before_archive_ok by (simp add: archive_keys_ok_def)
  ultimately show ?thesis
    using argument(3) keys(1) by (simp add: scan_archive_output_def Let_def flip: argument_def del: if_split)
qed

theorem archive_output_found_witness:
  "scan_archive_output \<lparr>rec_tool = ''ar'', rec_arguments = [''ar'', ''--plugin'', ''lto.so'', ''-rcsa'', ''x.o'', ''lib.a'', ''y.o''],
     rec_directory = ''/b'', rec_process = 1\<rparr> = Some ''lib.a''"
proof -
  have "list_all archive_option_ok [Long_Valued ''--plugin'' ''lto.so'']" "archive_keys_ok ''rcsa''"
    "length [''x.o''] = length (filter (\<lambda>c. c \<in> set kArchiveKeysTakingOperand) ''rcsa'')" by code_simp+
  from archive_output_found [OF this, where dash = True and archive = "''lib.a''" and members = "[''y.o'']" and program = "''ar''" and d = "''/b''" and p = 1]
  show ?thesis by simp
qed

end
