(* ===== verification/Trace_Read.thy ===== *)
theory Trace_Read
  imports Trace_Line Link_Map
begin

text \<open>
  Traces of a build: the reader (\<open>observe/trace_read.hpp\<close>, \<open>observe/trace_read.cpp\<close>), the pass that drops malformed lines
  and rewrites the file in canonical order (\<open>observe/trace_check.hpp\<close>, \<open>observe/trace_check.cpp\<close>), and the application of a trace
  to the components of a scan (\<open>cli/observe_trim.hpp\<close>, \<open>cli/observe_trim.cpp\<close>).
  The JSON library is the parameter \<open>parse\<close>. Files that are written are a map from paths to contents; how the operating
  system answers a rewrite is the record \<open>rewrite_answers\<close>.
\<close>

section \<open>Reading\<close>

definition kMaxTraceLines :: nat where "kMaxTraceLines = 1000000"

definition kMaxTraceLineBytes :: nat where "kMaxTraceLineBytes = 1024 * 1024"

definition kMaxTraceRecordJsonDepth :: int where "kMaxTraceRecordJsonDepth = 4"

definition drop_trailing_carriage_return :: "string \<Rightarrow> string" where
  "drop_trailing_carriage_return line = (if line \<noteq> [] \<and> last line = CHR 0x0D then butlast line else line)"

text \<open>\<open>get<long>\<close> of an integer the library holds in 64 bits, signed or unsigned.\<close>

definition long_of :: "int \<Rightarrow> int" where
  "long_of i = signed_take_bit 63 i"

definition parse_trace_record :: "(string \<Rightarrow> json option) \<Rightarrow> string \<Rightarrow> trace_record option" where
  "parse_trace_record parse line =
     (if length line > kMaxTraceLineBytes then None
      else if exceeds_json_nesting_depth line kMaxTraceRecordJsonDepth then None
      else case parse line of
        None \<Rightarrow> None
      | Some parsed \<Rightarrow>
          if \<not> is_json_object parsed then None
          else case json_string_at parsed ''tool'' of None \<Rightarrow> None | Some tool \<Rightarrow>
            case Option.bind (json_find parsed ''argv'') json_array of None \<Rightarrow> None | Some argv \<Rightarrow>
            case json_string_at parsed ''cwd'' of None \<Rightarrow> None | Some cwd \<Rightarrow>
            case Option.bind (json_find parsed ''pid'') json_int of None \<Rightarrow> None | Some pid \<Rightarrow>
            case those (map json_string argv) of None \<Rightarrow> None | Some arguments \<Rightarrow>
              Some \<lparr>rec_tool = tool, rec_arguments = arguments, rec_directory = cwd, rec_process = long_of pid\<rparr>)"

text \<open>The lines \<open>std::getline\<close> delivers: a line break at the end starts no further line.\<close>

definition stream_lines :: "string \<Rightarrow> string list" where
  "stream_lines s = (let ls = split_on CHR 0x0A s in if last ls = [] then butlast ls else ls)"

record trace_reading =
  tr_records :: "trace_record list"
  total_lines :: nat
  malformed_lines :: nat
  exceeded_line_budget :: bool

fun read_trace_lines :: "(string \<Rightarrow> json option) \<Rightarrow> string list \<Rightarrow> trace_reading \<Rightarrow> trace_reading" where
  "read_trace_lines parse [] st = st"
| "read_trace_lines parse (raw # ls) st =
     (let line = drop_trailing_carriage_return raw in
      if line = [] then read_trace_lines parse ls st
      else let st = st\<lparr>total_lines := total_lines st + 1\<rparr> in
        if length (tr_records st) \<ge> kMaxTraceLines then st\<lparr>exceeded_line_budget := True\<rparr>
        else case parse_trace_record parse line of
          None \<Rightarrow> read_trace_lines parse ls (st\<lparr>malformed_lines := malformed_lines st + 1\<rparr>)
        | Some r \<Rightarrow> read_trace_lines parse ls (st\<lparr>tr_records := tr_records st @ [r]\<rparr>))"

definition read_trace :: "(string \<Rightarrow> json option) \<Rightarrow> disk_file \<Rightarrow> path \<Rightarrow> trace_record list result" where
  "read_trace parse file trace_path =
     (if \<not> opens file
      then warn kObserveTraceNotWritten (''no trace file to read at '' @ trace_path @
        ''; nothing was observed, so no component can be shown to be used'') [] [] (new_result [])
      else
        let st = read_trace_lines parse (stream_lines (content file))
              \<lparr>tr_records = [], total_lines = 0, malformed_lines = 0, exceeded_line_budget = False\<rparr>;
            outcome = new_result (tr_records st);
            outcome = (if malformed_lines st > 0
              then warn kObserveTraceMalformedLines (string_of_nat (malformed_lines st) @ '' of '' @ string_of_nat (total_lines st) @
                '' trace lines were unreadable and have been dropped; the recorded build is incomplete, so a component may be reported unused that was in fact compiled'') [] [] outcome
              else outcome)
        in if exceeded_line_budget st
           then warn kObserveTraceExceedsLimit (''trace exceeds '' @ string_of_nat kMaxTraceLines @
             '' lines; the rest was not read, so a component may be reported unused that was in fact compiled'') [] [] outcome
           else outcome)"

section \<open>Checking and sorting\<close>

text \<open>Files by path, and the answers to a rewrite: whether the temporary file opens; the number of bytes on the disk when the
  stream reports an error before its state is tested; the number of bytes on the disk when the rest is lost as the stream is
  closed, which the source does not look at; whether the rename and the removal succeed.\<close>

type_synonym store = "path \<Rightarrow> string option"

record rewrite_answers =
  temporary_opens :: bool
  write_error :: "nat option"
  close_error :: "nat option"
  rename_succeeds :: bool
  remove_succeeds :: bool

definition temporary_path :: "path \<Rightarrow> path" where
  "temporary_path trace_path = trace_path @ ''.sorted''"

definition file_of_lines :: "string list \<Rightarrow> string" where
  "file_of_lines ls = concat (map (\<lambda>line. line @ [CHR 0x0A]) ls)"

definition rewrite_trace :: "rewrite_answers \<Rightarrow> path \<Rightarrow> string list \<Rightarrow> store \<Rightarrow> bool \<times> store" where
  "rewrite_trace answers trace_path ls st =
     (if \<not> temporary_opens answers then (False, st)
      else case write_error answers of
        Some n \<Rightarrow> (False, st(temporary_path trace_path \<mapsto> take n (file_of_lines ls)))
      | None \<Rightarrow>
          let written = (case close_error answers of Some n \<Rightarrow> take n (file_of_lines ls) | None \<Rightarrow> file_of_lines ls)
          in if rename_succeeds answers then (True, st(temporary_path trace_path := None, trace_path \<mapsto> written))
             else (False, st(temporary_path trace_path := (if remove_succeeds answers then None else Some written))))"






section \<open>Applying a trace\<close>

definition kDefaultObserveTracePath :: path where "kDefaultObserveTracePath = ''.bomwerk/trace.jsonl''"

text \<open>What the process is asked: the variable \<open>BOMWERK_TRACE\<close>, which paths are regular files, and the current directory.\<close>

record trace_environment =
  trace_variable :: "string option"
  is_trace_file_candidate :: "path \<Rightarrow> bool"
  current_path :: "path option"

definition resolve_scan_trace_path :: "trace_environment \<Rightarrow> path \<Rightarrow> path \<Rightarrow> path option result" where
  "resolve_scan_trace_path env scan_root explicit_trace_path =
     (if explicit_trace_path \<noteq> [] then new_result (Some explicit_trace_path)
      else case trace_variable env of
        Some (c # cs) \<Rightarrow>
          if is_trace_file_candidate env (c # cs) then new_result (Some (c # cs))
          else warn kObserveTraceNotWritten (kTraceEnvVarName @ '' points to an unreadable trace file: '' @ c # cs @
            ''; build usage was not applied'') [] [] (new_result None)
      | _ \<Rightarrow>
          let root_candidate = path_append scan_root kDefaultObserveTracePath in
          if is_trace_file_candidate env root_candidate then new_result (Some root_candidate)
          else case current_path env of
            None \<Rightarrow> new_result None
          | Some current_directory \<Rightarrow>
              let candidate = path_append current_directory kDefaultObserveTracePath in
              if \<not> path_equal (lexically_normal candidate) (lexically_normal root_candidate) \<and> is_trace_file_candidate env candidate
              then new_result (Some candidate) else new_result None)"





section \<open>Lemmas\<close>

subsection \<open>Lines of a file\<close>

lemma split_file_of_lines:
  "list_all (\<lambda>l. CHR 0x0A \<notin> set l) ls \<Longrightarrow> split_on CHR 0x0A (file_of_lines ls) = ls @ [[]]"
  by (induction ls) (simp_all add: file_of_lines_def split_on_append_sep)

lemma stream_lines_file: "list_all (\<lambda>l. CHR 0x0A \<notin> set l) ls \<Longrightarrow> stream_lines (file_of_lines ls) = ls"
  by (simp add: stream_lines_def split_file_of_lines)


text \<open>The lines of a trace that are looked at, and those that are records.\<close>

definition trace_lines :: "string list \<Rightarrow> string list" where
  "trace_lines raw = filter (\<lambda>l. l \<noteq> []) (map drop_trailing_carriage_return raw)"

definition record_lines :: "(string \<Rightarrow> json option) \<Rightarrow> string list \<Rightarrow> string list" where
  "record_lines parse raw = filter (\<lambda>l. parse_trace_record parse l \<noteq> None) (trace_lines raw)"

definition records_in :: "(string \<Rightarrow> json option) \<Rightarrow> string list \<Rightarrow> trace_record list" where
  "records_in parse raw = map (\<lambda>l. the (parse_trace_record parse l)) (record_lines parse raw)"

lemmas trace_line_defs = trace_lines_def record_lines_def records_in_def

lemma read_trace_lines_records:
  "length (tr_records st) + length (records_in parse raw) \<le> kMaxTraceLines \<Longrightarrow>
   tr_records (read_trace_lines parse raw st) = tr_records st @ records_in parse raw"
proof (induction parse raw st rule: read_trace_lines.induct)
  case (2 parse l ls st)
  let ?line = "drop_trailing_carriage_return l"
  consider "?line = []" | "?line \<noteq> []" "parse_trace_record parse ?line = None"
    | r where "?line \<noteq> []" "parse_trace_record parse ?line = Some r" by fastforce
  then show ?case
  proof cases
    case 1
    with 2 show ?thesis by (simp add: trace_line_defs)
  next
    case 2: 2
    show ?thesis
    proof (cases "length (tr_records st) \<ge> kMaxTraceLines")
      case True
      with "2.prems" have "length (records_in parse (l # ls)) = 0" by linarith
      then have "records_in parse (l # ls) = []" by (simp only: length_0_conv)
      with 2 True show ?thesis by (simp add: Let_def)
    next
      case False
      with 2 "2.IH"(2) [OF refl 2(1) refl _ 2(2)] "2.prems" show ?thesis by (simp add: trace_line_defs Let_def)
    qed
  next
    case (3 r)
    with "2.prems" have few: "\<not> length (tr_records st) \<ge> kMaxTraceLines" by (simp add: trace_line_defs)
    with 3 "2.IH"(3) [OF refl 3(1) refl _ 3(2)] "2.prems" show ?thesis by (simp add: trace_line_defs Let_def)
  qed
qed (simp add: trace_line_defs)

lemma read_trace_lines_clean:
  "list_all (\<lambda>l. parse_trace_record parse l \<noteq> None) (trace_lines raw) \<Longrightarrow>
   length (tr_records st) + length (trace_lines raw) \<le> kMaxTraceLines \<Longrightarrow>
   malformed_lines (read_trace_lines parse raw st) = malformed_lines st \<and>
   exceeded_line_budget (read_trace_lines parse raw st) = exceeded_line_budget st"
proof (induction parse raw st rule: read_trace_lines.induct)
  case (2 parse l ls st)
  let ?line = "drop_trailing_carriage_return l"
  show ?case
  proof (cases "?line = []")
    case True
    with 2 show ?thesis by (simp add: trace_lines_def)
  next
    case False
    with "2.prems" obtain r where r: "parse_trace_record parse ?line = Some r" by (auto simp: trace_lines_def)
    from False "2.prems"(2) have few: "\<not> length (tr_records st) \<ge> kMaxTraceLines" by (simp add: trace_lines_def)
    with False r "2.IH"(3) [OF refl False refl _ r] "2.prems" show ?thesis by (simp add: trace_lines_def Let_def)
  qed
qed simp


lemma read_trace_clean:
  assumes "opens file" "list_all (\<lambda>l. parse_trace_record parse l \<noteq> None) (trace_lines (stream_lines (content file)))"
    "length (trace_lines (stream_lines (content file))) \<le> kMaxTraceLines"
  shows "read_trace parse file trace_path = new_result (records_in parse (stream_lines (content file)))"
proof -
  let ?st = "\<lparr>tr_records = [], total_lines = 0, malformed_lines = 0, exceeded_line_budget = False\<rparr>"
  let ?raw = "stream_lines (content file)"
  have "length (records_in parse ?raw) \<le> length (trace_lines ?raw)" by (simp add: records_in_def record_lines_def)
  with assms(3) have "length (records_in parse ?raw) \<le> kMaxTraceLines" by simp
  with read_trace_lines_records [of ?st parse ?raw] read_trace_lines_clean [of parse ?raw ?st] assms show ?thesis
    by (simp add: read_trace_def Let_def)
qed

subsection \<open>A trace that was written by the shims\<close>

text \<open>What the sources rely on of the JSON library: it reads the objects the reference reader reads, white space at the end of
  a document means nothing, and an empty document is discarded.\<close>

definition json_library :: "(string \<Rightarrow> json option) \<Rightarrow> bool" where
  "json_library parse \<longleftrightarrow>
     (\<forall>s v. read_json s = Some v \<and> last s \<noteq> CHR 0x0D \<longrightarrow> parse s = Some v) \<and>
     (\<forall>s. parse (s @ [CHR 0x0D]) = parse s) \<and> parse [] = None"

definition reference_parse :: "string \<Rightarrow> json option" where
  "reference_parse s = read_json (rev (dropWhile (\<lambda>c. c = CHR 0x0D) (rev s)))"

lemma reference_parse_library: "json_library reference_parse"
proof -
  have "rev (dropWhile (\<lambda>c. c = CHR 0x0D) (rev s)) = s" if "last s \<noteq> CHR 0x0D" for s
    using that by (cases s rule: rev_cases) simp_all
  then show ?thesis by (simp add: json_library_def reference_parse_def read_json_def)
qed

definition line_of :: "trace_record \<Rightarrow> string" where
  "line_of r = build_trace_line (rec_tool r) (rec_arguments r) (rec_directory r) (rec_process r)"

text \<open>A record a shim can write: a process id is a \<open>long\<close>, and the line stays within the reader's limit.\<close>

definition writable :: "trace_record \<Rightarrow> bool" where
  "writable r \<longleftrightarrow> - (2 ^ 63) \<le> rec_process r \<and> rec_process r < 2 ^ 63 \<and> length (line_of r) \<le> Suc kMaxTraceLineBytes"

text \<open>What arrives: a byte string that is not UTF-8 is made so.\<close>

definition received :: "trace_record \<Rightarrow> trace_record" where
  "received r = \<lparr>rec_tool = as_unicode (rec_tool r), rec_arguments = map as_unicode (rec_arguments r),
     rec_directory = as_unicode (rec_directory r), rec_process = rec_process r\<rparr>"

definition utf8_record :: "trace_record \<Rightarrow> bool" where
  "utf8_record r \<longleftrightarrow> is_utf8 (rec_tool r) \<and> list_all is_utf8 (rec_arguments r) \<and> is_utf8 (rec_directory r)"

lemma received_utf8: "utf8_record r \<Longrightarrow> received r = r"
  by (cases r) (auto simp: utf8_record_def received_def as_unicode_id list_all_iff intro: map_idI)

abbreviation text_of :: "trace_record \<Rightarrow> string" where
  "text_of r \<equiv> trace_text (rec_tool r) (rec_arguments r) (rec_directory r) (rec_process r)"

lemma line_of_eq: "line_of r = text_of r @ [CHR 0x0A]"
  by (simp add: line_of_def build_trace_line_eq)

lemma text_of_facts: "text_of r \<noteq> []" "last (text_of r) = CHR ''}''"
  by (simp_all add: trace_text_def)

lemma those_strings: "those (map (json_string \<circ> (Json_String \<circ> f)) xs) = Some (map f xs)"
  by (induction xs) simp_all

lemma parse_text_of:
  assumes "json_library parse" "writable r"
  shows "parse_trace_record parse (text_of r) = Some (received r)"
proof -
  have "read_json (text_of r) = Some (trace_object (rec_tool r) (rec_arguments r) (rec_directory r) (rec_process r))"
    using assms(2) by (intro read_trace_text) (simp_all add: writable_def)
  moreover have "last (text_of r) \<noteq> CHR 0x0D" by (simp add: text_of_facts)
  ultimately have "parse (text_of r) = Some (trace_object (rec_tool r) (rec_arguments r) (rec_directory r) (rec_process r))"
    using assms(1) unfolding json_library_def by blast
  moreover have "length (text_of r) \<le> kMaxTraceLineBytes" using assms(2) by (simp add: writable_def line_of_eq)
  moreover have "long_of (rec_process r) = rec_process r"
    using assms(2) unfolding long_of_def writable_def by (intro signed_take_bit_int_eq_self) simp_all
  ultimately show ?thesis
    by (simp add: parse_trace_record_def kMaxTraceRecordJsonDepth_def trace_text_depth trace_object_def json_string_at_def
        those_strings received_def)
qed

lemma drop_return_text: "drop_trailing_carriage_return (text_of r) = text_of r"
  by (simp add: drop_trailing_carriage_return_def text_of_facts)

lemma trace_lines_of_texts: "trace_lines (map (\<lambda>r. text_of r) rs) = map (\<lambda>r. text_of r) rs"
  by (induction rs) (simp_all add: trace_lines_def drop_return_text text_of_facts)

text \<open>C34: What the shims record is what the reader of the trace gets, record by record and in order, with no warning, for every
  build whose lines stay within the limits: the lines are separate whatever bytes the arguments hold, and an argument is
  changed only where it is not valid UTF-8.\<close>

theorem recorded_build_read_back:
  assumes "json_library parse" "list_all writable records" "length records \<le> kMaxTraceLines"
  shows "read_trace parse (text_file (concat (map line_of records))) trace_path = new_result (map received records) \<and>
    filter utf8_record records = map received (filter utf8_record records)"
proof -
  let ?ls = "map (\<lambda>r. text_of r) records"
  have "line_of = (\<lambda>r. text_of r @ [CHR 0x0A])" by (rule ext) (rule line_of_eq)
  then have contents: "concat (map line_of records) = file_of_lines ?ls" by (simp add: file_of_lines_def comp_def)
  have lines: "stream_lines (file_of_lines ?ls) = ?ls"
    using trace_text_no_break by (intro stream_lines_file) (force simp: list_all_iff)
  have parsed: "parse_trace_record parse (text_of r) = Some (received r)" if "r \<in> set records" for r
    using that assms by (intro parse_text_of) (auto simp: list_all_iff)
  then have "records_in parse ?ls = map received records"
    by (simp add: records_in_def record_lines_def trace_lines_of_texts filter_map comp_def cong: filter_cong)
  with read_trace_clean [of "text_file (file_of_lines ?ls)" parse trace_path] parsed assms(3)
  have "read_trace parse (text_file (file_of_lines ?ls)) trace_path = new_result (map received records)"
    by (simp add: text_file_def lines trace_lines_of_texts list_all_iff)
  moreover have "filter utf8_record records = map received (filter utf8_record records)"
    by (rule map_idI [symmetric]) (simp add: received_utf8)
  ultimately show ?thesis by (simp add: contents)
qed

definition sample_records :: "trace_record list" where
  "sample_records = [\<lparr>rec_tool = ''cc'', rec_arguments = [''cc'', ''-c'', [CHR 0x22, CHR 0x0A, CHR 0xC3, CHR 0xA9]], rec_directory = ''/r'',
     rec_process = 7\<rparr>, \<lparr>rec_tool = ''ld'', rec_arguments = [[CHR 0xFF]], rec_directory = ''/'', rec_process = - 1\<rparr>]"

theorem recorded_build_read_back_witness:
  "read_trace reference_parse (text_file (concat (map line_of sample_records))) ''t'' =
     new_result [sample_records ! 0, (sample_records ! 1)\<lparr>rec_arguments := [kReplacementCharacter]\<rparr>]"
proof -
  have "list_all (\<lambda>r. length (line_of r) \<le> 100) sample_records" by code_simp
  then have "list_all writable sample_records" by (simp add: sample_records_def writable_def kMaxTraceLineBytes_def)
  moreover have "map received sample_records =
      [sample_records ! 0, (sample_records ! 1)\<lparr>rec_arguments := [kReplacementCharacter]\<rparr>]" by code_simp
  moreover have "length sample_records \<le> kMaxTraceLines" by (simp add: sample_records_def kMaxTraceLines_def)
  ultimately show ?thesis using recorded_build_read_back [OF reference_parse_library, of sample_records "''t''"] by simp
qed

subsection \<open>Sorting a trace\<close>











lemma temporary_path_other [simp]: "temporary_path p \<noteq> p" "p \<noteq> temporary_path p"
  by (simp_all add: temporary_path_def)





definition all_answers_ok :: rewrite_answers where
  "all_answers_ok = \<lparr>temporary_opens = True, write_error = None, close_error = None, rename_succeeds = True, remove_succeeds = True\<rparr>"

definition sample_store :: store where
  "sample_store = [''t'' \<mapsto> concat (map line_of (rev sample_records)) @ ''torn'']"




text \<open>The rewrite is reported as done when bytes are lost as the stream is closed: the state of the stream is tested before.\<close>

lemma lost_bytes_unnoticed:
  "rewrite_trace (all_answers_ok\<lparr>close_error := Some 0\<rparr>) ''t'' ls sample_store =
     (True, sample_store(temporary_path ''t'' := None, ''t'' \<mapsto> []))"
  by (simp add: rewrite_trace_def all_answers_ok_def)

end
