(* ===== verification/Lockfiles.thy ===== *)
theory Lockfiles
  imports File_Index Submodules
begin

text \<open>
  What the lockfile producers of \<open>parsers/lockfiles/\<close> share. Each has its own copy of the same two pieces: the end of a
  parsed entry (the package budget, the validation of the package URL), and the loop over the index that opens the files of
  one name within a file limit, a size limit and the budget. The pieces are written once here and applied by \<open>Go_Sum\<close>,
  \<open>Gemfile_Lock\<close> and \<open>Npm_Lock\<close> to the constants of each producer. The locale \<open>lockfile_parser\<close> states what the loop relies on of
  the function that parses one file, and proves the bounds and the origin of every component.
  The parser of a file returns \<^const>\<open>None\<close> when an exception leaves it.
\<close>

section \<open>State\<close>

record lock_options =
  lo_max_file_bytes :: nat
  lo_max_scanned_files :: nat
  lo_max_total_packages :: nat

text \<open>\<open>components\<close>, \<open>package_budget\<close> and \<open>result\<close>, which every function of a producer mutates.\<close>

record lock_run =
  lk_components :: "component list"
  lk_budget :: nat
  lk_result :: "component list result"

definition warn_run :: "warning_code \<Rightarrow> string \<Rightarrow> string \<Rightarrow> lock_run \<Rightarrow> lock_run" where
  "warn_run c m producer run = run\<lparr>lk_result := warn c m producer [] (lk_result run)\<rparr>"

section \<open>The end of an entry\<close>

definition finish_component :: "string \<Rightarrow> component \<Rightarrow> lock_run \<Rightarrow> lock_run" where
  "finish_component producer c run =
     (let parsed_purl = purl_parse (comp_purl c) in
      if \<not> complete parsed_purl
      then (warn_run kPurlValidationFailed (producer @ '': produced purl failed validation: '' @ comp_purl c) producer run)
        \<lparr>lk_components := lk_components run @ [c]\<rparr>
      else run\<lparr>lk_components := lk_components run @ [c\<lparr>comp_purl := result_value parsed_purl\<rparr>]\<rparr>)"

text \<open>The test of the budget and what follows it; \<^const>\<open>False\<close> ends the loop over the entries.\<close>

definition emit_component :: "string \<Rightarrow> nat \<Rightarrow> component \<Rightarrow> lock_run \<Rightarrow> bool \<times> lock_run" where
  "emit_component producer package_limit c run =
     (if lk_budget run = 0
      then let run = warn_run kEntryLimitReached (producer @ '': package limit '' @ string_of_nat package_limit @
             '' reached; remaining entries skipped'') producer run
           in (False, run\<lparr>lk_result := (lk_result run)\<lparr>complete := False\<rparr>\<rparr>)
      else (True, finish_component producer c (run\<lparr>lk_budget := lk_budget run - 1\<rparr>)))"

section \<open>The loop over the files\<close>

type_synonym file_parser = "string \<Rightarrow> string \<Rightarrow> nat \<Rightarrow> lock_run \<Rightarrow> lock_run option"

record lock_driver =
  ld_ecosystem :: string
  ld_file_name :: string
  ld_parses_prefix :: bool
  ld_parse_file :: file_parser

text \<open>One file: a line-based format parses the whole lines of a truncated file, a JSON format skips it.\<close>

definition parse_lock_file :: "lock_driver \<Rightarrow> file_system \<Rightarrow> path \<Rightarrow> lock_options \<Rightarrow> path \<Rightarrow> lock_run \<Rightarrow> lock_run option" where
  "parse_lock_file driver fsys root options relative_path run =
     (let producer = ld_ecosystem driver; label = relative_path;
          file_read = read_file_bounded (fs_file fsys (path_append root relative_path)) (lo_max_file_bytes options)
      in if \<not> readable file_read then Some (warn_run kUnreadableFile (producer @ '': unreadable file: '' @ label) producer run)
         else if truncated file_read \<and> \<not> ld_parses_prefix driver
         then Some (warn_run kFileSizeLimitExceeded (producer @ '': file exceeds size limit, skipped: '' @ label) producer run)
         else if truncated file_read
         then ld_parse_file driver (last_newline_prefix (bytes file_read)) label (lo_max_total_packages options)
           (warn_run kFileSizeLimitExceeded (producer @ '': file exceeds size limit, parsing first part only: '' @ label) producer run)
         else ld_parse_file driver (bytes file_read) label (lo_max_total_packages options) run)"

fun scan_lock_files :: "lock_driver \<Rightarrow> file_system \<Rightarrow> path \<Rightarrow> lock_options \<Rightarrow> path list \<Rightarrow> nat \<Rightarrow> lock_run \<Rightarrow> lock_run option" where
  "scan_lock_files driver fsys root options [] scanned_file_count run = Some run"
| "scan_lock_files driver fsys root options (relative_path # rest) scanned_file_count run =
     (if path_filename relative_path \<noteq> ld_file_name driver
      then scan_lock_files driver fsys root options rest scanned_file_count run
      else if scanned_file_count \<ge> lo_max_scanned_files options
      then Some (warn_run kFileLimitReached (ld_ecosystem driver @ '': file limit reached; remaining '' @ ld_file_name driver @
        '' files skipped'') (ld_ecosystem driver) run)
      else if lk_budget run = 0 \<and> \<not> complete (lk_result run) then Some run
      else case parse_lock_file driver fsys root options relative_path run of
        None \<Rightarrow> None
      | Some run \<Rightarrow> scan_lock_files driver fsys root options rest (scanned_file_count + 1) run)"

definition start_run :: "lock_options \<Rightarrow> lock_run" where
  "start_run options = \<lparr>lk_components = [], lk_budget = lo_max_total_packages options, lk_result = new_result []\<rparr>"

definition parse_lock_index :: "lock_driver \<Rightarrow> file_system \<Rightarrow> file_index \<Rightarrow> path \<Rightarrow> lock_options \<Rightarrow> component list result option" where
  "parse_lock_index driver fsys index root options =
     map_option (\<lambda>run. (lk_result run)\<lparr>result_value := merge_all (lk_components run)\<rparr>)
       (scan_lock_files driver fsys root options index 0 (start_run options))"

text \<open>The overload that builds its own index: the warnings of the walk follow those of the producer.\<close>

definition parse_lock_tree :: "lock_driver \<Rightarrow> file_system \<Rightarrow> path \<Rightarrow> node \<Rightarrow> scan_rules \<Rightarrow> lock_options \<Rightarrow> component list result option" where
  "parse_lock_tree driver fsys root root_node rules options =
     (let index = build_file_index root root_node rules in
      map_option (\<lambda>r. let r = r\<lparr>result_warnings := result_warnings r @ result_warnings index\<rparr>
          in if \<not> complete index then r\<lparr>complete := False\<rparr> else r)
        (parse_lock_index driver fsys (result_value index) root options))"

section \<open>What a parser of one file does\<close>

lemma starts_with_self [simp]: "starts_with s s"
  by (simp add: starts_with_def)

text \<open>The lines of a text that is written line by line.\<close>

definition text_lines :: "string list \<Rightarrow> string" where
  "text_lines ls = concat (map (\<lambda>l. l @ [CHR 0x0A]) ls)"

lemma split_text_lines:
  "list_all (\<lambda>l. CHR 0x0A \<notin> set l) ls \<Longrightarrow> split_on CHR 0x0A (text_lines ls) = ls @ [[]]"
  by (induction ls) (simp_all add: text_lines_def split_on_append_sep)

text \<open>A component of a file: High evidence that names the file, and a valid canonical package URL.\<close>

definition valid_purl :: "string \<Rightarrow> bool" where
  "valid_purl p \<longleftrightarrow> complete (purl_parse p) \<and> result_value (purl_parse p) = p"

definition produced :: "string \<Rightarrow> component \<Rightarrow> bool" where
  "produced label c \<longleftrightarrow> valid_purl (comp_purl c) \<and> used_in_build c \<and>
     list_all (\<lambda>e. ev_source e = Manifest \<and> ev_confidence e = High \<and> starts_with (ev_detail e) label) (comp_evidence c) \<and>
     length (comp_evidence c) = 1"

text \<open>A step from one state to another: components and warnings are only added, the budget pays for every component, and a
  complete result is given up only when the budget is used up.\<close>

definition lock_step :: "(component \<Rightarrow> bool) \<Rightarrow> lock_run \<Rightarrow> lock_run \<Rightarrow> bool" where
  "lock_step P run run' \<longleftrightarrow>
     (\<exists>cs. lk_components run' = lk_components run @ cs \<and> lk_budget run = lk_budget run' + length cs \<and> list_all P cs) \<and>
     (\<exists>ws. result_warnings (lk_result run') = result_warnings (lk_result run) @ ws) \<and>
     (complete (lk_result run') \<longrightarrow> complete (lk_result run)) \<and>
     (\<not> complete (lk_result run') \<longrightarrow> \<not> complete (lk_result run) \<or> lk_budget run' = 0)"

lemma lock_step_refl [simp]: "lock_step P run run"
  by (simp add: lock_step_def)

lemma lock_step_trans: "lock_step P a b \<Longrightarrow> lock_step P b c \<Longrightarrow> lock_step P a c"
  unfolding lock_step_def by (elim conjE exE, intro conjI) (force, force, blast, force)

lemma lock_step_mono: "lock_step P a b \<Longrightarrow> (\<And>c. P c \<Longrightarrow> Q c) \<Longrightarrow> lock_step Q a b"
  unfolding lock_step_def by (metis list.pred_mono_strong)

lemma lock_step_warn [simp]: "lock_step P run (warn_run k m producer run)"
  by (simp add: lock_step_def warn_run_def warn_def)

lemma warn_run_fields [simp]:
  "lk_components (warn_run k m producer run) = lk_components run" "lk_budget (warn_run k m producer run) = lk_budget run"
  "complete (lk_result (warn_run k m producer run)) = complete (lk_result run)"
  "result_value (lk_result (warn_run k m producer run)) = result_value (lk_result run)"
  by (simp_all add: warn_run_def warn_def)

lemma finish_valid:
  "valid_purl (comp_purl c) \<Longrightarrow> finish_component producer c run = run\<lparr>lk_components := lk_components run @ [c]\<rparr>"
  by (simp add: finish_component_def valid_purl_def)

lemma lock_step_emit:
  assumes "produced label c"
  shows "lock_step (produced label) run (snd (emit_component producer limit c run))"
proof (cases "lk_budget run = 0")
  case True
  then show ?thesis by (simp add: emit_component_def Let_def lock_step_def warn_run_def warn_def)
next
  case False
  with assms show ?thesis
    by (simp add: emit_component_def finish_valid lock_step_def produced_def)
qed

text \<open>A package URL in the form the producers build it is valid and canonical.\<close>

lemma purl_encoded_no_blank [simp]: "no_whitespace (percent_encode s)" "no_whitespace (percent_encode_purl_namespace s)"
proof -
  have n: "is_ascii_whitespace c \<Longrightarrow> \<not> (is_unreserved c \<or> c = CHR ''%'' \<or> c = CHR ''/'')" for c
    by (auto simp: is_ascii_whitespace_def is_unreserved_def)
  show "no_whitespace (percent_encode s)" "no_whitespace (percent_encode_purl_namespace s)"
    unfolding list_all_iff using n percent_encode_alphabet percent_encode_purl_namespace_alphabet by blast+
qed

lemma purl_marks [simp]: "\<not> is_ascii_whitespace CHR ''@''" "\<not> is_ascii_whitespace CHR ''%''" "\<not> is_ascii_whitespace CHR ''?''"
  by (simp_all add: is_ascii_whitespace_def)

lemma valid_purl_shape:
  assumes "no_whitespace ty" "no_whitespace rest" "to_lower_ascii ty = ty" "ty \<noteq> []" "CHR ''/'' \<notin> set ty" "rest \<noteq> []"
  shows "valid_purl (''pkg:'' @ ty @ ''/'' @ rest)"
  using purl_parse_shape [of "''pkg''" ty rest] assms by (simp add: valid_purl_def to_lower_ascii_char_eq)

text \<open>A component of one of these files.\<close>

definition from_files :: "string \<Rightarrow> path list \<Rightarrow> component \<Rightarrow> bool" where
  "from_files file_name ps c \<longleftrightarrow> list_ex (\<lambda>p. path_filename p = file_name \<and> produced p c) ps"

text \<open>What a result of a lock file producer comes from: at most as many entries as the package limit, each with a valid package
  URL and High evidence naming a lock file of the index, merged by identity; and it is incomplete only when the limit is
  used up.\<close>

definition limits_respected :: "string \<Rightarrow> path list \<Rightarrow> lock_options \<Rightarrow> component list result \<Rightarrow> bool" where
  "limits_respected file_name index options r \<longleftrightarrow>
     (\<exists>cs. result_value r = merge_all cs \<and> length cs \<le> lo_max_total_packages options \<and>
        list_all (from_files file_name index) cs \<and> (complete r \<or> length cs = lo_max_total_packages options))"

text \<open>The run in which some components were reported, at the cost of the budget.\<close>

abbreviation reported :: "component list \<Rightarrow> lock_run \<Rightarrow> lock_run" where
  "reported cs run \<equiv> run\<lparr>lk_components := lk_components run @ cs, lk_budget := lk_budget run - length cs\<rparr>"

text \<open>A producer whose parser never raises returns.\<close>

lemma scan_returns:
  assumes "\<And>bs label limit run. ld_parse_file driver bs label limit run \<noteq> None"
  shows "scan_lock_files driver fsys root options ps n run \<noteq> None"
proof (induction ps arbitrary: n run)
  case (Cons p ps)
  have "parse_lock_file driver fsys root options p run \<noteq> None" using assms by (simp add: parse_lock_file_def Let_def)
  with Cons show ?case by (auto split: option.split)
qed simp

lemma parse_lock_index_returns:
  "(\<And>bs label limit run. ld_parse_file driver bs label limit run \<noteq> None) \<Longrightarrow> \<exists>r. parse_lock_index driver fsys index root options = Some r"
  using scan_returns [of driver fsys root options index 0 "start_run options"] by (auto simp: parse_lock_index_def)

section \<open>The interface\<close>

text \<open>What the loop over the files relies on, and what follows for every index, file system and limit.\<close>

locale lockfile_parser =
  fixes driver :: lock_driver
  assumes parse_step: "ld_parse_file driver bs label limit run = Some run' \<Longrightarrow> lock_step (produced label) run run'"
begin

lemma file_step: "parse_lock_file driver fsys root options p run = Some run' \<Longrightarrow> lock_step (produced p) run run'"
  by (auto simp: parse_lock_file_def Let_def split: if_splits dest: parse_step intro: lock_step_trans [OF lock_step_warn])

lemma scan_step:
  "scan_lock_files driver fsys root options ps n run = Some run' \<Longrightarrow> lock_step (from_files (ld_file_name driver) ps) run run'"
proof (induction ps arbitrary: n run)
  case (Cons p ps)
  have later: "lock_step (from_files (ld_file_name driver) (p # ps)) a b" if "lock_step (from_files (ld_file_name driver) ps) a b" for a b
    by (rule lock_step_mono [OF that]) (simp add: from_files_def)
  show ?case
  proof (cases "path_filename p = ld_file_name driver")
    case True
    then have now: "lock_step (from_files (ld_file_name driver) (p # ps)) a b" if "lock_step (produced p) a b" for a b
      by (intro lock_step_mono [OF that]) (simp add: from_files_def)
    from True Cons.prems show ?thesis
      by (auto split: if_splits option.splits intro: lock_step_trans [OF now [OF file_step] later [OF Cons.IH]])
  next
    case False
    with Cons.prems later Cons.IH show ?thesis by simp
  qed
qed simp

text \<open>The components of a run before they are merged: within the budget, each from a file of the index.\<close>

lemma index_limits:
  assumes "parse_lock_index driver fsys index root options = Some r"
  shows "limits_respected (ld_file_name driver) index options r"
proof -
  from assms obtain run where run: "scan_lock_files driver fsys root options index 0 (start_run options) = Some run"
    and r: "r = (lk_result run)\<lparr>result_value := merge_all (lk_components run)\<rparr>" by (auto simp: parse_lock_index_def)
  from scan_step [OF run] show ?thesis
    unfolding limits_respected_def
    by (intro exI [of _ "lk_components run"]) (auto simp: lock_step_def start_run_def new_result_def r)
qed

end

end
