(* ===== verification/Go_Sum.thy ===== *)
theory Go_Sum
  imports Lockfiles
begin

text \<open>
  The producer of Go modules, \<open>parsers/lockfiles/go.cpp\<close>: every line \<open>module version hash\<close> of a \<open>go.sum\<close> is a component,
  the \<open>/go.mod\<close> lines are metadata, and any other line is counted as malformed.
\<close>

section \<open>Code\<close>

definition kGoSumName :: string where "kGoSumName = ''go.sum''"

definition kGoModVersionSuffix :: string where "kGoModVersionSuffix = ''/go.mod''"

definition kGoForgeHosts :: "string list" where
  "kGoForgeHosts = [''github.com'', ''gitlab.com'', ''bitbucket.org'']"

definition go_supplier_from_module_path :: "string \<Rightarrow> string" where
  "go_supplier_from_module_path module_path =
     (case find_char CHR ''/'' module_path of
        None \<Rightarrow> []
      | Some first_slash \<Rightarrow>
          if to_lower_ascii (take first_slash module_path) \<notin> set kGoForgeHosts then []
          else case find_char_from CHR ''/'' module_path (first_slash + 1) of
            None \<Rightarrow> drop (first_slash + 1) module_path
          | Some second_slash \<Rightarrow> substr module_path (first_slash + 1) (second_slash - first_slash - 1))"

definition build_golang_purl :: "string \<Rightarrow> string \<Rightarrow> string" where
  "build_golang_purl module_path version =
     (let lowered_module_path = to_lower_ascii module_path;
          purl = (case rfind_char CHR ''/'' lowered_module_path of
            None \<Rightarrow> ''pkg:golang/'' @ percent_encode lowered_module_path
          | Some last_slash \<Rightarrow> ''pkg:golang/'' @ percent_encode_purl_namespace (take last_slash lowered_module_path) @ ''/'' @
              percent_encode (drop (last_slash + 1) lowered_module_path))
      in purl @ ''@'' @ percent_encode version)"

text \<open>What one line is; the loop acts on it.\<close>

datatype go_line = Go_Blank | Go_Malformed | Go_Metadata | Go_Module string string

definition read_go_line :: "string \<Rightarrow> go_line" where
  "read_go_line raw_line =
     (let line = trimmed_view raw_line in
      if line = [] then Go_Blank
      else case find_char CHR '' '' line of
        None \<Rightarrow> Go_Malformed
      | Some first_space \<Rightarrow>
          (case find_char_from CHR '' '' line (first_space + 1) of
             None \<Rightarrow> Go_Malformed
           | Some second_space \<Rightarrow>
               if find_char_from CHR '' '' line (second_space + 1) \<noteq> None then Go_Malformed
               else
                 let module_field = take first_space line;
                     version_field = substr line (first_space + 1) (second_space - first_space - 1);
                     hash_field = drop (second_space + 1) line
                 in if module_field = [] \<or> version_field = [] \<or> hash_field = [] then Go_Malformed
                    else if ends_with version_field kGoModVersionSuffix then Go_Metadata
                    else Go_Module module_field version_field))"

definition go_component :: "string \<Rightarrow> string \<Rightarrow> string \<Rightarrow> component" where
  "go_component label module_field version_field = new_component\<lparr>
     comp_name := module_field, comp_version := version_field, comp_purl := build_golang_purl module_field version_field,
     comp_supplier := go_supplier_from_module_path module_field,
     comp_evidence := [Evidence Manifest (label @ '' (go.sum lists the module download set, which can exceed what is built)'') High]\<rparr>"

fun go_lines :: "string \<Rightarrow> nat \<Rightarrow> string list \<Rightarrow> nat \<Rightarrow> lock_run \<Rightarrow> nat \<times> lock_run" where
  "go_lines label package_limit [] malformed_line_count run = (malformed_line_count, run)"
| "go_lines label package_limit (raw_line # ls) malformed_line_count run =
     (case read_go_line raw_line of
        Go_Malformed \<Rightarrow> go_lines label package_limit ls (malformed_line_count + 1) run
      | Go_Module module_field version_field \<Rightarrow>
          (case emit_component ''go'' package_limit (go_component label module_field version_field) run of
             (True, run) \<Rightarrow> go_lines label package_limit ls malformed_line_count run
           | (False, run) \<Rightarrow> (malformed_line_count, run))
      | _ \<Rightarrow> go_lines label package_limit ls malformed_line_count run)"

definition parse_go_sum :: file_parser where
  "parse_go_sum bs label package_limit run =
     (case go_lines label package_limit (split_on CHR 0x0A bs) 0 run of
        (malformed_line_count, run) \<Rightarrow>
          Some (if malformed_line_count > 0
            then warn_run kMalformedEntrySkipped (''go: '' @ string_of_nat malformed_line_count @ '' malformed line(s) skipped: '' @ label) ''go'' run
            else run))"

definition go_driver :: lock_driver where
  "go_driver = \<lparr>ld_ecosystem = ''go'', ld_file_name = kGoSumName, ld_parses_prefix = True, ld_parse_file = parse_go_sum\<rparr>"

definition go_parse :: "file_system \<Rightarrow> file_index \<Rightarrow> path \<Rightarrow> lock_options \<Rightarrow> component list result option" where
  "go_parse fsys index root options = parse_lock_index go_driver fsys index root options"

section \<open>Lemmas\<close>

lemma golang_purl_valid: "valid_purl (build_golang_purl m v)"
proof -
  have "\<exists>rest. build_golang_purl m v = ''pkg:'' @ ''golang'' @ ''/'' @ rest \<and> rest \<noteq> [] \<and> no_whitespace rest"
    by (cases "rfind_char CHR ''/'' (to_lower_ascii m)") (simp_all add: build_golang_purl_def Let_def)
  then obtain rest where rest: "build_golang_purl m v = ''pkg:'' @ ''golang'' @ ''/'' @ rest" "rest \<noteq> []" "no_whitespace rest"
    by blast
  have "to_lower_ascii ''golang'' = ''golang''" "no_whitespace ''golang''" by code_simp+
  then show ?thesis unfolding rest(1) using rest(2,3) by (intro valid_purl_shape) simp_all
qed

lemma go_component_produced: "produced label (go_component label m v)"
  by (simp add: produced_def go_component_def golang_purl_valid new_component_def)

lemma go_lines_step: "lock_step (produced label) run (snd (go_lines label limit ls n run))"
proof (induction ls arbitrary: n run)
  case (Cons l ls)
  show ?case
  proof (cases "read_go_line l")
    case (Go_Module m v)
    obtain go_on run' where e: "emit_component ''go'' limit (go_component label m v) run = (go_on, run')" by fastforce
    with lock_step_emit [OF go_component_produced, of label run "''go''" limit m v] have "lock_step (produced label) run run'" by simp
    with Go_Module e Cons.IH lock_step_trans show ?thesis by (cases go_on) auto
  qed (use Cons.IH in simp_all)
qed simp

interpretation go: lockfile_parser go_driver
proof
  fix bs label limit run run'
  assume "ld_parse_file go_driver bs label limit run = Some run'"
  moreover obtain n r where "go_lines label limit (split_on CHR 0x0A bs) 0 run = (n, r)" by fastforce
  ultimately show "lock_step (produced label) run run'"
    using go_lines_step [of label run limit "split_on CHR 0x0A bs" 0]
    by (auto simp: go_driver_def parse_go_sum_def intro: lock_step_trans split: if_splits)
qed

text \<open>The modules a file names, and what the loop makes of them: components while the budget lasts.\<close>

definition go_modules :: "string list \<Rightarrow> (string \<times> string) list" where
  "go_modules ls = concat (map (\<lambda>l. case read_go_line l of Go_Module m v \<Rightarrow> [(m, v)] | _ \<Rightarrow> []) ls)"

lemma go_lines_components:
  "lk_components (snd (go_lines label limit ls n run)) =
     lk_components run @ map (\<lambda>(m, v). go_component label m v) (take (lk_budget run) (go_modules ls)) \<and>
   complete (lk_result (snd (go_lines label limit ls n run))) =
     (complete (lk_result run) \<and> length (go_modules ls) \<le> lk_budget run)"
proof (induction ls arbitrary: n run)
  case (Cons l ls)
  show ?case
  proof (cases "read_go_line l")
    case (Go_Module m v)
    have c: "valid_purl (comp_purl (go_component label m v))" using go_component_produced by (simp add: produced_def)
    show ?thesis
    proof (cases "lk_budget run = 0")
      case True
      with Go_Module show ?thesis by (simp add: emit_component_def Let_def go_modules_def)
    next
      case False
      then obtain b where "lk_budget run = Suc b" by (cases "lk_budget run") auto
      with Go_Module c Cons.IH show ?thesis by (simp add: emit_component_def finish_valid go_modules_def)
    qed
  qed (use Cons.IH in \<open>simp_all add: go_modules_def\<close>)
qed (simp add: go_modules_def)

text \<open>A well-formed line: three fields without white space.\<close>

definition go_token :: "string \<Rightarrow> bool" where
  "go_token s \<longleftrightarrow> s \<noteq> [] \<and> list_all (\<lambda>c. \<not> is_space c) s"

definition go_line_text :: "string \<Rightarrow> string \<Rightarrow> string \<Rightarrow> string" where
  "go_line_text m v h = m @ CHR '' '' # v @ CHR '' '' # h"

lemma go_token_no_space: "go_token s \<Longrightarrow> CHR '' '' \<notin> set s \<and> CHR 0x0A \<notin> set s"
  by (auto simp: go_token_def list_all_iff kAsciiWhitespace_def)

lemma read_go_line_text:
  assumes "go_token m" "go_token v" "go_token h"
  shows "read_go_line (go_line_text m v h) = (if ends_with v kGoModVersionSuffix then Go_Metadata else Go_Module m v)"
proof -
  let ?l = "go_line_text m v h"
  have ends: "?l \<noteq> []" "\<not> is_space (hd ?l)" "\<not> is_space (last ?l)"
    using assms by (auto simp: go_token_def go_line_text_def hd_append list_all_iff)
  then have trim: "trimmed_view ?l = ?l" using trimmed_view_core [of "[]" "[]" ?l] by simp
  have n: "\<forall>y \<in> set m. y \<noteq> CHR '' ''" "\<forall>y \<in> set v. y \<noteq> CHR '' ''" "\<forall>y \<in> set h. y \<noteq> CHR '' ''"
    using go_token_no_space [OF assms(1)] go_token_no_space [OF assms(2)] go_token_no_space [OF assms(3)] by auto
  have f1: "find_char CHR '' '' ?l = Some (length m)"
    using n(1) by (simp add: go_line_text_def find_pos_append)
  have f2: "find_char_from CHR '' '' ?l (Suc (length m)) = Some (Suc (length m + length v))"
    using n(2) by (simp add: go_line_text_def find_char_from_def find_pos_append)
  have f3: "find_char_from CHR '' '' ?l (Suc (Suc (length m + length v))) = None"
    using n(3) by (simp add: go_line_text_def find_char_from_def find_pos_None)
  have parts: "take (length m) ?l = m" "substr ?l (Suc (length m)) (length v) = v" "drop (Suc (Suc (length m + length v))) ?l = h"
    by (simp_all add: go_line_text_def substr_def)
  have "m \<noteq> []" "v \<noteq> []" "h \<noteq> []" using assms by (simp_all add: go_token_def)
  then show ?thesis using ends(1) by (simp add: read_go_line_def trim f1 f2 f3 parts)
qed

text \<open>What \<open>go mod\<close> writes for a module: the line of its archive and the line of its \<open>go.mod\<close>.\<close>

definition go_sum_text :: "(string \<times> string \<times> string) list \<Rightarrow> string" where
  "go_sum_text entries = concat (map (\<lambda>(m, v, h). go_line_text m v h @ CHR 0x0A # go_line_text m (v @ kGoModVersionSuffix) h @ [CHR 0x0A]) entries)"

fun go_entry :: "string \<times> string \<times> string \<Rightarrow> bool" where
  "go_entry (m, v, h) = (go_token m \<and> go_token v \<and> go_token h \<and> \<not> ends_with v kGoModVersionSuffix)"

lemma go_line_text_no_break: "go_token m \<Longrightarrow> go_token v \<Longrightarrow> go_token h \<Longrightarrow> CHR 0x0A \<notin> set (go_line_text m v h)"
  by (auto simp: go_line_text_def dest: go_token_no_space)

lemma go_mod_version: "go_token v \<Longrightarrow> go_token (v @ kGoModVersionSuffix) \<and> ends_with (v @ kGoModVersionSuffix) kGoModVersionSuffix"
  by (simp add: go_token_def ends_with_def kGoModVersionSuffix_def kAsciiWhitespace_def)

lemma read_blank_line: "read_go_line [] = Go_Blank"
  by (simp add: read_go_line_def)

lemma go_lines_text:
  "list_all go_entry entries \<Longrightarrow> length entries \<le> lk_budget run \<Longrightarrow>
   go_lines label limit (split_on CHR 0x0A (go_sum_text entries)) n run =
     (n, run\<lparr>lk_components := lk_components run @ map (\<lambda>(m, v, h). go_component label m v) entries,
       lk_budget := lk_budget run - length entries\<rparr>)"
proof (induction entries arbitrary: run)
  case Nil
  then show ?case by (simp add: go_sum_text_def read_blank_line)
next
  case (Cons e entries)
  obtain m v h where e: "e = (m, v, h)" by (cases e)
  from Cons.prems(1) have t: "go_token m" "go_token v" "go_token h" "\<not> ends_with v kGoModVersionSuffix" and rest: "list_all go_entry entries"
    by (simp_all add: e)
  note g = go_mod_version [OF t(2)]
  let ?l1 = "go_line_text m v h" and ?l2 = "go_line_text m (v @ kGoModVersionSuffix) h"
  have lines: "split_on CHR 0x0A (go_sum_text (e # entries)) = ?l1 # ?l2 # split_on CHR 0x0A (go_sum_text entries)"
    using go_line_text_no_break [OF t(1-3)] go_line_text_no_break [OF t(1) conjunct1 [OF g] t(3)]
    by (simp add: go_sum_text_def e split_on_append_sep)
  have c: "valid_purl (comp_purl (go_component label m v))" using go_component_produced by (simp add: produced_def)
  from Cons.prems(2) obtain b where b: "lk_budget run = Suc b" by (cases "lk_budget run") auto
  let ?run = "run\<lparr>lk_budget := b, lk_components := lk_components run @ [go_component label m v]\<rparr>"
  have "go_lines label limit (split_on CHR 0x0A (go_sum_text (e # entries))) n run =
      go_lines label limit (split_on CHR 0x0A (go_sum_text entries)) n ?run"
    using c g by (simp add: lines read_go_line_text t b emit_component_def finish_valid)
  also have "\<dots> = (n, ?run\<lparr>lk_components := lk_components ?run @ map (\<lambda>(m, v, h). go_component label m v) entries,
       lk_budget := lk_budget ?run - length entries\<rparr>)"
    by (rule Cons.IH [OF rest]) (use Cons.prems(2) b in simp)
  finally show ?case using b by (simp add: e)
qed

text \<open>Every line of the form \<open>module version hash\<close> of a \<open>go.sum\<close> becomes a component with that module and version and a valid
  package URL, in the order of the file, until the package budget is used up; the result is complete exactly when the
  budget covers them all.\<close>

theorem go_sum_components_exact:
  "(case parse_go_sum bs label limit run of
      None \<Rightarrow> False
    | Some run' \<Rightarrow>
        let modules = go_modules (split_on CHR 0x0A bs) in
        lk_components run' = lk_components run @ map (\<lambda>(m, v). go_component label m v) (take (lk_budget run) modules) \<and>
        lk_budget run' = lk_budget run - length modules \<and>
        complete (lk_result run') = (complete (lk_result run) \<and> length modules \<le> lk_budget run))"
proof -
  obtain n r where r: "go_lines label limit (split_on CHR 0x0A bs) 0 run = (n, r)" by fastforce
  with go_lines_components [of label limit "split_on CHR 0x0A bs" 0 run] go_lines_step [of label run limit "split_on CHR 0x0A bs" 0]
  show ?thesis by (auto simp: parse_go_sum_def Let_def lock_step_def)
qed

text \<open>C38: A \<open>go.sum\<close> as the Go tools write it is read back: one component for every module and version, none for the metadata
  lines, and no warning.\<close>

theorem go_sum_roundtrip:
  assumes "list_all go_entry entries" "length entries \<le> lk_budget run"
  shows "parse_go_sum (go_sum_text entries) label limit run =
    Some (run\<lparr>lk_components := lk_components run @ map (\<lambda>(m, v, h). go_component label m v) entries,
      lk_budget := lk_budget run - length entries\<rparr>)"
  using go_lines_text [OF assms, of label limit 0] by (simp add: parse_go_sum_def)

theorem go_sum_roundtrip_witness:
  "map comp_purl (lk_components (the (parse_go_sum (go_sum_text [(''github.com/Gorilla/mux'', ''v1.8.0'', ''h1:i4='')]) ''go.sum'' 5
     (start_run \<lparr>lo_max_file_bytes = 100, lo_max_scanned_files = 1, lo_max_total_packages = 5\<rparr>)))) =
   [''pkg:golang/github.com/gorilla/mux@v1.8.0'']"
proof -
  let ?run = "start_run \<lparr>lo_max_file_bytes = 100, lo_max_scanned_files = 1, lo_max_total_packages = 5\<rparr>"
  have "list_all go_entry [(''github.com/Gorilla/mux'', ''v1.8.0'', ''h1:i4='')]" by code_simp
  moreover have "length [(''github.com/Gorilla/mux'', ''v1.8.0'', ''h1:i4='')] \<le> lk_budget ?run" by (simp add: start_run_def)
  moreover have "comp_purl (go_component ''go.sum'' ''github.com/Gorilla/mux'' ''v1.8.0'') = ''pkg:golang/github.com/gorilla/mux@v1.8.0''"
    by code_simp
  ultimately show ?thesis
    using go_sum_roundtrip [where label = "''go.sum''" and limit = 5] by (simp add: start_run_def)
qed

text \<open>Reaching the file limit leaves the result complete.\<close>

lemma go_file_limit_complete:
  "go_parse fsys [''go.sum''] root \<lparr>lo_max_file_bytes = 1, lo_max_scanned_files = 0, lo_max_total_packages = 1\<rparr> =
     Some (warn kFileLimitReached ''go: file limit reached; remaining go.sum files skipped'' ''go'' [] (new_result (merge_all [])))"
proof -
  have "path_filename ''go.sum'' = kGoSumName" by code_simp
  then show ?thesis
    by (simp add: go_parse_def parse_lock_index_def go_driver_def start_run_def warn_run_def warn_def new_result_def kGoSumName_def)
qed

end
