(* ===== verification/Gemfile_Lock.thy ===== *)
theory Gemfile_Lock
  imports Lockfiles
begin

text \<open>
  The producer of Ruby gems, \<open>parsers/lockfiles/rubygems.cpp\<close>: a line reader for \<open>Gemfile.lock\<close> whose state is the section it
  is in, whether the \<open>specs:\<close> line was seen, and the remote and revision of the section. Structure is literal
  indentation: sections at 0, their metadata at 2, resolved gems at 4.
\<close>

section \<open>Code\<close>

definition kGemfileLockName :: string where "kGemfileLockName = ''Gemfile.lock''"
definition kSpecIndentation :: nat where "kSpecIndentation = 4"
definition kSectionMetadataIndentation :: nat where "kSectionMetadataIndentation = 2"

datatype gem_section = Gem | Git | Path_Section | Untracked

definition build_gem_purl :: "string \<Rightarrow> string \<Rightarrow> string" where
  "build_gem_purl gem_name version = ''pkg:gem/'' @ percent_encode gem_name @ ''@'' @ percent_encode version"

definition split_spec_line :: "string \<Rightarrow> (string \<times> string) option" where
  "split_spec_line spec_line =
     (case find_sub '' ('' spec_line of
        None \<Rightarrow> None
      | Some open_paren \<Rightarrow>
          if open_paren = 0 then None
          else case find_char_from CHR '')'' spec_line (open_paren + 2) of
            None \<Rightarrow> None
          | Some close_paren \<Rightarrow>
              if close_paren \<noteq> length spec_line - 1 then None
              else let gem_name = take open_paren spec_line;
                       version = substr spec_line (open_paren + 2) (close_paren - open_paren - 2)
                   in if gem_name \<noteq> [] \<and> version \<noteq> [] then Some (gem_name, version) else None)"

record gem_state =
  current_section :: gem_section
  inside_specs :: bool
  current_remote :: string
  current_revision :: string
  malformed_line_count :: nat

definition section_of :: "string \<Rightarrow> gem_section" where
  "section_of line = (if line = ''GEM'' then Gem else if line = ''GIT'' then Git else if line = ''PATH'' then Path_Section else Untracked)"

definition gem_metadata :: "string \<Rightarrow> gem_state \<Rightarrow> gem_state" where
  "gem_metadata line st =
     (if line = ''specs:'' then st\<lparr>inside_specs := True\<rparr>
      else if starts_with line ''remote: '' then st\<lparr>current_remote := trimmed (drop 8 line)\<rparr>
      else if starts_with line ''revision: '' then st\<lparr>current_revision := trimmed (drop 10 line)\<rparr>
      else st)"

definition gem_component :: "string \<Rightarrow> gem_section \<Rightarrow> string \<Rightarrow> string \<Rightarrow> string \<Rightarrow> string \<Rightarrow> component" where
  "gem_component label s remote revision gem_name version = new_component\<lparr>
     comp_name := gem_name, comp_version := version, comp_purl := build_gem_purl gem_name version,
     comp_evidence := [Evidence Manifest
       (if s = Git then label @ '' (git '' @ remote @ ''@'' @ revision @ '')''
        else if remote \<noteq> [] then label @ '' (remote '' @ remote @ '')'' else label) High]\<rparr>"

text \<open>One line; \<^const>\<open>False\<close> ends the loop.\<close>

definition gem_line :: "string \<Rightarrow> nat \<Rightarrow> string \<Rightarrow> gem_state \<Rightarrow> lock_run \<Rightarrow> bool \<times> gem_state \<times> lock_run" where
  "gem_line label package_limit raw_line st run =
     (let line = trimmed_view raw_line; indentation = leading_space_count raw_line in
      if line = [] then (True, st, run)
      else if indentation = 0
      then (True, st\<lparr>current_section := section_of line, inside_specs := False, current_remote := [], current_revision := []\<rparr>, run)
      else if current_section st = Untracked then (True, st, run)
      else if indentation = kSectionMetadataIndentation then (True, gem_metadata line st, run)
      else if \<not> inside_specs st \<or> indentation \<noteq> kSpecIndentation then (True, st, run)
      else if current_section st = Path_Section then (True, st, run)
      else case split_spec_line line of
        None \<Rightarrow> (True, st\<lparr>malformed_line_count := malformed_line_count st + 1\<rparr>, run)
      | Some (gem_name, version) \<Rightarrow>
          (case emit_component ''rubygems'' package_limit
              (gem_component label (current_section st) (current_remote st) (current_revision st) gem_name version) run of
             (go_on, run) \<Rightarrow> (go_on, st, run)))"

fun gem_lines :: "string \<Rightarrow> nat \<Rightarrow> string list \<Rightarrow> gem_state \<Rightarrow> lock_run \<Rightarrow> gem_state \<times> lock_run" where
  "gem_lines label package_limit [] st run = (st, run)"
| "gem_lines label package_limit (raw_line # ls) st run =
     (case gem_line label package_limit raw_line st run of
        (go_on, st, run) \<Rightarrow> if go_on then gem_lines label package_limit ls st run else (st, run))"

definition start_state :: gem_state where
  "start_state = \<lparr>current_section = Untracked, inside_specs = False, current_remote = [], current_revision = [],
     malformed_line_count = 0\<rparr>"

definition parse_gemfile_lock :: file_parser where
  "parse_gemfile_lock bs label package_limit run =
     (case gem_lines label package_limit (split_on CHR 0x0A bs) start_state run of
        (st, run) \<Rightarrow>
          Some (if malformed_line_count st > 0
            then warn_run kMalformedEntrySkipped (''rubygems: '' @ string_of_nat (malformed_line_count st) @
              '' malformed spec line(s) skipped: '' @ label) ''rubygems'' run
            else run))"

definition gem_driver :: lock_driver where
  "gem_driver = \<lparr>ld_ecosystem = ''rubygems'', ld_file_name = kGemfileLockName, ld_parses_prefix = True,
     ld_parse_file = parse_gemfile_lock\<rparr>"

definition gem_parse :: "file_system \<Rightarrow> file_index \<Rightarrow> path \<Rightarrow> lock_options \<Rightarrow> component list result option" where
  "gem_parse fsys index root options = parse_lock_index gem_driver fsys index root options"

section \<open>Lemmas\<close>

lemma gem_component_produced: "produced label (gem_component label s remote revision n v)"
proof -
  have "to_lower_ascii ''gem'' = ''gem''" "no_whitespace ''gem''" by code_simp+
  then have "valid_purl (''pkg:'' @ ''gem'' @ ''/'' @ percent_encode n @ ''@'' @ percent_encode v)"
    by (intro valid_purl_shape) simp_all
  then show ?thesis by (simp add: produced_def gem_component_def build_gem_purl_def new_component_def)
qed

lemma gem_line_step: "gem_line label limit l st run = (go_on, st', run') \<Longrightarrow> lock_step (produced label) run run'"
  using lock_step_emit [OF gem_component_produced, of label run "''rubygems''" limit]
  by (auto simp: gem_line_def Let_def split: if_splits option.splits prod.splits) (metis snd_conv)+

lemma gem_lines_step: "lock_step (produced label) run (snd (gem_lines label limit ls st run))"
proof (induction ls arbitrary: st run)
  case (Cons l ls)
  obtain go_on st' run' where s: "gem_line label limit l st run = (go_on, st', run')" by (metis prod_cases3)
  from gem_line_step [OF s] Cons.IH s show ?case by (auto intro: lock_step_trans)
qed simp

interpretation gem: lockfile_parser gem_driver
proof
  fix bs label limit run run'
  assume "ld_parse_file gem_driver bs label limit run = Some run'"
  moreover obtain st r where "gem_lines label limit (split_on CHR 0x0A bs) start_state run = (st, r)" by fastforce
  ultimately show "lock_step (produced label) run run'"
    using gem_lines_step [of label run limit "split_on CHR 0x0A bs" start_state]
    by (auto simp: gem_driver_def parse_gemfile_lock_def intro: lock_step_trans split: if_splits)
qed

subsection \<open>Written files\<close>

text \<open>A section as Bundler writes it: its kind, remote and revision, and its gems with their own dependencies.\<close>

record written_section =
  ws_kind :: gem_section
  ws_remote :: string
  ws_revision :: string
  ws_gems :: "(string \<times> string \<times> string list) list"

definition indented :: "nat \<Rightarrow> string \<Rightarrow> string" where
  "indented n s = replicate n CHR '' '' @ s"

definition spec_text :: "string \<Rightarrow> string \<Rightarrow> string" where
  "spec_text n v = n @ '' ('' @ v @ '')''"

definition gem_text_lines :: "string \<times> string \<times> string list \<Rightarrow> string list" where
  "gem_text_lines g = (case g of (n, v, deps) \<Rightarrow> indented 4 (spec_text n v) # map (indented 6) deps)"

definition section_header :: "gem_section \<Rightarrow> string" where
  "section_header k = (case k of Gem \<Rightarrow> ''GEM'' | Git \<Rightarrow> ''GIT'' | Path_Section \<Rightarrow> ''PATH'' | Untracked \<Rightarrow> ''DEPENDENCIES'')"

definition remote_text :: "string \<Rightarrow> string" where
  "remote_text r = ''remote: '' @ r"

definition revision_text :: "string \<Rightarrow> string" where
  "revision_text r = ''revision: '' @ r"

definition section_lines :: "written_section \<Rightarrow> string list" where
  "section_lines s = [section_header (ws_kind s), indented 2 (remote_text (ws_remote s))] @
     (if ws_kind s = Git then [indented 2 (revision_text (ws_revision s))] else []) @ [indented 2 ''specs:''] @
     concat (map gem_text_lines (ws_gems s)) @ [[]]"

text \<open>Words that a line can hold: neither blank nor with white space at either end, on one line.\<close>

definition line_word :: "string \<Rightarrow> bool" where
  "line_word s \<longleftrightarrow> s \<noteq> [] \<and> \<not> is_space (hd s) \<and> \<not> is_space (last s) \<and> CHR 0x0A \<notin> set s"

definition gem_name_ok :: "string \<Rightarrow> bool" where
  "gem_name_ok s \<longleftrightarrow> s \<noteq> [] \<and> list_all (\<lambda>c. \<not> is_space c) s"

definition gem_version_ok :: "string \<Rightarrow> bool" where
  "gem_version_ok s \<longleftrightarrow> s \<noteq> [] \<and> list_all (\<lambda>c. \<not> is_space c \<and> c \<noteq> CHR '')'') s"

definition section_ok :: "written_section \<Rightarrow> bool" where
  "section_ok s \<longleftrightarrow> line_word (ws_remote s) \<and> line_word (ws_revision s) \<and> ws_kind s \<noteq> Untracked \<and>
     list_all (\<lambda>(n, v, deps). gem_name_ok n \<and> gem_version_ok v \<and> list_all line_word deps) (ws_gems s)"

definition section_components :: "string \<Rightarrow> written_section \<Rightarrow> component list" where
  "section_components label s = (if ws_kind s = Path_Section then []
     else map (\<lambda>(n, v, deps). gem_component label (ws_kind s) (ws_remote s) (if ws_kind s = Git then ws_revision s else []) n v) (ws_gems s))"

lemma leading_indented: "s \<noteq> [] \<Longrightarrow> \<not> is_space (hd s) \<Longrightarrow> leading_space_count (indented n s) = n"
  by (induction n) (cases s; simp add: indented_def kAsciiWhitespace_def)+

lemma trimmed_indented: "s \<noteq> [] \<Longrightarrow> \<not> is_space (hd s) \<Longrightarrow> \<not> is_space (last s) \<Longrightarrow> trimmed_view (indented n s) = s"
  using trimmed_view_core [of "replicate n CHR '' ''" "[]" s] by (simp add: indented_def kAsciiWhitespace_def)

lemma find_sub_after:
  "list_all (\<lambda>c. c \<noteq> hd pat) s \<Longrightarrow> pat \<noteq> [] \<Longrightarrow> find_sub pat (s @ pat @ t) = Some (length s)"
proof (induction s)
  case Nil
  then show ?case using find_sub_append_found [of pat t] by simp
next
  case (Cons c s)
  then show ?case by (cases pat) auto
qed

lemma split_spec_text:
  assumes "gem_name_ok n" "gem_version_ok v"
  shows "split_spec_line (spec_text n v) = Some (n, v)"
proof -
  let ?l = "spec_text n v"
  have "find_sub '' ('' ?l = Some (length n)"
    using assms(1) find_sub_after [of "'' (''" n "v @ '')''"]
    by (auto simp: gem_name_ok_def spec_text_def list_all_iff kAsciiWhitespace_def)
  moreover have "find_char_from CHR '')'' ?l (Suc (Suc (length n))) = Some (length ?l - 1)"
    using assms(2) by (simp add: gem_version_ok_def spec_text_def find_char_from_def find_pos_append list_all_iff)
  moreover have "n \<noteq> []" "v \<noteq> []" using assms by (simp_all add: gem_name_ok_def gem_version_ok_def)
  ultimately show ?thesis by (simp add: split_spec_line_def spec_text_def substr_def)
qed

lemma spec_text_word: "gem_name_ok n \<Longrightarrow> gem_version_ok v \<Longrightarrow> line_word (spec_text n v)"
  by (auto simp: line_word_def spec_text_def gem_name_ok_def gem_version_ok_def list_all_iff hd_append kAsciiWhitespace_def)

text \<open>What each written line does to the state.\<close>

lemma indented_line:
  assumes "line_word s" "0 < k" "current_section st \<noteq> Untracked"
  shows "gem_line label limit (indented k s) st run =
     (if k = 2 then (True, gem_metadata s st, run)
      else if \<not> inside_specs st \<or> k \<noteq> 4 \<or> current_section st = Path_Section then (True, st, run)
      else case split_spec_line s of
        None \<Rightarrow> (True, st\<lparr>malformed_line_count := malformed_line_count st + 1\<rparr>, run)
      | Some (n, v) \<Rightarrow> (case emit_component ''rubygems'' limit
              (gem_component label (current_section st) (current_remote st) (current_revision st) n v) run of (go_on, run) \<Rightarrow> (go_on, st, run)))"
  using assms unfolding line_word_def
  by (simp add: gem_line_def trimmed_indented leading_indented kSectionMetadataIndentation_def kSpecIndentation_def)

lemma dependency_lines_read:
  "list_all line_word deps \<Longrightarrow> current_section st \<noteq> Untracked \<Longrightarrow>
   gem_lines label limit (map (indented 6) deps @ rest) st run = gem_lines label limit rest st run"
  by (induction deps) (simp_all add: indented_line)

lemma gem_gems_read:
  assumes "current_section st \<noteq> Untracked" "inside_specs st"
  shows "list_all (\<lambda>(n, v, deps). gem_name_ok n \<and> gem_version_ok v \<and> list_all line_word deps) gems \<Longrightarrow>
    (current_section st \<noteq> Path_Section \<Longrightarrow> length gems \<le> lk_budget run) \<Longrightarrow>
    gem_lines label limit (concat (map gem_text_lines gems) @ rest) st run = gem_lines label limit rest st
      (reported (if current_section st = Path_Section then []
         else map (\<lambda>(n, v, deps). gem_component label (current_section st) (current_remote st) (current_revision st) n v) gems) run)"
proof (induction gems arbitrary: run)
  case (Cons g gems)
  obtain n v deps where g: "g = (n, v, deps)" by (cases g) auto
  from Cons.prems(1) have ok: "gem_name_ok n" "gem_version_ok v" "list_all line_word deps"
    "list_all (\<lambda>(n, v, deps). gem_name_ok n \<and> gem_version_ok v \<and> list_all line_word deps) gems" by (simp_all add: g)
  let ?c = "gem_component label (current_section st) (current_remote st) (current_revision st) n v"
  have c: "valid_purl (comp_purl ?c)" using gem_component_produced by (simp add: produced_def)
  note word = spec_text_word [OF ok(1,2)]
  show ?case
  proof (cases "current_section st = Path_Section")
    case True
    with Cons.IH [OF ok(4), of run] show ?thesis
      by (simp add: g gem_text_lines_def indented_line [OF word] dependency_lines_read [OF ok(3)])
  next
    case False
    with Cons.prems(2) obtain b where b: "lk_budget run = Suc b" by (cases "lk_budget run") auto
    have "gem_lines label limit (concat (map gem_text_lines (g # gems)) @ rest) st run =
        gem_lines label limit (concat (map gem_text_lines gems) @ rest) st (run\<lparr>lk_budget := b, lk_components := lk_components run @ [?c]\<rparr>)"
      using False assms c by (simp add: g gem_text_lines_def indented_line [OF word] dependency_lines_read [OF ok(3)]
          split_spec_text [OF ok(1,2)] emit_component_def b finish_valid)
    also have "\<dots> = gem_lines label limit rest st
      (reported (map (\<lambda>(n, v, deps). gem_component label (current_section st) (current_remote st) (current_revision st) n v) gems)
         (run\<lparr>lk_budget := b, lk_components := lk_components run @ [?c]\<rparr>))"
      by (subst Cons.IH [OF ok(4)]) (use False Cons.prems(2) b in simp_all)
    finally show ?thesis using False b by (simp add: g)
  qed
qed simp

lemma header_read:
  "gem_line label limit (section_header k) st run =
     (True, st\<lparr>current_section := k, inside_specs := False, current_remote := [], current_revision := []\<rparr>, run)"
proof -
  have "trimmed_view (section_header k) = section_header k \<and> leading_space_count (section_header k) = 0 \<and>
      section_header k \<noteq> [] \<and> section_of (section_header k) = k"
    by (cases k; simp only: section_header_def gem_section.case; code_simp)
  then show ?thesis by (simp add: gem_line_def)
qed

lemma metadata_words:
  assumes "line_word r"
  shows "line_word (remote_text r)" "line_word (revision_text r)" "line_word ''specs:''" "trimmed r = r"
  using assms trimmed_view_core [of "[]" "[]" r] by (auto simp: line_word_def kAsciiWhitespace_def trimmed_def remote_text_def revision_text_def)

lemma metadata_read:
  assumes "trimmed r = r"
  shows "gem_metadata (remote_text r) st = st\<lparr>current_remote := r\<rparr>"
    "gem_metadata (revision_text r) st = st\<lparr>current_revision := r\<rparr>"
  using assms by (simp_all add: gem_metadata_def remote_text_def revision_text_def)

lemma specs_read: "gem_metadata ''specs:'' st = st\<lparr>inside_specs := True\<rparr>"
  by (simp add: gem_metadata_def)

definition after_section :: "written_section \<Rightarrow> gem_state \<Rightarrow> gem_state" where
  "after_section s st = st\<lparr>current_section := ws_kind s, inside_specs := True, current_remote := ws_remote s,
     current_revision := (if ws_kind s = Git then ws_revision s else [])\<rparr>"

lemma section_read:
  assumes "section_ok s" "length (section_components label s) \<le> lk_budget run"
  shows "gem_lines label limit (section_lines s @ rest) st run =
    gem_lines label limit rest (after_section s st) (reported (section_components label s) run)"
proof -
  have kind: "ws_kind s \<noteq> Untracked" and words: "line_word (ws_remote s)" "line_word (ws_revision s)"
    and gems: "list_all (\<lambda>(n, v, deps). gem_name_ok n \<and> gem_version_ok v \<and> list_all line_word deps) (ws_gems s)"
    using assms(1) by (simp_all add: section_ok_def)
  note w1 = metadata_words [OF words(1)] and w2 = metadata_words [OF words(2)]
  have blank: "gem_line label limit [] st run = (True, st, run)" for st run
    by (simp add: gem_line_def)
  have "gem_lines label limit (section_lines s @ rest) st run =
      gem_lines label limit (concat (map gem_text_lines (ws_gems s)) @ [] # rest) (after_section s st) run"
    using kind by (cases st) (simp add: section_lines_def header_read indented_line w1 w2 metadata_read specs_read after_section_def)
  also have "\<dots> = gem_lines label limit rest (after_section s st) (reported (section_components label s) run)"
    using assms(2) kind gems by (subst gem_gems_read) (simp_all add: after_section_def section_components_def blank)
  finally show ?thesis .
qed

text \<open>A whole file: sections, then the dependencies of the project.\<close>

definition gemfile_lines :: "written_section list \<Rightarrow> string list \<Rightarrow> string list" where
  "gemfile_lines ss deps = concat (map section_lines ss) @ section_header Untracked # map (indented 2) deps"

definition gemfile_components :: "string \<Rightarrow> written_section list \<Rightarrow> component list" where
  "gemfile_components label ss = concat (map (section_components label) ss)"

lemma untracked_read:
  "current_section st = Untracked \<Longrightarrow> list_all line_word deps \<Longrightarrow> gem_lines label limit (map (indented 2) deps @ [[]]) st run = (st, run)"
  by (induction deps) (simp_all add: gem_line_def line_word_def leading_indented trimmed_indented)

lemma sections_read:
  "list_all section_ok ss \<Longrightarrow> length (gemfile_components label ss) \<le> lk_budget run \<Longrightarrow>
   \<exists>st'. gem_lines label limit (concat (map section_lines ss) @ rest) st run =
     gem_lines label limit rest st' (reported (gemfile_components label ss) run) \<and> malformed_line_count st' = malformed_line_count st"
proof (induction ss arbitrary: st run)
  case Nil
  then show ?case by (auto simp: gemfile_components_def)
next
  case (Cons s ss)
  let ?run = "reported (section_components label s) run"
  have "\<exists>st'. gem_lines label limit (concat (map section_lines ss) @ rest) (after_section s st) ?run =
      gem_lines label limit rest st' (reported (gemfile_components label ss) ?run) \<and> malformed_line_count st' = malformed_line_count (after_section s st)"
    by (rule Cons.IH) (use Cons.prems in \<open>simp_all add: gemfile_components_def\<close>)
  moreover have "gem_lines label limit (concat (map section_lines (s # ss)) @ rest) st run =
      gem_lines label limit (concat (map section_lines ss) @ rest) (after_section s st) ?run"
    using section_read [of s label run limit "concat (map section_lines ss) @ rest" st] Cons.prems by (simp add: gemfile_components_def)
  ultimately show ?case by (simp add: gemfile_components_def after_section_def add.commute diff_diff_left)
qed

lemma word_no_break: "line_word s \<Longrightarrow> CHR 0x0A \<notin> set s"
  by (simp add: line_word_def)

lemma indented_no_break [simp]: "CHR 0x0A \<in> set (indented n s) \<longleftrightarrow> CHR 0x0A \<in> set s"
  by (auto simp: indented_def)

lemma gemfile_lines_no_break:
  assumes "list_all section_ok ss" "list_all line_word deps"
  shows "list_all (\<lambda>l. CHR 0x0A \<notin> set l) (gemfile_lines ss deps)"
proof -
  have g: "CHR 0x0A \<notin> set l" if "l \<in> set (gem_text_lines (n, v, ds))" "gem_name_ok n" "gem_version_ok v" "list_all line_word ds" for l n v ds
    using that word_no_break [OF spec_text_word [of n v]] by (auto simp: gem_text_lines_def list_all_iff word_no_break)
  have h: "CHR 0x0A \<notin> set (section_header k)" for k by (cases k) (simp_all add: section_header_def)
  have "CHR 0x0A \<notin> set l" if "l \<in> set (section_lines s)" "section_ok s" for l s
    using that g h word_no_break metadata_words unfolding section_lines_def section_ok_def list_all_iff
    by (fastforce split: if_splits)
  with assms h word_no_break show ?thesis by (fastforce simp: gemfile_lines_def list_all_iff)
qed

text \<open>C39: A \<open>Gemfile.lock\<close> as Bundler writes it is read back: one component per gem of the registry and git sections, with
  the remote and revision of its own section in the evidence, none for the project's own gems, for the dependency
  lines below a gem or for the sections that list requirements; and no warning.\<close>

theorem gemfile_lock_roundtrip:
  assumes "list_all section_ok ss" "list_all line_word deps" "length (gemfile_components label ss) \<le> lk_budget run"
  shows "parse_gemfile_lock (text_lines (gemfile_lines ss deps)) label limit run =
    Some (run\<lparr>lk_components := lk_components run @ gemfile_components label ss,
      lk_budget := lk_budget run - length (gemfile_components label ss)\<rparr>)"
proof -
  obtain st where st: "gem_lines label limit (gemfile_lines ss deps @ [[]]) start_state run =
      gem_lines label limit (section_header Untracked # map (indented 2) deps @ [[]]) st (reported (gemfile_components label ss) run)"
    and m: "malformed_line_count st = 0"
    using sections_read [OF assms(1,3), of limit "section_header Untracked # map (indented 2) deps @ [[]]" start_state]
    by (auto simp: gemfile_lines_def start_state_def)
  let ?st = "st\<lparr>current_section := Untracked, inside_specs := False, current_remote := [], current_revision := []\<rparr>"
  have "gem_lines label limit (gemfile_lines ss deps @ [[]]) start_state run = (?st, reported (gemfile_components label ss) run)"
    using untracked_read [of ?st deps label limit "reported (gemfile_components label ss) run"] assms(2) by (simp add: st header_read)
  then show ?thesis
    using split_text_lines [OF gemfile_lines_no_break [OF assms(1,2)]] m by (simp add: parse_gemfile_lock_def)
qed

definition sample_sections :: "written_section list" where
  "sample_sections = [\<lparr>ws_kind = Gem, ws_remote = ''https://rubygems.org/'', ws_revision = ''0'', ws_gems = [(''rack'', ''2.2.4'', [''base64 (~> 0.1)''])]\<rparr>,
     \<lparr>ws_kind = Path_Section, ws_remote = ''.'', ws_revision = ''0'', ws_gems = [(''app'', ''1'', [])]\<rparr>]"

theorem gemfile_lock_roundtrip_witness:
  "lk_components (the (parse_gemfile_lock (text_lines (gemfile_lines sample_sections [''rack''])) ''Gemfile.lock'' 5
     (start_run \<lparr>lo_max_file_bytes = 100, lo_max_scanned_files = 1, lo_max_total_packages = 5\<rparr>))) =
   [gem_component ''Gemfile.lock'' Gem ''https://rubygems.org/'' [] ''rack'' ''2.2.4'']"
proof -
  let ?run = "start_run \<lparr>lo_max_file_bytes = 100, lo_max_scanned_files = 1, lo_max_total_packages = 5\<rparr>"
  have "list_all section_ok sample_sections" "list_all line_word [''rack'']" by code_simp+
  moreover have c: "gemfile_components ''Gemfile.lock'' sample_sections = [gem_component ''Gemfile.lock'' Gem ''https://rubygems.org/'' [] ''rack'' ''2.2.4'']"
    by (simp add: gemfile_components_def section_components_def sample_sections_def)
  moreover have "length (gemfile_components ''Gemfile.lock'' sample_sections) \<le> lk_budget ?run" by (simp add: c start_run_def)
  ultimately show ?thesis using gemfile_lock_roundtrip [where limit = 5] by (simp add: start_run_def)
qed

end
