(* ===== verification/Npm_Lock.thy ===== *)
theory Npm_Lock
  imports Lockfiles Json
begin

text \<open>
  The producer of npm packages, \<open>parsers/lockfiles/npm.cpp\<close>, on the value the JSON library makes of a \<open>package-lock.json\<close>.
  \<open>value(key, false)\<close> of the library throws when the member is there and is not a boolean; no caller catches it, so the
  parser returns \<^const>\<open>None\<close> there.
\<close>

section \<open>Code\<close>

definition kMaxJsonNestingDepth :: int where "kMaxJsonNestingDepth = 100"

definition kPackageLockName :: string where "kPackageLockName = ''package-lock.json''"
definition kNodeModulesSegment :: string where "kNodeModulesSegment = ''node_modules/''"
definition kMinSupportedLockfileVersion :: int where "kMinSupportedLockfileVersion = 2"

text \<open>\<open>rfind\<close> of a text: its last occurrence.\<close>

fun rfind_sub :: "string \<Rightarrow> string \<Rightarrow> nat option" where
  "rfind_sub pat [] = (if pat = [] then Some 0 else None)"
| "rfind_sub pat (c # s) =
     (case rfind_sub pat s of Some i \<Rightarrow> Some (Suc i) | None \<Rightarrow> if starts_with (c # s) pat then Some 0 else None)"

definition package_name_from_key :: "string \<Rightarrow> string" where
  "package_name_from_key packages_key =
     (case rfind_sub kNodeModulesSegment packages_key of
        None \<Rightarrow> []
      | Some last_prefix \<Rightarrow> drop (last_prefix + length kNodeModulesSegment) packages_key)"

definition npm_supplier_from_package_name :: "string \<Rightarrow> string" where
  "npm_supplier_from_package_name package_name =
     (case find_char CHR ''/'' package_name of
        None \<Rightarrow> []
      | Some scope_separator \<Rightarrow>
          if package_name \<noteq> [] \<and> hd package_name = CHR ''@'' then substr package_name 1 (scope_separator - 1) else [])"

definition build_npm_purl :: "string \<Rightarrow> string \<Rightarrow> string" where
  "build_npm_purl package_name version =
     ''pkg:npm/'' @
     (case find_char CHR ''/'' package_name of
        None \<Rightarrow> percent_encode package_name
      | Some slash \<Rightarrow>
          if package_name \<noteq> [] \<and> hd package_name = CHR ''@''
          then percent_encode (take slash package_name) @ ''/'' @ percent_encode (drop (slash + 1) package_name)
          else percent_encode package_name) @
     ''@'' @ percent_encode version"

text \<open>\<open>value(key, false)\<close>: \<^const>\<open>None\<close> is the exception.\<close>

definition json_flag :: "json \<Rightarrow> string \<Rightarrow> bool option" where
  "json_flag entry key = (case json_find entry key of None \<Rightarrow> Some False | Some (Json_Bool b) \<Rightarrow> Some b | Some _ \<Rightarrow> None)"

text \<open>What one member of \<open>packages\<close> is, up to the test of the budget.\<close>

datatype npm_entry = Npm_Root | Npm_Skipped | Npm_Raises | Npm_Package string string

definition read_npm_entry :: "string \<Rightarrow> json \<Rightarrow> npm_entry" where
  "read_npm_entry packages_key entry =
     (if packages_key = [] then Npm_Root
      else if \<not> is_json_object entry then Npm_Skipped
      else case json_flag entry ''link'' of
        None \<Rightarrow> Npm_Raises
      | Some True \<Rightarrow> Npm_Skipped
      | Some False \<Rightarrow>
          (case json_string_at entry ''version'' of
             None \<Rightarrow> Npm_Skipped
           | Some version \<Rightarrow>
               let package_name = package_name_from_key packages_key in
               if package_name = [] then Npm_Skipped else Npm_Package package_name version))"

definition npm_component :: "string \<Rightarrow> json \<Rightarrow> string \<Rightarrow> string \<Rightarrow> bool \<Rightarrow> component" where
  "npm_component label entry package_name version dev = new_component\<lparr>
     comp_name := package_name, comp_version := trimmed version, comp_purl := build_npm_purl package_name (trimmed version),
     comp_supplier := npm_supplier_from_package_name package_name,
     comp_scope := (if dev then Excluded else Required),
     comp_license := (case json_string_at entry ''license'' of None \<Rightarrow> [] | Some l \<Rightarrow> trimmed l),
     comp_evidence := [Evidence Manifest
       (case json_string_at entry ''integrity'' of None \<Rightarrow> label | Some i \<Rightarrow> label @ '' (integrity '' @ i @ '')'') High]\<rparr>"

text \<open>The flag \<open>dev\<close> is only read once the budget has been tested.\<close>

fun npm_entries :: "string \<Rightarrow> nat \<Rightarrow> (string \<times> json) list \<Rightarrow> nat \<Rightarrow> lock_run \<Rightarrow> (nat \<times> lock_run) option" where
  "npm_entries label package_limit [] skipped run = Some (skipped, run)"
| "npm_entries label package_limit ((packages_key, entry) # rest) skipped run =
     (case read_npm_entry packages_key entry of
        Npm_Root \<Rightarrow> npm_entries label package_limit rest skipped run
      | Npm_Skipped \<Rightarrow> npm_entries label package_limit rest (skipped + 1) run
      | Npm_Raises \<Rightarrow> None
      | Npm_Package package_name version \<Rightarrow>
          (case json_flag entry ''dev'' of
             None \<Rightarrow>
               if lk_budget run = 0
               then Some (skipped, snd (emit_component ''npm'' package_limit (npm_component label entry package_name version False) run))
               else None
           | Some dev \<Rightarrow>
               (case emit_component ''npm'' package_limit (npm_component label entry package_name version dev) run of
                  (True, run) \<Rightarrow> npm_entries label package_limit rest skipped run
                | (False, run) \<Rightarrow> Some (skipped, run))))"

text \<open>\<open>get<int>\<close> of an integer of the library.\<close>

definition int_of :: "int \<Rightarrow> int" where
  "int_of i = signed_take_bit 31 i"

definition parse_package_lock :: "(string \<Rightarrow> json option) \<Rightarrow> file_parser" where
  "parse_package_lock parse bs label package_limit run =
     (let json_bytes = without_utf8_bom bs in
      if exceeds_json_nesting_depth json_bytes kMaxJsonNestingDepth
      then Some (warn_run kJsonNestingDepthExceeded (''npm: '' @ label @ '': JSON nesting exceeds depth limit, skipped'') ''npm'' run)
      else case parse json_bytes of
        None \<Rightarrow> Some (warn_run kInvalidJson (''npm: '' @ label @ '': not valid JSON, skipped'') ''npm'' run)
      | Some lockfile \<Rightarrow>
          if \<not> is_json_object lockfile
          then Some (warn_run kInvalidJson (''npm: '' @ label @ '': not valid JSON, skipped'') ''npm'' run)
          else
            let lockfile_version = (case Option.bind (json_find lockfile ''lockfileVersion'') json_int of Some i \<Rightarrow> int_of i | None \<Rightarrow> 0)
            in if lockfile_version < kMinSupportedLockfileVersion
               then Some (warn_run kLockfileFormatUnsupported (''npm: '' @ label @
                 '': lockfileVersion 1 unsupported, regenerate with npm 7+, skipped'') ''npm'' run)
               else case json_find lockfile ''packages'' of
                 Some (Json_Object packages) \<Rightarrow>
                   (case npm_entries label package_limit packages 0 run of
                      None \<Rightarrow> None
                    | Some (skipped, run) \<Rightarrow>
                        Some (if skipped > 0
                          then warn_run kEntriesSkippedUnresolved (''npm: '' @ string_of_nat skipped @
                            '' workspace/link entrie(s) without a resolved version skipped: '' @ label) ''npm'' run
                          else run))
               | _ \<Rightarrow> Some (warn_run kMalformedEntrySkipped (''npm: '' @ label @
                   '': packages map missing or malformed, skipped'') ''npm'' run))"

definition npm_driver :: "(string \<Rightarrow> json option) \<Rightarrow> lock_driver" where
  "npm_driver parse = \<lparr>ld_ecosystem = ''npm'', ld_file_name = kPackageLockName, ld_parses_prefix = False,
     ld_parse_file = parse_package_lock parse\<rparr>"

definition npm_parse :: "(string \<Rightarrow> json option) \<Rightarrow> file_system \<Rightarrow> file_index \<Rightarrow> path \<Rightarrow> lock_options \<Rightarrow> component list result option" where
  "npm_parse parse fsys index root options = parse_lock_index (npm_driver parse) fsys index root options"

section \<open>Lemmas\<close>

lemma npm_component_produced: "produced label (npm_component label entry n v dev)"
proof -
  obtain rest where rest: "build_npm_purl n (trimmed v) = ''pkg:'' @ ''npm'' @ ''/'' @ rest" "rest \<noteq> []" "no_whitespace rest"
    by (rule that [of "drop 8 (build_npm_purl n (trimmed v))"]) (simp_all add: build_npm_purl_def split: option.split)
  have "to_lower_ascii ''npm'' = ''npm''" "no_whitespace ''npm''" by code_simp+
  then have "valid_purl (build_npm_purl n (trimmed v))"
    unfolding rest(1) using rest(2,3) by (intro valid_purl_shape) simp_all
  then show ?thesis by (simp add: produced_def npm_component_def new_component_def split: option.split)
qed

lemma npm_entries_step: "npm_entries label limit es n run = Some (n', run') \<Longrightarrow> lock_step (produced label) run run'"
proof (induction es arbitrary: n run)
  case (Cons e es)
  obtain k entry where e: "e = (k, entry)" by fastforce
  have one: "lock_step (produced label) run (snd (emit_component ''npm'' limit (npm_component label entry m v d) run))" for m v d
    by (rule lock_step_emit [OF npm_component_produced])
  from Cons.prems show ?case
    by (auto simp: e split: npm_entry.splits option.splits if_splits prod.splits bool.splits intro: Cons.IH one)
      (metis Cons.IH lock_step_trans one snd_conv)+
qed simp

interpretation npm: lockfile_parser "npm_driver parse" for parse
proof
  fix bs label limit run run'
  assume "ld_parse_file (npm_driver parse) bs label limit run = Some run'"
  then show "lock_step (produced label) run run'"
    by (auto simp: npm_driver_def parse_package_lock_def Let_def split: if_splits option.splits json.splits
        intro: npm_entries_step lock_step_trans [OF npm_entries_step])
qed

text \<open>A document the parser reads entries of, and what its entries say.\<close>

definition npm_document :: "(string \<Rightarrow> json option) \<Rightarrow> string \<Rightarrow> (string \<times> json) list \<Rightarrow> bool" where
  "npm_document parse bs packages \<longleftrightarrow>
     \<not> exceeds_json_nesting_depth (without_utf8_bom bs) kMaxJsonNestingDepth \<and>
     (case parse (without_utf8_bom bs) of
        Some lockfile \<Rightarrow>
          (case Option.bind (json_find lockfile ''lockfileVersion'') json_int of Some i \<Rightarrow> int_of i \<ge> kMinSupportedLockfileVersion | None \<Rightarrow> False) \<and>
          json_find lockfile ''packages'' = Some (Json_Object packages)
      | None \<Rightarrow> False)"

definition well_typed_entry :: "json \<Rightarrow> bool" where
  "well_typed_entry entry \<longleftrightarrow> json_flag entry ''link'' \<noteq> None \<and> json_flag entry ''dev'' \<noteq> None"

text \<open>An installed package: an object under \<open>node_modules\<close> that is no link and has a version. Its component.\<close>

definition is_installed :: "string \<Rightarrow> json \<Rightarrow> bool" where
  "is_installed k e \<longleftrightarrow> is_json_object e \<and> json_find e ''link'' \<noteq> Some (Json_Bool True) \<and>
     json_string_at e ''version'' \<noteq> None \<and> package_name_from_key k \<noteq> []"

definition installed_component :: "string \<Rightarrow> string \<times> json \<Rightarrow> component" where
  "installed_component label p = npm_component label (snd p) (package_name_from_key (fst p)) (the (json_string_at (snd p) ''version''))
     (json_find (snd p) ''dev'' = Some (Json_Bool True))"

definition npm_packages :: "string \<Rightarrow> (string \<times> json) list \<Rightarrow> component list" where
  "npm_packages label packages = map (installed_component label) (filter (\<lambda>p. is_installed (fst p) (snd p)) packages)"

lemma json_flag_bool: "json_flag e k = Some b \<Longrightarrow> (json_find e k = Some (Json_Bool True)) = b"
  by (auto simp: json_flag_def split: option.splits json.splits)

lemma read_npm_entry_installed:
  assumes "well_typed_entry e"
  shows "read_npm_entry k e = (if k = [] then Npm_Root
    else if is_installed k e then Npm_Package (package_name_from_key k) (the (json_string_at e ''version'')) else Npm_Skipped)"
proof -
  from assms obtain b where "json_flag e ''link'' = Some b" by (auto simp: well_typed_entry_def)
  with json_flag_bool [OF this] show ?thesis
    by (auto simp: read_npm_entry_def is_installed_def Let_def split: option.splits bool.splits)
qed

lemma empty_key_not_installed: "\<not> is_installed [] e"
proof -
  have "package_name_from_key [] = []" by code_simp
  then show ?thesis by (simp add: is_installed_def)
qed

lemma npm_entries_exact:
  "list_all (\<lambda>e. well_typed_entry (snd e)) es \<Longrightarrow>
   \<exists>n' run'. npm_entries label limit es n run = Some (n', run') \<and>
     lk_components run' = lk_components run @ take (lk_budget run) (npm_packages label es) \<and>
     complete (lk_result run') = (complete (lk_result run) \<and> length (npm_packages label es) \<le> lk_budget run)"
proof (induction es arbitrary: n run)
  case (Cons x es)
  obtain k e where x: "x = (k, e)" by fastforce
  from Cons.prems have w: "well_typed_entry e" "list_all (\<lambda>e. well_typed_entry (snd e)) es" by (simp_all add: x)
  note IH = Cons.IH [OF w(2)]
  show ?case
  proof (cases "is_installed k e")
    case True
    then have r: "read_npm_entry k e = Npm_Package (package_name_from_key k) (the (json_string_at e ''version''))"
      using read_npm_entry_installed [OF w(1), of k] empty_key_not_installed by auto
    from w(1) obtain d where d: "json_flag e ''dev'' = Some d" by (auto simp: well_typed_entry_def)
    let ?c = "npm_component label e (package_name_from_key k) (the (json_string_at e ''version'')) d"
    have c: "valid_purl (comp_purl ?c)" using npm_component_produced by (simp add: produced_def)
    have p: "npm_packages label (x # es) = ?c # npm_packages label es"
      using True json_flag_bool [OF d] by (simp add: x npm_packages_def installed_component_def)
    show ?thesis
    proof (cases "lk_budget run")
      case 0
      with r d p show ?thesis by (simp add: x emit_component_def Let_def)
    next
      case (Suc b)
      from IH [of n "run\<lparr>lk_budget := b, lk_components := lk_components run @ [?c]\<rparr>"] r d c Suc p
      show ?thesis by (simp add: x emit_component_def finish_valid)
    qed
  next
    case False
    then have "read_npm_entry k e \<in> {Npm_Root, Npm_Skipped}" "npm_packages label (x # es) = npm_packages label es"
      using read_npm_entry_installed [OF w(1), of k] by (auto simp: x npm_packages_def)
    then show ?thesis using IH by (auto simp: x)
  qed
qed (simp add: npm_packages_def)

text \<open>C40: On a lock file whose flags are booleans where they are present the parser returns, and reports exactly the packages
  under \<open>node_modules\<close> that have a resolved version and are no links, in the order of the document, with their scope,
  licence and valid package URL, until the budget is used up.\<close>

theorem npm_well_typed_exact:
  assumes "npm_document parse bs packages" "list_all (\<lambda>e. well_typed_entry (snd e)) packages"
  shows "(case parse_package_lock parse bs label limit run of
      None \<Rightarrow> False
    | Some run' \<Rightarrow>
        lk_components run' = lk_components run @ take (lk_budget run) (npm_packages label packages) \<and>
        complete (lk_result run') = (complete (lk_result run) \<and> length (npm_packages label packages) \<le> lk_budget run))"
proof -
  from assms(1) obtain lockfile where l: "parse (without_utf8_bom bs) = Some lockfile"
      "json_find lockfile ''packages'' = Some (Json_Object packages)"
    and i: "case Option.bind (json_find lockfile ''lockfileVersion'') json_int of Some i \<Rightarrow> int_of i \<ge> kMinSupportedLockfileVersion | None \<Rightarrow> False"
    and d: "\<not> exceeds_json_nesting_depth (without_utf8_bom bs) kMaxJsonNestingDepth"
    by (auto simp: npm_document_def split: option.splits)
  from i obtain j where j: "Option.bind (json_find lockfile ''lockfileVersion'') json_int = Some j" "\<not> int_of j < kMinSupportedLockfileVersion"
    by (auto split: option.splits)
  have object: "is_json_object lockfile" using l(2) by (cases lockfile) simp_all
  from npm_entries_exact [OF assms(2), of label limit 0 run] obtain n' run' where
    e: "npm_entries label limit packages 0 run = Some (n', run')"
      "lk_components run' = lk_components run @ take (lk_budget run) (npm_packages label packages)"
      "complete (lk_result run') = (complete (lk_result run) \<and> length (npm_packages label packages) \<le> lk_budget run)" by blast
  show ?thesis by (simp add: parse_package_lock_def Let_def d l j object e)
qed

definition sample_packages :: "(string \<times> json) list" where
  "sample_packages = [([], Json_Object []), (''node_modules/@x/y'', Json_Object [(''dev'', Json_Bool True), (''version'', Json_String ''1.2'')]),
     (''packages/own'', Json_Object [(''version'', Json_String ''0'')])]"

definition sample_npm_parse :: "string \<Rightarrow> json option" where
  "sample_npm_parse s = (if s = ''{}'' then Some (Json_Object [(''lockfileVersion'', Json_Int 3), (''packages'', Json_Object sample_packages)]) else None)"

theorem npm_well_typed_exact_witness:
  "map comp_purl (lk_components (the (parse_package_lock sample_npm_parse ''{}'' ''package-lock.json'' 5
     (start_run \<lparr>lo_max_file_bytes = 100, lo_max_scanned_files = 1, lo_max_total_packages = 5\<rparr>)))) = [''pkg:npm/%40x/y@1.2'']"
proof -
  let ?run = "start_run \<lparr>lo_max_file_bytes = 100, lo_max_scanned_files = 1, lo_max_total_packages = 5\<rparr>"
  have "npm_document sample_npm_parse ''{}'' sample_packages" "list_all (\<lambda>e. well_typed_entry (snd e)) sample_packages" by code_simp+
  moreover have "map comp_purl (npm_packages ''package-lock.json'' sample_packages) = [''pkg:npm/%40x/y@1.2'']" by code_simp
  ultimately show ?thesis
    using npm_well_typed_exact [where run = ?run and label = "''package-lock.json''" and limit = 5]
    by (fastforce simp: start_run_def take_map [symmetric] split: option.splits)
qed

text \<open>A lock file with a flag that is no boolean ends the program: the exception of the library is not caught.\<close>

lemma npm_flag_type_raises:
  assumes "npm_document parse bs [(''node_modules/a'', Json_Object [(''link'', Json_Int 1), (''version'', Json_String v)])]"
  shows "parse_package_lock parse bs label limit run = None"
proof -
  from assms obtain lockfile where l: "parse (without_utf8_bom bs) = Some lockfile"
      "json_find lockfile ''packages'' = Some (Json_Object [(''node_modules/a'', Json_Object [(''link'', Json_Int 1), (''version'', Json_String v)])])"
    and i: "case Option.bind (json_find lockfile ''lockfileVersion'') json_int of Some i \<Rightarrow> int_of i \<ge> kMinSupportedLockfileVersion | None \<Rightarrow> False"
    and d: "\<not> exceeds_json_nesting_depth (without_utf8_bom bs) kMaxJsonNestingDepth"
    by (auto simp: npm_document_def split: option.splits)
  from i obtain j where j: "Option.bind (json_find lockfile ''lockfileVersion'') json_int = Some j" "\<not> int_of j < kMinSupportedLockfileVersion"
    by (auto split: option.splits)
  have "is_json_object lockfile" using l(2) by (cases lockfile) simp_all
  then show ?thesis by (simp add: parse_package_lock_def Let_def d l j read_npm_entry_def json_flag_def)
qed

end
