(* ===== verification/Cpe.thy ===== *)
theory Cpe
  imports Model Percent
begin

text \<open>
  Which components a vulnerability feed can match: \<open>core/match_coverage.hpp\<close> and \<open>core/match_coverage.cpp\<close> classify package
  URLs, and \<open>vuln/cpe.hpp\<close> and \<open>vuln/cpe.cpp\<close> synthesize CPE 2.3 names for those without an OSV ecosystem. The lemmas show that
  what a manifest says cannot leave its field of a CPE name or of a query.
\<close>

section \<open>Match coverage\<close>

datatype match_coverage = Matched | UnmappedPurlType | UnversionedPurl | NoIdentifier

definition match_coverage_to_string :: "match_coverage \<Rightarrow> string" where
  "match_coverage_to_string c = (case c of Matched \<Rightarrow> ''matched'' | UnmappedPurlType \<Rightarrow> ''unmapped-purl-type''
     | UnversionedPurl \<Rightarrow> ''unversioned-purl'' | NoIdentifier \<Rightarrow> ''no-identifier'')"

definition match_coverage_reason :: "match_coverage \<Rightarrow> string" where
  "match_coverage_reason c = (case c of Matched \<Rightarrow> []
     | UnmappedPurlType \<Rightarrow> ''package type has no OSV ecosystem mapping (Conan, vcpkg, generic)''
     | UnversionedPurl \<Rightarrow> ''no resolved version: nothing to match against''
     | NoIdentifier \<Rightarrow> ''no purl at all: component has no matchable identifier'')"

definition kUnmappedPurlTypes :: "string list" where
  "kUnmappedPurlTypes = [''conan'', ''vcpkg'', ''generic'']"

definition classify_match_coverage :: "string \<Rightarrow> match_coverage" where
  "classify_match_coverage purl =
     (let identity_part = purl_identity_part purl in
      if \<not> starts_with identity_part ''pkg:'' then NoIdentifier
      else let version = purl_version_of identity_part in
        if version = [] then UnversionedPurl
        else if is_hex_object_id version then Matched
        else if purl_type_of purl \<in> set kUnmappedPurlTypes then UnmappedPurlType
        else Matched)"

record match_coverage_summary =
  mc_total :: nat
  mc_matchable :: nat
  mc_unmapped_purl_type :: nat
  mc_unversioned_purl :: nat
  mc_no_identifier :: nat

definition count_coverage :: "match_coverage_summary \<Rightarrow> component \<Rightarrow> match_coverage_summary" where
  "count_coverage summary c =
     (case classify_match_coverage (comp_purl c) of
        Matched \<Rightarrow> summary
      | UnmappedPurlType \<Rightarrow> summary\<lparr>mc_unmapped_purl_type := mc_unmapped_purl_type summary + 1\<rparr>
      | UnversionedPurl \<Rightarrow> summary\<lparr>mc_unversioned_purl := mc_unversioned_purl summary + 1\<rparr>
      | NoIdentifier \<Rightarrow> summary\<lparr>mc_no_identifier := mc_no_identifier summary + 1\<rparr>)"

definition summarize_match_coverage :: "component list \<Rightarrow> match_coverage_summary" where
  "summarize_match_coverage components =
     (let summary = foldl count_coverage
        \<lparr>mc_total = length components, mc_matchable = 0, mc_unmapped_purl_type = 0, mc_unversioned_purl = 0, mc_no_identifier = 0\<rparr>
        components
      in summary\<lparr>mc_matchable := mc_total summary - mc_unmapped_purl_type summary - mc_unversioned_purl summary - mc_no_identifier summary\<rparr>)"

section \<open>CPE names\<close>

definition kMaxCpeSegmentBytes :: nat where "kMaxCpeSegmentBytes = 128"
definition kCpeApplicationPrefix :: string where "kCpeApplicationPrefix = ''cpe:2.3:a:''"
definition kAnyVendor :: string where "kAnyVendor = ''*''"
definition kRemainingWildcardAttributes :: string where "kRemainingWildcardAttributes = '':*:*:*:*:*:*:*''"

definition is_safe_cpe_character :: "char \<Rightarrow> bool" where
  "is_safe_cpe_character ch \<longleftrightarrow>
     (let is_lowercase_letter = (ch \<ge> CHR ''a'' \<and> ch \<le> CHR ''z'');
          is_digit = (ch \<ge> CHR ''0'' \<and> ch \<le> CHR ''9'');
          is_permitted_punctuation = (ch \<in> set ''._+-'')
      in is_lowercase_letter \<or> is_digit \<or> is_permitted_punctuation)"

definition validated_segment :: "string \<Rightarrow> string option" where
  "validated_segment segment =
     (if segment = [] \<or> length segment > kMaxCpeSegmentBytes then None
      else let lowercased = to_lower_ascii segment in
        if list_all is_safe_cpe_character lowercased then Some lowercased else None)"

definition cpe_match_string_for :: "string \<Rightarrow> string option" where
  "cpe_match_string_for purl =
     (let identity_part = purl_identity_part purl in
      if \<not> starts_with identity_part ''pkg:'' then None
      else case validated_segment (purl_name_of identity_part) of
        None \<Rightarrow> None
      | Some product \<Rightarrow>
          (case validated_segment (purl_version_of identity_part) of
             None \<Rightarrow> None
           | Some version \<Rightarrow> Some (kCpeApplicationPrefix @ kAnyVendor @ '':'' @ product @ '':'' @ version)))"

definition cpe_identifier_for :: "string \<Rightarrow> string option" where
  "cpe_identifier_for purl =
     (case cpe_match_string_for purl of None \<Rightarrow> None | Some identifier \<Rightarrow> Some (identifier @ kRemainingWildcardAttributes))"

datatype cpe_population_scope = UnmappedOnly | AllVersioned

definition populate_component :: "cpe_population_scope \<Rightarrow> component \<Rightarrow> component" where
  "populate_component sc c =
     (if comp_cpe c \<noteq> [] then c
      else if sc = UnmappedOnly \<and> classify_match_coverage (comp_purl c) \<noteq> UnmappedPurlType then c
      else case cpe_identifier_for (comp_purl c) of
        None \<Rightarrow> c
      | Some identifier \<Rightarrow>
          let c = c\<lparr>comp_cpe := identifier\<rparr> in
          if sc = AllVersioned then c\<lparr>comp_cpe_provenance := SynthesizedWildcardVendor\<rparr> else c)"

definition populate_cpe_identifiers :: "component list \<Rightarrow> cpe_population_scope \<Rightarrow> component list" where
  "populate_cpe_identifiers components sc = map (populate_component sc) components"

definition kUnreservedUrlCharacters :: string where
  "kUnreservedUrlCharacters = ''ABCDEFGHIJKLMNOPQRSTUVWXYZabcdefghijklmnopqrstuvwxyz0123456789-._~''"

fun percent_encode_query_value :: "string \<Rightarrow> string" where
  "percent_encode_query_value [] = []"
| "percent_encode_query_value (ch # rest) =
     (if ch \<in> set kUnreservedUrlCharacters then ch # percent_encode_query_value rest
      else CHR ''%'' # hex_digit_upper (drop_bit 4 (of_char ch) AND 0x0F) # hex_digit_upper (of_char ch AND 0x0F)
        # percent_encode_query_value rest)"

section \<open>Lemmas\<close>

lemma count_coverage_counts:
  "mc_total (foldl count_coverage s cs) = mc_total s \<and>
   mc_unmapped_purl_type (foldl count_coverage s cs) = mc_unmapped_purl_type s + length (filter (\<lambda>c. classify_match_coverage (comp_purl c) = UnmappedPurlType) cs) \<and>
   mc_unversioned_purl (foldl count_coverage s cs) = mc_unversioned_purl s + length (filter (\<lambda>c. classify_match_coverage (comp_purl c) = UnversionedPurl) cs) \<and>
   mc_no_identifier (foldl count_coverage s cs) = mc_no_identifier s + length (filter (\<lambda>c. classify_match_coverage (comp_purl c) = NoIdentifier) cs)"
  by (induction cs arbitrary: s) (simp_all add: count_coverage_def split: match_coverage.split)

lemma coverage_partition:
  "length (cs :: component list) = length (filter (\<lambda>c. f c = Matched) cs) + length (filter (\<lambda>c. f c = UnmappedPurlType) cs) +
     length (filter (\<lambda>c. f c = UnversionedPurl) cs) + length (filter (\<lambda>c. f c = NoIdentifier) cs)"
proof (induction cs)
  case (Cons c cs)
  then show ?case by (cases "f c") simp_all
qed simp

text \<open>Each component is in one class, and the subtraction in the summary never goes below zero.\<close>

theorem match_coverage_counts:
  "(let s = summarize_match_coverage cs; count = (\<lambda>k. length (filter (\<lambda>c. classify_match_coverage (comp_purl c) = k) cs)) in
    mc_total s = length cs \<and> mc_matchable s = count Matched \<and> mc_unmapped_purl_type s = count UnmappedPurlType \<and>
    mc_unversioned_purl s = count UnversionedPurl \<and> mc_no_identifier s = count NoIdentifier)"
proof -
  let ?s = "\<lparr>mc_total = length cs, mc_matchable = 0, mc_unmapped_purl_type = 0, mc_unversioned_purl = 0, mc_no_identifier = 0\<rparr>"
  from count_coverage_counts [of ?s cs] coverage_partition [of cs "\<lambda>c. classify_match_coverage (comp_purl c)"]
  show ?thesis by (simp add: summarize_match_coverage_def Let_def)
qed

lemma validated_segment_SomeD:
  assumes "validated_segment s = Some t"
  shows "t = to_lower_ascii s" "t \<noteq> []" "length t \<le> kMaxCpeSegmentBytes" "list_all is_safe_cpe_character t"
  using assms by (auto simp: validated_segment_def Let_def split: if_splits)

lemma safe_not_special: "is_safe_cpe_character ch \<Longrightarrow> ch \<noteq> CHR '':'' \<and> ch \<noteq> CHR ''*'' \<and> ch \<noteq> CHR ''?'' \<and> ch \<noteq> CHR 0x5C"
  by (auto simp: is_safe_cpe_character_def)

lemma safe_no_colon: "list_all is_safe_cpe_character t \<Longrightarrow> CHR '':'' \<notin> set t"
  using safe_not_special by (auto simp: list_all_iff)

lemma split_on_colon_append: "split_on CHR '':'' (f @ CHR '':'' # s) = f # split_on CHR '':'' s" if "CHR '':'' \<notin> set f"
  by (rule split_on_append_sep [OF that])

lemma cpe_fields:
  assumes "CHR '':'' \<notin> set p" "CHR '':'' \<notin> set v"
  shows "split_on CHR '':'' (kCpeApplicationPrefix @ kAnyVendor @ '':'' @ p @ '':'' @ v @ kRemainingWildcardAttributes) =
    [''cpe'', ''2.3'', ''a'', ''*'', p, v, ''*'', ''*'', ''*'', ''*'', ''*'', ''*'', ''*'']"
proof -
  have "split_on CHR '':'' kRemainingWildcardAttributes = [[], ''*'', ''*'', ''*'', ''*'', ''*'', ''*'', ''*'']" by code_simp
  then obtain "rest" where r: "kRemainingWildcardAttributes = CHR '':'' # rest" "split_on CHR '':'' rest = replicate 7 ''*''"
    by (simp add: kRemainingWildcardAttributes_def numeral_eq_Suc)
  have "kCpeApplicationPrefix @ kAnyVendor @ '':'' @ p @ '':'' @ v @ kRemainingWildcardAttributes =
      ''cpe'' @ CHR '':'' # ''2.3'' @ CHR '':'' # ''a'' @ CHR '':'' # ''*'' @ CHR '':'' # p @ CHR '':'' # v @ CHR '':'' # rest"
    by (simp add: kCpeApplicationPrefix_def kAnyVendor_def r(1))
  then show ?thesis using assms by (simp add: split_on_append_sep r(2) numeral_eq_Suc del: append.append_Cons)
qed

text \<open>C25: A synthesized CPE name has the thirteen fields of the format whatever the package URL of a manifest holds: a wildcard for
  every field but the product and the version, which are the lower-cased name and version of the URL, bounded in length
  and of letters, digits and four marks only, so neither can add a field, a wildcard or an escape.\<close>

theorem cpe_name_contained:
  "(case cpe_identifier_for purl of
      None \<Rightarrow> True
    | Some name \<Rightarrow>
        let product = to_lower_ascii (purl_name_of (purl_identity_part purl));
            version = to_lower_ascii (purl_version_of (purl_identity_part purl)) in
        split_on CHR '':'' name = [''cpe'', ''2.3'', ''a'', ''*'', product, version, ''*'', ''*'', ''*'', ''*'', ''*'', ''*'', ''*''] \<and>
        list_all (\<lambda>s. s \<noteq> [] \<and> length s \<le> kMaxCpeSegmentBytes \<and> list_all is_safe_cpe_character s \<and>
          list_all (\<lambda>ch. ch \<notin> set s) [CHR '':'', CHR ''*'', CHR ''?'', CHR 0x5C]) [product, version])"
proof (cases "cpe_identifier_for purl")
  case (Some name)
  let ?id = "purl_identity_part purl"
  from Some obtain p v where p: "validated_segment (purl_name_of ?id) = Some p" and v: "validated_segment (purl_version_of ?id) = Some v"
    and name: "name = kCpeApplicationPrefix @ kAnyVendor @ '':'' @ p @ '':'' @ v @ kRemainingWildcardAttributes"
    by (auto simp: cpe_identifier_for_def cpe_match_string_for_def Let_def split: option.splits if_splits)
  note ps = validated_segment_SomeD [OF p] and vs = validated_segment_SomeD [OF v]
  have special: "list_all (\<lambda>ch. ch \<notin> set s) [CHR '':'', CHR ''*'', CHR ''?'', CHR 0x5C]" if "list_all is_safe_cpe_character s" for s
    using that safe_not_special by (auto simp: list_all_iff)
  show ?thesis
    using cpe_fields [OF safe_no_colon [OF ps(4)] safe_no_colon [OF vs(4)]] ps vs special by (simp add: Some name Let_def)
qed simp

text \<open>Populating touches nothing but the two CPE fields, and those only of components without a CPE.\<close>

theorem populate_cpe_frame:
  "list_all2 (\<lambda>c c'. c'\<lparr>comp_cpe := comp_cpe c, comp_cpe_provenance := comp_cpe_provenance c\<rparr> = c \<and>
      (if comp_cpe c \<noteq> [] then c' = c
       else comp_cpe c' = [] \<or> cpe_identifier_for (comp_purl c) = Some (comp_cpe c')))
    cs (populate_cpe_identifiers cs sc)"
  by (auto simp: populate_cpe_identifiers_def list_all2_map2 list_all2_same populate_component_def Let_def split: option.split)

text \<open>The query encoder is the encoder of package URLs, written a second time.\<close>

lemma unreserved_url: "ch \<in> set kUnreservedUrlCharacters \<longleftrightarrow> is_unreserved ch"
proof -
  have "\<forall>ch. ch \<in> set kUnreservedUrlCharacters \<longleftrightarrow> is_unreserved ch" by code_simp
  then show ?thesis by blast
qed

theorem query_encoders_agree: "percent_encode_query_value s = percent_encode s"
proof (induction s)
  case (Cons ch s)
  have "drop_bit 4 (of_char ch :: nat) AND 0x0F = drop_bit 4 (of_char ch)"
    using nat_of_char_less_256 [of ch] by (simp add: and_0x0F drop_bit_eq_div)
  with Cons show ?case by (simp add: unreserved_url)
qed simp

end
