(* ===== verification/Feeds.thy ===== *)
theory Feeds
  imports Model "HOL-Library.Product_Lexorder"
begin

text \<open>
  The feeds of advisories: \<open>vuln/delta.hpp\<close> and \<open>vuln/delta.cpp\<close> compare two snapshots of one package, \<open>vuln/finding.hpp\<close> and
  \<open>vuln/finding.cpp\<close> recognise CVE identifiers and join the outcomes of two feeds, \<open>vuln/endpoints.hpp\<close> and
  \<open>vuln/endpoints.cpp\<close> hold the list of addresses a request may go to. An advisory with its score is a type parameter of
  the outcomes, which never look into it.
\<close>

section \<open>Deltas\<close>

record advisory_revision =
  advisory_id :: string
  modified :: string

record purl_advisory_delta =
  delta_purl :: string
  added_advisory_ids :: "string list"
  modified_advisory_ids :: "string list"
  removed_advisory_ids :: "string list"

definition is_unchanged :: "purl_advisory_delta \<Rightarrow> bool" where
  "is_unchanged d \<longleftrightarrow> added_advisory_ids d = [] \<and> modified_advisory_ids d = [] \<and> removed_advisory_ids d = []"

record osv_delta_report =
  changed_purls :: "purl_advisory_delta list"
  purls_examined :: nat
  purls_unchanged :: nat

fun diff_loop :: "advisory_revision list \<Rightarrow> advisory_revision list \<Rightarrow> purl_advisory_delta \<Rightarrow> purl_advisory_delta" where
  "diff_loop (p # ps) (c # cs) delta =
     (if advisory_id p = advisory_id c then
        diff_loop ps cs (if modified p \<noteq> modified c
          then delta\<lparr>modified_advisory_ids := modified_advisory_ids delta @ [advisory_id c]\<rparr> else delta)
      else if advisory_id p < advisory_id c then
        diff_loop ps (c # cs) (delta\<lparr>removed_advisory_ids := removed_advisory_ids delta @ [advisory_id p]\<rparr>)
      else diff_loop (p # ps) cs (delta\<lparr>added_advisory_ids := added_advisory_ids delta @ [advisory_id c]\<rparr>))"
| "diff_loop ps [] delta = delta\<lparr>removed_advisory_ids := removed_advisory_ids delta @ map advisory_id ps\<rparr>"
| "diff_loop [] cs delta = delta\<lparr>added_advisory_ids := added_advisory_ids delta @ map advisory_id cs\<rparr>"

definition diff_advisory_revisions :: "string \<Rightarrow> advisory_revision list \<Rightarrow> advisory_revision list \<Rightarrow> purl_advisory_delta" where
  "diff_advisory_revisions purl previous current =
     diff_loop previous current
       \<lparr>delta_purl = purl, added_advisory_ids = [], modified_advisory_ids = [], removed_advisory_ids = []\<rparr>"

section \<open>Findings\<close>

datatype match_provenance = PurlExact | CpeFallback

definition match_provenance_to_string :: "match_provenance \<Rightarrow> string" where
  "match_provenance_to_string p = (case p of PurlExact \<Rightarrow> ''purl-exact'' | CpeFallback \<Rightarrow> ''cpe-fallback'')"

definition is_high_confidence_provenance :: "match_provenance \<Rightarrow> bool" where
  "is_high_confidence_provenance p \<longleftrightarrow> p = PurlExact"

definition provenance_rank :: "match_provenance \<Rightarrow> nat" where
  "provenance_rank p = (case p of PurlExact \<Rightarrow> 0 | CpeFallback \<Rightarrow> 1)"

definition is_ascii_digit :: "char \<Rightarrow> bool" where
  "is_ascii_digit ch \<longleftrightarrow> ch \<ge> CHR ''0'' \<and> ch \<le> CHR ''9''"

definition is_cve_shaped_id :: "string \<Rightarrow> bool" where
  "is_cve_shaped_id candidate =
     (if \<not> starts_with candidate ''CVE-'' then False
      else let remainder = drop 4 candidate in
        if length remainder < 4 + 1 + 4 then False
        else if \<not> list_all is_ascii_digit (take 4 remainder) then False
        else if remainder ! 4 \<noteq> CHR ''-'' then False
        else list_all is_ascii_digit (drop 5 remainder))"

definition canonical_cve_id :: "string \<Rightarrow> string" where
  "canonical_cve_id candidate =
     (let canonical = to_upper_ascii (trimmed_view candidate) in if \<not> is_cve_shaped_id canonical then [] else canonical)"

record 'a vulnerability_hit =
  hit_purl :: string
  advisories :: "'a list"
  provenance :: match_provenance

record 'a match_outcome =
  hits :: "'a vulnerability_hit list"
  deltas :: osv_delta_report
  components_without_osv_coverage :: nat
  cpe_checked_purls :: "string list"

definition hit_key :: "'a vulnerability_hit \<Rightarrow> string \<times> nat" where
  "hit_key hit = (hit_purl hit, provenance_rank (provenance hit))"

definition merge_outcomes :: "'a match_outcome \<Rightarrow> 'a match_outcome \<Rightarrow> 'a match_outcome" where
  "merge_outcomes purl_outcome cpe_outcome =
     \<lparr>hits = sort_key hit_key (hits purl_outcome @ hits cpe_outcome),
      deltas = \<lparr>changed_purls = sort_key delta_purl (changed_purls (deltas purl_outcome) @ changed_purls (deltas cpe_outcome)),
                purls_examined = purls_examined (deltas purl_outcome) + purls_examined (deltas cpe_outcome),
                purls_unchanged = purls_unchanged (deltas purl_outcome) + purls_unchanged (deltas cpe_outcome)\<rparr>,
      components_without_osv_coverage =
        components_without_osv_coverage purl_outcome + components_without_osv_coverage cpe_outcome,
      cpe_checked_purls = unique_adj (=) (sort (cpe_checked_purls purl_outcome @ cpe_checked_purls cpe_outcome))\<rparr>"

section \<open>Endpoints\<close>

record feed_endpoint =
  endpoint_name :: string
  endpoint_url :: string
  endpoint_purpose :: string
  allows_subpaths :: bool

definition kOsvQueryBatchUrl :: string where "kOsvQueryBatchUrl = ''https://api.osv.dev/v1/querybatch''"
definition kOsvQueryUrl :: string where "kOsvQueryUrl = ''https://api.osv.dev/v1/query''"
definition kNvdCveApiUrl :: string where "kNvdCveApiUrl = ''https://services.nvd.nist.gov/rest/json/cves/2.0''"
definition kCratesIoCrateVersionApiUrl :: string where "kCratesIoCrateVersionApiUrl = ''https://crates.io/api/v1/crates/''"
definition kPyPiProjectVersionApiUrl :: string where "kPyPiProjectVersionApiUrl = ''https://pypi.org/pypi/''"
definition kRubyGemsVersionApiUrl :: string where "kRubyGemsVersionApiUrl = ''https://rubygems.org/api/v2/rubygems/''"

definition kFeedEndpoints :: "feed_endpoint list" where
  "kFeedEndpoints =
     [\<lparr>endpoint_name = ''OSV querybatch'', endpoint_url = kOsvQueryBatchUrl,
       endpoint_purpose = ''batched advisory detection for components with an OSV-supported ecosystem'', allows_subpaths = False\<rparr>,
      \<lparr>endpoint_name = ''OSV query'', endpoint_url = kOsvQueryUrl,
       endpoint_purpose = ''full advisory records (CVSS severity) for a component already known to be affected'', allows_subpaths = False\<rparr>,
      \<lparr>endpoint_name = ''NVD CVE API 2.0'', endpoint_url = kNvdCveApiUrl,
       endpoint_purpose = ''CPE-based advisory lookup for Conan/vcpkg/generic components OSV cannot match (--cpe-fallback only)'',
       allows_subpaths = False\<rparr>,
      \<lparr>endpoint_name = ''crates.io crate version API'', endpoint_url = kCratesIoCrateVersionApiUrl,
       endpoint_purpose = ''declared license for an exact Cargo package version (--license-fallback only)'', allows_subpaths = True\<rparr>,
      \<lparr>endpoint_name = ''PyPI project version API'', endpoint_url = kPyPiProjectVersionApiUrl,
       endpoint_purpose = ''declared license metadata for an exact Python package version (--license-fallback only)'',
       allows_subpaths = True\<rparr>,
      \<lparr>endpoint_name = ''RubyGems version API'', endpoint_url = kRubyGemsVersionApiUrl,
       endpoint_purpose = ''declared licenses for an exact gem version (--license-fallback only)'', allows_subpaths = True\<rparr>]"

definition is_safe_registry_character :: "char \<Rightarrow> bool" where
  "is_safe_registry_character ch \<longleftrightarrow>
     (ch \<ge> CHR ''a'' \<and> ch \<le> CHR ''z'') \<or> (ch \<ge> CHR ''0'' \<and> ch \<le> CHR ''9'') \<or> ch \<in> set ''._+-''"

function is_safe_registry_subpath :: "string \<Rightarrow> bool" where
  "is_safe_registry_subpath subpath =
     (if subpath = [] then False
      else let separator = find_char CHR ''/'' subpath;
               segment = (case separator of None \<Rightarrow> subpath | Some i \<Rightarrow> take i subpath) in
        if segment = [] \<or> segment = ''.'' \<or> segment = ''..'' then False
        else if \<not> list_all is_safe_registry_character segment then False
        else case separator of None \<Rightarrow> True | Some i \<Rightarrow> is_safe_registry_subpath (drop (i + 1) subpath))"
  by pat_completeness auto
termination by (relation "measure length") auto

declare is_safe_registry_subpath.simps [simp del]

definition register_feed_endpoints :: "feed_endpoint list \<Rightarrow> feed_endpoint list \<Rightarrow> feed_endpoint list" where
  "register_feed_endpoints storage endpoints = storage @ endpoints"

definition endpoint_matches :: "string \<Rightarrow> feed_endpoint \<Rightarrow> bool" where
  "endpoint_matches url endpoint =
     (if url = endpoint_url endpoint then True
      else if allows_subpaths endpoint then
        starts_with url (endpoint_url endpoint) \<and> is_safe_registry_subpath (drop (length (endpoint_url endpoint)) url)
      else length url > length (endpoint_url endpoint) \<and> starts_with url (endpoint_url endpoint) \<and>
        url ! length (endpoint_url endpoint) = CHR ''?'')"

definition is_allowlisted_feed_url :: "feed_endpoint list \<Rightarrow> string \<Rightarrow> bool" where
  "is_allowlisted_feed_url registered url \<longleftrightarrow>
     list_ex (endpoint_matches url) kFeedEndpoints \<or> list_ex (endpoint_matches url) registered"

section \<open>The diff is the difference of two sets\<close>

abbreviation sorted_revisions :: "advisory_revision list \<Rightarrow> bool" where
  "sorted_revisions rs \<equiv> sorted_wrt (<) (map advisory_id rs)"

definition revision_of :: "advisory_revision list \<Rightarrow> string \<Rightarrow> string option" where
  "revision_of rs = map_of (map (\<lambda>r. (advisory_id r, modified r)) rs)"

lemma revision_of_Nil [simp]: "revision_of [] i = None"
  by (simp add: revision_of_def)

lemma revision_of_Cons [simp]: "revision_of (r # rs) i = (if i = advisory_id r then Some (modified r) else revision_of rs i)"
  by (simp add: revision_of_def)

lemma revision_of_None: "revision_of rs i = None \<longleftrightarrow> i \<notin> advisory_id ` set rs"
  by (simp add: revision_of_def map_of_eq_None_iff image_image)

lemma revision_of_below: "\<forall>x \<in> advisory_id ` set rs. i < x \<Longrightarrow> revision_of rs i = None"
  by (auto simp: revision_of_None)

definition new_ids :: "advisory_revision list \<Rightarrow> advisory_revision list \<Rightarrow> string list" where
  "new_ids before after = filter (\<lambda>i. revision_of before i = None) (map advisory_id after)"

definition moved_ids :: "advisory_revision list \<Rightarrow> advisory_revision list \<Rightarrow> string list" where
  "moved_ids before after =
     filter (\<lambda>i. case revision_of before i of None \<Rightarrow> False | Some m \<Rightarrow> revision_of after i \<noteq> Some m) (map advisory_id after)"

lemma new_ids_skip: "advisory_id p \<notin> advisory_id ` set cs \<Longrightarrow> new_ids (p # ps) cs = new_ids ps cs"
  by (auto simp: new_ids_def intro!: filter_cong)

lemma new_ids_Cons: "new_ids ps (c # cs) = (if advisory_id c \<in> advisory_id ` set ps then [] else [advisory_id c]) @ new_ids ps cs"
  by (simp add: new_ids_def revision_of_None)

lemma moved_ids_skip: "advisory_id p \<notin> advisory_id ` set cs \<Longrightarrow> moved_ids (p # ps) cs = moved_ids ps cs"
  by (auto simp: moved_ids_def intro!: filter_cong)

lemma moved_ids_Cons:
  assumes "advisory_id c \<notin> advisory_id ` set cs"
  shows "moved_ids ps (c # cs) =
    (case revision_of ps (advisory_id c) of None \<Rightarrow> [] | Some m \<Rightarrow> if m \<noteq> modified c then [advisory_id c] else []) @ moved_ids ps cs"
proof -
  have "filter (\<lambda>i. case revision_of ps i of None \<Rightarrow> False | Some m \<Rightarrow> revision_of (c # cs) i \<noteq> Some m) (map advisory_id cs) = moved_ids ps cs"
    using assms by (auto simp: moved_ids_def intro!: filter_cong split: option.splits)
  then show ?thesis by (auto simp: moved_ids_def split: option.splits)
qed

lemma ids_above: "sorted_revisions (r # rs) \<Longrightarrow> i \<le> advisory_id r \<Longrightarrow> i \<notin> advisory_id ` set rs"
  by fastforce

lemma diff_loop_exact:
  assumes "sorted_revisions ps" "sorted_revisions cs"
  shows "diff_loop ps cs delta =
    delta\<lparr>added_advisory_ids := added_advisory_ids delta @ new_ids ps cs,
      modified_advisory_ids := modified_advisory_ids delta @ moved_ids ps cs,
      removed_advisory_ids := removed_advisory_ids delta @ new_ids cs ps\<rparr>"
  using assms
proof (induction ps cs delta rule: diff_loop.induct)
  case (1 p ps c cs delta)
  let ?p = "advisory_id p" and ?c = "advisory_id c"
  note above = ids_above [OF 1(4)] ids_above [OF 1(5)]
  have tails: "sorted_revisions ps" "sorted_revisions cs" using 1(4,5) by simp_all
  consider (same) "?p = ?c" | (gone) "?p < ?c" | (fresh) "?c < ?p" by (metis linorder_less_linear)
  then show ?case
  proof cases
    case same
    with above have out: "?p \<notin> advisory_id ` set cs" "?c \<notin> advisory_id ` set ps" "?p \<notin> advisory_id ` set ps" "?c \<notin> advisory_id ` set cs" by auto
    with same show ?thesis
      by (simp add: 1(1) tails new_ids_Cons new_ids_skip moved_ids_Cons moved_ids_skip)
  next
    case gone
    with above have out: "?p \<notin> advisory_id ` set (c # cs)" by auto
    with gone show ?thesis
      by (simp add: 1(2) [OF _ _ tails(1) 1(5)] new_ids_skip moved_ids_skip new_ids_Cons [of "c # cs" p])
  next
    case fresh
    with above have out: "?c \<notin> advisory_id ` set (p # ps)" "?c \<notin> advisory_id ` set cs" by auto
    then have "moved_ids (p # ps) (c # cs) = moved_ids (p # ps) cs"
      using moved_ids_Cons [OF out(2), of "p # ps"] by (simp add: revision_of_None [THEN iffD2] split: option.splits)
    with out fresh show ?thesis
      by (simp add: 1(3) [OF _ _ 1(4) tails(2)] new_ids_skip [of c] new_ids_Cons [of "p # ps" c] less_not_sym)
  qed
qed (simp_all add: new_ids_def moved_ids_def)

lemma new_ids_eq: "new_ids before after = filter (\<lambda>i. i \<notin> set (map advisory_id before)) (map advisory_id after)"
  by (simp add: new_ids_def revision_of_None)

lemma revision_of_in: "distinct (map advisory_id rs) \<Longrightarrow> r \<in> set rs \<Longrightarrow> revision_of rs (advisory_id r) = Some (modified r)"
  unfolding revision_of_def by (rule map_of_is_SomeI) (auto simp: comp_def)

lemma revisions_eqI:
  assumes "distinct (map advisory_id ps)" "map advisory_id ps = map advisory_id cs" "moved_ids ps cs = []"
  shows "ps = cs"
proof (rule nth_equalityI)
  show len: "length ps = length cs" using assms(2) by (rule map_eq_imp_length_eq)
  fix i assume i: "i < length ps"
  with len have i': "i < length cs" by simp
  have ids: "advisory_id (ps ! i) = advisory_id (cs ! i)" using assms(2) i i' by (metis nth_map)
  have "revision_of ps (advisory_id (ps ! i)) = Some (modified (ps ! i))" "revision_of cs (advisory_id (cs ! i)) = Some (modified (cs ! i))"
    using assms(1,2) i i' by (auto intro!: revision_of_in)
  moreover have "advisory_id (cs ! i) \<in> advisory_id ` set cs" using i' by simp
  ultimately have "modified (ps ! i) = modified (cs ! i)"
    using assms(3) ids by (fastforce simp: moved_ids_def filter_empty_conv split: option.splits)
  with ids show "ps ! i = cs ! i" by simp
qed

lemma unchanged_iff_equal:
  assumes "sorted_revisions ps" "sorted_revisions cs"
  shows "new_ids ps cs = [] \<and> moved_ids ps cs = [] \<and> new_ids cs ps = [] \<longleftrightarrow> ps = cs"
proof
  assume h: "new_ids ps cs = [] \<and> moved_ids ps cs = [] \<and> new_ids cs ps = []"
  then have "set (map advisory_id ps) = set (map advisory_id cs)" by (auto simp: new_ids_eq filter_empty_conv)
  with assms have "map advisory_id ps = map advisory_id cs"
    by (simp add: strict_sorted_iff strict_sorted_equal)
  with h assms show "ps = cs" by (simp add: revisions_eqI strict_sorted_iff)
next
  assume "ps = cs"
  then show "new_ids ps cs = [] \<and> moved_ids ps cs = [] \<and> new_ids cs ps = []"
    by (auto simp: new_ids_eq moved_ids_def filter_empty_conv split: option.splits)
qed

text \<open>C27: On two snapshots ordered by advisory, as the cache and the client deliver them, the merge of the two lists gives the set
  differences: the advisories only the new snapshot has, those only the old one has, and those of both whose time stamp
  differs, each list in the order of the snapshots; and it reports no change exactly when the snapshots are equal.\<close>

theorem diff_is_set_difference:
  assumes "sorted_wrt (<) (map advisory_id before)" "sorted_wrt (<) (map advisory_id after)"
  shows "(let d = diff_advisory_revisions purl before after in
    delta_purl d = purl \<and>
    added_advisory_ids d = filter (\<lambda>i. i \<notin> advisory_id ` set before) (map advisory_id after) \<and>
    removed_advisory_ids d = filter (\<lambda>i. i \<notin> advisory_id ` set after) (map advisory_id before) \<and>
    modified_advisory_ids d = filter (\<lambda>i. i \<in> advisory_id ` set before \<and> revision_of before i \<noteq> revision_of after i) (map advisory_id after) \<and>
    (is_unchanged d \<longleftrightarrow> before = after))"
proof -
  have "(case revision_of before i of None \<Rightarrow> False | Some m \<Rightarrow> revision_of after i \<noteq> Some m) \<longleftrightarrow>
      i \<in> advisory_id ` set before \<and> revision_of before i \<noteq> revision_of after i" for i
    using revision_of_None [of before i] by (cases "revision_of before i") auto
  then have "moved_ids before after =
      filter (\<lambda>i. i \<in> advisory_id ` set before \<and> revision_of before i \<noteq> revision_of after i) (map advisory_id after)"
    by (simp add: moved_ids_def)
  moreover note unchanged_iff_equal [OF assms]
  ultimately show ?thesis
    by (simp add: diff_advisory_revisions_def diff_loop_exact [OF assms] is_unchanged_def Let_def new_ids_eq conj_commute)
qed

lemma diff_is_set_difference_witness:
  "(let a = \<lparr>advisory_id = ''A'', modified = ''1''\<rparr>; b = \<lparr>advisory_id = ''B'', modified = ''1''\<rparr>; b' = \<lparr>advisory_id = ''B'', modified = ''2''\<rparr>;
      c = \<lparr>advisory_id = ''C'', modified = ''1''\<rparr>; d = diff_advisory_revisions ''p'' [a, b] [b', c] in
    added_advisory_ids d = [''C''] \<and> removed_advisory_ids d = [''A''] \<and> modified_advisory_ids d = [''B''] \<and> \<not> is_unchanged d)"
  using diff_is_set_difference [of "[\<lparr>advisory_id = ''A'', modified = ''1''\<rparr>, \<lparr>advisory_id = ''B'', modified = ''1''\<rparr>]"
      "[\<lparr>advisory_id = ''B'', modified = ''2''\<rparr>, \<lparr>advisory_id = ''C'', modified = ''1''\<rparr>]" "''p''"]
  by (simp add: Let_def)

section \<open>Joining two outcomes\<close>

text \<open>The joined outcome does not depend on which of the two feeds comes first.\<close>

lemma sort_key_append_commute:
  assumes "inj_on f (set (xs @ ys))" "distinct (xs @ ys)"
  shows "sort_key f (xs @ ys) = sort_key f (ys @ xs)"
  by (rule sort_key_inj_key_eq) (use assms in \<open>auto simp: inj_on_def\<close>)

text \<open>When every purl has at most one hit per feed and one delta, joining the outcomes of the two feeds gives the same
  outcome in either order, with every hit of both, ordered by purl and the exact match before the fallback.\<close>

theorem merge_outcomes_commutes:
  assumes "distinct (map hit_key (hits a @ hits b))" "distinct (map delta_purl (changed_purls (deltas a) @ changed_purls (deltas b)))"
  shows "merge_outcomes a b = merge_outcomes b a \<and>
    mset (hits (merge_outcomes a b)) = mset (hits a) + mset (hits b) \<and>
    sorted (map hit_key (hits (merge_outcomes a b)))"
proof -
  have "sort_key hit_key (hits a @ hits b) = sort_key hit_key (hits b @ hits a)"
    using assms(1) by (intro sort_key_append_commute) (simp_all only: distinct_map)
  moreover have "sort_key delta_purl (changed_purls (deltas a) @ changed_purls (deltas b)) =
      sort_key delta_purl (changed_purls (deltas b) @ changed_purls (deltas a))"
    using assms(2) by (intro sort_key_append_commute) (simp_all only: distinct_map)
  moreover have "sort (cpe_checked_purls a @ cpe_checked_purls b) = sort (cpe_checked_purls b @ cpe_checked_purls a)"
    by (rule properties_for_sort) simp_all
  ultimately show ?thesis by (simp add: merge_outcomes_def add.commute)
qed

lemma merge_outcomes_commutes_witness:
  "(let hit = \<lambda>p k. \<lparr>hit_purl = p, advisories = [1::nat], provenance = k\<rparr>;
      none = \<lparr>changed_purls = [], purls_examined = 0, purls_unchanged = 0\<rparr>;
      a = \<lparr>hits = [hit ''b'' PurlExact], deltas = none, components_without_osv_coverage = 1, cpe_checked_purls = []\<rparr>;
      b = \<lparr>hits = [hit ''b'' CpeFallback, hit ''a'' CpeFallback], deltas = none, components_without_osv_coverage = 0, cpe_checked_purls = [''b'', ''a'']\<rparr>
    in merge_outcomes a b = merge_outcomes b a)"
  unfolding Let_def by (rule merge_outcomes_commutes [THEN conjunct1]) (simp_all add: hit_key_def provenance_rank_def)

section \<open>CVE identifiers\<close>

lemma drop_4_split: "starts_with s ''CVE-'' \<Longrightarrow> s = ''CVE-'' @ drop 4 s"
  using starts_withD [of s "''CVE-''"] by (simp add: eval_nat_numeral)

text \<open>The accepted identifiers are \<open>CVE-\<close>, four digits, a hyphen and at least four digits.\<close>

lemma is_cve_shaped_id_iff:
  "is_cve_shaped_id s \<longleftrightarrow> (\<exists>year num. s = ''CVE-'' @ year @ ''-'' @ num \<and> length year = 4 \<and> 4 \<le> length num \<and> list_all is_ascii_digit (year @ num))"
proof
  assume h: "is_cve_shaped_id s"
  let ?r = "drop 4 s"
  from h have s: "s = ''CVE-'' @ ?r" by (intro drop_4_split) (simp add: is_cve_shaped_id_def split: if_splits)
  from h have len: "9 \<le> length ?r" and year: "list_all is_ascii_digit (take 4 ?r)"
    and dash: "?r ! 4 = CHR ''-''" and num: "list_all is_ascii_digit (drop 5 ?r)"
    by (auto simp: is_cve_shaped_id_def Let_def split: if_splits)
  have "?r = take 4 ?r @ ?r ! 4 # drop 5 ?r" using id_take_nth_drop [of 4 ?r] len by simp
  with s dash have "s = ''CVE-'' @ take 4 ?r @ ''-'' @ drop 5 ?r" by simp
  moreover have "length (take 4 ?r) = 4" "4 \<le> length (drop 5 ?r)" using len by auto
  ultimately show "\<exists>year num. s = ''CVE-'' @ year @ ''-'' @ num \<and> length year = 4 \<and> 4 \<le> length num \<and> list_all is_ascii_digit (year @ num)"
    using year num by (metis list_all_append)
next
  assume "\<exists>year num. s = ''CVE-'' @ year @ ''-'' @ num \<and> length year = 4 \<and> 4 \<le> length num \<and> list_all is_ascii_digit (year @ num)"
  then show "is_cve_shaped_id s" by (auto simp: is_cve_shaped_id_def nth_append)
qed

lemma canonical_cve_id_cases: "canonical_cve_id s = [] \<or> is_cve_shaped_id (canonical_cve_id s)"
  by (simp add: canonical_cve_id_def Let_def)

lemma find_pos_map: "find_pos p (map f xs) = find_pos (\<lambda>x. p (f x)) xs"
  by (induction xs) (auto split: option.splits)

lemma rfind_pos_map: "rfind_pos p (map f xs) = rfind_pos (\<lambda>x. p (f x)) xs"
  by (simp add: rfind_pos_def rev_map find_pos_map)

lemma trimmed_view_map: "(\<And>c. is_space (f c) = is_space c) \<Longrightarrow> trimmed_view (map f s) = map f (trimmed_view s)"
  by (simp add: trimmed_view_def find_pos_map rfind_pos_map substr_def take_map drop_map split: option.split)

lemma case_keeps_space: "is_space (to_lower_ascii_char c) = is_space c" "is_space (to_upper_ascii_char c) = is_space c"
proof -
  have "\<forall>c. is_space (to_lower_ascii_char c) = is_space c \<and> is_space (to_upper_ascii_char c) = is_space c" by code_simp
  then show "is_space (to_lower_ascii_char c) = is_space c" "is_space (to_upper_ascii_char c) = is_space c" by blast+
qed

lemma upper_case_char [simp]: "to_upper_ascii_char (to_lower_ascii_char c) = to_upper_ascii_char c"
  "to_upper_ascii_char (to_upper_ascii_char c) = to_upper_ascii_char c"
  by (auto simp: to_lower_ascii_char_eq to_upper_ascii_char_eq)

lemma canonical_cve_id_upper: "canonical_cve_id s = (let u = trimmed_view (to_upper_ascii s) in if is_cve_shaped_id u then u else [])"
  by (simp add: canonical_cve_id_def to_upper_ascii_def trimmed_view_map case_keeps_space Let_def)

lemma to_upper_ascii_idem: "to_upper_ascii (to_upper_ascii s) = to_upper_ascii s" "to_upper_ascii (to_lower_ascii s) = to_upper_ascii s"
  by (simp_all add: to_upper_ascii_def to_lower_ascii_def)

text \<open>Canonical identifiers are canonical, and the case of the letters and blanks around do not matter.\<close>

theorem canonical_cve_id_canonical:
  "canonical_cve_id (canonical_cve_id s) = canonical_cve_id s \<and> canonical_cve_id (to_lower_ascii s) = canonical_cve_id s \<and>
   canonical_cve_id (trimmed_view s) = canonical_cve_id s"
proof -
  have "trimmed_view (to_upper_ascii t) = to_upper_ascii (trimmed_view t)" for t
    by (simp add: to_upper_ascii_def trimmed_view_map case_keeps_space)
  then have "canonical_cve_id (trimmed_view (to_upper_ascii s)) = canonical_cve_id s"
    by (simp add: canonical_cve_id_upper to_upper_ascii_idem)
  then have "canonical_cve_id (canonical_cve_id s) = canonical_cve_id s"
    by (cases "is_cve_shaped_id (trimmed_view (to_upper_ascii s))")
      (simp_all add: canonical_cve_id_upper [of s] canonical_cve_id_def [of "[]"] is_cve_shaped_id_def [of "[]"] to_upper_ascii_def)
  moreover have "canonical_cve_id (to_lower_ascii s) = canonical_cve_id s" by (simp add: canonical_cve_id_upper to_upper_ascii_idem)
  moreover have "canonical_cve_id (trimmed_view s) = canonical_cve_id s" by (simp add: canonical_cve_id_def)
  ultimately show ?thesis by blast
qed

section \<open>Addresses\<close>

definition safe_segment :: "string \<Rightarrow> bool" where
  "safe_segment segment \<longleftrightarrow> segment \<noteq> [] \<and> segment \<noteq> ''.'' \<and> segment \<noteq> ''..'' \<and> list_all is_safe_registry_character segment"

lemma safe_subpath_iff: "is_safe_registry_subpath s \<longleftrightarrow> list_all safe_segment (split_on CHR ''/'' s)"
proof (induction s rule: is_safe_registry_subpath.induct)
  case (1 s)
  show ?case
  proof (cases "find_char CHR ''/'' s")
    case None
    then show ?thesis by (simp add: is_safe_registry_subpath.simps [of s] split_on_find [of _ s] safe_segment_def)
  next
    case (Some i)
    then have ne: "s \<noteq> []" by auto
    show ?thesis
    proof (cases "safe_segment (take i s)")
      case True
      then have "is_safe_registry_subpath (drop (i + 1) s) = list_all safe_segment (split_on CHR ''/'' (drop (i + 1) s))"
        using 1 [OF ne, of "Some i" "take i s" i] Some unfolding safe_segment_def [of "take i s"] by simp
      with Some ne True show ?thesis
        by (simp add: is_safe_registry_subpath.simps [of s] split_on_find [of _ s] safe_segment_def [of "take i s"])
    next
      case False
      with Some ne show ?thesis
        by (auto simp: is_safe_registry_subpath.simps [of s] Let_def split_on_find [of _ s] safe_segment_def [of "take i s"])
    qed
  qed
qed

lemma safe_subpath_join:
  "is_safe_registry_subpath s \<longleftrightarrow> (\<exists>segments. segments \<noteq> [] \<and> list_all safe_segment segments \<and> s = join_with CHR ''/'' segments)"
proof
  assume "is_safe_registry_subpath s"
  then show "\<exists>segments. segments \<noteq> [] \<and> list_all safe_segment segments \<and> s = join_with CHR ''/'' segments"
    by (intro exI [of _ "split_on CHR ''/'' s"]) (simp add: safe_subpath_iff)
next
  assume "\<exists>segments. segments \<noteq> [] \<and> list_all safe_segment segments \<and> s = join_with CHR ''/'' segments"
  then obtain segments where h: "segments \<noteq> []" "list_all safe_segment segments" "s = join_with CHR ''/'' segments" by blast
  have "list_all (\<lambda>f. CHR ''/'' \<notin> set f) segments"
    using h(2) by (force simp: list_all_iff safe_segment_def is_safe_registry_character_def)
  with h show "is_safe_registry_subpath s" by (simp add: safe_subpath_iff split_on_join)
qed

lemma starts_with_iff: "starts_with s p \<longleftrightarrow> (\<exists>t. s = p @ t)"
  by (metis starts_withD starts_with_append)

lemma endpoint_matches_iff:
  "endpoint_matches url e \<longleftrightarrow> url = endpoint_url e \<or>
     (if allows_subpaths e then \<exists>segments. segments \<noteq> [] \<and> list_all safe_segment segments \<and> url = endpoint_url e @ join_with CHR ''/'' segments
      else \<exists>query. url = endpoint_url e @ ''?'' @ query)"
proof -
  have "length url > length (endpoint_url e) \<and> starts_with url (endpoint_url e) \<and> url ! length (endpoint_url e) = CHR ''?'' \<longleftrightarrow>
      (\<exists>query. url = endpoint_url e @ ''?'' @ query)"
    by (auto simp: starts_with_iff nth_append neq_Nil_conv)
  moreover have "starts_with url (endpoint_url e) \<and> is_safe_registry_subpath (drop (length (endpoint_url e)) url) \<longleftrightarrow>
      (\<exists>segments. segments \<noteq> [] \<and> list_all safe_segment segments \<and> url = endpoint_url e @ join_with CHR ''/'' segments)"
    by (auto simp: starts_with_iff safe_subpath_join)
  ultimately show ?thesis by (simp add: endpoint_matches_def)
qed

text \<open>The parts of an address as RFC 3986 cuts it: the authority of an \<open>https\<close> address, and the segments of its path.\<close>

definition url_authority :: "string \<Rightarrow> string option" where
  "url_authority url =
     (if starts_with url ''https://'' then Some (takeWhile (\<lambda>ch. ch \<notin> set ''/?#'') (drop 8 url)) else None)"

definition url_segments :: "string \<Rightarrow> string list" where
  "url_segments url = split_on CHR ''/'' (takeWhile (\<lambda>ch. ch \<notin> set ''?#'') url)"

definition feed_hosts :: "string list" where
  "feed_hosts = [''api.osv.dev'', ''services.nvd.nist.gov'', ''crates.io'', ''pypi.org'', ''rubygems.org'']"

lemma takeWhile_prefix_stop: "\<exists>x \<in> set p. \<not> P x \<Longrightarrow> takeWhile P (p @ t) = takeWhile P p"
  by (induction p) auto

lemma url_authority_append:
  assumes "url_authority p = Some h" "list_ex (\<lambda>ch. ch \<in> set ''/?#'') (drop 8 p)"
  shows "url_authority (p @ t) = Some h"
proof -
  from assms(1) have p: "starts_with p ''https://''" by (simp add: url_authority_def split: if_splits)
  then have "8 \<le> length p" using starts_with_length by fastforce
  then have "takeWhile (\<lambda>ch. ch \<notin> set ''/?#'') (drop 8 (p @ t)) = takeWhile (\<lambda>ch. ch \<notin> set ''/?#'') (drop 8 p)"
    using assms(2) by (simp only: drop_append) (auto simp: list_ex_iff intro!: takeWhile_prefix_stop)
  moreover have "starts_with (p @ t) ''https://''" using p by (auto simp: starts_with_iff)
  ultimately show ?thesis using assms(1) p by (simp add: url_authority_def)
qed

lemma feed_endpoints_https:
  "list_all (\<lambda>e. url_authority (endpoint_url e) \<in> set (map Some feed_hosts) \<and> list_ex (\<lambda>ch. ch \<in> set ''/?#'') (drop 8 (endpoint_url e)))
    kFeedEndpoints"
  by code_simp

lemma feed_endpoints_paths:
  "list_all (\<lambda>e. list_all (\<lambda>ch. ch \<notin> set ''?#'') (endpoint_url e) \<and> list_all (\<lambda>s. s \<noteq> ''.'' \<and> s \<noteq> ''..'') (split_on CHR ''/'' (endpoint_url e)) \<and>
      (if allows_subpaths e then last (endpoint_url e) = CHR ''/'' \<and> endpoint_url e \<noteq> [] else True)) kFeedEndpoints"
  by code_simp

lemma split_on_append_slash: "split_on ch (a @ ch # b) = split_on ch a @ split_on ch b"
proof (induction a)
  case (Cons x a)
  then show ?case by (cases "split_on ch a") auto
qed simp

lemma takeWhile_all_append: "list_all P p \<Longrightarrow> takeWhile P (p @ t) = p @ takeWhile P t"
  by (induction p) auto

lemma safe_join_chars: "list_all safe_segment segments \<Longrightarrow> list_all (\<lambda>ch. ch \<notin> set ''?#'') (join_with CHR ''/'' segments)"
proof (induction segments)
  case (Cons s segments)
  from Cons.prems have "list_all (\<lambda>ch. ch \<notin> set ''?#'') s" by (force simp: list_all_iff safe_segment_def is_safe_registry_character_def)
  with Cons show ?case by (cases "segments = []") (simp_all add: join_with_Cons)
qed simp

lemma segments_of_match:
  assumes e: "e \<in> set kFeedEndpoints" and m: "endpoint_matches url e"
  shows "list_all (\<lambda>s. s \<noteq> ''.'' \<and> s \<noteq> ''..'') (url_segments url)"
proof -
  let ?u = "endpoint_url e"
  from e feed_endpoints_paths have clean: "list_all (\<lambda>ch. ch \<notin> set ''?#'') ?u"
    and dots: "list_all (\<lambda>s. s \<noteq> ''.'' \<and> s \<noteq> ''..'') (split_on CHR ''/'' ?u)"
    and slash: "allows_subpaths e \<Longrightarrow> last ?u = CHR ''/'' \<and> ?u \<noteq> []" by (auto simp: list_all_iff)
  from m consider (same) "url = ?u" | (sub) segments where "allows_subpaths e" "segments \<noteq> []" "list_all safe_segment segments"
        "url = ?u @ join_with CHR ''/'' segments" | (query) q where "url = ?u @ ''?'' @ q"
    by (auto simp: endpoint_matches_iff split: if_splits)
  then show ?thesis
  proof cases
    case same
    with clean dots show ?thesis by (simp add: url_segments_def takeWhile_eq_all_conv [THEN iffD2] list_all_iff)
  next
    case sub
    then obtain p where p: "?u = p @ [CHR ''/'']" using slash by (metis append_butlast_last_id)
    have nosep: "list_all (\<lambda>f. CHR ''/'' \<notin> set f) segments"
      using sub(3) by (force simp: list_all_iff safe_segment_def is_safe_registry_character_def)
    have "list_all (\<lambda>ch. ch \<notin> set ''?#'') url" using clean safe_join_chars [OF sub(3)] by (simp add: sub(4))
    then have "url_segments url = split_on CHR ''/'' url" by (simp add: url_segments_def takeWhile_eq_all_conv [THEN iffD2] list_all_iff)
    also have "\<dots> = split_on CHR ''/'' p @ segments"
      using split_on_append_slash [of "CHR ''/''" p] sub(2) nosep by (simp add: sub(4) p split_on_join)
    finally show ?thesis using dots split_on_append_slash [of "CHR ''/''" p "[]"] sub(3) by (auto simp: p list_all_iff safe_segment_def)
  next
    case query
    with clean dots show ?thesis by (simp add: url_segments_def takeWhile_all_append)
  qed
qed

text \<open>C7: The addresses the transport may open, in a build that registers no endpoint of its own, are exactly the listed ones, the
  fixed ones followed by a query, and the registry roots followed by safe path segments. Whatever a manifest contributed
  to such an address, its scheme is \<open>https\<close>, its authority one of five host names, without user or port, and no segment of
  its path climbs.\<close>

theorem allowlisted_urls_exact:
  "(is_allowlisted_feed_url [] url \<longleftrightarrow>
     (\<exists>e \<in> set kFeedEndpoints. url = endpoint_url e \<or>
        (if allows_subpaths e then \<exists>segments. segments \<noteq> [] \<and> list_all safe_segment segments \<and> url = endpoint_url e @ join_with CHR ''/'' segments
         else \<exists>query. url = endpoint_url e @ ''?'' @ query))) \<and>
   (if is_allowlisted_feed_url [] url
    then url_authority url \<in> set (map Some feed_hosts) \<and> list_all (\<lambda>s. s \<noteq> ''.'' \<and> s \<noteq> ''..'') (url_segments url)
    else True)"
proof -
  have "url_authority url \<in> set (map Some feed_hosts) \<and> list_all (\<lambda>s. s \<noteq> ''.'' \<and> s \<noteq> ''..'') (url_segments url)"
    if "is_allowlisted_feed_url [] url"
  proof -
    from that obtain e where e: "e \<in> set kFeedEndpoints" "endpoint_matches url e"
      by (auto simp: is_allowlisted_feed_url_def list_ex_iff)
    then obtain t where t: "url = endpoint_url e @ t" by (auto simp: endpoint_matches_iff split: if_splits)
    from e(1) feed_endpoints_https obtain h where "url_authority (endpoint_url e) = Some h" "h \<in> set feed_hosts"
      "list_ex (\<lambda>ch. ch \<in> set ''/?#'') (drop 8 (endpoint_url e))" by (auto simp: list_all_iff)
    with url_authority_append t segments_of_match [OF e] show ?thesis by auto
  qed
  then show ?thesis by (simp add: is_allowlisted_feed_url_def list_ex_iff endpoint_matches_iff)
qed

text \<open>Every query to the NVD is allowed; addresses that only look like an endpoint are not.\<close>

lemma nvd_query_allowed: "is_allowlisted_feed_url registered (kNvdCveApiUrl @ ''?'' @ q)"
  by (auto simp: is_allowlisted_feed_url_def kFeedEndpoints_def endpoint_matches_iff)

lemma lookalike_refused:
  "\<not> is_allowlisted_feed_url [] ''https://api.osv.dev/v1/query.attacker.example/x'' \<and>
   \<not> is_allowlisted_feed_url [] ''https://attacker.example/?u=https://api.osv.dev/v1/query'' \<and>
   \<not> is_allowlisted_feed_url [] ''https://crates.io/api/v1/crates/../me''"
  by code_simp

end
