(* ===== verification/Pub_Lock.thy ===== *)
theory Pub_Lock
  imports Lockfiles Yaml_Subset
begin

text \<open>
  The producer of Dart packages, \<open>parsers/lockfiles/pub.cpp\<close>: a state machine over the nodes of the YAML reader, which collects the
  fields of an entry from three levels of indentation and closes the entry at the next one, run on the files of the
  bounded manifest walk.
\<close>

section \<open>Code\<close>

definition kPubspecLockName :: string where "kPubspecLockName = ''pubspec.lock''"
definition kPackagesKeyIndentation :: nat where "kPackagesKeyIndentation = 0"
definition kPackagesKey :: string where "kPackagesKey = ''packages''"
definition kEntryKeyIndentation :: nat where "kEntryKeyIndentation = 2"
definition kEntryFieldIndentation :: nat where "kEntryFieldIndentation = 4"
definition kDescriptionFieldIndentation :: nat where "kDescriptionFieldIndentation = 6"
definition kDescriptionKey :: string where "kDescriptionKey = ''description''"
definition kSourceKey :: string where "kSourceKey = ''source''"
definition kVersionKey :: string where "kVersionKey = ''version''"
definition kDescriptionUrlField :: string where "kDescriptionUrlField = ''url''"
definition kDescriptionResolvedRefField :: string where "kDescriptionResolvedRefField = ''resolved-ref''"

datatype pub_source = PubUnknown | PubHosted | PubPath | PubGit | PubSdk

record pub_skips =
  git_or_sdk_missing_version :: nat
  unknown_source :: nat
  malformed :: nat

record pub_entry =
  pe_name :: string
  pe_version :: string
  pe_source :: pub_source
  description_url :: string
  description_resolved_ref :: string
  pe_active :: bool
  inside_description :: bool

definition no_entry :: pub_entry where
  "no_entry = \<lparr>pe_name = [], pe_version = [], pe_source = PubUnknown, description_url = [], description_resolved_ref = [],
     pe_active = False, inside_description = False\<rparr>"

definition parse_pub_source :: "string \<Rightarrow> pub_source" where
  "parse_pub_source source_value =
     (if source_value = ''hosted'' then PubHosted
      else if source_value = ''path'' then PubPath
      else if source_value = ''git'' then PubGit
      else if source_value = ''sdk'' then PubSdk
      else PubUnknown)"

definition build_pub_purl :: "string \<Rightarrow> string \<Rightarrow> string" where
  "build_pub_purl package version = ''pkg:pub/'' @ percent_encode package @ ''@'' @ percent_encode version"

definition evidence_detail_for :: "pub_entry \<Rightarrow> string \<Rightarrow> string" where
  "evidence_detail_for entry label =
     (if pe_source entry = PubGit
      then label @ '' (source git'' @ (if description_url entry \<noteq> [] then '', url '' @ description_url entry else []) @
        (if description_resolved_ref entry \<noteq> [] then '', resolved-ref '' @ description_resolved_ref entry else []) @ '')''
      else if pe_source entry = PubSdk then label @ '' (source sdk)''
      else label @ '' (source hosted)'')"

text \<open>The four arguments the functions of the file mutate: the open entry, the counters, and the run.\<close>

record pub_state =
  pending :: pub_entry
  skips :: pub_skips
  inside_packages :: bool
  pub_run :: lock_run

definition append_pub_component :: "pub_entry \<Rightarrow> string \<Rightarrow> lock_run \<Rightarrow> lock_run" where
  "append_pub_component entry label run =
     (let c = new_component\<lparr>comp_name := pe_name entry, comp_version := pe_version entry,
            comp_purl := build_pub_purl (pe_name entry) (pe_version entry),
            comp_evidence := [Evidence Manifest (evidence_detail_for entry label) High]\<rparr>;
          (purl, ws) = canonicalize_purl (comp_purl c) ''pub'' (result_warnings (lk_result run))
      in run\<lparr>lk_components := lk_components run @ [c\<lparr>comp_purl := purl\<rparr>],
             lk_result := (lk_result run)\<lparr>result_warnings := ws\<rparr>\<rparr>)"

definition warn_skip_counts :: "pub_skips \<Rightarrow> string \<Rightarrow> lock_run \<Rightarrow> lock_run" where
  "warn_skip_counts s label run =
     (let run = (if unknown_source s > 0 then warn_run kEntriesSkippedUnresolved (''pub: '' @ string_of_nat (unknown_source s) @
            '' entrie(s) with an unrecognized source skipped: '' @ label) ''pub'' run else run);
          run = (if git_or_sdk_missing_version s > 0 then warn_run kEntriesSkippedUnresolved (''pub: '' @
            string_of_nat (git_or_sdk_missing_version s) @ '' entrie(s) without a resolved version skipped: '' @ label) ''pub'' run else run)
      in if malformed s > 0 then warn_run kMalformedEntrySkipped (''pub: '' @ string_of_nat (malformed s) @
            '' malformed entrie(s) skipped: '' @ label) ''pub'' run else run)"

definition close_pending_entry :: "string \<Rightarrow> nat \<Rightarrow> pub_state \<Rightarrow> pub_state" where
  "close_pending_entry label package_limit st =
     (if \<not> pe_active (pending st) then st
      else
        let entry = pending st; st = st\<lparr>pending := no_entry\<rparr>; run = pub_run st in
        if pe_source entry = PubPath then st
        else if pe_source entry = PubUnknown then st\<lparr>skips := (skips st)\<lparr>unknown_source := unknown_source (skips st) + 1\<rparr>\<rparr>
        else if pe_name entry = [] \<or> pe_version entry = []
        then st\<lparr>skips := (skips st)\<lparr>git_or_sdk_missing_version := git_or_sdk_missing_version (skips st) + 1\<rparr>\<rparr>
        else if lk_budget run = 0
        then let run = warn_run kEntryLimitReached (''pub: package limit '' @ string_of_nat package_limit @
               '' reached; remaining entries skipped'') ''pub'' run
             in st\<lparr>pub_run := run\<lparr>lk_result := (lk_result run)\<lparr>complete := False\<rparr>\<rparr>\<rparr>
        else st\<lparr>pub_run := append_pub_component entry label (run\<lparr>lk_budget := lk_budget run - 1\<rparr>)\<rparr>)"

text \<open>The body of the loop after an entry was closed.\<close>

definition pub_field :: "yaml_node \<Rightarrow> pub_state \<Rightarrow> pub_state" where
  "pub_field node st =
     (let entry = pending st in
      if indentation node = kPackagesKeyIndentation then st\<lparr>inside_packages := (node_key node = kPackagesKey)\<rparr>
      else if \<not> inside_packages st then st
      else if indentation node = kEntryKeyIndentation then
        (if node_key node = [] then st\<lparr>skips := (skips st)\<lparr>malformed := malformed (skips st) + 1\<rparr>\<rparr>
         else st\<lparr>pending := no_entry\<lparr>pe_name := node_key node, pe_active := True\<rparr>\<rparr>)
      else if \<not> pe_active entry then st
      else if indentation node = kEntryFieldIndentation then
        (if node_key node = kDescriptionKey then st\<lparr>pending := entry\<lparr>inside_description := opens_block node\<rparr>\<rparr>
         else
           let entry = entry\<lparr>inside_description := False\<rparr> in
           if node_key node = kSourceKey then st\<lparr>pending := entry\<lparr>pe_source := parse_pub_source (node_value node)\<rparr>\<rparr>
           else if node_key node = kVersionKey then st\<lparr>pending := entry\<lparr>pe_version := node_value node\<rparr>\<rparr>
           else st\<lparr>pending := entry\<rparr>)
      else if indentation node = kDescriptionFieldIndentation \<and> inside_description entry then
        (if node_key node = kDescriptionUrlField then st\<lparr>pending := entry\<lparr>description_url := node_value node\<rparr>\<rparr>
         else if node_key node = kDescriptionResolvedRefField
         then st\<lparr>pending := entry\<lparr>description_resolved_ref := node_value node\<rparr>\<rparr>
         else st)
      else st)"

text \<open>One turn of the loop; \<^const>\<open>False\<close> is its \<open>break\<close>.\<close>

definition pub_node :: "string \<Rightarrow> nat \<Rightarrow> yaml_node \<Rightarrow> pub_state \<Rightarrow> bool \<times> pub_state" where
  "pub_node label package_limit node st =
     (let st = (if indentation node \<le> kEntryKeyIndentation then close_pending_entry label package_limit st else st) in
      if indentation node \<le> kEntryKeyIndentation \<and> lk_budget (pub_run st) = 0 \<and> \<not> complete (lk_result (pub_run st)) then (False, st)
      else (True, pub_field node st))"

function pub_loop :: "string \<Rightarrow> nat \<Rightarrow> yaml_reader \<Rightarrow> pub_state \<Rightarrow> yaml_reader \<times> pub_state" where
  "pub_loop label package_limit r st =
     (case reader_next r of
        (None, r') \<Rightarrow> (r', st)
      | (Some node, r') \<Rightarrow>
          (case pub_node label package_limit node st of
             (False, st) \<Rightarrow> (r', st)
           | (True, st) \<Rightarrow> pub_loop label package_limit r' st))"
  by pat_completeness auto
termination
  by (relation "measure (\<lambda>(_, _, r, _). Suc (length (yr_bytes r)) - yr_position r)")
    (auto dest!: sym [of "(Some _, _)"] reader_next_progress)

declare pub_loop.simps [simp del]

definition start_pub :: "lock_run \<Rightarrow> pub_state" where
  "start_pub run = \<lparr>pending = no_entry, skips = \<lparr>git_or_sdk_missing_version = 0, unknown_source = 0, malformed = 0\<rparr>,
     inside_packages = False, pub_run = run\<rparr>"

definition parse_pubspec_lock :: "string \<Rightarrow> string \<Rightarrow> nat \<Rightarrow> lock_run \<Rightarrow> lock_run" where
  "parse_pubspec_lock contents label package_limit run =
     (let (reader, st) = pub_loop label package_limit (new_yaml_reader contents False) (start_pub run);
          st = close_pending_entry label package_limit st;
          run = warn_skip_counts (skips st) label (pub_run st)
      in if unsupported_line_count reader > 0
         then warn_run kMalformedEntrySkipped (''pub: '' @ string_of_nat (unsupported_line_count reader) @
           '' line(s) outside the readable YAML subset skipped: '' @ label) ''pub'' run
         else run)"

fun pub_files :: "nat \<Rightarrow> walked_manifest_file list \<Rightarrow> lock_run \<Rightarrow> lock_run" where
  "pub_files package_limit [] run = run"
| "pub_files package_limit (f # fs) run =
     (if lk_budget run = 0 \<and> \<not> complete (lk_result run) then run
      else pub_files package_limit fs (parse_pubspec_lock (wm_bytes f) (wm_label f) package_limit run))"

definition pub_walk_options :: "lock_options \<Rightarrow> manifest_walk_options" where
  "pub_walk_options options = \<lparr>max_scanned_files = lo_max_scanned_files options, max_file_bytes = lo_max_file_bytes options,
     producer_name = ''pub'', file_label = kPubspecLockName, truncate_at_last_newline = True\<rparr>"

definition pub_parse :: "file_system \<Rightarrow> file_index \<Rightarrow> path \<Rightarrow> lock_options \<Rightarrow> component list result" where
  "pub_parse fsys index root options =
     (let walked = walk_bounded_manifest_files fsys index root kPubspecLockName (pub_walk_options options);
          run = start_run options;
          run = run\<lparr>lk_result := (lk_result run)\<lparr>result_warnings := result_warnings (lk_result run) @ result_warnings walked\<rparr>\<rparr>;
          run = pub_files (lo_max_total_packages options) (result_value walked) run
      in (lk_result run)\<lparr>result_value := merge_all (lk_components run)\<rparr>)"

definition pub_parse_tree :: "file_system \<Rightarrow> path \<Rightarrow> node \<Rightarrow> scan_rules \<Rightarrow> lock_options \<Rightarrow> component list result" where
  "pub_parse_tree fsys root root_node rules options =
     (let index = build_file_index root root_node rules;
          r = pub_parse fsys (result_value index) root options;
          r = r\<lparr>result_warnings := result_warnings r @ result_warnings index\<rparr>
      in if \<not> complete index then r\<lparr>complete := False\<rparr> else r)"

section \<open>Bounds\<close>

lemma pub_purl_valid: "valid_purl (build_pub_purl n v)"
proof -
  have "to_lower_ascii ''pub'' = ''pub''" "no_whitespace ''pub''" by code_simp+
  then have "valid_purl (''pkg:'' @ ''pub'' @ ''/'' @ percent_encode n @ ''@'' @ percent_encode v)"
    by (intro valid_purl_shape) simp_all
  then show ?thesis by (simp add: build_pub_purl_def)
qed

definition pub_component :: "string \<Rightarrow> pub_entry \<Rightarrow> component" where
  "pub_component label entry = new_component\<lparr>comp_name := pe_name entry, comp_version := pe_version entry,
     comp_purl := build_pub_purl (pe_name entry) (pe_version entry),
     comp_evidence := [Evidence Manifest (evidence_detail_for entry label) High]\<rparr>"

lemma append_pub_component_eq:
  "append_pub_component entry label run = run\<lparr>lk_components := lk_components run @ [pub_component label entry]\<rparr>"
proof -
  have "canonicalize_purl (build_pub_purl (pe_name entry) (pe_version entry)) ''pub'' ws = (build_pub_purl (pe_name entry) (pe_version entry), ws)" for ws
    using pub_purl_valid by (simp add: canonicalize_purl_def valid_purl_def)
  then show ?thesis by (simp add: append_pub_component_def pub_component_def)
qed

lemma pub_component_produced: "produced label (pub_component label entry)"
  by (simp add: produced_def pub_component_def pub_purl_valid new_component_def evidence_detail_for_def)

lemma lock_step_append_pub:
  "lk_budget run > 0 \<Longrightarrow> lock_step (produced label) run (append_pub_component entry label (run\<lparr>lk_budget := lk_budget run - Suc 0\<rparr>))"
  by (simp add: append_pub_component_eq lock_step_def pub_component_produced)

lemma close_step: "lock_step (produced label) (pub_run st) (pub_run (close_pending_entry label limit st))"
proof -
  have "lock_step (produced label) run ((warn_run k m producer run)\<lparr>lk_result := (lk_result (warn_run k m producer run))\<lparr>complete := False\<rparr>\<rparr>)"
    if "lk_budget run = 0" for run k m producer
    using that by (simp add: lock_step_def warn_run_def warn_def)
  then show ?thesis
    unfolding close_pending_entry_def Let_def by (auto intro: lock_step_append_pub)
qed

lemma pub_field_run [simp]: "pub_run (pub_field node st) = pub_run st"
  unfolding pub_field_def Let_def by simp

lemma pub_node_step: "lock_step (produced label) (pub_run st) (pub_run (snd (pub_node label limit node st)))"
  using close_step [of label st limit] by (simp add: pub_node_def Let_def)

lemma pub_loop_step: "lock_step (produced label) (pub_run st) (pub_run (snd (pub_loop label limit r st)))"
proof (induction label limit r st rule: pub_loop.induct)
  case (1 label limit r st)
  show ?case
  proof (cases "reader_next r")
    case (Pair a r')
    show ?thesis
    proof (cases a)
      case None
      with Pair show ?thesis by (simp add: pub_loop.simps [of label limit r st])
    next
      case (Some node)
      obtain go st' where n: "pub_node label limit node st = (go, st')" by fastforce
      have "lock_step (produced label) (pub_run st) (pub_run st')" using pub_node_step [of label st limit node] n by simp
      moreover have "lock_step (produced label) (pub_run st') (pub_run (snd (pub_loop label limit r' st')))" if go
        using that 1 Pair Some n by simp
      ultimately show ?thesis
        using Pair Some n by (cases go) (auto simp: pub_loop.simps [of label limit r st] intro: lock_step_trans)
    qed
  qed
qed

lemma warn_skip_step: "lock_step P run (warn_skip_counts s label run)"
proof -
  have step: "lock_step P run (if b then warn_run k m producer run else run)" for b k m producer run by simp
  show ?thesis unfolding warn_skip_counts_def Let_def by (rule lock_step_trans [OF lock_step_trans [OF step step] step])
qed

lemma parse_pubspec_step: "lock_step (produced label) run (parse_pubspec_lock bs label limit run)"
proof -
  obtain r st where l: "pub_loop label limit (new_yaml_reader bs False) (start_pub run) = (r, st)" by fastforce
  have "lock_step (produced label) run (pub_run st)"
    using pub_loop_step [of label "start_pub run" limit "new_yaml_reader bs False"] l by (simp add: start_pub_def)
  note steps = lock_step_trans [OF lock_step_trans [OF this close_step] warn_skip_step]
  have step: "lock_step P run (if b then warn_run k m producer run else run)" for P b k m producer run by simp
  show ?thesis unfolding parse_pubspec_lock_def l Let_def prod.case by (rule lock_step_trans [OF steps step])
qed

lemma pub_files_step:
  "list_all (\<lambda>f. wm_label f \<in> set index \<and> path_filename (wm_label f) = kPubspecLockName) fs \<Longrightarrow>
   lock_step (from_files kPubspecLockName index) run (pub_files limit fs run)"
proof (induction fs arbitrary: run)
  case (Cons f fs)
  have "from_files kPubspecLockName index c" if "produced (wm_label f) c" for c
    using that Cons.prems by (auto simp: from_files_def list_ex_iff)
  then have "lock_step (from_files kPubspecLockName index) run (parse_pubspec_lock (wm_bytes f) (wm_label f) limit run)"
    by (rule lock_step_mono [OF parse_pubspec_step])
  with Cons show ?case by (auto intro: lock_step_trans)
qed simp

lemma pub_limits: "limits_respected kPubspecLockName index options (pub_parse fsys index root options)"
proof -
  define walked where "walked = walk_bounded_manifest_files fsys index root kPubspecLockName (pub_walk_options options)"
  define run where "run = (start_run options)\<lparr>lk_result := (new_result [])\<lparr>result_warnings := result_warnings walked\<rparr>\<rparr>"
  define run' where "run' = pub_files (lo_max_total_packages options) (result_value walked) run"
  have "list_all (manifest_ok kPubspecLockName (pub_walk_options options) index) (result_value walked)"
    using walk_manifests_exact [of kPubspecLockName "pub_walk_options options" index "new_result []" index 0 fsys root]
    by (simp add: walked_def walk_bounded_manifest_files_def new_result_def)
  then have "list_all (\<lambda>f. wm_label f \<in> set index \<and> path_filename (wm_label f) = kPubspecLockName) (result_value walked)"
    by (auto simp: list_all_iff manifest_ok_def)
  from pub_files_step [OF this] have "lock_step (from_files kPubspecLockName index) run run'" by (simp add: run'_def)
  moreover have "pub_parse fsys index root options = (lk_result run')\<lparr>result_value := merge_all (lk_components run')\<rparr>"
    by (simp add: pub_parse_def Let_def run'_def run_def walked_def start_run_def new_result_def)
  ultimately show ?thesis
    unfolding limits_respected_def
    by (intro exI [of _ "lk_components run'"]) (auto simp: lock_step_def run_def start_run_def new_result_def)
qed

section \<open>Reading what pub writes\<close>

text \<open>The loop as a run over the nodes of the text; \<^const>\<open>False\<close> when it was left.\<close>

fun pub_nodes :: "string \<Rightarrow> nat \<Rightarrow> yaml_node list \<Rightarrow> pub_state \<Rightarrow> bool \<times> pub_state" where
  "pub_nodes label limit [] st = (True, st)"
| "pub_nodes label limit (n # ns) st =
     (case pub_node label limit n st of (False, st) \<Rightarrow> (False, st) | (True, st) \<Rightarrow> pub_nodes label limit ns st)"

lemma pub_loop_nodes:
  "pub_nodes label limit (fst (read_all r)) st = (True, st') \<Longrightarrow> pub_loop label limit r st = (snd (read_all r), st')"
proof (induction label limit r st rule: pub_loop.induct)
  case (1 label limit r st)
  obtain a r' where next_eq: "reader_next r = (a, r')" by fastforce
  show ?case
  proof (cases a)
    case None
    with next_eq have "read_all r = ([], r')" by (subst read_all.simps) simp
    with "1.prems" None next_eq show ?thesis by (subst pub_loop.simps) simp
  next
    case (Some node)
    with next_eq have all: "read_all r = (node # fst (read_all r'), snd (read_all r'))"
      by (subst read_all.simps) (simp add: split_beta)
    with "1.prems" obtain st1 where n: "pub_node label limit node st = (True, st1)" and
      more: "pub_nodes label limit (fst (read_all r')) st1 = (True, st')" by (auto split: prod.splits bool.splits)
    show ?thesis
      using "1.IH" [OF next_eq [symmetric] Some n [symmetric] refl more] next_eq Some n
      by (subst pub_loop.simps) (simp add: all)
  qed
qed

text \<open>What \<open>dart pub\<close> writes: the description of a package by its origin, with the optional hash and revision name,
  and the packages with their name, the kind of dependency and the version. Each scalar is a bare word or a quoted text.\<close>

datatype pub_origin =
    Hosted_At "yaml_scalar option" yaml_scalar
  | Git_At yaml_scalar "yaml_scalar option" yaml_scalar yaml_scalar
  | From_Sdk yaml_scalar
  | Local_Path yaml_scalar bool

record pub_package =
  package_name :: yaml_scalar
  dependency_kind :: yaml_scalar
  package_origin :: pub_origin
  package_version :: yaml_scalar

type_synonym written_line = "nat \<times> yaml_scalar \<times> yaml_scalar option"

definition optional_line :: "string \<Rightarrow> yaml_scalar option \<Rightarrow> written_line list" where
  "optional_line k v = (case v of None \<Rightarrow> [] | Some v \<Rightarrow> [(6, Bare k, Some v)])"

definition pub_origin_lines :: "yaml_scalar \<Rightarrow> pub_origin \<Rightarrow> written_line list" where
  "pub_origin_lines n origin =
     (case origin of
        Hosted_At sha url \<Rightarrow> [(4, Bare ''description'', None), (6, Bare ''name'', Some n)] @ optional_line ''sha256'' sha @
          [(6, Bare ''url'', Some url), (4, Bare ''source'', Some (Bare ''hosted''))]
      | Git_At p ref resolved url \<Rightarrow> [(4, Bare ''description'', None), (6, Bare ''path'', Some p)] @ optional_line ''ref'' ref @
          [(6, Bare ''resolved-ref'', Some resolved), (6, Bare ''url'', Some url), (4, Bare ''source'', Some (Bare ''git''))]
      | From_Sdk sdk \<Rightarrow> [(4, Bare ''description'', Some sdk), (4, Bare ''source'', Some (Bare ''sdk''))]
      | Local_Path p relative \<Rightarrow> [(4, Bare ''description'', None), (6, Bare ''path'', Some p),
          (6, Bare ''relative'', Some (Bare (if relative then ''true'' else ''false''))), (4, Bare ''source'', Some (Bare ''path''))])"

definition pub_package_lines :: "pub_package \<Rightarrow> written_line list" where
  "pub_package_lines p = (2, package_name p, None) # (4, Bare ''dependency'', Some (dependency_kind p)) #
     pub_origin_lines (package_name p) (package_origin p) @ [(4, Bare ''version'', Some (package_version p))]"

text \<open>The file: comments, the packages, and the SDK constraints, if there are any.\<close>

definition sdk_lines :: "(yaml_scalar \<times> yaml_scalar) list \<Rightarrow> written_line list" where
  "sdk_lines sdks = (if sdks = [] then [] else (0, Bare ''sdks'', None) # map (\<lambda>(k, v). (2, k, Some v)) sdks)"

definition pubspec_lines :: "pub_package list \<Rightarrow> (yaml_scalar \<times> yaml_scalar) list \<Rightarrow> written_line list" where
  "pubspec_lines ps sdks = (0, Bare ''packages'', None) # concat (map pub_package_lines ps) @ sdk_lines sdks"

definition pubspec_text :: "string list \<Rightarrow> pub_package list \<Rightarrow> (yaml_scalar \<times> yaml_scalar) list \<Rightarrow> string" where
  "pubspec_text comments ps sdks =
     text_lines (map (\<lambda>c. CHR ''#'' # c) comments @ map render_yaml_line (pubspec_lines ps sdks))"

text \<open>What such a file may hold, and the component each package stands for.\<close>

definition good_key :: "yaml_scalar \<Rightarrow> bool" where
  "good_key k \<longleftrightarrow> scalar_text k \<noteq> [] \<and> good_scalar k"

definition good_optional :: "yaml_scalar option \<Rightarrow> bool" where
  "good_optional v = (case v of None \<Rightarrow> True | Some v \<Rightarrow> good_scalar v)"

definition pub_package_ok :: "pub_package \<Rightarrow> bool" where
  "pub_package_ok p \<longleftrightarrow> good_key (package_name p) \<and> good_scalar (dependency_kind p) \<and> good_key (package_version p) \<and>
     (case package_origin p of
        Hosted_At sha url \<Rightarrow> good_optional sha \<and> good_scalar url
      | Git_At p ref resolved url \<Rightarrow> good_scalar p \<and> good_optional ref \<and> good_scalar resolved \<and> good_scalar url
      | From_Sdk sdk \<Rightarrow> good_scalar sdk
      | Local_Path p relative \<Rightarrow> good_scalar p)"

definition pub_package_components :: "string \<Rightarrow> pub_package \<Rightarrow> component list" where
  "pub_package_components label p =
     (let n = scalar_text (package_name p); v = scalar_text (package_version p);
          c = (\<lambda>detail. [new_component\<lparr>comp_name := n, comp_version := v, comp_purl := build_pub_purl n v,
           comp_evidence := [Evidence Manifest (label @ detail) High]\<rparr>]) in
     case package_origin p of
       Hosted_At sha url \<Rightarrow> c '' (source hosted)''
     | Git_At path ref resolved url \<Rightarrow> c ('' (source git'' @ (if scalar_text url = [] then [] else '', url '' @ scalar_text url) @
         (if scalar_text resolved = [] then [] else '', resolved-ref '' @ scalar_text resolved) @ '')'')
     | From_Sdk sdk \<Rightarrow> c '' (source sdk)''
     | Local_Path p relative \<Rightarrow> [])"

definition pub_entry_of :: "pub_package \<Rightarrow> pub_entry" where
  "pub_entry_of p =
     (let e = no_entry\<lparr>pe_name := scalar_text (package_name p), pe_version := scalar_text (package_version p), pe_active := True\<rparr> in
     case package_origin p of
        Hosted_At sha url \<Rightarrow> e\<lparr>pe_source := PubHosted, description_url := scalar_text url\<rparr>
      | Git_At path ref resolved url \<Rightarrow> e\<lparr>pe_source := PubGit, description_url := scalar_text url,
          description_resolved_ref := scalar_text resolved\<rparr>
      | From_Sdk sdk \<Rightarrow> e\<lparr>pe_source := PubSdk\<rparr>
      | Local_Path p relative \<Rightarrow> e\<lparr>pe_source := PubPath\<rparr>)"

lemmas pub_constants = kPackagesKeyIndentation_def kPackagesKey_def kEntryKeyIndentation_def kEntryFieldIndentation_def
  kDescriptionFieldIndentation_def kDescriptionKey_def kSourceKey_def kVersionKey_def kDescriptionUrlField_def kDescriptionResolvedRefField_def

lemma pub_node_inside:
  assumes "2 < indentation node"
  shows "pub_node label limit node st = (True, pub_field node st)"
  using assms by (simp add: pub_node_def pub_constants)

lemma pub_nodes_inside:
  "list_all (\<lambda>n. 2 < indentation n) ns \<Longrightarrow> pub_nodes label limit (ns @ rest) st = pub_nodes label limit rest (fold pub_field ns st)"
  by (induction ns arbitrary: st) (simp_all add: pub_node_inside)

lemma optional_fields:
  "k \<noteq> ''url'' \<Longrightarrow> k \<noteq> ''resolved-ref'' \<Longrightarrow> inside_packages st \<Longrightarrow>
   fold pub_field (map rendered_node (optional_line k v)) st = st"
  by (cases v) (simp_all add: optional_line_def rendered_node_def empty_node_def pub_field_def Let_def pub_constants)

lemma package_fields:
  assumes "inside_packages st" "pub_package_ok p"
  shows "fold pub_field (map rendered_node (pub_package_lines p)) st = st\<lparr>pending := pub_entry_of p\<rparr>"
proof -
  from assms(2) have "scalar_text (package_name p) \<noteq> []" by (simp add: pub_package_ok_def good_key_def)
  with assms(1) show ?thesis
    by (cases "package_origin p") (simp_all add: pub_package_lines_def pub_origin_lines_def pub_entry_of_def rendered_node_def pub_field_def
      optional_fields empty_node_def pub_constants parse_pub_source_def no_entry_def)
qed

lemma close_entry_of:
  assumes "pub_package_ok p" "length (pub_package_components label p) \<le> lk_budget (pub_run st)"
  shows "close_pending_entry label limit (st\<lparr>pending := pub_entry_of p\<rparr>) =
    st\<lparr>pending := no_entry, pub_run := reported (pub_package_components label p) (pub_run st)\<rparr>"
proof -
  from assms(1) have nv: "scalar_text (package_name p) \<noteq> []" "scalar_text (package_version p) \<noteq> []"
    by (simp_all add: pub_package_ok_def good_key_def)
  show ?thesis
  proof (cases "package_origin p")
    case (Local_Path x r)
    then show ?thesis by (simp add: close_pending_entry_def pub_entry_of_def pub_package_components_def no_entry_def Let_def)
  qed (use assms nv in \<open>simp_all add: close_pending_entry_def pub_entry_of_def pub_package_components_def no_entry_def Let_def
      append_pub_component_eq pub_component_def evidence_detail_for_def\<close>)
qed

text \<open>The state in which the open entry has been closed.\<close>

definition settled :: "string \<Rightarrow> nat \<Rightarrow> lock_run \<Rightarrow> pub_state \<Rightarrow> bool" where
  "settled label limit run st \<longleftrightarrow> inside_packages st \<and> close_pending_entry label limit st = (start_pub run)\<lparr>inside_packages := True\<rparr>"

lemma package_read:
  assumes st: "settled label limit run st" and p: "pub_package_ok p" and b: "length (pub_package_components label p) \<le> lk_budget run"
    and c: "complete (lk_result run)"
  obtains st' where "settled label limit (reported (pub_package_components label p) run) st'"
    "pub_nodes label limit (map rendered_node (pub_package_lines p) @ rest) st = pub_nodes label limit rest st'"
proof -
  let ?st = "(start_pub run)\<lparr>inside_packages := True\<rparr>"
  let ?ns = "map rendered_node (pub_package_lines p)"
  have ns: "?ns = hd ?ns # tl ?ns" "indentation (hd ?ns) = 2" "list_all (\<lambda>n. 2 < indentation n) (tl ?ns)"
    by (cases "package_origin p"; simp add: pub_package_lines_def pub_origin_lines_def optional_line_def rendered_node_def empty_node_def
      split: option.split)+
  have "pub_node label limit (hd ?ns) st = (True, pub_field (hd ?ns) ?st)"
    using st c ns(2) by (simp add: pub_node_def settled_def pub_constants start_pub_def)
  then have "pub_nodes label limit (?ns @ rest) st = pub_nodes label limit (tl ?ns @ rest) (pub_field (hd ?ns) ?st)"
    by (subst ns(1)) simp
  also have "\<dots> = pub_nodes label limit rest (fold pub_field (tl ?ns) (pub_field (hd ?ns) ?st))" by (rule pub_nodes_inside [OF ns(3)])
  also have "fold pub_field (tl ?ns) (pub_field (hd ?ns) ?st) = fold pub_field ?ns ?st" by (subst (3) ns(1)) simp
  also have "\<dots> = ?st\<lparr>pending := pub_entry_of p\<rparr>" by (rule package_fields) (use p in simp_all)
  finally have read: "pub_nodes label limit (?ns @ rest) st = pub_nodes label limit rest (?st\<lparr>pending := pub_entry_of p\<rparr>)" .
  have "settled label limit (reported (pub_package_components label p) run) (?st\<lparr>pending := pub_entry_of p\<rparr>)"
    using close_entry_of [OF p, of label ?st limit] b by (simp add: settled_def start_pub_def)
  with read that show thesis by blast
qed

lemma packages_read:
  assumes "settled label limit run st" "list_all pub_package_ok ps" "length (concat (map (pub_package_components label) ps)) \<le> lk_budget run"
    "complete (lk_result run)"
  shows "\<exists>st'. settled label limit (reported (concat (map (pub_package_components label) ps)) run) st' \<and>
    pub_nodes label limit (map rendered_node (concat (map pub_package_lines ps)) @ rest) st = pub_nodes label limit rest st'"
  using assms
proof (induction ps arbitrary: st run)
  case (Cons p ps)
  let ?cs = "pub_package_components label p"
  obtain st1 where st1: "settled label limit (reported ?cs run) st1"
    "pub_nodes label limit (map rendered_node (pub_package_lines p) @ map rendered_node (concat (map pub_package_lines ps)) @ rest) st =
     pub_nodes label limit (map rendered_node (concat (map pub_package_lines ps)) @ rest) st1"
  proof (rule package_read [of label limit run st p "map rendered_node (concat (map pub_package_lines ps)) @ rest"])
  qed (use Cons.prems in auto)
  from Cons.IH [OF st1(1)] Cons.prems st1(2) show ?case by (fastforce simp: diff_diff_eq)
qed auto

lemma pub_lines_good: "pub_package_ok p \<Longrightarrow> list_all plain_yaml_entry (pub_package_lines p)"
proof -
  have lit: "good_scalar (Bare ''description'')" "good_scalar (Bare ''name'')" "good_scalar (Bare ''url'')" "good_scalar (Bare ''source'')"
    "good_scalar (Bare ''hosted'')" "good_scalar (Bare ''path'')" "good_scalar (Bare ''resolved-ref'')" "good_scalar (Bare ''git'')"
    "good_scalar (Bare ''sdk'')" "good_scalar (Bare ''relative'')" "good_scalar (Bare ''true'')" "good_scalar (Bare ''false'')"
    "good_scalar (Bare ''dependency'')" "good_scalar (Bare ''version'')" "good_scalar (Bare ''sha256'')" "good_scalar (Bare ''ref'')"
    by code_simp+
  then have optional: "list_all plain_yaml_entry (optional_line ''sha256'' v) \<longleftrightarrow> good_optional v"
    "list_all plain_yaml_entry (optional_line ''ref'' v) \<longleftrightarrow> good_optional v" for v
    by (cases v; simp only: optional_line_def good_optional_def plain_yaml_entry_def option.case prod.case list.pred_inject scalar_text.simps
      list.distinct simp_thms)+
  have bool: "good_scalar (Bare (if b then ''true'' else ''false''))" for b using lit by (cases b) (simp_all only: if_True if_False)
  assume ok: "pub_package_ok p"
  show ?thesis
    using ok lit optional bool
    by (cases "package_origin p") (simp_all only: pub_package_lines_def pub_origin_lines_def pub_package_ok_def good_key_def plain_yaml_entry_def
      prod.case pub_origin.case list.pred_inject list_all_append append.simps option.case scalar_text.simps simp_thms list.distinct)
qed

lemma sdk_lines_good: "list_all (\<lambda>(k, v). good_key k \<and> good_scalar v) sdks \<Longrightarrow> list_all plain_yaml_entry (sdk_lines sdks)"
proof -
  have "plain_yaml_entry (0, Bare ''sdks'', None)" by code_simp
  moreover assume "list_all (\<lambda>(k, v). good_key k \<and> good_scalar v) sdks"
  then have "list_all plain_yaml_entry (map (\<lambda>(k, v). (2, k, Some v)) sdks)"
    by (auto simp: list_all_iff plain_yaml_entry_def good_key_def)
  ultimately show ?thesis by (simp only: sdk_lines_def list.pred_inject simp_thms split: if_split)
qed

text \<open>A comment line is read without a node and without being counted.\<close>

lemma read_comment_line: "block_scalar_indentation r = None \<Longrightarrow> read_line (CHR ''#'' # c) r = (None, r)"
proof -
  have "trimmed_view (CHR ''#'' # c) \<noteq> []" by (simp add: trimmed_view_eq_Nil kAsciiWhitespace_def)
  moreover have "leading_space_count (CHR ''#'' # c) = 0" using leading_space_count_replicate [of "CHR ''#'' # c" 0] by simp
  moreover have "trimmed_view [] = []" by (simp add: trimmed_view_eq_Nil)
  moreover assume "block_scalar_indentation r = None"
  ultimately show ?thesis
    by (simp add: read_line_def Let_def read_content_def without_comment_def kQuoteCharacters_def)
qed

lemma scan_pubspec:
  "list_all plain_yaml_entry es \<Longrightarrow> block_scalar_indentation r = None \<Longrightarrow>
   scan_lines (map (\<lambda>c. CHR ''#'' # c) comments @ map render_yaml_line es @ [[]]) r = (map rendered_node es, r)"
proof (induction comments)
  case Nil
  then show ?case
    by (induction es) (simp_all add: read_rendered_line, simp add: read_line_def)
qed (simp add: read_comment_line)

lemma read_pubspec:
  assumes "list_all pub_package_ok ps" "list_all (\<lambda>(k, v). good_key k \<and> good_scalar v) sdks"
    "list_all (\<lambda>c. CHR 0x0A \<notin> set c) comments"
  shows "read_all (new_yaml_reader (pubspec_text comments ps sdks) False) =
    (map rendered_node (pubspec_lines ps sdks),
     at_pos (Suc (length (pubspec_text comments ps sdks))) (new_yaml_reader (pubspec_text comments ps sdks) False))"
proof -
  have lit: "plain_yaml_entry (0, Bare ''packages'', None)" by code_simp
  have "list_all plain_yaml_entry (concat (map pub_package_lines ps))" using assms(1) by (induction ps) (simp_all add: pub_lines_good)
  with lit sdk_lines_good [OF assms(2)] have good: "list_all plain_yaml_entry (pubspec_lines ps sdks)"
    unfolding pubspec_lines_def by (simp only: list.pred_inject list_all_append simp_thms)
  let ?ls = "map (\<lambda>c. CHR ''#'' # c) comments @ map render_yaml_line (pubspec_lines ps sdks)"
  have "list_all (\<lambda>l. CHR 0x0A \<notin> set l) ?ls"
    using good assms(3) by (auto simp: list_all_iff rendered_no_newline)
  then have split: "split_on CHR 0x0A (pubspec_text comments ps sdks) = ?ls @ [[]]"
    unfolding pubspec_text_def by (rule split_text_lines)
  show ?thesis
    by (subst read_all_lines [where ls = "?ls @ [[]]"])
      (simp_all add: split new_yaml_reader_def scan_pubspec [OF good] del: map_append)
qed

lemma sdks_read:
  assumes "settled label limit run st" "complete (lk_result run)"
  shows "\<exists>st'. pub_nodes label limit (map rendered_node (sdk_lines sdks)) st = (True, st') \<and>
    close_pending_entry label limit st' = start_pub run\<lparr>inside_packages := inside_packages st'\<rparr>"
proof (cases "sdks = []")
  case True
  with assms show ?thesis by (auto simp: sdk_lines_def settled_def start_pub_def)
next
  case False
  have closed: "close_pending_entry label limit (start_pub run) = start_pub run"
    by (simp add: close_pending_entry_def start_pub_def no_entry_def)
  have first: "pub_node label limit (rendered_node (0, Bare ''sdks'', None)) st = (True, start_pub run)"
    using assms by (simp add: settled_def pub_node_def rendered_node_def empty_node_def pub_field_def pub_constants start_pub_def)
  have "pub_node label limit (rendered_node (2, k, Some v)) (start_pub run) = (True, start_pub run)" for k v
    using closed assms(2) by (simp add: pub_node_def rendered_node_def empty_node_def pub_constants)
      (simp add: start_pub_def pub_field_def pub_constants)
  then have "pub_nodes label limit (map rendered_node (map (\<lambda>(k, v). (2, k, Some v)) sdks)) (start_pub run) = (True, start_pub run)"
    by (induction sdks) auto
  then have "pub_nodes label limit (map rendered_node (sdk_lines sdks)) st = (True, start_pub run)"
    using False first by (simp add: sdk_lines_def)
  then show ?thesis using closed by (auto simp: start_pub_def)
qed

text \<open>The lock file of \<open>tests/unit/test_pub.cpp\<close> is one of these texts.\<close>

definition test_packages :: "pub_package list" where
  "test_packages =
    [\<lparr>package_name = Bare ''analyzer'', dependency_kind = Quoted ''direct main'',
       package_origin = Hosted_At (Some (Quoted ''abc'')) (Quoted ''https://pub.dev''), package_version = Bare ''4.2.0''\<rparr>,
     \<lparr>package_name = Bare ''local_pkg'', dependency_kind = Bare ''transitive'',
       package_origin = Local_Path (Quoted ''../local_pkg'') True, package_version = Bare ''1.0.0''\<rparr>,
     \<lparr>package_name = Bare ''git_pkg'', dependency_kind = Bare ''transitive'',
       package_origin = Git_At (Quoted ''.'') (Some (Bare ''main'')) (Bare ''abcdef1234567890'') (Quoted ''https://github.com/example/pkg.git''),
       package_version = Bare ''1.0.0''\<rparr>,
     \<lparr>package_name = Bare ''flutter'', dependency_kind = Quoted ''direct main'', package_origin = From_Sdk (Bare ''flutter''),
       package_version = Bare ''3.24.0''\<rparr>]"

lemma test_file:
  "pubspec_text [] test_packages [] = text_lines
    [''packages:'',
     ''  analyzer:'',
     ''    dependency: \"direct main\"'',
     ''    description:'',
     ''      name: analyzer'',
     ''      sha256: \"abc\"'',
     ''      url: \"https://pub.dev\"'',
     ''    source: hosted'',
     ''    version: 4.2.0'',
     ''  local_pkg:'',
     ''    dependency: transitive'',
     ''    description:'',
     ''      path: \"../local_pkg\"'',
     ''      relative: true'',
     ''    source: path'',
     ''    version: 1.0.0'',
     ''  git_pkg:'',
     ''    dependency: transitive'',
     ''    description:'',
     ''      path: \".\"'',
     ''      ref: main'',
     ''      resolved-ref: abcdef1234567890'',
     ''      url: \"https://github.com/example/pkg.git\"'',
     ''    source: git'',
     ''    version: 1.0.0'',
     ''  flutter:'',
     ''    dependency: \"direct main\"'',
     ''    description: flutter'',
     ''    source: sdk'',
     ''    version: 3.24.0'']"
  by code_simp

text \<open>C22: A \<open>pubspec.lock\<close> as \<open>dart pub\<close> writes it is read back: comment lines first, then packages of every kind of
  dependency, hosted ones with or without a hash, git ones with or without the name of the revision, SDK and local
  ones, then the SDK constraints, with bare and quoted scalars. Each hosted, git or SDK package gives one component with
  its version, its package URL and where it came from, local packages give none; they come in order, each is paid
  for from the budget, and there is no warning, whatever the quoted texts hold.\<close>

theorem pubspec_lock_roundtrip:
  assumes "list_all pub_package_ok ps" "list_all (\<lambda>(k, v). good_key k \<and> good_scalar v) sdks"
    "list_all (\<lambda>c. CHR 0x0A \<notin> set c) comments" "complete (lk_result run)"
    "length (concat (map (pub_package_components label) ps)) \<le> lk_budget run"
  shows "parse_pubspec_lock (pubspec_text comments ps sdks) label limit run =
    run\<lparr>lk_components := lk_components run @ concat (map (pub_package_components label) ps),
        lk_budget := lk_budget run - length (concat (map (pub_package_components label) ps))\<rparr>"
proof -
  let ?cs = "concat (map (pub_package_components label) ps)" and ?r = "new_yaml_reader (pubspec_text comments ps sdks) False"
  define run' where "run' = reported ?cs run"
  have complete: "complete (lk_result run')" by (simp add: run'_def assms(4))
  define st1 where "st1 = (start_pub run)\<lparr>inside_packages := True\<rparr>"
  have "settled label limit run st1" by (simp add: settled_def st1_def close_pending_entry_def start_pub_def no_entry_def)
  from packages_read [OF this assms(1) assms(5) assms(4)] obtain st2 where st2: "settled label limit run' st2"
    and read: "pub_nodes label limit (map rendered_node (concat (map pub_package_lines ps)) @
      map rendered_node (sdk_lines sdks)) st1 = pub_nodes label limit (map rendered_node (sdk_lines sdks)) st2"
    unfolding run'_def by blast
  have first: "pub_node label limit (rendered_node (0, Bare ''packages'', None)) (start_pub run) = (True, st1)"
    using assms(4) by (simp add: pub_node_def rendered_node_def empty_node_def pub_field_def pub_constants start_pub_def
      close_pending_entry_def no_entry_def st1_def)
  from sdks_read [OF st2 complete] obtain st3 where
    last: "pub_nodes label limit (map rendered_node (sdk_lines sdks)) st2 = (True, st3)"
    "close_pending_entry label limit st3 = (start_pub run')\<lparr>inside_packages := inside_packages st3\<rparr>" by blast
  have "pub_nodes label limit (map rendered_node (pubspec_lines ps sdks)) (start_pub run) = (True, st3)"
    using first read last by (simp add: pubspec_lines_def)
  then have "pub_loop label limit ?r (start_pub run) = (at_pos (Suc (length (pubspec_text comments ps sdks))) ?r, st3)"
    using pub_loop_nodes [of label limit ?r "start_pub run" st3] by (simp add: read_pubspec [OF assms(1,2,3)])
  then have "parse_pubspec_lock (pubspec_text comments ps sdks) label limit run = run'"
    by (simp add: parse_pubspec_lock_def last(2)) (simp add: start_pub_def warn_skip_counts_def new_yaml_reader_def)
  then show ?thesis by (simp add: run'_def)
qed

lemma pubspec_lock_roundtrip_witness:
  "map comp_purl (lk_components (parse_pubspec_lock (pubspec_text ['' Generated by pub''] test_packages
      [(Bare ''dart'', Quoted ''>=3.0.0 <4.0.0'')]) ''pubspec.lock'' 9
      \<lparr>lk_components = [], lk_budget = 9, lk_result = new_result []\<rparr>)) =
    [''pkg:pub/analyzer@4.2.0'', ''pkg:pub/git_pkg@1.0.0'', ''pkg:pub/flutter@3.24.0'']"
proof -
  have ok: "list_all pub_package_ok test_packages" by code_simp
  have sdks: "list_all (\<lambda>(k, v). good_key k \<and> good_scalar v) [(Bare ''dart'', Quoted ''>=3.0.0 <4.0.0'')]" by code_simp
  have comments: "list_all (\<lambda>c. CHR 0x0A \<notin> set c) ['' Generated by pub'']" by simp
  let ?run = "\<lparr>lk_components = [], lk_budget = 9, lk_result = new_result []\<rparr>"
  have run: "complete (lk_result ?run)" "lk_components ?run = []" by (simp_all add: new_result_def)
  have found: "map comp_purl (concat (map (pub_package_components ''pubspec.lock'') test_packages)) =
      [''pkg:pub/analyzer@4.2.0'', ''pkg:pub/git_pkg@1.0.0'', ''pkg:pub/flutter@3.24.0'']" by code_simp
  then have "length (concat (map (pub_package_components ''pubspec.lock'') test_packages)) = 3"
    by (metis length_map length_Cons list.size(3) One_nat_def numeral_3_eq_3)
  then have "length (concat (map (pub_package_components ''pubspec.lock'') test_packages)) \<le> lk_budget ?run" by simp
  from pubspec_lock_roundtrip [OF ok sdks comments run(1) this] found show ?thesis by (simp only: run) simp
qed

end
