(* ===== verification/Spec2Isabelle.thy ===== *)
theory Spec2Isabelle
  imports File_Io Uuid Warnings Purl Model Git_Url Build_Variables Byte_Cursor Archive_Read Elf_Read
    Git_Config Xml_Scan Yaml_Subset Cmake_Scanner Submodules Binary_Map Trace_Read Go_Sum Gemfile_Lock Npm_Lock Cpe Feeds Pub_Lock
begin

text \<open>
  bomwerk reads a source tree, its manifests, a recorded build and the binaries it left behind, and writes a bill of
  materials. This development models the core of it: the text, encoding and hashing routines, the component model
  and its merge, the readers of hostile input (manifests, lock files, configuration files, traces, binaries), and the passes
  that turn a tree, a build and its binaries into components and evidence. A component of the program is a theory; a
  definition has the name and the shape of the function it models, in the order of the source file.

  \<^bold>\<open>The library\<close> (\<open>Prelude\<close>, \<open>Codec\<close>, \<open>Stream_Hash\<close>, \<open>Ordered_Map\<close>, \<open>Paths\<close>, \<open>Path_Sets\<close>, \<open>File_System\<close>, \<open>Json\<close>). \<open>Prelude\<close> has the
  operations of \<open>std::string\<close> and \<open>std::vector\<close>: searches (\<open>find_pos\<close>, \<open>find_sub\<close>), \<open>substr\<close>, splitting and joining,
  bytes and decimal texts. \<open>Codec\<close> states what an encoder and a decoder promise, \<open>Stream_Hash\<close> what a streaming hash
  promises, \<open>Ordered_Map\<close> what \<open>std::map\<close> and sort-then-unique promise; they are locales, interpreted on the
  percent, Base64 and hex routines, on SHA-256 and on the association lists the models use. \<open>Paths\<close> is
  \<open>std::filesystem::path\<close> on POSIX: elements, parents, \<open>lexically_normal\<close>, \<open>lexically_relative\<close>, and the guards
  of \<open>core/git_dir.cpp\<close> and \<open>core/file_index.cpp\<close> against paths that leave a directory; \<open>Path_Sets\<close> has sets and maps of
  paths and the search for the enclosing component directory. \<open>File_System\<close> is what the operating system answers, \<open>Json\<close> the
  values a JSON library returns and the nesting guard in front of it (\<open>core/json_utils.cpp\<close>).

  \<^bold>\<open>Core\<close> (\<open>core/\<close>). \<open>Text\<close>, \<open>Percent\<close>, \<open>Base64\<close>, \<open>Sha256\<close>, \<open>Uuid\<close>, \<open>File_Io\<close> model the files of these names; \<open>Warnings\<close>
  the warning codes, \<open>Result\<close> and the exit policy; \<open>Purl\<close> and \<open>Model\<close> package URLs, components and \<open>merge_all\<close>;
  \<open>Git_Url\<close>, \<open>Git_Config\<close>, \<open>Git_Dir\<close> remotes, git configuration and the checked-out commit; \<open>Build_Variables\<close> the
  variable tables; \<open>Xml_Scan\<close> and \<open>Yaml_Subset\<close> the two hand-written readers; \<open>Name_Lists\<close> and \<open>Manifest_Names\<close> the name
  lists, the exclusions and the report of manifests nothing parses; \<open>File_Index\<close> the walk over a tree of directory entries,
  its scope rules and the bounded reading of the manifests it found. Machine integers are words where they can wrap
  (hashes, offsets of a file, decimal fields) and natural numbers where a cap keeps them small.

  \<^bold>\<open>Binaries\<close> (\<open>binscan/\<close>). \<open>Byte_Cursor\<close> models bounded access to an image on 64-bit words, \<open>Archive_Read\<close> the reader of
  \<open>ar\<close> archives, \<open>Elf_Read\<close> the reader of ELF images, down to the error paths of every header, and \<open>Binary_Map\<close> the pass that
  attributes the libraries and objects of a build to component directories.

  \<^bold>\<open>Observed builds\<close> (\<open>observe/\<close>, \<open>cli/observe_trim.cpp\<close>). \<open>Trace_Line\<close> is the line a compiler shim writes, \<open>Trace_Read\<close> the reader
  of the trace, the pass that checks and sorts it, and its application to a scan; \<open>Compile_Map\<close> and \<open>Link_Map\<close> read the
  recorded compile and link commands, attribute their sources, include directories and inputs to component
  directories, and mark the components as used or unused.

  \<^bold>\<open>Manifests\<close> (\<open>parsers/\<close>). \<open>Cmake_Scanner\<close> models the lexer of CMake files and \<open>Submodules\<close> the producer of submodule
  components together with the subtrees the walk leaves out. \<open>Lockfiles\<close> has the loop the lock file producers share and the
  locale \<open>lockfile_parser\<close> of what it relies on; \<open>Go_Sum\<close>, \<open>Gemfile_Lock\<close> and \<open>Npm_Lock\<close> are three producers and interpret it; \<open>Pub_Lock\<close>
  is a fourth, on the YAML reader and the bounded manifest walk.

  \<^bold>\<open>Vulnerability feeds\<close> (\<open>vuln/\<close>, \<open>core/match_coverage.cpp\<close>). \<open>Cpe\<close> classifies package URLs by the feed that can match them and
  synthesizes CPE names; \<open>Feeds\<close> has the difference of two snapshots, the join of two outcomes and the list of addresses.

  \<^bold>\<open>State and errors.\<close> A mutable object is a record and its operations return it updated (\<open>cmake_lexer\<close>,
  \<open>yaml_reader\<close>, \<open>git_config_state\<close>, \<open>sha256\<close>, \<open>lock_run\<close>). A loop is a recursion with its measure proved, and no fuel is used
  except where the source itself counts (expansion budgets, symbol and member caps); those bounds are the constants of
  the source. One loop need not end: the walk up the directories in \<open>Manifest_Names.has_covered_ancestor\<close>, a
  partial function whose value \<^const>\<open>None\<close> means that it does not return; \<open>cover_walk_returns\<close> says when it does. A
  \<open>core::Result\<close> carries its value, its warnings and whether it is complete; an early return is a branch;
  \<open>std::optional\<close> is an option; a function an exception can leave returns an option (\<open>Npm_Lock\<close>). Files that are
  written are a map from paths to contents, with the answers of the operating system as an argument (\<open>Trace_Read\<close>).

  \<^bold>\<open>What the lemmas show.\<close> The readers of hostile input are total and stay within their caps on every file
  (\<open>read_archive_wellformed\<close>, \<open>read_elf_wellformed\<close>, \<open>cmake_scan_bounded\<close>, \<open>git_config_bounded\<close>,
  \<open>yaml_lines_accounted\<close>, \<open>manifest_walk_exact\<close>, \<open>lockfile_producers_bounded\<close>) and read back what a well-formed writer writes
  (the round trips, from \<open>cmake_roundtrip\<close> to \<open>gemfile_lock_roundtrip\<close>); arithmetic on offsets never uses a wrapped value
  (\<open>has_range_exact\<close>, \<open>header_slots_exact\<close>); optimised or streaming code equals a declarative reference
  (\<open>sha256_streaming\<close>, \<open>merge_all_groups\<close>, \<open>walk_dynamic_array_exact\<close>, \<open>file_index_exact\<close>, \<open>enclosing_searches_agree\<close>); declared
  paths cannot leave the scanned tree, from the lexical guard to the reported component
  (\<open>contained_path_stays_within\<close>, \<open>read_head_commit_reads_inside\<close>, \<open>submodules_sound\<close>); and evidence is neither invented nor
  lost: what a build or a binary is said to prove is exactly what its records and files say, in whatever order they
  were written (\<open>recorded_build_read_back\<close>, \<open>sorting_keeps_evidence\<close>, \<open>observed_usage_exact\<close>,
  \<open>observed_order_independent\<close>, \<open>binary_evidence_sound\<close>, \<open>binary_counters_reconcile\<close>).

  \<^bold>\<open>Not modelled.\<close> Code whose content is a third-party library: the JSON parser (a parameter of \<open>Trace_Read\<close> and
  \<open>Npm_Lock\<close>), TOML, HTTP, SQLite, xxHash (a parameter of \<open>File_Io\<close>), argument parsing and logging. Processes, file locks and
  symbolic links, where what the operating system does is the whole of it. The output writers (JSON and HTML), the
  floating-point CVSS scores, the heuristics on vendored code and the clients of vulnerability feeds. The file
  system is a parameter (\<open>File_System\<close>), assumed not to change while one operation runs. \<open>std::sort\<close> with an order
  that does not separate all elements is the stable sort, one of the outcomes the code allows.
\<close>

section \<open>Across the producers\<close>

text \<open>C37: Whatever the lock files hold and however many there are, each of the four producers stays within the package limit,
  reports only components of its own lock files, and gives up completeness only with the limit used up; those for Go,
  Ruby and Dart return on every input.\<close>

theorem lockfile_producers_bounded:
  "(case go_parse fsys index root options of None \<Rightarrow> False | Some r \<Rightarrow> limits_respected kGoSumName index options r) \<and>
   (case gem_parse fsys index root options of None \<Rightarrow> False | Some r \<Rightarrow> limits_respected kGemfileLockName index options r) \<and>
   (case npm_parse parse fsys index root options of None \<Rightarrow> True | Some r \<Rightarrow> limits_respected kPackageLockName index options r) \<and>
   limits_respected kPubspecLockName index options (pub_parse fsys index root options)"
proof (intro conjI)
  have "parse_go_sum bs label limit run \<noteq> None" for bs label limit run by (simp add: parse_go_sum_def split_beta)
  then obtain r where r: "go_parse fsys index root options = Some r"
    using parse_lock_index_returns [of go_driver fsys index root options] by (auto simp: go_driver_def go_parse_def)
  with go.index_limits show "case go_parse fsys index root options of None \<Rightarrow> False | Some r \<Rightarrow> limits_respected kGoSumName index options r"
    by (fastforce simp: go_parse_def go_driver_def)
  have "parse_gemfile_lock bs label limit run \<noteq> None" for bs label limit run by (simp add: parse_gemfile_lock_def split_beta)
  then obtain r where r: "gem_parse fsys index root options = Some r"
    using parse_lock_index_returns [of gem_driver fsys index root options] by (auto simp: gem_driver_def gem_parse_def)
  with gem.index_limits show "case gem_parse fsys index root options of None \<Rightarrow> False | Some r \<Rightarrow> limits_respected kGemfileLockName index options r"
    by (fastforce simp: gem_parse_def gem_driver_def)
  show "case npm_parse parse fsys index root options of None \<Rightarrow> True | Some r \<Rightarrow> limits_respected kPackageLockName index options r"
    using npm.index_limits by (fastforce simp: npm_parse_def npm_driver_def split: option.split)
  show "limits_respected kPubspecLockName index options (pub_parse fsys index root options)" by (rule pub_limits)
qed

end
